(* ===== verification/Base.thy ===== *)
theory Base
  imports Main "HOL-Library.Word"
begin

text \<open>
  Prelude of the development: names for the C integer types, the outcome of a routine that
  may stop in \<open>RT_ASSERT\<close> or touch memory it does not own, the calls a thread makes to the
  RT-Thread kernel and to device drivers (kept as values, so that a handler returns the list
  of the calls it makes), and the interfaces of bounded queues as locales.
\<close>

section \<open>Integers and bytes\<close>

type_synonym u8 = "8 word"
type_synonym u16 = "16 word"
type_synonym u32 = "32 word"

named_theorems upd_simps "field updates of the components' state records"
named_theorems step_defs "definitions unfolded when one step of a component is computed"

text \<open>The bytes of a C string literal, without its terminating zero.\<close>

definition bytes :: "string \<Rightarrow> u8 list" where
  "bytes s = map of_char s"

lemma length_bytes [simp]: "length (bytes s) = length s"
  by (simp add: bytes_def)

lemma bytes_simps [simp]:
  "bytes [] = []"
  "bytes (c # cs) = of_char c # bytes cs"
  by (simp_all add: bytes_def)

text \<open>The bytes of a zero-terminated string in memory.\<close>

definition c_text :: "u8 list \<Rightarrow> u8 list" where
  "c_text m = takeWhile (\<lambda>b. b \<noteq> 0) m"

lemma c_text_line [simp]: "0 \<notin> set l \<Longrightarrow> c_text (l @ 0 # z) = l"
  unfolding c_text_def by (subst takeWhile_append2) auto

lemma c_text_id: "0 \<notin> set l \<Longrightarrow> c_text l = l"
  unfolding c_text_def by (auto simp: takeWhile_eq_all_conv)

lemma unat_Suc_lt:
  fixes x :: "'a::len word"
  shows "unat x + 1 < 2 ^ LENGTH('a) \<Longrightarrow> unat (x + 1) = Suc (unat x)"
  by (simp add: unat_word_ariths)

lemma unat_of_nat_lt:
  "n < 2 ^ LENGTH('a) \<Longrightarrow> unat (of_nat n :: 'a::len word) = n"
  by (simp add: unat_of_nat take_bit_nat_eq_self)

lemma unat_u8_lt [simp]: "unat (x :: u8) < 256"
  using unsigned_less [of x] by simp

lemma unat_u16_lt [simp]: "unat (x :: u16) < 65536"
  using unsigned_less [of x] by simp

text \<open>Positions in a ring of \<open>m\<close> slots.\<close>

lemma wrap_mod: "i < m \<Longrightarrow> k \<le> m \<Longrightarrow> (i + k) mod m = (if i + k < m then i + k else i + k - m)" for m :: nat
  by (cases "i + k < m") (simp_all add: le_mod_geq)

lemma slot_neq: "i < m \<Longrightarrow> k < k' \<Longrightarrow> k' < m \<Longrightarrow> (i + k) mod m \<noteq> (i + k') mod m" for m :: nat
  by (simp add: wrap_mod) arith

lemma slot_step: "((i + 1) mod m + k) mod m = (i + Suc k) mod m" for m :: nat
  by (simp add: mod_add_left_eq)

section \<open>Outcomes\<close>

text \<open>
  \<open>Halt\<close> is the endless loop of a failed \<open>RT_ASSERT\<close> (\<open>RTT/include/rtdebug.h\<close>);
  in the shell's parser it also stands for a run that has not ended within its depth of recursion.
  \<open>Fault\<close> is an access through a null pointer or outside an array, or another operation whose
  result C leaves undefined.
\<close>

datatype 'a res = Ok 'a | Halt | Fault

definition rbind :: "'a res \<Rightarrow> ('a \<Rightarrow> 'b res) \<Rightarrow> 'b res" where
  "rbind m f = (case m of Ok x \<Rightarrow> f x | Halt \<Rightarrow> Halt | Fault \<Rightarrow> Fault)"

lemma rbind_simps [simp]:
  "rbind (Ok x) f = f x" "rbind Halt f = Halt" "rbind Fault f = Fault"
  by (simp_all add: rbind_def)

lemma rbind_Ok_iff: "rbind m f = Ok y \<longleftrightarrow> (\<exists>x. m = Ok x \<and> f x = Ok y)"
  by (cases m) auto

section \<open>Calls to the kernel and to devices\<close>

text \<open>
  \<open>RTT/src\<close> holds no C file in this repository: the kernel's semaphores, mailboxes, events
  and delays are outside it, and so are the drivers the application opens by name. A
  handler therefore returns the calls it makes; results of calls are inputs of the handler.
\<close>

datatype call =
    SemRelease string
  | MbSend string u32
  | EventSend string u32
  | EventClear string u32
  | Delay nat
  | DevInit string
  | DevOpen string u16
  | DevClose string
  | DevWrite string "u8 list"
  | DevControl string u8 "u8 list"

abbreviation RT_TICK_PER_SECOND :: nat where
  "RT_TICK_PER_SECOND \<equiv> 100"

section \<open>Running a handler over a list of inputs\<close>

text \<open>A handler maps an input and a state to outputs and the next state.\<close>

fun run :: "('i \<Rightarrow> 's \<Rightarrow> 'o list \<times> 's) \<Rightarrow> 'i list \<Rightarrow> 's \<Rightarrow> 'o list \<times> 's" where
  "run h [] s = ([], s)"
| "run h (i # is) s = (case h i s of (os, s') \<Rightarrow> (case run h is s' of (os', s'') \<Rightarrow> (os @ os', s'')))"

lemma run_append:
  "run h (xs @ ys) s =
    (case run h xs s of (os, s') \<Rightarrow> (case run h ys s' of (os', s'') \<Rightarrow> (os @ os', s'')))"
  by (induction xs arbitrary: s) (auto split: prod.splits)

lemma run_inv:
  assumes "\<And>i s. P s \<Longrightarrow> P (snd (h i s))" and "P s"
  shows "P (snd (run h is s))"
  using assms(2)
proof (induction "is" arbitrary: s)
  case Nil
  then show ?case by simp
next
  case (Cons i "is")
  then show ?case
    using assms(1) [of s i] by (fastforce split: prod.splits)
qed

section \<open>Bounded queues\<close>

text \<open>
  The buffers of the program (receive ring, transmit nodes, voice packets, modem lines) are
  queues of bounded capacity. \<open>fifo\<close> is what they share; the two extensions say what an
  insertion into a full queue does.
\<close>

locale fifo =
  fixes inv :: "'s \<Rightarrow> bool"
    and ok :: "'a \<Rightarrow> bool"
    and q :: "'s \<Rightarrow> 'a list"
    and cap :: nat
    and put :: "'a \<Rightarrow> 's \<Rightarrow> 's"
    and take1 :: "'s \<Rightarrow> 's"
  assumes bounded: "inv s \<Longrightarrow> length (q s) \<le> cap"
    and inv_put: "inv s \<Longrightarrow> ok x \<Longrightarrow> length (q s) < cap \<Longrightarrow> inv (put x s)"
    and inv_take1: "inv s \<Longrightarrow> inv (take1 s)"
    and q_put: "inv s \<Longrightarrow> ok x \<Longrightarrow> length (q s) < cap \<Longrightarrow> q (put x s) = q s @ [x]"
    and q_take1: "inv s \<Longrightarrow> q (take1 s) = tl (q s)"
begin

lemma puts:
  "inv s \<Longrightarrow> list_all ok xs \<Longrightarrow> length (q s) + length xs \<le> cap \<Longrightarrow>
    inv (fold put xs s) \<and> q (fold put xs s) = q s @ xs"
  by (induction xs arbitrary: s) (auto simp: inv_put q_put)

lemma inv_takes: "inv s \<Longrightarrow> inv ((take1 ^^ n) s)"
  by (induction n) (auto simp: inv_take1)

lemma q_takes: "inv s \<Longrightarrow> q ((take1 ^^ n) s) = drop n (q s)"
  by (induction n) (auto simp: inv_takes q_take1 drop_Suc tl_drop)

text \<open>What was put into an empty queue comes out again, in order.\<close>

lemma puts_then_takes:
  "inv s \<Longrightarrow> q s = [] \<Longrightarrow> list_all ok xs \<Longrightarrow> length xs \<le> cap \<Longrightarrow> n < length xs \<Longrightarrow>
    hd (q ((take1 ^^ n) (fold put xs s))) = xs ! n"
  by (simp add: q_takes puts hd_drop_conv_nth)

end

text \<open>A queue that stays usable when it is put to while full.\<close>

locale fifo_total = fifo +
  assumes inv_put_full: "inv s \<Longrightarrow> ok x \<Longrightarrow> length (q s) = cap \<Longrightarrow> inv (put x s)"
begin

lemma inv_put1: "inv s \<Longrightarrow> ok x \<Longrightarrow> inv (put x s)"
  using bounded inv_put inv_put_full by (cases "length (q s) < cap") (simp_all add: nless_le)

lemma inv_all: "inv s \<Longrightarrow> list_all ok xs \<Longrightarrow> inv (fold put xs s)"
  by (induction xs arbitrary: s) (auto simp: inv_put1)

end

locale fifo_drop_new = fifo_total +
  assumes put_full_new: "inv s \<Longrightarrow> ok x \<Longrightarrow> length (q s) = cap \<Longrightarrow> q (put x s) = q s"
begin

lemma q_puts_take: "inv s \<Longrightarrow> list_all ok xs \<Longrightarrow> q (fold put xs s) = take cap (q s @ xs)"
proof (induction xs arbitrary: s)
  case Nil
  then show ?case using bounded by simp
next
  case (Cons x xs)
  then have x: "ok x" and xs: "list_all ok xs" by simp_all
  show ?case
  proof (cases "length (q s) < cap")
    case True
    then have "cap - length (q s) = Suc (cap - Suc (length (q s)))" by simp
    with True x xs Cons show ?thesis by (simp add: inv_put1 q_put)
  next
    case False
    with bounded [OF Cons.prems(1)] have "length (q s) = cap" by simp
    with Cons x xs show ?thesis by (simp add: inv_put1 put_full_new)
  qed
qed

end

text \<open>The last \<open>n\<close> elements.\<close>

definition newest :: "nat \<Rightarrow> 'a list \<Rightarrow> 'a list" where
  "newest n ys = drop (length ys - n) ys"

lemma newest_snoc: "0 < n \<Longrightarrow> newest n (newest n ys @ [x]) = newest n (ys @ [x])"
  by (cases "n \<le> length ys") (auto simp: newest_def Suc_diff_le)

locale fifo_drop_old = fifo_total +
  assumes put_full_old:
      "inv s \<Longrightarrow> ok x \<Longrightarrow> length (q s) = cap \<Longrightarrow> q (put x s) = tl (q s) @ [x]"
    and cap_pos: "0 < cap"
begin

lemma q_put_newest: "inv s \<Longrightarrow> ok x \<Longrightarrow> q (put x s) = newest cap (q s @ [x])"
proof (cases "length (q s) < cap")
  case True
  assume "inv s" and "ok x"
  with True show ?thesis by (simp add: q_put newest_def)
next
  case False
  assume inv: "inv s" and "ok x"
  with False bounded [OF inv] have "length (q s) = cap" by simp
  with inv \<open>ok x\<close> cap_pos show ?thesis
    by (simp add: put_full_old newest_def drop_Suc)
qed

lemma q_newest: "inv s \<Longrightarrow> newest cap (q s) = q s"
  using bounded by (simp add: newest_def)

lemma q_puts_newest: "inv s \<Longrightarrow> list_all ok xs \<Longrightarrow> q (fold put xs s) = newest cap (q s @ xs)"
proof (induction xs rule: rev_induct)
  case Nil
  then show ?case by (simp add: q_newest)
next
  case (snoc x xs)
  then have "q (fold put (xs @ [x]) s) = newest cap (newest cap (q s @ xs) @ [x])"
    by (simp add: q_put_newest inv_all)
  then show ?case using cap_pos by (simp add: newest_snoc)
qed

end

end
