(* ===== verification/Clib_Time.thy ===== *)
theory Clib_Time
  imports Base "HOL-Library.Signed_Division"
begin

text \<open>
  Calendar time of the minimal C library (\<open>RTT/components/libc/minilibc/time.c\<close>). Times are 32 bits
  without sign, the fields of \<open>tm\<close> are integers; the three fields the code never touches are left out. A
  month outside the table of \<open>__spm\<close> is read from behind it, here \<open>None\<close>.
\<close>

record tm =
  tm_sec :: int
  tm_min :: int
  tm_hour :: int
  tm_mday :: int
  tm_mon :: int
  tm_year :: int
  tm_wday :: int
  tm_yday :: int

definition spm :: "int list" where
  "spm = [0, 31, 59, 90, 120, 151, 181, 212, 243, 273, 304, 334, 365]"

definition SPD :: int where
  "SPD = 24 * 60 * 60"

definition isleap :: "int \<Rightarrow> bool" where
  "isleap year \<longleftrightarrow> year mod 4 = 0 \<and> (year mod 100 \<noteq> 0 \<or> year mod 400 = 0)"

section \<open>From seconds to the fields\<close>

text \<open>The loop over the years, over the months from the last one down, and the day of a leap year.\<close>

function year_loop :: "int \<Rightarrow> int \<Rightarrow> int \<times> int" where
  "year_loop i w = (let k = (if isleap i then 366 else 365) in if k \<le> w then year_loop (i + 1) (w - k) else (i, w))"
  by pat_completeness auto
termination
  by (relation "measure (\<lambda>(i, w). nat w)") (auto simp: Let_def split: if_splits)

declare year_loop.simps [simp del]

fun month_loop :: "nat \<Rightarrow> int \<Rightarrow> nat" where
  "month_loop 0 w = 0"
| "month_loop (Suc i) w = (if w < spm ! Suc i then month_loop i w else Suc i)"

definition month_day :: "bool \<Rightarrow> int \<Rightarrow> int \<times> int" where
  "month_day leap w = (let late = leap \<and> 58 < w; mday = (if late \<and> w = 59 then 2 else 1); w = (if late then w - 1 else w); mon = month_loop 11 w
     in (int mon, mday + (w - spm ! mon)))"

definition gmtime_r :: "u32 \<Rightarrow> tm" where
  "gmtime_r t = (let s = uint t mod SPD; d = uint t div SPD; (i, w) = year_loop 1970 d; (mon, mday) = month_day (isleap i) w in
     \<lparr>tm_sec = s mod 60, tm_min = s div 60 mod 60, tm_hour = s div 60 div 60, tm_mday = mday, tm_mon = mon, tm_year = i - 1900,
      tm_wday = (4 + d) mod 7, tm_yday = w\<rparr>)"

section \<open>From the fields to seconds\<close>

text \<open>The carries of too large fields, and the loop that shortens a too large day of the month.\<close>

definition carry_fields :: "tm \<Rightarrow> tm" where
  "carry_fields t =
    (let t = (if 60 < tm_sec t then t\<lparr>tm_min := tm_min t + tm_sec t div 60, tm_sec := tm_sec t mod 60\<rparr> else t);
       t = (if 60 < tm_min t then t\<lparr>tm_hour := tm_hour t + tm_min t div 60, tm_min := tm_min t mod 60\<rparr> else t);
       t = (if 24 < tm_hour t then t\<lparr>tm_mday := tm_mday t + tm_hour t div 24, tm_hour := tm_hour t mod 24\<rparr> else t)
     in if 12 < tm_mon t then t\<lparr>tm_year := tm_year t + tm_mon t div 12, tm_mon := tm_mon t mod 12\<rparr> else t)"

lemma spm_step: "i < 12 \<Longrightarrow> 0 \<le> spm ! i \<and> spm ! i < spm ! Suc i \<and> (0 < i \<longrightarrow> 31 \<le> spm ! i) \<and> (i = 1 \<longrightarrow> spm ! i + 1 < spm ! Suc i)"
  by (auto simp: spm_def less_Suc_eq numeral_eq_Suc)

lemma day_loop_shorter:
  assumes "m \<le> 11" "spm ! Suc m < d"
  shows "0 < d \<and> (if m = 0 then spm ! m = 0 else (if b then d - 1 else d) - spm ! m \<le> d - 31)"
  using assms spm_step [of m] by (auto simp: spm_def)

function day_loop :: "int \<Rightarrow> nat \<Rightarrow> int \<Rightarrow> (int \<times> nat \<times> int) option" where
  "day_loop mday mon year =
    (if 11 < mon then None
     else if mday \<le> spm ! Suc mon then Some (mday, mon, year)
     else let mday = (if mon = 1 \<and> isleap (year + 1900) then mday - 1 else mday) - spm ! mon
       in if 11 < Suc mon then day_loop mday 0 (year + 1) else day_loop mday (Suc mon) year)"
  by pat_completeness auto
termination
proof (relation "measure (\<lambda>(mday, mon, year). nat (2 * mday + (if mon = 0 then 1 else 0)))", goal_cases)
  case 1
  show ?case by simp
next
  case (2 d m y d')
  with day_loop_shorter [of m d "m = 1 \<and> isleap (y + 1900)"] show ?case by (simp add: not_less not_le)
next
  case (3 d m y d')
  with day_loop_shorter [of m d "m = 1 \<and> isleap (y + 1900)"] show ?case
    by (cases "m = 0") (auto simp: not_less not_le)
qed

declare day_loop.simps [simp del]

text \<open>The days of the whole years since 1970, in 32 bits, with the three leap years missing in 400 years.\<close>

definition year_days :: "u32 \<Rightarrow> u32" where
  "year_days years = (let day = years * 365 + (years + 1) div 4 in
     if 131 \<le> years
     then let years = (years - 131) div 100; day = day - (drop_bit 2 years * 3 + 1); years = and years 3;
         years = (if years = 3 then years - 1 else years)
       in day - years
     else day)"

text \<open>\<open>timegm\<close>: the value returned and the fields as it leaves them.\<close>

definition timegm :: "tm \<Rightarrow> (u32 \<times> tm) option" where
  "timegm t0 = (let years = of_int (tm_year t0 - 70) :: u32; t = carry_fields t0 in
     if tm_mon t < 0 then None
     else case day_loop (tm_mday t) (nat (tm_mon t)) (tm_year t) of
         None \<Rightarrow> None
       | Some (mday, mon, year) \<Rightarrow>
           (let t = t\<lparr>tm_mday := mday, tm_mon := int mon, tm_year := year\<rparr> in
             if year < 70 then Some (- 1, t)
             else let yday = spm ! mon + mday - 1 + (if isleap (year + 1900) \<and> 1 < mon then 1 else 0);
                 day = year_days years + of_int yday;
                 t = t\<lparr>tm_yday := yday, tm_wday := uint ((day + 4) mod 7)\<rparr>
               in Some (((day * 24 + of_int (tm_hour t)) * 60 + of_int (tm_min t)) * 60 + of_int (tm_sec t), t)))"

text \<open>
  The clock: \<open>gettimeofday\<close> asks the device \<open>rtc\<close>, where there is one, and never writes the time zone its callers
  cleared, so that \<open>localtime_r\<close> and \<open>mktime\<close> shift by nothing.
\<close>

definition gettimeofday :: "u32 option \<Rightarrow> u32 \<times> (u32 \<times> int) option" where
  "gettimeofday rtc = (case rtc of Some t \<Rightarrow> (t, Some (t, 0)) | None \<Rightarrow> (0, None))"

definition tz_minuteswest :: int where
  "tz_minuteswest = 0"

definition localtime_r :: "u32 \<Rightarrow> tm" where
  "localtime_r t = gmtime_r (t + of_int (tz_minuteswest * 60))"

definition mktime :: "tm \<Rightarrow> (u32 \<times> tm) option" where
  "mktime t = map_option (\<lambda>(x, t). (x + of_int (tz_minuteswest * 60), t)) (timegm t)"

text \<open>The text of a time: two digits of a number, and the line of 25 characters \<open>asctime_r\<close> writes.\<close>

definition num2str :: "int \<Rightarrow> u8 list" where
  "num2str i = [of_int (i sdiv 10 + 48), of_int (i smod 10 + 48)]"

definition days :: "u8 list" where
  "days = bytes ''Sun Mon Tue Wed Thu Fri Sat ''"

definition months :: "u8 list" where
  "months = bytes ''Jan Feb Mar Apr May Jun Jul Aug Sep Oct Nov Dec ''"

definition name_at :: "u8 list \<Rightarrow> int \<Rightarrow> u8 list" where
  "name_at names i = take 4 (drop (nat i * 4) names)"

definition asctime_r :: "tm \<Rightarrow> u8 list option" where
  "asctime_r t =
    (if tm_wday t < 0 \<or> 6 < tm_wday t \<or> tm_mon t < 0 \<or> 11 < tm_mon t then None
     else let mday = num2str (tm_mday t); mday = (if hd mday = 48 then 32 # tl mday else mday)
       in Some (name_at days (tm_wday t) @ name_at months (tm_mon t) @ mday @ [32] @ num2str (tm_hour t) @ [58] @ num2str (tm_min t) @ [58] @
         num2str (tm_sec t) @ [32] @ num2str ((tm_year t + 1900) sdiv 100) @ num2str ((tm_year t + 1900) smod 100) @ [10]))"

section \<open>Days since 1970\<close>

text \<open>The days before the first of January of a year, by the rule of the calendar.\<close>

definition days_before :: "int \<Rightarrow> int" where
  "days_before y = 365 * (y - 1970) + (y - 1969) div 4 - (y - 1901) div 100 + (y - 1601) div 400"

definition year_len :: "int \<Rightarrow> int" where
  "year_len y = (if isleap y then 366 else 365)"

lemma div_next:
  fixes x k :: int
  assumes "0 < k"
  shows "(x + 1) div k = x div k + (if (x + 1) mod k = 0 then 1 else 0)"
proof -
  have x: "x = k * (x div k) + x mod k" and r: "0 \<le> x mod k" "x mod k < k"
    using assms by simp_all
  show ?thesis
  proof (cases "x mod k + 1 = k")
    case True
    then have "x + 1 = k * (x div k + 1) + 0" unfolding distrib_left using x by linarith
    then show ?thesis
      using int_div_pos_eq [of "x + 1" k "x div k + 1" 0] int_mod_pos_eq [of "x + 1" k "x div k + 1" 0] assms by simp
  next
    case False
    then have "x + 1 = k * (x div k) + (x mod k + 1)" "x mod k + 1 < k" using x r by simp_all
    then show ?thesis
      using int_div_pos_eq [of "x + 1" k "x div k" "x mod k + 1"] int_mod_pos_eq [of "x + 1" k "x div k" "x mod k + 1"] r by simp
  qed
qed

lemma isleap_shift: "isleap y \<longleftrightarrow> (y - 1968) mod 4 = 0 \<and> ((y - 1900) mod 100 \<noteq> 0 \<or> (y - 1600) mod 400 = 0)"
proof -
  have "(y - 1968) mod 4 = y mod 4" "(y - 1900) mod 100 = y mod 100" "(y - 1600) mod 400 = y mod 400"
    using mod_diff_right_eq [of y 1968 4] mod_diff_right_eq [of y 1900 100] mod_diff_right_eq [of y 1600 400] by simp_all
  then show ?thesis by (simp add: isleap_def)
qed

lemma add_year:
  fixes A B C L y q4 q100 q400 :: int
  shows "A - B + C = L - 365 \<Longrightarrow>
    365 * (y + 1 - 1970) + (q4 + A) - (q100 + B) + (q400 + C) = 365 * (y - 1970) + q4 - q100 + q400 + L"
  by (simp add: algebra_simps)

lemma days_before_next: "days_before (y + 1) = days_before y + year_len y"
proof -
  have a: "(y + 1 - 1969) div 4 = (y - 1969) div 4 + (if (y - 1968) mod 4 = 0 then 1 else 0)"
    using div_next [of 4 "y - 1969"] by (simp add: algebra_simps)
  have b: "(y + 1 - 1901) div 100 = (y - 1901) div 100 + (if (y - 1900) mod 100 = 0 then 1 else 0)"
    using div_next [of 100 "y - 1901"] by (simp add: algebra_simps)
  have c: "(y + 1 - 1601) div 400 = (y - 1601) div 400 + (if (y - 1600) mod 400 = 0 then 1 else 0)"
    using div_next [of 400 "y - 1601"] by (simp add: algebra_simps)
  have d: "(y - 1900) mod 100 = 0" if "(y - 1600) mod 400 = 0"
  proof -
    have "100 dvd y - 1600" using that dvd_trans [of 100 400 "y - 1600"] by (simp add: mod_eq_0_iff_dvd)
    then have "100 dvd (y - 1600) - 300" by (rule dvd_diff) simp
    then show ?thesis by (simp add: mod_eq_0_iff_dvd)
  qed
  have e: "(y - 1968) mod 4 = 0" if "(y - 1900) mod 100 = 0"
  proof -
    have "4 dvd y - 1900" using that dvd_trans [of 4 100 "y - 1900"] by (simp add: mod_eq_0_iff_dvd)
    then have "4 dvd (y - 1900) - 68" by (rule dvd_diff) simp
    then show ?thesis by (simp add: mod_eq_0_iff_dvd)
  qed
  have f: "(if p then 1 else 0) - (if q then 1 else 0) + (if r then 1 else 0) = (if p \<and> (\<not> q \<or> r) then 366 else 365) - (365 :: int)"
    if "r \<longrightarrow> q" "q \<longrightarrow> p" for p q r
    by (insert that, cases p; cases q; cases r; simp)
  note g = f [OF impI [OF d] impI [OF e]]
  show ?thesis
    unfolding days_before_def year_len_def isleap_shift a b c by (rule add_year [OF g])
qed

lemma days_before_start [simp]: "days_before 1970 = 0"
  by (simp add: days_before_def)

lemma year_len_bounds: "365 \<le> year_len y" "year_len y \<le> 366"
  by (simp_all add: year_len_def)

lemma days_before_mono: "days_before y \<le> days_before (y + int n)"
proof (induction n)
  case (Suc n)
  with days_before_next [of "y + int n"] year_len_bounds [of "y + int n"] show ?case
    by (simp add: algebra_simps)
qed simp

lemma year_loop_spec:
  "0 \<le> w \<Longrightarrow> year_loop i w = (j, v) \<Longrightarrow> i \<le> j \<and> 0 \<le> v \<and> v < year_len j \<and> days_before i + w = days_before j + v"
proof (induction i w rule: year_loop.induct)
  case (1 i w)
  show ?case
  proof (cases "year_len i \<le> w")
    case True
    with 1 have "i + 1 \<le> j \<and> 0 \<le> v \<and> v < year_len j \<and> days_before (i + 1) + (w - year_len i) = days_before j + v"
      using year_loop.simps [of i w] by (simp add: year_len_def Let_def)
    then show ?thesis using days_before_next [of i] by simp
  next
    case False
    with 1 show ?thesis using year_loop.simps [of i w] by (simp add: year_len_def Let_def)
  qed
qed

lemma year_unique:
  assumes "days_before i + v = days_before j + w" "0 \<le> v" "v < year_len i" "0 \<le> w" "w < year_len j"
  shows "i = j \<and> v = w"
proof -
  have "\<not> i < j" if "days_before i + v = days_before j + w" "v < year_len i" "0 \<le> w" for i j v w
    using that days_before_mono [of "i + 1" "nat (j - (i + 1))"] days_before_next [of i] by auto
  from this [of i v j w] this [of j w i v] assms show ?thesis by auto
qed

section \<open>The fields of a time\<close>

text \<open>
  The calendar itself, apart from the tables of the code: every fourth year is a leap year, of the full
  centuries every fourth; the months have their usual lengths; and one day follows the other. Months are
  counted from 0.
\<close>

definition leap_year :: "int \<Rightarrow> bool" where
  "leap_year y = (if 400 dvd y then True else if 100 dvd y then False else 4 dvd y)"

definition month_len :: "int \<Rightarrow> int \<Rightarrow> int" where
  "month_len y m = (if m \<in> {3, 5, 8, 10} then 30 else if m = 1 then (if leap_year y then 29 else 28) else 31)"

fun next_day :: "int \<times> int \<times> int \<Rightarrow> int \<times> int \<times> int" where
  "next_day (y, m, d) = (if d < month_len y m then (y, m, d + 1) else if m < 11 then (y, m + 1, 1) else (y + 1, 0, 1))"

lemma leap_year_code: "leap_year y = isleap y"
proof -
  have "100 dvd y" if "400 dvd y" using that by (rule dvd_trans [rotated]) simp
  moreover have "4 dvd y" if "100 dvd y" using that by (rule dvd_trans [rotated]) simp
  ultimately show ?thesis by (auto simp: leap_year_def isleap_def mod_eq_0_iff_dvd)
qed

text \<open>The length of a month for the check of the tables below, with the kind of the year as an argument.\<close>

definition length_of :: "bool \<Rightarrow> int \<Rightarrow> int" where
  "length_of leap m = (if m \<in> {3, 5, 8, 10} then 30 else if m = 1 then (if leap then 29 else 28) else 31)"

lemma month_len_code: "month_len y m = length_of (isleap y) m"
  by (simp add: month_len_def length_of_def leap_year_code)

definition month_day_ok :: "bool \<Rightarrow> int \<Rightarrow> bool" where
  "month_day_ok leap w = (case month_day leap w of (m, d) \<Rightarrow>
     0 \<le> m \<and> m \<le> 11 \<and> d \<le> spm ! Suc (nat m) \<and> spm ! nat m + d - 1 + (if leap \<and> 1 < m then 1 else 0) = w \<and>
     (if d < length_of leap m then month_day leap (w + 1) = (m, d + 1) \<and> w + 1 < (if leap then 366 else 365)
      else if m < 11 then month_day leap (w + 1) = (m + 1, 1) \<and> w + 1 < (if leap then 366 else 365)
      else w + 1 = (if leap then 366 else 365)))"

lemma month_days: "list_all (month_day_ok False) [0..364]" "list_all (month_day_ok True) [0..365]"
  by code_simp+

lemma month_day_okI: "0 \<le> w \<Longrightarrow> w < year_len y \<Longrightarrow> month_day_ok (isleap y) w"
  using month_days unfolding list_all_iff set_upto Ball_def atLeastAtMost_iff year_len_def by (cases "isleap y") auto

definition day_date :: "int \<Rightarrow> int \<times> int \<times> int" where
  "day_date d = (case year_loop 1970 d of (y, w) \<Rightarrow> (y, month_day (isleap y) w))"

lemma year_loop_start: "0 \<le> d \<Longrightarrow> year_loop 1970 d = (y, w) \<Longrightarrow> 1970 \<le> y \<and> 0 \<le> w \<and> w < year_len y \<and> d = days_before y + w"
  using year_loop_spec [of d 1970 y w] by simp

lemma day_date_next:
  assumes "0 \<le> d"
  shows "day_date (d + 1) = next_day (day_date d)"
proof -
  obtain y w where l: "year_loop 1970 d = (y, w)" by fastforce
  obtain y' w' where l': "year_loop 1970 (d + 1) = (y', w')" by fastforce
  note s = year_loop_start [OF assms l] year_loop_start [OF _ l']
  obtain m k where m: "month_day (isleap y) w = (m, k)" by fastforce
  have ok: "month_day_ok (isleap y) w" using s by (intro month_day_okI) auto
  show ?thesis
  proof (cases "w + 1 < year_len y")
    case True
    then have "y' = y" "w' = w + 1" using year_unique [of y "w + 1" y' w'] s assms by auto
    then show ?thesis using ok True l l' m
      by (auto simp: day_date_def month_day_ok_def year_len_def month_len_code split: if_splits)
  next
    case False
    then have "w + 1 = year_len y" using s by simp
    then have "y' = y + 1" "w' = 0"
      using year_unique [of "y + 1" 0 y' w'] s assms days_before_next [of y] year_len_bounds [of "y + 1"] by auto
    moreover have "month_day b 0 = (0, 1)" for b by (simp add: month_day_def spm_def numeral_eq_Suc)
    ultimately show ?thesis using ok False l l' m
      by (auto simp: day_date_def month_day_ok_def year_len_def month_len_code split: if_splits)
  qed
qed

lemma day_date_walk: "day_date (int n) = (next_day ^^ n) (1970, 0, 1)"
proof (induction n)
  case 0
  show ?case by (simp add: day_date_def year_loop.simps month_day_def isleap_def spm_def numeral_eq_Suc)
next
  case (Suc n)
  with day_date_next [of "int n"] show ?case by (simp add: add.commute)
qed

lemma clock_fields:
  fixes s :: int
  assumes "0 \<le> s" "s < 86400"
  shows "s mod 60 \<in> {0..59}" "s div 60 mod 60 \<in> {0..59}" "s div 60 div 60 \<in> {0..23}"
    "(d * 24 + s div 60 div 60) * 3600 + s div 60 mod 60 * 60 + s mod 60 = d * 86400 + s"
proof -
  show "s mod 60 \<in> {0..59}" "s div 60 mod 60 \<in> {0..59}" by simp_all
  have "s div 60 div 60 = s div 3600" by (simp add: zdiv_zmult2_eq [symmetric])
  moreover have "s div 3600 \<le> 23" using assms by linarith
  ultimately show "s div 60 div 60 \<in> {0..23}" using assms by (simp add: pos_imp_zdiv_nonneg_iff)
  show "(d * 24 + s div 60 div 60) * 3600 + s div 60 mod 60 * 60 + s mod 60 = d * 86400 + s"
    using div_mult_mod_eq [of s 60] div_mult_mod_eq [of "s div 60" 60] by (simp only: ring_distribs)
qed

lemma gmtime_split: "(tm_year (gmtime_r t) + 1900, tm_mon (gmtime_r t), tm_mday (gmtime_r t)) = day_date (uint t div 86400)"
  "tm_wday (gmtime_r t) = (4 + uint t div 86400) mod 7" "tm_sec (gmtime_r t) = uint t mod 86400 mod 60"
  "tm_min (gmtime_r t) = uint t mod 86400 div 60 mod 60" "tm_hour (gmtime_r t) = uint t mod 86400 div 60 div 60"
  by (simp_all add: gmtime_r_def Let_def SPD_def day_date_def split: prod.split)

text \<open>
  C20. \<open>gmtime_r\<close> gives the date of the calendar: walking on from the first of January 1970 one day after the
  other, as many days as the seconds make, one comes to the year, month and day it stores; the day of the
  week goes on from Thursday, and the time of the day is within its bounds and makes up the seconds left.
\<close>

theorem gmtime_follows_calendar:
  "(let r = gmtime_r t; d = unat t div 86400 in
     (1900 + tm_year r, tm_mon r, tm_mday r) = (next_day ^^ d) (1970, 0, 1) \<and>
     tm_wday r = int ((4 + d) mod 7) \<and>
     tm_sec r \<in> {0..59} \<and> tm_min r \<in> {0..59} \<and> tm_hour r \<in> {0..23} \<and>
     (int d * 24 + tm_hour r) * 3600 + tm_min r * 60 + tm_sec r = uint t)"
proof -
  have d: "uint t div 86400 = int (unat t div 86400)" by (simp add: zdiv_int)
  have w: "(4 + uint t div 86400) mod 7 = int ((4 + unat t div 86400) mod 7)" by (simp add: d zmod_int)
  have s: "0 \<le> uint t mod 86400" "uint t mod 86400 < 86400" "int (unat t div 86400) * 86400 + uint t mod 86400 = uint t"
    by (simp_all add: d [symmetric])
  show ?thesis
    unfolding Let_def gmtime_split(2-5) clock_fields(4) [OF s(1,2)] s(3) w
    using gmtime_split(1) [of t] day_date_walk [of "unat t div 86400"] clock_fields(1-3) [OF s(1,2)]
    unfolding d by (simp only: prod.inject add.commute [of 1900] simp_thms)
qed

section \<open>Back to seconds\<close>

definition year_days_ok :: "int \<Rightarrow> bool" where
  "year_days_ok y \<longleftrightarrow> year_days (of_int (y - 1970)) = of_int (days_before y)"

lemma year_days_table: "list_all year_days_ok [2101..2106]"
  by code_simp

lemma year_days_okI:
  assumes "1970 \<le> y" "y \<le> 2106"
  shows "year_days_ok y"
proof (cases "y \<le> 2100")
  case True
  define n where "n = y - 1970"
  have n: "0 \<le> n" "n \<le> 130" "y = n + 1970" using assms True by (simp_all add: n_def)
  have u: "uint (of_int n :: u32) = n" "uint (of_int n + 1 :: u32) = n + 1"
    using n by (simp_all add: uint_word_ariths uint_word_of_int take_bit_int_eq_self)
  have "(n + 69) div 100 = (n + 369) div 400"
  proof (cases "n \<le> 30")
    case True
    with n show ?thesis by simp
  next
    case False
    with n have "(n + 69) div 100 = 1" "(n + 369) div 400 = 1"
      by (auto intro!: int_div_pos_eq [of _ _ 1 "n - 31"])
    then show ?thesis by simp
  qed
  then have "days_before y = 365 * n + (n + 1) div 4" using n(3) by (simp add: days_before_def add.commute)
  moreover have "(of_int n + 1 :: u32) div 4 = of_int ((n + 1) div 4)"
    by (rule word_uint_eq_iff [THEN iffD2]) (use n in \<open>simp add: uint_div u(2) uint_word_of_int take_bit_int_eq_self pos_imp_zdiv_nonneg_iff\<close>)
  moreover have "\<not> 131 \<le> (of_int n :: u32)" using n by (simp add: word_le_def u(1))
  ultimately show ?thesis by (simp add: year_days_ok_def year_days_def Let_def n mult.commute)
next
  case False
  with assms year_days_table show ?thesis
    unfolding list_all_iff set_upto Ball_def atLeastAtMost_iff by auto
qed

lemma gmtime_parts:
  obtains y w m k where "year_loop 1970 (uint t div 86400) = (y, w)" "month_day (isleap y) w = (m, k)"
    "gmtime_r t = \<lparr>tm_sec = uint t mod 86400 mod 60, tm_min = uint t mod 86400 div 60 mod 60, tm_hour = uint t mod 86400 div 60 div 60,
       tm_mday = k, tm_mon = m, tm_year = y - 1900, tm_wday = (4 + uint t div 86400) mod 7, tm_yday = w\<rparr>"
  by (cases "year_loop 1970 (uint t div 86400)"; cases "month_day (isleap (fst (year_loop 1970 (uint t div 86400)))) (snd (year_loop 1970 (uint t div 86400)))")
    (auto simp: gmtime_r_def Let_def SPD_def)

lemma carry_fields_id: "tm_sec t \<le> 60 \<Longrightarrow> tm_min t \<le> 60 \<Longrightarrow> tm_hour t \<le> 24 \<Longrightarrow> tm_mon t \<le> 12 \<Longrightarrow> carry_fields t = t"
  by (simp add: carry_fields_def Let_def)

lemma day_loop_id: "m \<le> 11 \<Longrightarrow> d \<le> spm ! Suc m \<Longrightarrow> day_loop d m y = Some (d, m, y)"
  by (simp add: day_loop.simps [of d m y])

lemma last_year:
  assumes "days_before y + w \<le> 49710" "0 \<le> w"
  shows "y \<le> 2106"
proof (rule ccontr)
  assume "\<not> y \<le> 2106"
  then have "days_before 2107 \<le> days_before y" using days_before_mono [of 2107 "nat (y - 2107)"] by simp
  moreover have "days_before 2107 = 50038" by code_simp
  ultimately show False using assms by simp
qed

lemma weekday_word:
  assumes "0 \<le> d" "d \<le> 49710"
  shows "uint ((of_int d + 4 :: u32) mod 7) = (4 + d) mod 7"
proof -
  have "uint (of_int d + 4 :: u32) = d + 4"
    using assms by (simp add: uint_word_ariths uint_word_of_int take_bit_int_eq_self)
  moreover have "uint (7 :: u32) = 7" by simp
  ultimately show ?thesis by (simp only: uint_mod add.commute)
qed

lemma seconds_word:
  fixes t :: u32
  assumes "((d * 24 + h) * 3600 + m * 60 + s) = uint t"
  shows "((of_int d * 24 + of_int h) * 60 + of_int m) * 60 + of_int s = t"
proof -
  have "((d * 24 + h) * 60 + m) * 60 + s = uint t" using assms by (simp only: ring_distribs)
  from arg_cong [OF this, of "of_int :: int \<Rightarrow> u32"] show ?thesis
    by (simp only: of_int_add of_int_mult of_int_numeral word_of_int_uint)
qed

lemma day_range: "0 \<le> uint (t :: u32) div 86400" "uint (t :: u32) div 86400 \<le> 49710"
  using uint_lt2p [of t] by (simp_all add: pos_imp_zdiv_nonneg_iff)

lemma timegm_plain:
  assumes "carry_fields r = r" "0 \<le> tm_mon r" "day_loop (tm_mday r) (nat (tm_mon r)) (tm_year r) = Some (tm_mday r, nat (tm_mon r), tm_year r)"
    and "70 \<le> tm_year r" "spm ! nat (tm_mon r) + tm_mday r - 1 + (if isleap (tm_year r + 1900) \<and> 1 < tm_mon r then 1 else 0) = tm_yday r"
    and "D = year_days (of_int (tm_year r - 70)) + of_int (tm_yday r)" "uint ((D + 4) mod 7) = tm_wday r"
  shows "timegm r = Some (((D * 24 + of_int (tm_hour r)) * 60 + of_int (tm_min r)) * 60 + of_int (tm_sec r), r)"
  using assms(2-) unfolding timegm_def assms(1) by (auto simp: Let_def)

text \<open>
  C19. \<open>timegm\<close> takes back what \<open>gmtime_r\<close> made: from the fields of any time of 32 bits it returns that time,
  and it leaves every field as it found it, the day of the week and of the year included.
\<close>

theorem timegm_takes_back_gmtime: "timegm (gmtime_r t) = Some (t, gmtime_r t)"
proof -
  obtain y w m k where p: "year_loop 1970 (uint t div 86400) = (y, w)" "month_day (isleap y) w = (m, k)"
    and g: "gmtime_r t = \<lparr>tm_sec = uint t mod 86400 mod 60, tm_min = uint t mod 86400 div 60 mod 60, tm_hour = uint t mod 86400 div 60 div 60,
       tm_mday = k, tm_mon = m, tm_year = y - 1900, tm_wday = (4 + uint t div 86400) mod 7, tm_yday = w\<rparr>"
    by (rule gmtime_parts)
  have t: "0 \<le> uint t mod 86400" "uint t mod 86400 < 86400" by simp_all
  note s = year_loop_start [OF day_range(1) p(1)] and c = clock_fields [OF t(1,2)]
  have "month_day_ok (isleap y) w" using s by (intro month_day_okI) auto
  then have m: "0 \<le> m" "m \<le> 11" "k \<le> spm ! Suc (nat m)" "spm ! nat m + k - 1 + (if isleap y \<and> 1 < m then 1 else 0) = w"
    using p(2) by (simp_all add: month_day_ok_def)
  have l: "day_loop k (nat m) (y - 1900) = Some (k, nat m, y - 1900)"
    using m by (intro day_loop_id) auto
  have f: "carry_fields (gmtime_r t) = gmtime_r t"
  proof (rule carry_fields_id)
    show "tm_sec (gmtime_r t) \<le> 60" "tm_min (gmtime_r t) \<le> 60" "tm_hour (gmtime_r t) \<le> 24"
      unfolding gmtime_split(3-5) by (rule order_trans, rule c(1-3) [simplified atLeastAtMost_iff, THEN conjunct2], simp)+
    show "tm_mon (gmtime_r t) \<le> 12" unfolding g tm.simps using m(2) by simp
  qed
  have "y \<le> 2106" using last_year [of y w] s day_range(2) [of t] by simp
  then have "year_days_ok y" using s by (intro year_days_okI) auto
  then have d: "year_days (of_int (y - 1970)) + of_int w = of_int (uint t div 86400)"
    using s by (simp add: year_days_ok_def)
  have z: "((of_int (uint t div 86400) * 24 + of_int (uint t mod 86400 div 60 div 60)) * 60 + of_int (uint t mod 86400 div 60 mod 60)) * 60 +
      of_int (uint t mod 86400 mod 60) = t"
    by (rule seconds_word) (simp only: c(4) div_mult_mod_eq)
  note q = weekday_word [OF day_range [of t]]
  have "timegm (gmtime_r t) = Some (((of_int (uint t div 86400) * 24 + of_int (tm_hour (gmtime_r t))) * 60 + of_int (tm_min (gmtime_r t))) * 60 +
      of_int (tm_sec (gmtime_r t)), gmtime_r t)"
  proof (rule timegm_plain [OF f])
    show "day_loop (tm_mday (gmtime_r t)) (nat (tm_mon (gmtime_r t))) (tm_year (gmtime_r t)) =
        Some (tm_mday (gmtime_r t), nat (tm_mon (gmtime_r t)), tm_year (gmtime_r t))"
      using l by (simp only: g tm.simps)
    show "of_int (uint t div 86400) = year_days (of_int (tm_year (gmtime_r t) - 70)) + of_int (tm_yday (gmtime_r t))"
      using d by (simp add: g)
    show "uint ((of_int (uint t div 86400) + 4 :: u32) mod 7) = tm_wday (gmtime_r t)"
      by (simp only: q g tm.simps)
    show "0 \<le> tm_mon (gmtime_r t)" unfolding g tm.simps by (rule m(1))
    show "70 \<le> tm_year (gmtime_r t)" unfolding g tm.simps using s(1) by simp
    show "spm ! nat (tm_mon (gmtime_r t)) + tm_mday (gmtime_r t) - 1 + (if isleap (tm_year (gmtime_r t) + 1900) \<and> 1 < tm_mon (gmtime_r t) then 1 else 0) =
        tm_yday (gmtime_r t)"
      unfolding g tm.simps diff_add_cancel by (rule m(4))
  qed
  then show ?thesis by (simp only: gmtime_split(3-5) z)
qed

section \<open>What the code does not do\<close>

definition date_fields :: "int \<Rightarrow> int \<Rightarrow> int \<Rightarrow> tm" where
  "date_fields y m d = \<lparr>tm_sec = 0, tm_min = 0, tm_hour = 0, tm_mday = d, tm_mon = m, tm_year = y - 1900, tm_wday = 0, tm_yday = 0\<rparr>"

text \<open>
  The years are counted before the months are carried: the fields come out in the next year, the seconds
  are those of the old one. The thirteenth month is not carried at all and reads behind the table. The
  fortieth of January is taken for the fortieth of February, and the sixtieth of February loses too much.
\<close>

lemma carried_year_is_lost:
  "map_option (\<lambda>(s, t). (s, tm_year t)) (timegm (date_fields 1970 13 1)) = Some (31 * 86400, 71)"
  "map_option fst (timegm (date_fields 1971 1 1)) = Some ((365 + 31) * 86400)"
  by code_simp+

lemma thirteenth_month_faults: "timegm (date_fields 1970 12 1) = None"
  by code_simp

lemma long_month_is_wrong:
  "map_option fst (timegm (date_fields 1970 0 40)) = Some (70 * 86400)"
  "map_option fst (timegm (date_fields 1970 1 9)) = Some (39 * 86400)"
  "map_option fst (timegm (date_fields 1970 1 60)) = Some (87 * 86400)"
  "map_option fst (timegm (date_fields 1970 3 1)) = Some (90 * 86400)"
  by code_simp+

text \<open>The 25 characters of the static buffer of \<open>asctime\<close> are all written, none of them is the zero that ends a string.\<close>

lemma asctime_leaves_no_zero:
  "asctime_r (gmtime_r 741476948) = Some (bytes ''Wed Jun 30 21:49:08 1993'' @ [10])"
  "length (bytes ''Wed Jun 30 21:49:08 1993'' @ [10]) = 25"
  by code_simp+

lemma asctime_length:
  assumes "asctime_r t = Some b"
  shows "length b = 25"
proof -
  have "length (name_at days (tm_wday t)) = 4" "length (name_at months (tm_mon t)) = 4"
    using assms by (auto simp: asctime_r_def name_at_def days_def months_def Let_def split: if_splits)
  then show ?thesis using assms by (auto simp: asctime_r_def num2str_def Let_def split: if_splits)
qed

end
