(* ===== verification/Clib_Sort.thy ===== *)
theory Clib_Sort
  imports Base "HOL-Library.Multiset" "HOL-Library.Monad_Syntax" "HOL-Library.Signed_Division"
begin

text \<open>
  Sorting and random numbers of the minimal C library (\<open>RTT/components/libc/minilibc/qsort.c\<close>, \<open>rand.c\<close>).
  The array is the bytes it occupies, \<open>nmemb\<close> elements of \<open>size\<close> bytes; reading or exchanging an element outside
  it is \<open>None\<close>, and so is a loop that does not end. The comparison is the caller's.
\<close>

section \<open>Quicksort with three parts\<close>

type_synonym compar = "u8 list \<Rightarrow> u8 list \<Rightarrow> int"

text \<open>The bytes of an element, and the element if it lies in the array.\<close>

definition elem_at :: "nat \<Rightarrow> u8 list \<Rightarrow> int \<Rightarrow> u8 list" where
  "elem_at s m k = (if k < 0 then [] else take s (drop (nat k * s) m))"

definition elem :: "nat \<Rightarrow> u8 list \<Rightarrow> int \<Rightarrow> u8 list option" where
  "elem s m k = (if 0 \<le> k \<and> (nat k + 1) * s \<le> length m then Some (elem_at s m k) else None)"

text \<open>Two elements are exchanged byte by byte.\<close>

fun exch_loop :: "nat \<Rightarrow> nat \<Rightarrow> nat \<Rightarrow> u8 list \<Rightarrow> u8 list option" where
  "exch_loop 0 x y m = Some m"
| "exch_loop (Suc n) x y m =
    (if x < length m \<and> y < length m then exch_loop n (Suc x) (Suc y) (m[x := m ! y, y := m ! x]) else None)"

definition exch :: "nat \<Rightarrow> u8 list \<Rightarrow> int \<Rightarrow> int \<Rightarrow> u8 list option" where
  "exch s m a b = (if a < 0 \<or> b < 0 then None else exch_loop s (nat a * s) (nat b * s) m)"

text \<open>The two scans, up to the last element and down to the first, and the partition they make up.\<close>

partial_function (option) scan_up :: "compar \<Rightarrow> nat \<Rightarrow> u8 list \<Rightarrow> int \<Rightarrow> int \<Rightarrow> int option" where
  "scan_up cmp s m r i = (let i = i + 1 in
     if i = r then Some i
     else do { x \<leftarrow> elem s m i; v \<leftarrow> elem s m r; if cmp x v < 0 then scan_up cmp s m r i else Some i })"

partial_function (option) scan_down :: "compar \<Rightarrow> nat \<Rightarrow> u8 list \<Rightarrow> int \<Rightarrow> int \<Rightarrow> int \<Rightarrow> int option" where
  "scan_down cmp s m l r j = (let j = j - 1 in
     do { v \<leftarrow> elem s m r; y \<leftarrow> elem s m j; if cmp v y < 0 \<and> j \<noteq> l then scan_down cmp s m l r j else Some j })"

definition keep_left :: "compar \<Rightarrow> nat \<Rightarrow> int \<Rightarrow> u8 list \<Rightarrow> int \<Rightarrow> int \<Rightarrow> (u8 list \<times> int) option" where
  "keep_left cmp s r m i p =
    do { x \<leftarrow> elem s m i; v \<leftarrow> elem s m r;
      if cmp x v = 0 then do { m \<leftarrow> exch s m (p + 1) i; Some (m, p + 1) } else Some (m, p) }"

definition keep_right :: "compar \<Rightarrow> nat \<Rightarrow> int \<Rightarrow> u8 list \<Rightarrow> int \<Rightarrow> int \<Rightarrow> (u8 list \<times> int) option" where
  "keep_right cmp s r m j q =
    do { v \<leftarrow> elem s m r; y \<leftarrow> elem s m j;
      if cmp v y = 0 then do { m \<leftarrow> exch s m j (q - 1); Some (m, q - 1) } else Some (m, q) }"

partial_function (option) partition3 ::
    "compar \<Rightarrow> nat \<Rightarrow> int \<Rightarrow> int \<Rightarrow> u8 list \<Rightarrow> int \<Rightarrow> int \<Rightarrow> int \<Rightarrow> int \<Rightarrow> (u8 list \<times> int \<times> int \<times> int) option" where
  "partition3 cmp s l r m i j p q =
    do { i \<leftarrow> scan_up cmp s m r i; j \<leftarrow> scan_down cmp s m l r j;
      if j \<le> i then Some (m, i, p, q)
      else do { m \<leftarrow> exch s m i j; (m, p) \<leftarrow> keep_left cmp s r m i p; (m, q) \<leftarrow> keep_right cmp s r m j q;
        partition3 cmp s l r m i j p q } }"

text \<open>The equal elements go from the ends to the middle.\<close>

function move_left :: "nat \<Rightarrow> u8 list \<Rightarrow> int \<Rightarrow> int \<Rightarrow> int \<Rightarrow> (u8 list \<times> int) option" where
  "move_left s m k p j = (if k < p then do { m \<leftarrow> exch s m k j; move_left s m (k + 1) p (j - 1) } else Some (m, j))"
  by pat_completeness auto
termination
  by (relation "measure (\<lambda>(s, m, k, p, j). nat (p - k))") auto

function move_right :: "nat \<Rightarrow> u8 list \<Rightarrow> int \<Rightarrow> int \<Rightarrow> int \<Rightarrow> (u8 list \<times> int) option" where
  "move_right s m k q i = (if q < k then do { m \<leftarrow> exch s m i k; move_right s m (k - 1) q (i + 1) } else Some (m, i))"
  by pat_completeness auto
termination
  by (relation "measure (\<lambda>(s, m, k, q, i). nat (k - q))") auto

declare move_left.simps [simp del] move_right.simps [simp del]

partial_function (option) quicksort :: "compar \<Rightarrow> nat \<Rightarrow> u8 list \<Rightarrow> int \<Rightarrow> int \<Rightarrow> u8 list option" where
  "quicksort cmp s m l r =
    (if r \<le> l then Some m
     else do { (m, i, p, q) \<leftarrow> partition3 cmp s l r m (l - 1) r (l - 1) r;
       m \<leftarrow> exch s m i r;
       (m, j) \<leftarrow> move_left s m l p (i - 1);
       (m, i) \<leftarrow> move_right s m (r - 1) q (i + 1);
       m \<leftarrow> quicksort cmp s m l j;
       quicksort cmp s m i r })"

definition qsort :: "compar \<Rightarrow> nat \<Rightarrow> nat \<Rightarrow> u8 list \<Rightarrow> u8 list option" where
  "qsort cmp nmemb sz m =
    (if 2 ^ 31 - 1 \<le> nmemb \<or> 2 ^ 31 - 1 \<le> sz then Some m
     else if 1 < nmemb then quicksort cmp sz m 0 (int nmemb - 1) else Some m)"

section \<open>Exchanging elements\<close>

definition swp :: "(int \<Rightarrow> 'a) \<Rightarrow> int \<Rightarrow> int \<Rightarrow> int \<Rightarrow> 'a" where
  "swp f a b = (\<lambda>k. if k = a then f b else if k = b then f a else f k)"

lemma exch_loop_bytes:
  assumes "x + n \<le> length m" "y + n \<le> length m" "x = y \<or> x + n \<le> y \<or> y + n \<le> x"
  shows "\<exists>m'. exch_loop n x y m = Some m' \<and> length m' = length m \<and>
    (\<forall>k < length m. m' ! k = (if x \<le> k \<and> k < x + n then m ! (y + (k - x)) else if y \<le> k \<and> k < y + n then m ! (x + (k - y)) else m ! k))"
  using assms
proof (induction n arbitrary: x y m)
  case (Suc n)
  let ?m = "m[x := m ! y, y := m ! x]"
  have "\<exists>m'. exch_loop n (Suc x) (Suc y) ?m = Some m' \<and> length m' = length ?m \<and>
    (\<forall>k < length ?m. m' ! k = (if Suc x \<le> k \<and> k < Suc x + n then ?m ! (Suc y + (k - Suc x))
      else if Suc y \<le> k \<and> k < Suc y + n then ?m ! (Suc x + (k - Suc y)) else ?m ! k))"
    using Suc.prems by (intro Suc.IH) auto
  then obtain m' where m': "exch_loop n (Suc x) (Suc y) ?m = Some m'" "length m' = length m"
    "\<And>k. k < length m \<Longrightarrow> m' ! k = (if Suc x \<le> k \<and> k < Suc x + n then ?m ! (Suc y + (k - Suc x))
      else if Suc y \<le> k \<and> k < Suc y + n then ?m ! (Suc x + (k - Suc y)) else ?m ! k)"
    by auto
  have "m' ! k = (if x \<le> k \<and> k < x + Suc n then m ! (y + (k - x)) else if y \<le> k \<and> k < y + Suc n then m ! (x + (k - y)) else m ! k)"
    if k: "k < length m" for k
  proof -
    have e: "Suc y + (k - Suc x) = y + (k - x)" if "Suc x \<le> k" using that by simp
    have e': "Suc x + (k - Suc y) = x + (k - y)" if "Suc y \<le> k" using that by simp
    consider "k = x" | "k = y" "k \<noteq> x" | "Suc x \<le> k" "k < x + Suc n" "k \<noteq> y" | "Suc y \<le> k" "k < y + Suc n" "k \<noteq> x" "\<not> (Suc x \<le> k \<and> k < x + Suc n)"
      | "\<not> (x \<le> k \<and> k < x + Suc n)" "\<not> (y \<le> k \<and> k < y + Suc n)"
      by linarith
    then show ?thesis
    proof cases
      case 3
      then have "y + (k - x) \<noteq> x" "y + (k - x) \<noteq> y" using Suc.prems(3) by linarith+
      with 3 m'(3) [OF k] e show ?thesis by simp
    next
      case 4
      then have "x + (k - y) \<noteq> x" "x + (k - y) \<noteq> y" using Suc.prems(3) by linarith+
      moreover have "\<not> (Suc x \<le> k \<and> k < Suc x + n)" "\<not> (x \<le> k \<and> k < x + Suc n)" "Suc x \<le> k \<or> k < x" using 4 by auto
      ultimately show ?thesis using 4(1,2) m'(3) [OF k] e' [OF 4(1)] by (elim disjE) simp_all
    qed (use m'(3) [OF k] Suc.prems k in auto)
  qed
  with m' Suc.prems show ?case by auto
qed auto

lemma block_apart:
  "0 \<le> c \<Longrightarrow> 0 \<le> a \<Longrightarrow> c \<noteq> a \<Longrightarrow> t < s \<Longrightarrow> \<not> (nat a * s \<le> nat c * s + t \<and> nat c * s + t < nat a * s + s)"
  using mult_le_mono1 [of "Suc (nat c)" "nat a" s] mult_le_mono1 [of "Suc (nat a)" "nat c" s]
  by (cases "c < a") (auto simp: Suc_le_eq)

lemma block_fits: "0 \<le> c \<Longrightarrow> c < int n \<Longrightarrow> nat c * s + s \<le> n * s"
  using mult_le_mono1 [of "Suc (nat c)" n s] by (simp add: Suc_le_eq nat_less_iff add.commute)

lemma elem_at_nth: "length m = n * s \<Longrightarrow> 0 \<le> k \<Longrightarrow> k < int n \<Longrightarrow> t < s \<Longrightarrow> elem_at s m k ! t = m ! (nat k * s + t)"
  using block_fits [of k n s] by (simp add: elem_at_def)

lemma elem_at_length: "length m = n * s \<Longrightarrow> 0 \<le> k \<Longrightarrow> k < int n \<Longrightarrow> length (elem_at s m k) = s"
  using block_fits [of k n s] by (simp add: elem_at_def)

lemma elem_at_outside: "length m = n * s \<Longrightarrow> k < 0 \<or> int n \<le> k \<Longrightarrow> elem_at s m k = []"
  using mult_le_mono1 [of n "nat k" s] by (auto simp: elem_at_def)

lemma elem_ok: "length m = n * s \<Longrightarrow> 0 \<le> k \<Longrightarrow> k < int n \<Longrightarrow> elem s m k = Some (elem_at s m k)"
  using block_fits [of k n s] by (simp add: elem_def add.commute)

lemma exch_ok:
  assumes m: "length m = n * s" and a: "0 \<le> a" "a < int n" and b: "0 \<le> b" "b < int n"
  obtains m' where "exch s m a b = Some m'" "length m' = n * s" "elem_at s m' = swp (elem_at s m) a b"
proof -
  define x where "x = nat a * s"
  define y where "y = nat b * s"
  have "x = y \<or> x + s \<le> y \<or> y + s \<le> x"
    using mult_le_mono1 [of "Suc (nat a)" "nat b" s] mult_le_mono1 [of "Suc (nat b)" "nat a" s]
    by (cases "nat a" "nat b" rule: linorder_cases) (auto simp: x_def y_def)
  moreover have "x + s \<le> length m" "y + s \<le> length m"
    using block_fits [of a n s] block_fits [of b n s] m a b by (simp_all add: x_def y_def)
  ultimately obtain m' where m': "exch_loop s x y m = Some m'" "length m' = length m"
    and nth: "\<And>k. k < length m \<Longrightarrow> m' ! k = (if x \<le> k \<and> k < x + s then m ! (y + (k - x)) else if y \<le> k \<and> k < y + s then m ! (x + (k - y)) else m ! k)"
    using exch_loop_bytes [of x s m y] by blast
  have "elem_at s m' c = swp (elem_at s m) a b c" for c
  proof (cases "0 \<le> c \<and> c < int n")
    case True
    have l: "length (elem_at s m c) = s" if "0 \<le> c" "c < int n" for c using elem_at_length [OF m that] .
    show ?thesis
    proof (rule nth_equalityI)
      show "length (elem_at s m' c) = length (swp (elem_at s m) a b c)"
        using l a b True elem_at_length [of m' n s c] m m' by (simp add: swp_def)
      fix t
      assume "t < length (elem_at s m' c)"
      then have t: "t < s" using True elem_at_length [of m' n s c] m m' by simp
      have k: "nat c * s + t < length m" using block_fits [of c n s] m True t by simp
      show "elem_at s m' c ! t = swp (elem_at s m) a b c ! t"
        using nth [OF k] t True a b m m' block_apart [of c a t s] block_apart [of c b t s]
        by (auto simp: swp_def elem_at_nth [of _ n] x_def y_def)
    qed
  next
    case False
    with a b m m' show ?thesis by (auto simp: swp_def elem_at_outside [of _ n])
  qed
  with m' m a b that show thesis by (auto simp: exch_def x_def y_def)
qed

text \<open>The elements of a part of the array are exchanged among themselves.\<close>

definition shuffled :: "nat \<Rightarrow> int \<Rightarrow> int \<Rightarrow> (int \<Rightarrow> 'a) \<Rightarrow> (int \<Rightarrow> 'a) \<Rightarrow> bool" where
  "shuffled n l r f g \<longleftrightarrow> mset (map (\<lambda>i. g (int i)) [0..<n]) = mset (map (\<lambda>i. f (int i)) [0..<n]) \<and>
     (\<forall>k. k < l \<or> r < k \<longrightarrow> g k = f k) \<and> g ` {l..r} \<subseteq> f ` {l..r}"

lemma shuffled_refl [simp]: "shuffled n l r f f"
  by (simp add: shuffled_def)

lemma shuffled_trans: "shuffled n l r f g \<Longrightarrow> shuffled n l r g h \<Longrightarrow> shuffled n l r f h"
  unfolding shuffled_def by (metis order_trans)

lemma shuffled_wider:
  assumes "shuffled n l r f g" "l' \<le> l" "r \<le> r'"
  shows "shuffled n l' r' f g"
proof -
  have "g k \<in> f ` {l'..r'}" if "k \<in> {l'..r'}" for k
  proof (cases "k \<in> {l..r}")
    case True
    then have "g k \<in> f ` {l..r}" using assms(1) by (auto simp: shuffled_def)
    then show ?thesis using assms(2,3) by auto
  next
    case False
    then have "g k = f k" using assms(1) by (auto simp: shuffled_def)
    with that show ?thesis by auto
  qed
  with assms show ?thesis by (auto simp: shuffled_def)
qed

lemma shuffled_swp:
  assumes "l \<le> a" "a \<le> r" "l \<le> b" "b \<le> r" "0 \<le> l" "r < int n"
  shows "shuffled n l r f (swp f a b)"
proof -
  let ?xs = "map (\<lambda>i. f (int i)) [0..<n]"
  have "map (\<lambda>i. swp f a b (int i)) [0..<n] = ?xs[nat a := ?xs ! nat b, nat b := ?xs ! nat a]"
    using assms by (intro nth_equalityI) (auto simp: swp_def nth_list_update)
  moreover have "mset (?xs[nat a := ?xs ! nat b, nat b := ?xs ! nat a]) = mset ?xs"
    using assms by (intro mset_swap) auto
  ultimately show ?thesis using assms by (auto simp: shuffled_def swp_def)
qed

lemma shuffled_all: "shuffled n l r f g \<Longrightarrow> (\<And>k. l \<le> k \<Longrightarrow> k \<le> r \<Longrightarrow> P (f k)) \<Longrightarrow> l \<le> k \<Longrightarrow> k \<le> r \<Longrightarrow> P (g k)"
  by (force simp: shuffled_def)

lemma shuffled_same: "shuffled n l r f g \<Longrightarrow> k < l \<or> r < k \<Longrightarrow> g k = f k"
  unfolding shuffled_def by blast

section \<open>One partition\<close>

text \<open>What the caller's comparison must be: a total preorder.\<close>

definition good_cmp :: "compar \<Rightarrow> bool" where
  "good_cmp cmp \<longleftrightarrow> (\<forall>a b. cmp a b < 0 \<longleftrightarrow> 0 < cmp b a) \<and> (\<forall>a b c. cmp a b \<le> 0 \<longrightarrow> cmp b c \<le> 0 \<longrightarrow> cmp a c \<le> 0)"

lemma good_cmp_turn: "good_cmp cmp \<Longrightarrow> cmp a b < 0 \<longleftrightarrow> 0 < cmp b a"
  by (simp add: good_cmp_def)

lemma good_cmp_zero: "good_cmp cmp \<Longrightarrow> cmp a b = 0 \<longleftrightarrow> cmp b a = 0"
  using good_cmp_turn [of cmp a b] good_cmp_turn [of cmp b a] by linarith

lemma good_cmp_self [simp]: "good_cmp cmp \<Longrightarrow> cmp a a = 0"
  using good_cmp_turn [of cmp a a] by linarith

lemma scan_up_ok:
  assumes "length m = n * s" "0 \<le> i + 1" "i < r" "r < int n"
  obtains i' where "scan_up cmp s m r i = Some i'" "i < i'" "i' \<le> r"
    "\<And>k. i < k \<Longrightarrow> k < i' \<Longrightarrow> cmp (elem_at s m k) (elem_at s m r) < 0" "i' = r \<or> \<not> cmp (elem_at s m i') (elem_at s m r) < 0"
  using assms(2,3)
proof (induction "nat (r - i)" arbitrary: i thesis rule: less_induct)
  case less
  note e = elem_ok [OF assms(1)]
  show ?case
  proof (cases "i + 1 = r \<or> \<not> cmp (elem_at s m (i + 1)) (elem_at s m r) < 0")
    case True
    then show ?thesis using less.prems assms e [of "i + 1"] e [of r]
      by (intro less.prems(1) [of "i + 1"]) (auto simp: scan_up.simps [of cmp s m r i] Let_def)
  next
    case False
    obtain i' where "scan_up cmp s m r (i + 1) = Some i'" "i + 1 < i'" "i' \<le> r"
      "\<And>k. i + 1 < k \<Longrightarrow> k < i' \<Longrightarrow> cmp (elem_at s m k) (elem_at s m r) < 0" "i' = r \<or> \<not> cmp (elem_at s m i') (elem_at s m r) < 0"
      by (rule less.hyps [of "i + 1"]) (use less.prems False in auto)
    moreover from this have "cmp (elem_at s m k) (elem_at s m r) < 0" if "i < k" "k < i'" for k
      using that False by (cases "k = i + 1") auto
    ultimately show ?thesis using less.prems assms False e [of "i + 1"] e [of r]
      by (intro less.prems(1) [of i']) (auto simp: scan_up.simps [of cmp s m r i] Let_def)
  qed
qed

lemma scan_down_ok:
  assumes "length m = n * s" "0 \<le> l" "l < j" "j \<le> r" "r < int n"
  obtains j' where "scan_down cmp s m l r j = Some j'" "l \<le> j'" "j' < j"
    "\<And>k. j' < k \<Longrightarrow> k < j \<Longrightarrow> cmp (elem_at s m r) (elem_at s m k) < 0" "j' = l \<or> \<not> cmp (elem_at s m r) (elem_at s m j') < 0"
  using assms(3,4)
proof (induction "nat (j - l)" arbitrary: j thesis rule: less_induct)
  case less
  note e = elem_ok [OF assms(1)]
  show ?case
  proof (cases "j - 1 = l \<or> \<not> cmp (elem_at s m r) (elem_at s m (j - 1)) < 0")
    case True
    then show ?thesis using less.prems assms e [of "j - 1"] e [of r]
      by (intro less.prems(1) [of "j - 1"]) (auto simp: scan_down.simps [of cmp s m l r j] Let_def)
  next
    case False
    obtain j' where "scan_down cmp s m l r (j - 1) = Some j'" "l \<le> j'" "j' < j - 1"
      "\<And>k. j' < k \<Longrightarrow> k < j - 1 \<Longrightarrow> cmp (elem_at s m r) (elem_at s m k) < 0" "j' = l \<or> \<not> cmp (elem_at s m r) (elem_at s m j') < 0"
      by (rule less.hyps [of "j - 1"]) (use less.prems False in auto)
    moreover from this have "cmp (elem_at s m r) (elem_at s m k) < 0" if "j' < k" "k < j" for k
      using that False by (cases "k = j - 1") auto
    ultimately show ?thesis using less.prems assms False e [of "j - 1"] e [of r]
      by (intro less.prems(1) [of j']) (auto simp: scan_down.simps [of cmp s m l r j] Let_def)
  qed
qed

lemma keep_left_ok:
  assumes "length m = n * s" "good_cmp cmp" "0 \<le> l" "l \<le> p + 1" "p < i" "i < r" "r < int n" "elem_at s m r = v"
    and "\<And>k. l \<le> k \<Longrightarrow> k \<le> p \<Longrightarrow> cmp (elem_at s m k) v = 0" "\<And>k. p < k \<Longrightarrow> k < i \<Longrightarrow> cmp (elem_at s m k) v < 0"
    and "cmp (elem_at s m i) v \<le> 0"
  obtains m' p' where "keep_left cmp s r m i p = Some (m', p')" "length m' = n * s" "shuffled n l i (elem_at s m) (elem_at s m')" "p \<le> p'" "p' \<le> i"
    "\<And>k. l \<le> k \<Longrightarrow> k \<le> p' \<Longrightarrow> cmp (elem_at s m' k) v = 0" "\<And>k. p' < k \<Longrightarrow> k \<le> i \<Longrightarrow> cmp (elem_at s m' k) v < 0"
proof (cases "cmp (elem_at s m i) v = 0")
  case True
  obtain m' where m': "exch s m (p + 1) i = Some m'" "length m' = n * s" "elem_at s m' = swp (elem_at s m) (p + 1) i"
    by (rule exch_ok [of m n s "p + 1" i]) (use assms in auto)
  show thesis
  proof (rule that [of m' "p + 1"])
    show "keep_left cmp s r m i p = Some (m', p + 1)"
      using assms True m'(1) elem_ok [OF assms(1), of i] elem_ok [OF assms(1), of r] by (simp add: keep_left_def)
    show "shuffled n l i (elem_at s m) (elem_at s m')"
      unfolding m'(3) by (rule shuffled_swp) (use assms in auto)
    show "cmp (elem_at s m' k) v = 0" if "l \<le> k" "k \<le> p + 1" for k
      using that True assms(5) assms(9) [of k] unfolding m'(3) swp_def by (cases "k = p + 1") auto
    show "cmp (elem_at s m' k) v < 0" if "p + 1 < k" "k \<le> i" for k
      using that assms(10) [of k] assms(10) [of "p + 1"] unfolding m'(3) swp_def by (cases "k = i") auto
  qed (use m' assms in auto)
next
  case False
  show thesis
  proof (rule that [of m p])
    show "keep_left cmp s r m i p = Some (m, p)"
      using assms False elem_ok [OF assms(1), of i] elem_ok [OF assms(1), of r] by (simp add: keep_left_def)
    show "cmp (elem_at s m k) v < 0" if "p < k" "k \<le> i" for k
      using that assms(10) [of k] assms(11) False by (cases "k = i") auto
  qed (use assms in auto)
qed

lemma keep_right_ok:
  assumes "length m = n * s" "good_cmp cmp" "0 \<le> j" "j < q" "q \<le> r" "r < int n" "elem_at s m r = v"
    and "\<And>k. q \<le> k \<Longrightarrow> k < r \<Longrightarrow> cmp v (elem_at s m k) = 0" "\<And>k. j < k \<Longrightarrow> k < q \<Longrightarrow> cmp v (elem_at s m k) < 0"
    and "cmp v (elem_at s m j) \<le> 0"
  obtains m' q' where "keep_right cmp s r m j q = Some (m', q')" "length m' = n * s" "shuffled n j (r - 1) (elem_at s m) (elem_at s m')" "q' \<le> q" "j \<le> q'"
    "\<And>k. q' \<le> k \<Longrightarrow> k < r \<Longrightarrow> cmp v (elem_at s m' k) = 0" "\<And>k. j \<le> k \<Longrightarrow> k < q' \<Longrightarrow> cmp v (elem_at s m' k) < 0"
proof (cases "cmp v (elem_at s m j) = 0")
  case True
  obtain m' where m': "exch s m j (q - 1) = Some m'" "length m' = n * s" "elem_at s m' = swp (elem_at s m) j (q - 1)"
    by (rule exch_ok [of m n s j "q - 1"]) (use assms in auto)
  show thesis
  proof (rule that [of m' "q - 1"])
    show "keep_right cmp s r m j q = Some (m', q - 1)"
      using assms True m'(1) elem_ok [OF assms(1), of j] elem_ok [OF assms(1), of r] by (simp add: keep_right_def)
    show "shuffled n j (r - 1) (elem_at s m) (elem_at s m')"
      unfolding m'(3) by (rule shuffled_swp) (use assms in auto)
    show "cmp v (elem_at s m' k) = 0" if "q - 1 \<le> k" "k < r" for k
      using that True assms(4) assms(8) [of k] unfolding m'(3) swp_def by (cases "k = q - 1") auto
    show "cmp v (elem_at s m' k) < 0" if "j \<le> k" "k < q - 1" for k
      using that assms(9) [of k] assms(9) [of "q - 1"] unfolding m'(3) swp_def by (cases "k = j") auto
  qed (use m' assms in auto)
next
  case False
  show thesis
  proof (rule that [of m q])
    show "keep_right cmp s r m j q = Some (m, q)"
      using assms False elem_ok [OF assms(1), of j] elem_ok [OF assms(1), of r] by (simp add: keep_right_def)
    show "cmp v (elem_at s m k) < 0" if "j \<le> k" "k < q" for k
      using that assms(9) [of k] assms(10) False by (cases "k = j") auto
  qed (use assms in auto)
qed

text \<open>The loop keeps equal elements at both ends, smaller ones next to the left and greater ones next to the right.\<close>

definition parted :: "compar \<Rightarrow> int \<Rightarrow> int \<Rightarrow> u8 list \<Rightarrow> (int \<Rightarrow> u8 list) \<Rightarrow> int \<Rightarrow> int \<Rightarrow> int \<Rightarrow> int \<Rightarrow> bool" where
  "parted cmp l r v f i j p q \<longleftrightarrow> l - 1 \<le> p \<and> p \<le> i \<and> i < j \<and> l < j \<and> j \<le> q \<and> q \<le> r \<and> f r = v \<and>
     (\<forall>k. l \<le> k \<longrightarrow> k \<le> p \<longrightarrow> cmp (f k) v = 0) \<and> (\<forall>k. p < k \<longrightarrow> k \<le> i \<longrightarrow> cmp (f k) v < 0) \<and>
     (\<forall>k. j \<le> k \<longrightarrow> k < q \<longrightarrow> cmp v (f k) < 0) \<and> (\<forall>k. q \<le> k \<longrightarrow> k < r \<longrightarrow> cmp v (f k) = 0)"

text \<open>What it leaves when the scans have met.\<close>

definition met :: "compar \<Rightarrow> int \<Rightarrow> int \<Rightarrow> u8 list \<Rightarrow> (int \<Rightarrow> u8 list) \<Rightarrow> int \<Rightarrow> int \<Rightarrow> int \<Rightarrow> bool" where
  "met cmp l r v f i p q \<longleftrightarrow> l - 1 \<le> p \<and> p < i \<and> l \<le> i \<and> i \<le> q \<and> q \<le> r \<and> f r = v \<and>
     (\<forall>k. l \<le> k \<longrightarrow> k < i \<longrightarrow> cmp (f k) v \<le> 0) \<and> (\<forall>k. l \<le> k \<longrightarrow> k \<le> p \<longrightarrow> cmp (f k) v = 0) \<and>
     (\<forall>k. i \<le> k \<longrightarrow> k < r \<longrightarrow> cmp v (f k) \<le> 0) \<and> (\<forall>k. q \<le> k \<longrightarrow> k < r \<longrightarrow> cmp v (f k) = 0)"

lemma parted_met:
  assumes "good_cmp cmp" "parted cmp l r v f i j p q" "i < i'" "i' \<le> r" "j' < j" "l \<le> j'" "j' \<le> i'"
    and up: "\<And>k. i < k \<Longrightarrow> k < i' \<Longrightarrow> cmp (f k) v < 0" "i' = r \<or> \<not> cmp (f i') v < 0"
    and down: "\<And>k. j' < k \<Longrightarrow> k < j \<Longrightarrow> cmp v (f k) < 0"
  shows "met cmp l r v f i' p q"
proof -
  note t = good_cmp_turn [OF assms(1)] and z = good_cmp_zero [OF assms(1)]
  note P = assms(2) [unfolded parted_def]
  have "i' \<le> q"
  proof (rule ccontr)
    assume "\<not> i' \<le> q"
    then have "cmp (f q) v < 0" "cmp v (f q) = 0" using P up(1) [of q] assms(4) by auto
    with z show False by force
  qed
  moreover have "cmp (f k) v \<le> 0" if "l \<le> k" "k < i'" for k
    using P up(1) [of k] that by (smt (verit))
  moreover have "cmp v (f k) \<le> 0" if "i' \<le> k" "k < r" for k
  proof -
    note ik = that
    consider "k = i'" | "j' < k" "k < j" | "j \<le> k"
      using ik assms(7) by (cases "k = i'"; cases "j \<le> k") auto
    then show ?thesis
    proof cases
      case 1
      with up(2) that t [of v "f i'"] z [of v "f i'"] show ?thesis by (smt (verit) t)
    next
      case 2
      with down [of k] show ?thesis by simp
    next
      case 3
      with P that show ?thesis by (cases "k < q") (auto intro: order.strict_implies_order)
    qed
  qed
  ultimately show ?thesis using P assms(3-7) by (auto simp: met_def)
qed

lemma partition3_ok:
  assumes "good_cmp cmp" "0 \<le> l" "r < int n"
    and "length m = n * s" "parted cmp l r v (elem_at s m) i j p q"
  obtains m' i' p' q' where "partition3 cmp s l r m i j p q = Some (m', i', p', q')" "length m' = n * s" "i' \<le> r"
    "shuffled n l (r - 1) (elem_at s m) (elem_at s m')" "met cmp l r v (elem_at s m') i' p' q'"
  using assms(4,5)
proof (induction "nat (j - i)" arbitrary: m i j p q thesis rule: less_induct)
  case less
  note P = less.prems(3) [unfolded parted_def] and m = less.prems(2)
  have v: "elem_at s m r = v" using P by simp
  obtain i' where i': "scan_up cmp s m r i = Some i'" "i < i'" "i' \<le> r"
    "\<And>k. i < k \<Longrightarrow> k < i' \<Longrightarrow> cmp (elem_at s m k) v < 0" "i' = r \<or> \<not> cmp (elem_at s m i') v < 0"
    using scan_up_ok [of m n s i r cmp] m P v assms by auto
  obtain j' where j': "scan_down cmp s m l r j = Some j'" "l \<le> j'" "j' < j"
    "\<And>k. j' < k \<Longrightarrow> k < j \<Longrightarrow> cmp v (elem_at s m k) < 0" "j' = l \<or> \<not> cmp v (elem_at s m j') < 0"
    using scan_down_ok [of m n s l j r cmp] m P v assms by auto
  show ?case
  proof (cases "j' \<le> i'")
    case True
    have "met cmp l r v (elem_at s m) i' p q"
      using parted_met [OF assms(1) less.prems(3) i'(2,3) j'(3,2) True i'(4,5) j'(4)] by blast
    with True i' j' m show ?thesis
      by (intro less.prems(1) [of m i' p q]) (auto simp: partition3.simps [of cmp s l r m i j p q])
  next
    case False
    then have b: "i' < j'" "j' < r" "i' < r" using j' P by auto
    have le: "cmp v (elem_at s m i') \<le> 0" "cmp (elem_at s m j') v \<le> 0"
      using i'(5) j'(5) b i'(2) P good_cmp_turn [OF assms(1), of v "elem_at s m i'"] good_cmp_turn [OF assms(1)] by (smt (verit))+
    obtain m1 where m1: "exch s m i' j' = Some m1" "length m1 = n * s" "elem_at s m1 = swp (elem_at s m) i' j'"
      by (rule exch_ok [OF m, of i' j']) (use b i' P assms in auto)
    have s1: "shuffled n l (r - 1) (elem_at s m) (elem_at s m1)"
      unfolding m1(3) by (rule shuffled_swp) (use b i' P assms in auto)
    obtain m2 p2 where m2: "keep_left cmp s r m1 i' p = Some (m2, p2)" "length m2 = n * s" "shuffled n l i' (elem_at s m1) (elem_at s m2)" "p \<le> p2" "p2 \<le> i'"
      "\<And>k. l \<le> k \<Longrightarrow> k \<le> p2 \<Longrightarrow> cmp (elem_at s m2 k) v = 0" "\<And>k. p2 < k \<Longrightarrow> k \<le> i' \<Longrightarrow> cmp (elem_at s m2 k) v < 0"
    proof (rule keep_left_ok [of m1 n s cmp l p i' r v])
      show "cmp (elem_at s m1 k) v < 0" if "p < k" "k < i'" for k
        using that b P i'(4) [of k] unfolding m1(3) swp_def by (cases "k \<le> i") auto
    qed (use m1 b i' P assms le v in \<open>auto simp: swp_def\<close>)
    have same2: "elem_at s m2 k = elem_at s m1 k" if "i' < k" for k
      using shuffled_same [OF m2(3)] that by blast
    obtain m3 q3 where m3: "keep_right cmp s r m2 j' q = Some (m3, q3)" "length m3 = n * s" "shuffled n j' (r - 1) (elem_at s m2) (elem_at s m3)" "q3 \<le> q" "j' \<le> q3"
      "\<And>k. q3 \<le> k \<Longrightarrow> k < r \<Longrightarrow> cmp v (elem_at s m3 k) = 0" "\<And>k. j' \<le> k \<Longrightarrow> k < q3 \<Longrightarrow> cmp v (elem_at s m3 k) < 0"
    proof (rule keep_right_ok [of m2 n s cmp j' q r v])
      show "cmp v (elem_at s m2 k) < 0" if "j' < k" "k < q" for k
        using that b P j'(4) [of k] same2 [of k] unfolding m1(3) swp_def by (cases "j \<le> k") auto
      show "cmp v (elem_at s m2 k) = 0" if "q \<le> k" "k < r" for k
        using that b P j' same2 [of k] unfolding m1(3) swp_def by auto
    qed (use m2(2) b j' i' P assms le v same2 [of r] same2 [of j'] m1(3) in \<open>auto simp: swp_def\<close>)
    have same3: "elem_at s m3 k = elem_at s m2 k" if "k < j' \<or> r - 1 < k" for k
      using shuffled_same [OF m3(3)] that by blast
    have inv: "parted cmp l r v (elem_at s m3) i' j' p2 q3"
      using m2(4-7) m3(4-7) same3 same2 [of r] b i'(2) P v m1(3) by (auto simp: parted_def swp_def)
    have s3: "shuffled n l (r - 1) (elem_at s m) (elem_at s m3)"
      using s1 shuffled_wider [OF m2(3), of l "r - 1"] shuffled_wider [OF m3(3), of l "r - 1"] b j'(2) by (auto intro: shuffled_trans)
    obtain m' i'' p' q' where f: "partition3 cmp s l r m3 i' j' p2 q3 = Some (m', i'', p', q')" "length m' = n * s" "i'' \<le> r"
      "shuffled n l (r - 1) (elem_at s m3) (elem_at s m')" "met cmp l r v (elem_at s m') i'' p' q'"
      by (rule less.hyps [of j' i' m3 p2 q3]) (use i' j' b m3(2) inv P in auto)
    show ?thesis
    proof (rule less.prems(1))
      show "partition3 cmp s l r m i j p q = Some (m', i'', p', q')"
        using False i'(1) j'(1) m1(1) m2(1) m3(1) f(1) by (simp add: partition3.simps [of cmp s l r m i j p q])
      show "shuffled n l (r - 1) (elem_at s m) (elem_at s m')" using s3 f(4) by (rule shuffled_trans)
    qed (use f in auto)
  qed
qed

section \<open>Equal elements to the middle\<close>

text \<open>
  The left loop exchanges positions whose sum stays the same; positions not yet passed below the last equal
  element, positions passed from above and the images of such below hold equal elements.
\<close>

lemma move_left_ok:
  assumes "length m = n * s" "0 \<le> l" "h < int n" "l \<le> k" "k + j = l + h" "p \<le> h"
    and "\<And>x. l \<le> x \<Longrightarrow> x \<le> h \<Longrightarrow> (k \<le> x \<and> x \<le> p) \<or> j < x \<or> (x < k \<and> l + h - x \<le> p) \<Longrightarrow> E (elem_at s m x)"
  obtains m' j' where "move_left s m k p j = Some (m', j')" "length m' = n * s" "shuffled n l h (elem_at s m) (elem_at s m')"
    "j' = j - max 0 (p - k)" "\<And>x. l \<le> x \<Longrightarrow> j' < x \<Longrightarrow> x \<le> h \<Longrightarrow> E (elem_at s m' x)"
  using assms(1,4-)
proof (induction "nat (p - k)" arbitrary: m k j thesis rule: less_induct)
  case less
  show ?case
  proof (cases "k < p")
    case True
    have j: "l \<le> j" "j \<le> h" using True less.prems(3,4,5) by linarith+
    have k: "l \<le> k" "k \<le> h" using True less.prems(3,5) by linarith+
    obtain m1 where m1: "exch s m k j = Some m1" "length m1 = n * s" "elem_at s m1 = swp (elem_at s m) k j"
      by (rule exch_ok [OF less.prems(2), of k j]) (use j k assms(2,3) in auto)
    have E: "E (elem_at s m1 x)" if x: "l \<le> x" "x \<le> h"
        "(k + 1 \<le> x \<and> x \<le> p) \<or> j - 1 < x \<or> (x < k + 1 \<and> l + h - x \<le> p)" for x
    proof (cases "x = j")
      case True
      then show ?thesis using less.prems(6) [of k] \<open>k < p\<close> k j unfolding m1(3) swp_def by auto
    next
      case False
      show ?thesis
      proof (cases "x = k")
        case True
        have "E (elem_at s m j)" using less.prems(6) [of j] x(3) True False j k \<open>k < p\<close> less.prems(4) by (cases "k \<le> j") auto
        with True show ?thesis unfolding m1(3) swp_def by simp
      next
        case xk: False
        have "E (elem_at s m x)" using less.prems(6) [of x] x xk False by auto
        with xk False show ?thesis unfolding m1(3) swp_def by simp
      qed
    qed
    obtain m' j' where f: "move_left s m1 (k + 1) p (j - 1) = Some (m', j')" "length m' = n * s" "shuffled n l h (elem_at s m1) (elem_at s m')"
      "j' = j - 1 - max 0 (p - (k + 1))" "\<And>x. l \<le> x \<Longrightarrow> j' < x \<Longrightarrow> x \<le> h \<Longrightarrow> E (elem_at s m' x)"
      by (rule less.hyps [of "k + 1" m1 "j - 1"]) (use True m1(2) less.prems(3,4,5) E in auto)
    have "shuffled n l h (elem_at s m) (elem_at s m1)"
      unfolding m1(3) by (rule shuffled_swp) (use j k assms(2,3) in auto)
    with f m1(1) True show ?thesis
      by (intro less.prems(1) [of m' j']) (auto simp: move_left.simps [of s m k] intro: shuffled_trans)
  next
    case False
    with less.prems(2-) show ?thesis by (intro less.prems(1) [of m j]) (auto simp: move_left.simps [of s m k])
  qed
qed

lemma move_right_ok:
  assumes "length m = n * s" "0 \<le> h" "u < int n" "k \<le> u" "k + i = h + u" "h \<le> q + 1"
    and "\<And>x. h \<le> x \<Longrightarrow> x \<le> u \<Longrightarrow> (x \<le> k \<and> q \<le> x) \<or> x < i \<or> (k < x \<and> q \<le> h + u - x) \<Longrightarrow> E (elem_at s m x)"
  obtains m' i' where "move_right s m k q i = Some (m', i')" "length m' = n * s" "shuffled n h u (elem_at s m) (elem_at s m')"
    "i' = i + max 0 (k - q)" "\<And>x. h \<le> x \<Longrightarrow> x < i' \<Longrightarrow> x \<le> u \<Longrightarrow> E (elem_at s m' x)"
  using assms(1,4-)
proof (induction "nat (k - q)" arbitrary: m k i thesis rule: less_induct)
  case less
  show ?case
  proof (cases "q < k")
    case True
    have i: "h \<le> i" "i \<le> u" using True less.prems(3,4,5) by linarith+
    have k: "h \<le> k" "k \<le> u" using True less.prems(3,5) by linarith+
    obtain m1 where m1: "exch s m i k = Some m1" "length m1 = n * s" "elem_at s m1 = swp (elem_at s m) i k"
      by (rule exch_ok [OF less.prems(2), of i k]) (use i k assms(2,3) in auto)
    have E: "E (elem_at s m1 x)" if x: "h \<le> x" "x \<le> u"
        "(x \<le> k - 1 \<and> q \<le> x) \<or> x < i + 1 \<or> (k - 1 < x \<and> q \<le> h + u - x)" for x
    proof (cases "x = i")
      case True
      then show ?thesis using less.prems(6) [of k] \<open>q < k\<close> k i unfolding m1(3) swp_def by auto
    next
      case False
      show ?thesis
      proof (cases "x = k")
        case True
        have "E (elem_at s m i)" using less.prems(6) [of i] x(3) True False i k \<open>q < k\<close> less.prems(4) by (cases "i \<le> k") auto
        with True False show ?thesis unfolding m1(3) swp_def by simp
      next
        case xk: False
        have "E (elem_at s m x)" using less.prems(6) [of x] x xk False by auto
        with xk False show ?thesis unfolding m1(3) swp_def by simp
      qed
    qed
    obtain m' i' where f: "move_right s m1 (k - 1) q (i + 1) = Some (m', i')" "length m' = n * s" "shuffled n h u (elem_at s m1) (elem_at s m')"
      "i' = i + 1 + max 0 (k - 1 - q)" "\<And>x. h \<le> x \<Longrightarrow> x < i' \<Longrightarrow> x \<le> u \<Longrightarrow> E (elem_at s m' x)"
      by (rule less.hyps [of "k - 1" m1 "i + 1"]) (use True m1(2) less.prems(3,4,5) E in auto)
    have "shuffled n h u (elem_at s m) (elem_at s m1)"
      unfolding m1(3) by (rule shuffled_swp) (use i k assms(2,3) in auto)
    with f m1(1) True show ?thesis
      by (intro less.prems(1) [of m' i']) (auto simp: move_right.simps [of s m k] intro: shuffled_trans)
  next
    case False
    with less.prems(2-) show ?thesis by (intro less.prems(1) [of m i]) (auto simp: move_right.simps [of s m k])
  qed
qed

section \<open>The whole sort\<close>

lemma good_cmp_trans: "good_cmp cmp \<Longrightarrow> cmp a b \<le> 0 \<Longrightarrow> cmp b c \<le> 0 \<Longrightarrow> cmp a c \<le> 0"
  unfolding good_cmp_def by blast

text \<open>One round before the recursive calls: smaller elements, equal ones and greater ones, in this order.\<close>

definition cut :: "compar \<Rightarrow> nat \<Rightarrow> u8 list \<Rightarrow> int \<Rightarrow> int \<Rightarrow> (u8 list \<times> int \<times> int) option" where
  "cut cmp s m l r =
    do { (m, i, p, q) \<leftarrow> partition3 cmp s l r m (l - 1) r (l - 1) r;
       m \<leftarrow> exch s m i r;
       (m, j) \<leftarrow> move_left s m l p (i - 1);
       (m, i) \<leftarrow> move_right s m (r - 1) q (i + 1);
       Some (m, j, i) }"

lemma quicksort_cut:
  "l < r \<Longrightarrow> quicksort cmp s m l r = do { (m, j, i) \<leftarrow> cut cmp s m l r; m \<leftarrow> quicksort cmp s m l j; quicksort cmp s m i r }"
  by (subst quicksort.simps) (simp add: cut_def split: prod.split bind_split)

lemma cut_ok:
  assumes g: "good_cmp cmp" and b: "0 \<le> l" "l < r" "r < int n" and m: "length m = n * s"
  obtains m' j i v where "cut cmp s m l r = Some (m', j, i)" "length m' = n * s" "shuffled n l r (elem_at s m) (elem_at s m')"
    "j < r" "l < i" "j < i" "\<And>k. l \<le> k \<Longrightarrow> k < i \<Longrightarrow> k \<le> r \<Longrightarrow> cmp (elem_at s m' k) v \<le> 0" "\<And>k. j < k \<Longrightarrow> l \<le> k \<Longrightarrow> k \<le> r \<Longrightarrow> cmp v (elem_at s m' k) \<le> 0"
proof -
  define v where "v = elem_at s m r"
  have "parted cmp l r v (elem_at s m) (l - 1) r (l - 1) r" using b by (simp add: parted_def v_def)
  then obtain m0 i p q where m0: "partition3 cmp s l r m (l - 1) r (l - 1) r = Some (m0, i, p, q)" "length m0 = n * s" "i \<le> r"
    "shuffled n l (r - 1) (elem_at s m) (elem_at s m0)" "met cmp l r v (elem_at s m0) i p q"
    using partition3_ok [OF g b(1,3) m] by metis
  note M = m0(5) [unfolded met_def]
  have z: "cmp x v = 0 \<Longrightarrow> cmp v x = 0" for x using good_cmp_zero [OF g] by blast
  obtain m1 where m1: "exch s m0 i r = Some m1" "length m1 = n * s" "elem_at s m1 = swp (elem_at s m0) i r"
    by (rule exch_ok [OF m0(2), of i r]) (use b M m0(3) in auto)
  have s1: "shuffled n l r (elem_at s m0) (elem_at s m1)"
    unfolding m1(3) by (rule shuffled_swp) (use b M m0(3) in auto)
  have l1: "cmp (elem_at s m1 k) v \<le> 0" if "l \<le> k" "k \<le> i" for k
    using that M m0(3) g unfolding m1(3) swp_def by (cases "k = i") auto
  have g1: "cmp v (elem_at s m1 k) \<le> 0" if "i \<le> k" "k \<le> r" for k
    using that M m0(3) g unfolding m1(3) swp_def by (cases "k = i"; cases "k = r") auto
  have p1: "cmp (elem_at s m1 k) v = 0" if "l \<le> k" "k \<le> p" for k
    using that M m0(3) unfolding m1(3) swp_def by auto
  have q1: "cmp v (elem_at s m1 k) = 0" if "q \<le> k" "k < r" "i < k" for k
    using that M m0(3) unfolding m1(3) swp_def by auto
  obtain m2 j where m2: "move_left s m1 l p (i - 1) = Some (m2, j)" "length m2 = n * s" "shuffled n l (i - 1) (elem_at s m1) (elem_at s m2)"
    "j = i - 1 - max 0 (p - l)" "\<And>x. l \<le> x \<Longrightarrow> j < x \<Longrightarrow> x \<le> i - 1 \<Longrightarrow> cmp (elem_at s m2 x) v = 0"
    by (rule move_left_ok [OF m1(2) b(1), of "i - 1" l "i - 1" p "\<lambda>x. cmp x v = 0"]) (use M m0(3) b p1 in auto)
  have same2: "elem_at s m2 k = elem_at s m1 k" if "i \<le> k" for k using shuffled_same [OF m2(3)] that by auto
  obtain m3 i' where m3: "move_right s m2 (r - 1) q (i + 1) = Some (m3, i')" "length m3 = n * s" "shuffled n (i + 1) (r - 1) (elem_at s m2) (elem_at s m3)"
    "i' = i + 1 + max 0 (r - 1 - q)" "\<And>x. i + 1 \<le> x \<Longrightarrow> x < i' \<Longrightarrow> x \<le> r - 1 \<Longrightarrow> cmp v (elem_at s m3 x) = 0"
    by (rule move_right_ok [OF m2(2), of "i + 1" "r - 1" "r - 1" "i + 1" q "\<lambda>x. cmp v x = 0"]) (use M m0(3) b q1 same2 in auto)
  have same3: "elem_at s m3 k = elem_at s m2 k" if "k \<le> i \<or> r \<le> k" for k using shuffled_same [OF m3(3)] that by auto
  have l2: "cmp (elem_at s m2 k) v \<le> 0" if "l \<le> k" "k \<le> i - 1" for k
    by (rule shuffled_all [OF m2(3) _ that, of "\<lambda>x. cmp x v \<le> 0"]) (use l1 in auto)
  have g3: "cmp v (elem_at s m3 k) \<le> 0" if "i + 1 \<le> k" "k \<le> r - 1" for k
    by (rule shuffled_all [OF m3(3) _ that, of "\<lambda>x. cmp v x \<le> 0"]) (use g1 same2 in auto)
  have i': "i < i'" "i' \<le> r \<or> i' = i + 1" using m3(4) M by auto
  show thesis
  proof (rule that [of m3 j i' v])
    show "cut cmp s m l r = Some (m3, j, i')" by (simp add: cut_def m0(1) m1(1) m2(1) m3(1))
    show "shuffled n l r (elem_at s m) (elem_at s m3)"
      using shuffled_wider [OF m0(4), of l r] s1 shuffled_wider [OF m2(3), of l r] shuffled_wider [OF m3(3), of l r] M m0(3)
      by (auto intro: shuffled_trans)
    show "j < r" "l < i'" "j < i'" using m2(4) i' M m0(3) by auto
    show "cmp (elem_at s m3 k) v \<le> 0" if "l \<le> k" "k < i'" "k \<le> r" for k
    proof -
      note k = that
      consider "k \<le> i - 1" | "k = i" | "i + 1 \<le> k" "k \<le> r - 1"
        using k i' by (cases "k \<le> i - 1"; cases "k = i") auto
      then show ?thesis
      proof cases
        case 3
        with m3(5) [of k] that z show ?thesis using good_cmp_zero [OF g] by (metis order_refl)
      qed (use l2 l1 same3 same2 that in auto)
    qed
    show "cmp v (elem_at s m3 k) \<le> 0" if "j < k" "l \<le> k" "k \<le> r" for k
    proof -
      note k = that
      consider "k \<le> i - 1" | "k = i" | "i + 1 \<le> k" "k \<le> r - 1" | "i < k" "k = r"
        using k by (cases "k \<le> i - 1"; cases "k = i"; cases "k = r") auto
      then show ?thesis
      proof cases
        case 1
        with m2(5) [of k] that z same3 [of k] show ?thesis by simp
      qed (use g1 g3 same3 same2 that m0(3) in auto)
    qed
  qed (rule m3(2))
qed

lemma quicksort_ok:
  assumes g: "good_cmp cmp" and "0 \<le> l" "r < int n" "length m = n * s"
  shows "\<exists>m'. quicksort cmp s m l r = Some m' \<and> length m' = n * s \<and> shuffled n l r (elem_at s m) (elem_at s m') \<and>
    (\<forall>a b. l \<le> a \<longrightarrow> a \<le> b \<longrightarrow> b \<le> r \<longrightarrow> cmp (elem_at s m' a) (elem_at s m' b) \<le> 0)"
  using assms(2-)
proof (induction "nat (r - l)" arbitrary: l r m rule: less_induct)
  case less
  show ?case
  proof (cases "l < r")
    case False
    then have "cmp (elem_at s m a) (elem_at s m b) \<le> 0" if "l \<le> a" "a \<le> b" "b \<le> r" for a b
      using that g by (cases "a = b") auto
    moreover have "quicksort cmp s m l r = Some m" using False by (simp add: quicksort.simps [of cmp s m l r])
    ultimately show ?thesis using less.prems by simp
  next
    case True
    obtain m1 j i v where m1: "cut cmp s m l r = Some (m1, j, i)" "length m1 = n * s" "shuffled n l r (elem_at s m) (elem_at s m1)"
      "j < r" "l < i" "j < i" and L: "\<And>k. l \<le> k \<Longrightarrow> k < i \<Longrightarrow> k \<le> r \<Longrightarrow> cmp (elem_at s m1 k) v \<le> 0"
      and G: "\<And>k. j < k \<Longrightarrow> l \<le> k \<Longrightarrow> k \<le> r \<Longrightarrow> cmp v (elem_at s m1 k) \<le> 0"
      using cut_ok [OF g less.prems(1) True less.prems(2,3)] by metis
    obtain m2 where m2: "quicksort cmp s m1 l j = Some m2" "length m2 = n * s" "shuffled n l j (elem_at s m1) (elem_at s m2)"
      and S2: "\<And>a b. l \<le> a \<Longrightarrow> a \<le> b \<Longrightarrow> b \<le> j \<Longrightarrow> cmp (elem_at s m2 a) (elem_at s m2 b) \<le> 0"
      using less.hyps [of j l m1] True m1(2,4) less.prems by auto
    obtain m3 where m3: "quicksort cmp s m2 i r = Some m3" "length m3 = n * s" "shuffled n i r (elem_at s m2) (elem_at s m3)"
      and S3: "\<And>a b. i \<le> a \<Longrightarrow> a \<le> b \<Longrightarrow> b \<le> r \<Longrightarrow> cmp (elem_at s m3 a) (elem_at s m3 b) \<le> 0"
      using less.hyps [of r i m2] True m1(5) m2(2) less.prems by auto
    have same2: "elem_at s m2 k = elem_at s m1 k" if "j < k" for k using shuffled_same [OF m2(3)] that by blast
    have same3: "elem_at s m3 k = elem_at s m2 k" if "k < i" for k using shuffled_same [OF m3(3)] that by blast
    have L3: "cmp (elem_at s m3 k) v \<le> 0" if k: "l \<le> k" "k < i" "k \<le> r" for k
    proof (cases "k \<le> j")
      case True
      have "cmp (elem_at s m2 k) v \<le> 0"
        by (rule shuffled_all [OF m2(3) _ k(1) True, of "\<lambda>x. cmp x v \<le> 0"]) (use L m1(4,6) in auto)
      with same3 [OF k(2)] show ?thesis by simp
    qed (use same2 [of k] same3 [of k] k L in auto)
    have G3: "cmp v (elem_at s m3 k) \<le> 0" if k: "j < k" "l \<le> k" "k \<le> r" for k
    proof (cases "i \<le> k")
      case True
      show ?thesis
        by (rule shuffled_all [OF m3(3) _ True k(3), of "\<lambda>x. cmp v x \<le> 0"]) (use G m1(5,6) same2 in auto)
    qed (use same2 [of k] same3 [of k] k G in auto)
    have "cmp (elem_at s m3 a) (elem_at s m3 b) \<le> 0" if "l \<le> a" "a \<le> b" "b \<le> r" for a b
    proof -
      note ab = that
      consider "b \<le> j" | "i \<le> a" | "a < i" "j < b" by linarith
      then show ?thesis
      proof cases
        case 1
        with S2 [of a b] same3 m1(6) ab show ?thesis by simp
      next
        case 2
        with S3 [of a b] ab show ?thesis by simp
      next
        case 3
        with L3 [of a] G3 [of b] ab show ?thesis by (auto intro: good_cmp_trans [OF g])
      qed
    qed
    moreover have "shuffled n l r (elem_at s m) (elem_at s m3)"
      using m1(3) shuffled_wider [OF m2(3), of l r] shuffled_wider [OF m3(3), of l r] m1(4,5) by (auto intro: shuffled_trans)
    ultimately show ?thesis using m1(1) m2(1) m3(1,2) True by (auto simp: quicksort_cut)
  qed
qed

text \<open>
  C18. \<open>qsort\<close> sorts: for a comparison that is a total preorder and an array of fewer than \<open>2 ^ 31 - 1\<close> elements it
  ends without leaving the array, with the same elements, each before those that compare no less.
\<close>

theorem qsort_sorts:
  assumes "good_cmp cmp" "length m = n * s" "n < 2 ^ 31 - 1" "s < 2 ^ 31 - 1"
  shows "\<exists>m'. qsort cmp n s m = Some m' \<and> length m' = length m \<and>
    mset (map (\<lambda>i. elem_at s m' (int i)) [0..<n]) = mset (map (\<lambda>i. elem_at s m (int i)) [0..<n]) \<and>
    sorted_wrt (\<lambda>a b. cmp a b \<le> 0) (map (\<lambda>i. elem_at s m' (int i)) [0..<n])"
proof (cases "1 < n")
  case True
  then obtain m' where "qsort cmp n s m = Some m'" "length m' = length m" "shuffled n 0 (int n - 1) (elem_at s m) (elem_at s m')"
    "\<And>a b. 0 \<le> a \<Longrightarrow> a \<le> b \<Longrightarrow> b \<le> int n - 1 \<Longrightarrow> cmp (elem_at s m' a) (elem_at s m' b) \<le> 0"
    using quicksort_ok [OF assms(1), of 0 "int n - 1" n m s] assms by (auto simp: qsort_def)
  then show ?thesis by (auto simp: shuffled_def sorted_wrt_iff_nth_less)
next
  case False
  with assms show ?thesis by (auto simp: qsort_def sorted_wrt_iff_nth_less)
qed

lemma good_cmp_key: "good_cmp (\<lambda>a b. f a - f b)"
  by (simp add: good_cmp_def)

theorem qsort_sorts_witness:
  "\<exists>m'. qsort (\<lambda>a b. uint (hd a) - uint (hd b)) 3 2 [7, 0, 1, 1, 7, 2] = Some m' \<and> length m' = 6 \<and>
    sorted_wrt (\<lambda>a b. uint (hd a) - uint (hd b) \<le> 0) (map (\<lambda>i. elem_at 2 m' (int i)) [0..<3])"
  using qsort_sorts [OF good_cmp_key [of "\<lambda>a. uint (hd a)"], of "[7, 0, 1, 1, 7, 2]" 3 2] by auto

section \<open>Random numbers\<close>

text \<open>The quotient and the rest of the modulus by the multiplier keep every product within 31 bits.\<close>

definition rand_r :: "u32 \<Rightarrow> u32" where
  "rand_r seed = (let X = sint seed; X = 48271 * (X smod 44488) - 3399 * (X sdiv 44488); X = (if X < 0 then X + (2 ^ 31 - 1) else X)
     in of_int X)"

definition rand :: "u32 \<Rightarrow> u32 \<times> u32" where
  "rand seed = (rand_r seed, rand_r seed)"

definition srand :: "u32 \<Rightarrow> u32" where
  "srand i = i"

lemma schrage:
  fixes x :: int
  assumes "0 \<le> x" "x < 2147483647"
  shows "(let y = 48271 * (x mod 44488) - 3399 * (x div 44488) in if y < 0 then y + 2147483647 else y) = 48271 * x mod 2147483647"
proof -
  define q where "q = x div 44488"
  define r where "r = x mod 44488"
  have x: "x = 44488 * q + r" by (simp add: q_def r_def)
  have b: "0 \<le> q" "q \<le> 48271" "0 \<le> r" "r \<le> 44487" using assms by (auto simp: q_def r_def)
  define y where "y = 48271 * r - 3399 * q"
  have e: "48271 * x = 2147483647 * q + y" unfolding x y_def by simp
  have y: "- 2147483647 < y" "y < 2147483647" using b by (simp_all add: y_def)
  have "48271 * x mod 2147483647 = (if y < 0 then y + 2147483647 else y)"
  proof (cases "y < 0")
    case True
    then show ?thesis using y by (intro int_mod_pos_eq [of _ _ "q - 1"]) (auto simp: e)
  next
    case False
    then show ?thesis using y by (intro int_mod_pos_eq [of _ _ q]) (auto simp: e)
  qed
  then show ?thesis by (simp add: Let_def y_def q_def r_def)
qed

lemma trunc_pos: "0 \<le> a \<Longrightarrow> a sdiv 44488 = a div 44488" "0 \<le> a \<Longrightarrow> a smod 44488 = a mod 44488" for a :: int
  by (auto simp: signed_divide_int_def signed_modulo_int_def sgn_if)

text \<open>One step multiplies by 48271 modulo \<open>2 ^ 31 - 1\<close>, for every seed below the modulus.\<close>

lemma rand_r_multiplies:
  assumes "unat x < 2147483647"
  shows "int (unat (rand_r x)) = 48271 * int (unat x) mod 2147483647"
proof -
  have e: "uint x = int (unat x)" by simp
  have u: "0 \<le> uint x" "uint x < 2147483647" using assms unfolding e by linarith+
  have s: "sint x = uint x" unfolding sint_uint by (rule signed_take_bit_int_eq_self) (rule order_trans [OF _ u(1)], use u(2) in simp_all)
  have d: "uint x sdiv 44488 = uint x div 44488" "uint x smod 44488 = uint x mod 44488"
    by (rule trunc_pos [OF u(1)])+
  have r: "rand_r x = of_int (48271 * uint x mod 2147483647)"
  proof -
    have p: "(2 :: int) ^ 31 - 1 = 2147483647" by simp
    show ?thesis unfolding rand_r_def Let_def s d p by (rule arg_cong [OF schrage [OF u, unfolded Let_def]])
  qed
  have "0 \<le> 48271 * uint x mod 2147483647" "48271 * uint x mod 2147483647 < 2147483647" by simp_all
  then show ?thesis unfolding r by (simp add: uint_word_of_int take_bit_int_eq_self)
qed

lemma rand_factor: "2147483647 dvd 48271 * y \<Longrightarrow> 2147483647 dvd y" for y :: int
proof (elim dvdE)
  fix k
  assume "48271 * y = 2147483647 * k"
  moreover have "y = 1899818559 * (48271 * y) - 2147483647 * (42704 * y)" by simp
  ultimately have "y = 2147483647 * (1899818559 * k - 42704 * y)" by (simp only: right_diff_distrib mult.left_commute)
  then show ?thesis by (rule dvdI)
qed

text \<open>
  From a seed other than 0 the numbers are the powers of 48271 times the seed, none of them 0. Seeded with 0, or
  with the modulus itself, the generator gives 0 for ever.
\<close>

lemma rand_sequence:
  assumes "0 < unat x" "unat x < 2147483647"
  shows "int (unat ((rand_r ^^ k) x)) = 48271 ^ k * int (unat x) mod 2147483647 \<and> (rand_r ^^ k) x \<noteq> 0"
proof (induction k)
  case 0
  have "int (unat x) mod 2147483647 = int (unat x)" by (rule mod_pos_pos_trivial) (use assms in linarith)+
  with assms(1) show ?case by (simp only: funpow_0 power_0 mult_1) auto
next
  case (Suc k)
  let ?y = "(rand_r ^^ k) x"
  have "int (unat ?y) = 48271 ^ k * int (unat x) mod 2147483647" using Suc by blast
  also have "\<dots> < 2147483647" by simp
  finally have y: "unat ?y < 2147483647" "unat ?y \<noteq> 0" using Suc by (linarith, simp add: unat_eq_zero)
  have m: "int (unat (rand_r ?y)) = 48271 * int (unat ?y) mod 2147483647" by (rule rand_r_multiplies [OF y(1)])
  have "rand_r ?y \<noteq> 0"
  proof
    assume "rand_r ?y = 0"
    then have "2147483647 dvd 48271 * int (unat ?y)" using m by (simp add: mod_eq_0_iff_dvd)
    then have "2147483647 dvd int (unat ?y)" by (rule rand_factor)
    moreover have "0 < int (unat ?y)" "int (unat ?y) < 2147483647" using y by linarith+
    ultimately show False using zdvd_not_zless by blast
  qed
  with m Suc show ?case by (simp add: mod_mult_right_eq mult.assoc)
qed

lemma rand_of_zero: "rand_r 0 = 0" "rand_r 2147483647 = 0"
  by (simp_all add: rand_r_def)

end
