(* ===== verification/Rwlock.thy ===== *)
theory Rwlock
  imports Base
begin

text \<open>
  The readers-writer lock of \<open>RTT/components/pthreads/pthread_rwlock.c\<close> over the condition variables
  of \<open>pthread_cond.c\<close>. Every routine runs under the lock's mutex except while it waits, so the code
  between two waits is one step; waiting gives the mutex up, takes a permit of the condition's
  semaphore or sleeps, and goes on when the mutex is had again. The semaphores are the kernel's: a
  release hands a permit to a thread that sleeps on it, whichever it is, and counts it when none does;
  a thread that sleeps with a time limit may give up. Threads unlock only what they hold.
\<close>

section \<open>State\<close>

datatype side = Reader | Writer

text \<open>
  Where a thread is: outside, behind the release of the mutex and before the semaphore, asleep, woken
  (with a permit or by the time limit) and waiting for the mutex, or holding the lock. The flag of a
  wait says whether it has a time limit.
\<close>

datatype place = Outside | Going side bool | Asleep side bool | Woken side bool bool | Holds side

record rwlock =
  rw_refcount :: int
  rw_nwaitreaders :: int
  rw_nwaitwriters :: int
  sem :: "side \<Rightarrow> nat"
  threads :: "place list"

definition pthread_rwlock_init :: "nat \<Rightarrow> rwlock" where
  "pthread_rwlock_init n = \<lparr>rw_refcount = 0, rw_nwaitreaders = 0, rw_nwaitwriters = 0, sem = (\<lambda>c. 0), threads = replicate n Outside\<rparr>"

definition moved :: "nat \<Rightarrow> place \<Rightarrow> rwlock \<Rightarrow> rwlock" where
  "moved t p s = s\<lparr>threads := (threads s)[t := p]\<rparr>"

section \<open>The routines between two waits\<close>

text \<open>The test of the reader's loop, with the preference of waiting writers, and what follows.\<close>

definition rdlock_test :: "nat \<Rightarrow> bool \<Rightarrow> rwlock \<Rightarrow> rwlock" where
  "rdlock_test t timed s =
    (if rw_refcount s < 0 \<or> 0 < rw_nwaitwriters s
     then moved t (Going Reader timed) (s\<lparr>rw_nwaitreaders := rw_nwaitreaders s + 1\<rparr>)
     else moved t (Holds Reader) (s\<lparr>rw_refcount := rw_refcount s + 1\<rparr>))"

definition rdlock_resume :: "nat \<Rightarrow> bool \<Rightarrow> bool \<Rightarrow> rwlock \<Rightarrow> rwlock" where
  "rdlock_resume t ok timed s = (let s = s\<lparr>rw_nwaitreaders := rw_nwaitreaders s - 1\<rparr> in
     if ok then rdlock_test t timed s else moved t Outside s)"

definition tryrdlock :: "nat \<Rightarrow> rwlock \<Rightarrow> rwlock" where
  "tryrdlock t s = (if rw_refcount s < 0 \<or> 0 < rw_nwaitwriters s then s
     else moved t (Holds Reader) (s\<lparr>rw_refcount := rw_refcount s + 1\<rparr>))"

definition wrlock_test :: "nat \<Rightarrow> bool \<Rightarrow> rwlock \<Rightarrow> rwlock" where
  "wrlock_test t timed s =
    (if rw_refcount s \<noteq> 0 then moved t (Going Writer timed) (s\<lparr>rw_nwaitwriters := rw_nwaitwriters s + 1\<rparr>)
     else moved t (Holds Writer) (s\<lparr>rw_refcount := - 1\<rparr>))"

definition wrlock_resume :: "nat \<Rightarrow> bool \<Rightarrow> bool \<Rightarrow> rwlock \<Rightarrow> rwlock" where
  "wrlock_resume t ok timed s = (let s = s\<lparr>rw_nwaitwriters := rw_nwaitwriters s - 1\<rparr> in
     if ok then wrlock_test t timed s else moved t Outside s)"

definition trywrlock :: "nat \<Rightarrow> rwlock \<Rightarrow> rwlock" where
  "trywrlock t s = (if rw_refcount s \<noteq> 0 then s else moved t (Holds Writer) (s\<lparr>rw_refcount := - 1\<rparr>))"

text \<open>Unlocking counts down and then wakes one writer when the lock is free, or all readers when no writer waits.\<close>

datatype wake = No_wake | Signal | Broadcast

definition unlock_count :: "nat \<Rightarrow> rwlock \<Rightarrow> rwlock" where
  "unlock_count t s = moved t Outside (s\<lparr>rw_refcount := (if 0 < rw_refcount s then rw_refcount s - 1
     else if rw_refcount s = - 1 then 0 else rw_refcount s)\<rparr>)"

definition unlock_wake :: "rwlock \<Rightarrow> wake" where
  "unlock_wake s = (if 0 < rw_nwaitwriters s then (if rw_refcount s = 0 then Signal else No_wake)
     else if 0 < rw_nwaitreaders s then Broadcast else No_wake)"

section \<open>Semaphores and condition variables\<close>

inductive released :: "side \<Rightarrow> rwlock \<Rightarrow> rwlock \<Rightarrow> bool" where
  Resumed: "t < length (threads s) \<Longrightarrow> threads s ! t = Asleep c timed \<Longrightarrow> released c s (moved t (Woken c True timed) s)"
| Counted: "\<forall>p \<in> set (threads s). \<forall>timed. p \<noteq> Asleep c timed \<Longrightarrow> released c s (s\<lparr>sem := (sem s)(c := sem s c + 1)\<rparr>)"

text \<open>
  The loop of \<open>pthread_cond_broadcast\<close>: a permit that can be taken is given back and ends it, otherwise
  one is released; no other thread runs meanwhile.
\<close>

inductive broadcast :: "side \<Rightarrow> rwlock \<Rightarrow> rwlock \<Rightarrow> bool" where
  Taken: "0 < sem s c \<Longrightarrow> broadcast c s s"
| Timeout: "sem s c = 0 \<Longrightarrow> released c s s1 \<Longrightarrow> broadcast c s1 s2 \<Longrightarrow> broadcast c s s2"

fun wakes :: "wake \<Rightarrow> rwlock \<Rightarrow> rwlock \<Rightarrow> bool" where
  "wakes No_wake s s' \<longleftrightarrow> s' = s"
| "wakes Signal s s' \<longleftrightarrow> released Writer s s'"
| "wakes Broadcast s s' \<longleftrightarrow> broadcast Reader s s'"

text \<open>One step of one thread; \<open>limits\<close> says whether calls with a time limit are made.\<close>

inductive rw_step :: "bool \<Rightarrow> rwlock \<Rightarrow> rwlock \<Rightarrow> bool" where
  Rdlock: "t < length (threads s) \<Longrightarrow> threads s ! t = Outside \<Longrightarrow> timed \<longrightarrow> limits \<Longrightarrow> rw_step limits s (rdlock_test t timed s)"
| Wrlock: "t < length (threads s) \<Longrightarrow> threads s ! t = Outside \<Longrightarrow> timed \<longrightarrow> limits \<Longrightarrow> rw_step limits s (wrlock_test t timed s)"
| Tryrd: "t < length (threads s) \<Longrightarrow> threads s ! t = Outside \<Longrightarrow> rw_step limits s (tryrdlock t s)"
| Trywr: "t < length (threads s) \<Longrightarrow> threads s ! t = Outside \<Longrightarrow> rw_step limits s (trywrlock t s)"
| Take: "t < length (threads s) \<Longrightarrow> threads s ! t = Going c timed \<Longrightarrow> 0 < sem s c \<Longrightarrow>
    rw_step limits s (moved t (Woken c True timed) (s\<lparr>sem := (sem s)(c := sem s c - 1)\<rparr>))"
| Sleep: "t < length (threads s) \<Longrightarrow> threads s ! t = Going c timed \<Longrightarrow> sem s c = 0 \<Longrightarrow> rw_step limits s (moved t (Asleep c timed) s)"
| Limit: "t < length (threads s) \<Longrightarrow> threads s ! t = Asleep c True \<Longrightarrow> rw_step limits s (moved t (Woken c False True) s)"
| Rdresume: "t < length (threads s) \<Longrightarrow> threads s ! t = Woken Reader ok timed \<Longrightarrow> rw_step limits s (rdlock_resume t ok timed s)"
| Wrresume: "t < length (threads s) \<Longrightarrow> threads s ! t = Woken Writer ok timed \<Longrightarrow> rw_step limits s (wrlock_resume t ok timed s)"
| Unlock: "t < length (threads s) \<Longrightarrow> threads s ! t = Holds c \<Longrightarrow> wakes (unlock_wake (unlock_count t s)) (unlock_count t s) s' \<Longrightarrow>
    rw_step limits s s'"

inductive rw_reach :: "bool \<Rightarrow> nat \<Rightarrow> rwlock \<Rightarrow> bool" where
  Start: "rw_reach limits n (pthread_rwlock_init n)"
| Go: "rw_reach limits n s \<Longrightarrow> rw_step limits s s' \<Longrightarrow> rw_reach limits n s'"

section \<open>Counting threads\<close>

definition num :: "(place \<Rightarrow> bool) \<Rightarrow> rwlock \<Rightarrow> int" where
  "num P s = int (length (filter P (threads s)))"

fun waits :: "side \<Rightarrow> place \<Rightarrow> bool" where
  "waits c (Going c' timed) = (c' = c)"
| "waits c (Asleep c' timed) = (c' = c)"
| "waits c (Woken c' ok timed) = (c' = c)"
| "waits c p = False"

fun woken :: "side \<Rightarrow> place \<Rightarrow> bool" where
  "woken c (Woken c' ok timed) = (c' = c)"
| "woken c p = False"

fun asleep :: "side \<Rightarrow> place \<Rightarrow> bool" where
  "asleep c (Asleep c' timed) = (c' = c)"
| "asleep c p = False"

fun holds :: "side \<Rightarrow> place \<Rightarrow> bool" where
  "holds c (Holds c') = (c' = c)"
| "holds c p = False"

lemma filter_update: "t < length ps \<Longrightarrow>
    int (length (filter P (ps[t := p]))) = int (length (filter P ps)) + of_bool (P p) - of_bool (P (ps ! t))"
proof (induction ps arbitrary: t)
  case (Cons q ps)
  then show ?case by (cases t) auto
qed simp

lemma num_moved: "t < length (threads s) \<Longrightarrow> num P (moved t p s) = num P s + of_bool (P p) - of_bool (P (threads s ! t))"
  by (simp add: num_def moved_def filter_update)

lemma num_pos: "t < length (threads s) \<Longrightarrow> P (threads s ! t) \<Longrightarrow> 1 \<le> num P s"
  using nth_mem [of t "threads s"]
  by (auto simp: num_def Suc_le_eq filter_empty_conv)

lemma num_nonneg [simp]: "0 \<le> num P s"
  by (simp add: num_def)

lemma num_zero: "num P s = 0 \<longleftrightarrow> (\<forall>p \<in> set (threads s). \<not> P p)"
  by (simp add: num_def filter_empty_conv)

lemma num_fields [simp]: "num P (s\<lparr>rw_refcount := a\<rparr>) = num P s" "num P (s\<lparr>rw_nwaitreaders := a\<rparr>) = num P s"
  "num P (s\<lparr>rw_nwaitwriters := a\<rparr>) = num P s" "num P (s\<lparr>sem := f\<rparr>) = num P s"
  by (simp_all add: num_def)

lemma moved_fields [simp]: "rw_refcount (moved t p s) = rw_refcount s" "rw_nwaitreaders (moved t p s) = rw_nwaitreaders s"
  "rw_nwaitwriters (moved t p s) = rw_nwaitwriters s" "sem (moved t p s) = sem s" "length (threads (moved t p s)) = length (threads s)"
  by (simp_all add: moved_def)

section \<open>The lock excludes\<close>

definition rw_inv :: "rwlock \<Rightarrow> bool" where
  "rw_inv s \<longleftrightarrow> rw_nwaitreaders s = num (waits Reader) s \<and> rw_nwaitwriters s = num (waits Writer) s \<and>
     (rw_refcount s = - 1 \<and> num (holds Writer) s = 1 \<and> num (holds Reader) s = 0 \<or>
      rw_refcount s = num (holds Reader) s \<and> num (holds Writer) s = 0)"

lemma released_inv: "released c s s' \<Longrightarrow> rw_inv s \<Longrightarrow> rw_inv s'"
  by (cases rule: released.cases, assumption) (auto simp: rw_inv_def num_moved)

lemma broadcast_inv: "broadcast c s s' \<Longrightarrow> rw_inv s \<Longrightarrow> rw_inv s'"
  by (induction rule: broadcast.induct) (auto dest: released_inv)

lemma wakes_inv: "wakes w s s' \<Longrightarrow> rw_inv s \<Longrightarrow> rw_inv s'"
  by (cases w) (auto dest: released_inv broadcast_inv)

lemma unlock_count_inv: "t < length (threads s) \<Longrightarrow> threads s ! t = Holds c \<Longrightarrow> rw_inv s \<Longrightarrow> rw_inv (unlock_count t s)"
  using num_pos [of t s "holds c"]
  by (cases c) (auto simp: rw_inv_def unlock_count_def num_moved)

lemma step_inv: "rw_step limits s s' \<Longrightarrow> rw_inv s \<Longrightarrow> rw_inv s'"
proof (induction rule: rw_step.induct)
  case (Unlock t s c s')
  then show ?case using unlock_count_inv wakes_inv by blast
qed (auto simp: rw_inv_def rdlock_test_def wrlock_test_def tryrdlock_def trywrlock_def rdlock_resume_def wrlock_resume_def num_moved Let_def)

lemma reach_inv: "rw_reach limits n s \<Longrightarrow> rw_inv s"
proof (induction rule: rw_reach.induct)
  case (Start limits n)
  show ?case by (simp add: rw_inv_def num_def pthread_rwlock_init_def)
qed (rule step_inv)


lemma writer_alone: "rw_reach limits n s \<Longrightarrow> t < length (threads s) \<Longrightarrow> threads s ! t = Holds Writer \<Longrightarrow>
    u < length (threads s) \<Longrightarrow> threads s ! u = Holds c \<Longrightarrow> u = t"
proof (rule ccontr)
  assume r: "rw_reach limits n s" "t < length (threads s)" "threads s ! t = Holds Writer"
    "u < length (threads s)" "threads s ! u = Holds c" "u \<noteq> t"
  show False using reach_inv [OF r(1)] num_pos [of t s "holds Writer"] num_pos [of u s "holds c"]
      num_pos [of u "moved t Outside s" "holds Writer"] num_moved [of t s "holds Writer" Outside] r(2-)
    by (cases c) (auto simp: rw_inv_def moved_def)
qed

text \<open>
  C14. Whatever the threads do, with time limits or without, a thread that writes is the only one that
  holds the lock, and the counter says so.
\<close>

theorem rwlock_excludes: "rw_reach limits n s \<Longrightarrow> t < length (threads s) \<Longrightarrow> threads s ! t = Holds Writer \<Longrightarrow>
    rw_refcount s = - 1 \<and> {u. u < length (threads s) \<and> (\<exists>c. threads s ! u = Holds c)} = {t}"
  using reach_inv [of limits n s] num_pos [of t s "holds Writer"]
  by (auto simp: rw_inv_def dest: writer_alone)

text \<open>The first of two threads has the lock for writing.\<close>

definition one_writer :: rwlock where
  "one_writer = wrlock_test 0 False (pthread_rwlock_init 2)"

lemma one_writer_reached: "rw_reach limits 2 one_writer"
  unfolding one_writer_def by (rule Go [OF Start], rule Wrlock) (simp_all add: pthread_rwlock_init_def)

lemma one_writer_is: "one_writer = \<lparr>rw_refcount = - 1, rw_nwaitreaders = 0, rw_nwaitwriters = 0, sem = (\<lambda>c. 0), threads = [Holds Writer, Outside]\<rparr>"
  by (simp add: one_writer_def wrlock_test_def moved_def pthread_rwlock_init_def numeral_2_eq_2)

theorem rwlock_excludes_witness: "rw_refcount one_writer = - 1 \<and>
    {u. u < length (threads one_writer) \<and> (\<exists>c. threads one_writer ! u = Holds c)} = {0}"
  by (rule rwlock_excludes [OF one_writer_reached [of True]]) (simp_all add: one_writer_is)

section \<open>A waiting thread can go on\<close>

text \<open>
  Without time limits: a free lock with waiting writers has woken one or counts a permit for one, a free
  lock with waiting readers only has woken one or counts a permit, and no thread sleeps where a permit is
  counted.
\<close>

fun endless :: "place \<Rightarrow> bool" where
  "endless (Going c timed) = (\<not> timed)"
| "endless (Asleep c timed) = (\<not> timed)"
| "endless (Woken c ok timed) = (ok \<and> \<not> timed)"
| "endless p = True"

definition permit :: "side \<Rightarrow> rwlock \<Rightarrow> bool" where
  "permit c s \<longleftrightarrow> 0 < num (woken c) s \<or> 0 < sem s c"

definition no_sleeper :: "rwlock \<Rightarrow> bool" where
  "no_sleeper s \<longleftrightarrow> (\<forall>c. 0 < sem s c \<longrightarrow> num (asleep c) s = 0)"

definition offered :: "rwlock \<Rightarrow> bool" where
  "offered s \<longleftrightarrow> (rw_refcount s = 0 \<longrightarrow> 0 < rw_nwaitwriters s \<longrightarrow> permit Writer s) \<and>
     (rw_refcount s = 0 \<longrightarrow> rw_nwaitwriters s = 0 \<longrightarrow> 0 < rw_nwaitreaders s \<longrightarrow> permit Reader s)"

definition all_endless :: "rwlock \<Rightarrow> bool" where
  "all_endless s \<longleftrightarrow> (\<forall>p \<in> set (threads s). endless p)"

lemma all_endless_moved: "all_endless s \<Longrightarrow> endless p \<Longrightarrow> all_endless (moved t p s)"
  using set_update_subset_insert [of "threads s" t p] by (auto simp: all_endless_def moved_def)

lemma all_endless_at: "all_endless s \<Longrightarrow> t < length (threads s) \<Longrightarrow> endless (threads s ! t)"
  by (simp add: all_endless_def)

lemma all_endless_fields [simp]: "all_endless (s\<lparr>rw_refcount := a\<rparr>) = all_endless s"
  "all_endless (s\<lparr>rw_nwaitreaders := a\<rparr>) = all_endless s" "all_endless (s\<lparr>rw_nwaitwriters := a\<rparr>) = all_endless s"
  "all_endless (s\<lparr>sem := f\<rparr>) = all_endless s"
  by (simp_all add: all_endless_def)

lemma released_endless: "released c s s' \<Longrightarrow> all_endless s \<Longrightarrow> all_endless s'"
  by (cases rule: released.cases, assumption) (auto intro!: all_endless_moved dest: all_endless_at)

lemma broadcast_endless: "broadcast c s s' \<Longrightarrow> all_endless s \<Longrightarrow> all_endless s'"
  by (induction rule: broadcast.induct) (auto dest: released_endless)

lemma wakes_endless: "wakes w s s' \<Longrightarrow> all_endless s \<Longrightarrow> all_endless s'"
  by (cases w) (auto dest: released_endless broadcast_endless)

lemmas routine_defs = rdlock_test_def wrlock_test_def tryrdlock_def trywrlock_def rdlock_resume_def wrlock_resume_def unlock_count_def Let_def

lemma step_endless: "rw_step limits s s' \<Longrightarrow> \<not> limits \<Longrightarrow> all_endless s \<Longrightarrow> all_endless s'"
proof (induction rule: rw_step.induct)
  case (Unlock t s c s')
  have "all_endless (unlock_count t s)"
    using Unlock.prems by (auto simp: unlock_count_def intro!: all_endless_moved)
  then show ?case using wakes_endless [OF Unlock.hyps(3)] by simp
qed (auto simp: routine_defs intro!: all_endless_moved dest: all_endless_at)

lemma released_sleeper: "released c s s' \<Longrightarrow> no_sleeper s \<Longrightarrow> no_sleeper s'"
proof (induction rule: released.induct)
  case (Resumed t s c timed)
  then show ?case using num_pos [of t s "asleep c"] by (auto simp: no_sleeper_def num_moved)
next
  case (Counted s c)
  then have "num (asleep c) s = 0" unfolding num_zero by (auto elim: asleep.elims)
  then show ?case using Counted by (auto simp: no_sleeper_def)
qed

lemma broadcast_sleeper: "broadcast c s s' \<Longrightarrow> no_sleeper s \<Longrightarrow> no_sleeper s'"
  by (induction rule: broadcast.induct) (auto dest: released_sleeper)

lemma wakes_sleeper: "wakes w s s' \<Longrightarrow> no_sleeper s \<Longrightarrow> no_sleeper s'"
  by (cases w) (auto dest: released_sleeper broadcast_sleeper)

lemma step_sleeper: "rw_step limits s s' \<Longrightarrow> no_sleeper s \<Longrightarrow> no_sleeper s'"
proof (induction rule: rw_step.induct)
  case (Unlock t s c s')
  have "no_sleeper (unlock_count t s)"
    using Unlock.prems Unlock.hyps by (simp add: no_sleeper_def unlock_count_def num_moved)
  then show ?case using wakes_sleeper [OF Unlock.hyps(3)] by simp
next
  case (Limit t s c)
  then show ?case using num_pos [of t s "asleep c"] by (auto simp: no_sleeper_def num_moved)
qed (auto simp: no_sleeper_def routine_defs num_moved)

lemma released_permit: "released c s s' \<Longrightarrow> permit c s'"
proof (induction rule: released.induct)
  case (Resumed t s c timed)
  then show ?case by (auto simp: permit_def num_moved intro: add_nonneg_pos)
qed (simp add: permit_def)

lemma broadcast_permit: "broadcast c s s' \<Longrightarrow> permit c s'"
  by (induction rule: broadcast.induct) (auto simp: permit_def)

lemma released_fields: "released c s s' \<Longrightarrow> rw_refcount s' = rw_refcount s \<and> rw_nwaitwriters s' = rw_nwaitwriters s \<and>
    rw_nwaitreaders s' = rw_nwaitreaders s"
  by (induction rule: released.induct) auto

lemma broadcast_fields: "broadcast c s s' \<Longrightarrow> rw_refcount s' = rw_refcount s \<and> rw_nwaitwriters s' = rw_nwaitwriters s \<and>
    rw_nwaitreaders s' = rw_nwaitreaders s"
  by (induction rule: broadcast.induct) (auto dest: released_fields)

lemma unlock_offered: "rw_inv s \<Longrightarrow> wakes (unlock_wake s) s s' \<Longrightarrow> offered s'"
  using released_permit [of Writer s s'] broadcast_permit [of Reader s s'] released_fields [of Writer s s'] broadcast_fields [of Reader s s']
    num_nonneg [of "waits Writer" s]
  by (auto simp: unlock_wake_def offered_def rw_inv_def split: if_splits)

lemma step_offered: "rw_step limits s s' \<Longrightarrow> \<not> limits \<Longrightarrow> rw_inv s \<Longrightarrow> all_endless s \<Longrightarrow> offered s \<Longrightarrow> offered s'"
proof (induction rule: rw_step.induct)
  case (Unlock t s c s')
  then show ?case using unlock_count_inv unlock_offered by blast
next
  case (Take t s c timed)
  then show ?case by (auto simp: offered_def permit_def num_moved intro: add_nonneg_pos)
qed (auto simp: offered_def permit_def routine_defs num_moved rw_inv_def dest: all_endless_at)

lemma reach_offered: "rw_reach limits n s \<Longrightarrow> \<not> limits \<Longrightarrow> all_endless s \<and> no_sleeper s \<and> offered s"
proof (induction rule: rw_reach.induct)
  case (Start limits n)
  show ?case by (simp add: all_endless_def no_sleeper_def offered_def pthread_rwlock_init_def)
next
  case (Go limits n s s')
  then show ?case using step_offered [OF Go.hyps(2)] step_endless [OF Go.hyps(2)] step_sleeper [OF Go.hyps(2)] reach_inv [OF Go.hyps(1)]
    by simp
qed

text \<open>The steps of threads inside a waiting call, and the runs of such steps that cannot but lead to a holder.\<close>

inductive waiter_step :: "rwlock \<Rightarrow> rwlock \<Rightarrow> bool" where
  Waiter_take: "t < length (threads s) \<Longrightarrow> threads s ! t = Going c timed \<Longrightarrow> 0 < sem s c \<Longrightarrow>
    waiter_step s (moved t (Woken c True timed) (s\<lparr>sem := (sem s)(c := sem s c - 1)\<rparr>))"
| Waiter_sleep: "t < length (threads s) \<Longrightarrow> threads s ! t = Going c timed \<Longrightarrow> sem s c = 0 \<Longrightarrow> waiter_step s (moved t (Asleep c timed) s)"
| Waiter_read: "t < length (threads s) \<Longrightarrow> threads s ! t = Woken Reader ok timed \<Longrightarrow> waiter_step s (rdlock_resume t ok timed s)"
| Waiter_write: "t < length (threads s) \<Longrightarrow> threads s ! t = Woken Writer ok timed \<Longrightarrow> waiter_step s (wrlock_resume t ok timed s)"

definition held :: "rwlock \<Rightarrow> bool" where
  "held s \<longleftrightarrow> (\<exists>p \<in> set (threads s). \<exists>c. holds c p)"

inductive bound_to_hold :: "rwlock \<Rightarrow> bool" where
  Now: "held s \<Longrightarrow> bound_to_hold s"
| Later: "waiter_step s s1 \<Longrightarrow> \<forall>s'. waiter_step s s' \<longrightarrow> bound_to_hold s' \<Longrightarrow> bound_to_hold s"

lemma waiter_step_is_step: "waiter_step s s' \<Longrightarrow> rw_step limits s s'"
  by (induction rule: waiter_step.induct) (blast intro: Take Sleep Rdresume Wrresume)+

fun going :: "place \<Rightarrow> bool" where
  "going (Going c timed) = True"
| "going p = False"

definition effort :: "rwlock \<Rightarrow> int" where
  "effort s = 3 * int (sem s Reader) + 3 * int (sem s Writer) + 2 * num (woken Reader) s + 2 * num (woken Writer) s + num going s"

definition work :: "rwlock \<Rightarrow> nat" where
  "work s = nat (effort s)"

lemma work_less: "work s' < work s \<longleftrightarrow> effort s' < effort s"
proof -
  have "0 \<le> effort s'" by (simp add: effort_def)
  then show ?thesis by (auto simp: work_def)
qed

lemma held_num: "held s \<longleftrightarrow> 0 < num (holds Reader) s \<or> 0 < num (holds Writer) s"
proof -
  have "held s \<longleftrightarrow> \<not> (num (holds Reader) s = 0 \<and> num (holds Writer) s = 0)"
    unfolding num_zero held_def by (metis side.exhaust)
  then show ?thesis using num_nonneg [of "holds Reader" s] num_nonneg [of "holds Writer" s] by linarith
qed

lemma free_refcount: "rw_inv s \<Longrightarrow> \<not> held s \<Longrightarrow> rw_refcount s = 0"
  using num_nonneg [of "holds Reader" s] num_nonneg [of "holds Writer" s]
  by (auto simp: rw_inv_def held_num)

lemma waiter_step_work: "waiter_step s s' \<Longrightarrow> rw_inv s \<Longrightarrow> all_endless s \<Longrightarrow> \<not> held s \<Longrightarrow> \<not> held s' \<Longrightarrow> work s' < work s"
proof (induction rule: waiter_step.induct)
  case (Waiter_take t s c timed)
  then show ?case using num_pos [of t s going] by (cases c) (simp_all add: work_less effort_def num_moved)
next
  case (Waiter_sleep t s c timed)
  then show ?case using num_pos [of t s going] by (simp add: work_less effort_def num_moved)
next
  case (Waiter_read t s ok timed)
  then show ?case using num_pos [of t s "woken Reader"] free_refcount [of s] all_endless_at [of s t]
    by (auto simp: work_less effort_def num_moved routine_defs held_num add_nonneg_pos split: if_splits)
next
  case (Waiter_write t s ok timed)
  then show ?case using num_pos [of t s "woken Writer"] free_refcount [of s] all_endless_at [of s t]
    by (auto simp: work_less effort_def num_moved routine_defs held_num add_nonneg_pos split: if_splits)
qed

definition queued :: "rwlock \<Rightarrow> int" where
  "queued s = num (waits Reader) s + num (waits Writer) s"

lemma waiter_step_queued: "waiter_step s s' \<Longrightarrow> all_endless s \<Longrightarrow> \<not> held s' \<Longrightarrow> queued s' = queued s"
proof (induction rule: waiter_step.induct)
  case (Waiter_read t s ok timed)
  then show ?case using all_endless_at [of s t]
    by (auto simp: queued_def num_moved routine_defs held_num add_nonneg_pos split: if_splits)
next
  case (Waiter_write t s ok timed)
  then show ?case using all_endless_at [of s t]
    by (auto simp: queued_def num_moved routine_defs held_num add_nonneg_pos split: if_splits)
qed (auto simp: queued_def num_moved)

lemma asleep_or_step: "\<nexists>s'. waiter_step s s' \<Longrightarrow> num (waits c) s = num (asleep c) s \<and> num (woken c) s = 0"
proof -
  assume stuck: "\<nexists>s'. waiter_step s s'"
  have no: "\<not> woken c p \<and> waits c p = asleep c p" if m: "p \<in> set (threads s)" for p
  proof -
    obtain t where t: "t < length (threads s)" "threads s ! t = p" using m unfolding in_set_conv_nth by blast
    show ?thesis
    proof (cases p)
      case (Going c' timed)
      then have "threads s ! t = Going c' timed" using t by simp
      then have "waiter_step s (moved t (Asleep c' timed) s) \<or>
          waiter_step s (moved t (Woken c' True timed) (s\<lparr>sem := (sem s)(c' := sem s c' - 1)\<rparr>))"
        using Waiter_take [OF t(1)] Waiter_sleep [OF t(1)] by (metis gr0I)
      then show ?thesis using stuck by blast
    next
      case (Woken c' ok timed)
      then have "threads s ! t = Woken c' ok timed" using t by simp
      then have "waiter_step s (rdlock_resume t ok timed s) \<or> waiter_step s (wrlock_resume t ok timed s)"
        using Waiter_read [OF t(1)] Waiter_write [OF t(1)] by (cases c') blast+
      then show ?thesis using stuck by blast
    qed auto
  qed
  have "filter (waits c) (threads s) = filter (asleep c) (threads s)" by (rule filter_cong) (use no in auto)
  then show ?thesis using no by (simp add: num_def filter_empty_conv)
qed

lemma never_stuck: "rw_inv s \<Longrightarrow> no_sleeper s \<Longrightarrow> offered s \<Longrightarrow> \<not> held s \<Longrightarrow> 0 < queued s \<Longrightarrow> \<exists>s'. waiter_step s s'"
proof (rule ccontr)
  assume a: "rw_inv s" "no_sleeper s" "offered s" "\<not> held s" "0 < queued s" "\<nexists>s'. waiter_step s s'"
  show False using asleep_or_step [OF a(6), of Reader] asleep_or_step [OF a(6), of Writer] free_refcount [OF a(1,4)] a(1,2,3,5)
      num_nonneg [of "asleep Reader" s] num_nonneg [of "asleep Writer" s]
    by (cases "num (asleep Writer) s = 0") (auto simp: rw_inv_def no_sleeper_def offered_def permit_def queued_def)
qed

lemma taken_at_last: "rw_reach False n s \<Longrightarrow> held s \<or> 0 < queued s \<Longrightarrow> bound_to_hold s"
proof (induction "work s" arbitrary: s rule: less_induct)
  case less
  show ?case
  proof (cases "held s")
    case False
    note inv = reach_inv [OF less.prems(1)] reach_offered [OF less.prems(1), simplified]
    obtain s1 where "waiter_step s s1" using never_stuck inv False less.prems(2) by blast
    moreover have "bound_to_hold s'" if st: "waiter_step s s'" for s'
    proof (cases "held s'")
      case nh: False
      have "work s' < work s" using waiter_step_work [OF st] inv False nh by blast
      moreover have "rw_reach False n s'" using Go [OF less.prems(1) waiter_step_is_step [OF st]] .
      moreover have "0 < queued s'" using waiter_step_queued [OF st] inv nh less.prems(2) False by simp
      ultimately show ?thesis using less.hyps by blast
    qed (rule Now)
    ultimately show ?thesis by (blast intro: Later)
  qed (rule Now)
qed

text \<open>
  C15. Without time limits the lock is never lost: when no thread holds it and a thread is inside a
  waiting call, whatever order the waiting threads run in, they cannot all stop and they come, after
  finitely many steps of their own, to a state in which one of them holds it.
\<close>

theorem rwlock_waiters_served: "rw_reach False n s \<Longrightarrow> \<not> held s \<Longrightarrow> t < length (threads s) \<Longrightarrow> waits c (threads s ! t) \<Longrightarrow> bound_to_hold s"
  using num_pos [of t s "waits c"] num_nonneg [of "waits Reader" s] num_nonneg [of "waits Writer" s]
  by (intro taken_at_last) (cases c; auto simp: queued_def simp del: num_nonneg)+

text \<open>A writer came to wait while the first wrote, and the first has unlocked.\<close>

definition handed_over :: rwlock where
  "handed_over = \<lparr>rw_refcount = 0, rw_nwaitreaders = 0, rw_nwaitwriters = 1, sem = (\<lambda>c. 0)(Writer := 1), threads = [Outside, Going Writer False]\<rparr>"

lemma handed_over_reached: "rw_reach False 2 handed_over"
proof -
  have w: "rw_reach False 2 (wrlock_test 1 False one_writer)"
    by (rule Go [OF one_writer_reached], rule Wrlock) (simp_all add: one_writer_is)
  have "released Writer (unlock_count 0 (wrlock_test 1 False one_writer)) handed_over"
    using Counted [of "unlock_count 0 (wrlock_test 1 False one_writer)" Writer]
    by (simp add: handed_over_def one_writer_is unlock_count_def wrlock_test_def moved_def)
  then show ?thesis
    by (intro Go [OF w] Unlock [of 0 _ Writer])
      (simp_all add: one_writer_is wrlock_test_def moved_def unlock_count_def unlock_wake_def)
qed

theorem rwlock_waiters_served_witness: "bound_to_hold handed_over"
  by (rule rwlock_waiters_served [OF handed_over_reached, of 1 Writer]) (simp_all add: handed_over_def held_def)

section \<open>The loop of the broadcast ends\<close>

lemma released_always: "\<exists>s'. released c s s' \<and> (0 < sem s' c \<or> num (asleep c) s' < num (asleep c) s)"
proof (cases "num (asleep c) s = 0")
  case True
  then have "released c s (s\<lparr>sem := (sem s)(c := sem s c + 1)\<rparr>)" unfolding num_zero by (intro Counted) auto
  then show ?thesis by (metis (mono_tags, lifting) add_gr_0 fun_upd_same less_one rwlock.select_convs(4) rwlock.simps(9) rwlock.surjective rwlock.update_convs(4))
next
  case False
  then obtain t timed where t: "t < length (threads s)" "threads s ! t = Asleep c timed"
    unfolding num_zero by (auto simp: in_set_conv_nth elim!: asleep.elims)
  show ?thesis using Resumed [OF t] t by (intro exI [of _ "moved t (Woken c True timed) s"]) (simp add: num_moved)
qed

lemma broadcast_ends: "\<exists>s'. broadcast c s s' \<and> 0 < sem s' c"
proof (induction "nat (num (asleep c) s)" arbitrary: s rule: less_induct)
  case less
  show ?case
  proof (cases "sem s c")
    case 0
    obtain s1 where s1: "released c s s1" "0 < sem s1 c \<or> num (asleep c) s1 < num (asleep c) s" using released_always by blast
    have "\<exists>s'. broadcast c s1 s' \<and> 0 < sem s' c"
    proof (cases "0 < sem s1 c")
      case False
      then have "nat (num (asleep c) s1) < nat (num (asleep c) s)"
        using s1(2) num_nonneg [of "asleep c" s1] by linarith
      then show ?thesis by (rule less.hyps)
    qed (auto intro: Taken)
    then show ?thesis using Timeout [OF 0 s1(1)] by blast
  next
    case (Suc k)
    then show ?thesis using Taken [of s c] by auto
  qed
qed

section \<open>What the code does not do\<close>

text \<open>
  A writer whose wait ends by its time limit wakes no reader: the unlock before it had preferred the
  writer, and the reader that sleeps behind it sleeps on a free lock with nobody left to wake it.
\<close>

definition forgotten :: rwlock where
  "forgotten = \<lparr>rw_refcount = 0, rw_nwaitreaders = 1, rw_nwaitwriters = 0, sem = (\<lambda>c. 0)(Writer := 1), threads = [Outside, Outside, Asleep Reader False]\<rparr>"

lemma released_counted: "\<forall>p \<in> set (threads s). \<not> asleep c p \<Longrightarrow> s' = s\<lparr>sem := (sem s)(c := sem s c + 1)\<rparr> \<Longrightarrow> released c s s'"
  using Counted [of s c] by (metis asleep.simps(1))

lemma time_limit_forgets_reader: "rw_reach True 3 forgotten \<and> waits Reader (threads forgotten ! 2) \<and> \<not> held forgotten \<and>
    (\<nexists>s'. waiter_step forgotten s') \<and> \<not> bound_to_hold forgotten"
proof -
  note steps = moved_def routine_defs unlock_wake_def
  define a where "a = \<lparr>rw_refcount = 1, rw_nwaitreaders = 1, rw_nwaitwriters = 1, sem = (\<lambda>c. 0 :: nat),
    threads = [Holds Reader, Asleep Writer True, Asleep Reader False]\<rparr>"
  let ?z = "\<lambda>r w k ts. \<lparr>rw_refcount = k, rw_nwaitreaders = r, rw_nwaitwriters = w, sem = (\<lambda>c. 0 :: nat), threads = ts\<rparr>"
  have "rw_reach True 3 (?z 0 0 0 [Outside, Outside, Outside])"
    using Start [of True 3] by (simp add: pthread_rwlock_init_def numeral_3_eq_3)
  then have "rw_reach True 3 (?z 0 0 1 [Holds Reader, Outside, Outside])"
    by (rule Go) (use Rdlock [of 0 "?z 0 0 0 [Outside, Outside, Outside]" False True] in \<open>simp add: steps\<close>)
  then have "rw_reach True 3 (?z 0 1 1 [Holds Reader, Going Writer True, Outside])"
    by (rule Go) (use Wrlock [of 1 "?z 0 0 1 [Holds Reader, Outside, Outside]" True True] in \<open>simp add: steps\<close>)
  then have "rw_reach True 3 (?z 0 1 1 [Holds Reader, Asleep Writer True, Outside])"
    by (rule Go) (use Sleep [of 1 "?z 0 1 1 [Holds Reader, Going Writer True, Outside]" Writer True True] in \<open>simp add: steps\<close>)
  then have "rw_reach True 3 (?z 1 1 1 [Holds Reader, Asleep Writer True, Going Reader False])"
    by (rule Go) (use Rdlock [of 2 "?z 0 1 1 [Holds Reader, Asleep Writer True, Outside]" False True] in \<open>simp add: steps\<close>)
  then have "rw_reach True 3 (?z 1 1 1 [Holds Reader, Asleep Writer True, Asleep Reader False])"
    by (rule Go) (use Sleep [of 2 "?z 1 1 1 [Holds Reader, Asleep Writer True, Going Reader False]" Reader False True] in \<open>simp add: steps\<close>)
  then have l: "rw_reach True 3 (?z 1 1 1 [Holds Reader, Woken Writer False True, Asleep Reader False])"
    by (rule Go) (use Limit [of 1 "?z 1 1 1 [Holds Reader, Asleep Writer True, Asleep Reader False]" Writer True] in \<open>simp add: steps\<close>)
  let ?u = "(?z 1 1 0 [Outside, Woken Writer False True, Asleep Reader False])\<lparr>sem := (\<lambda>c. 0)(Writer := 1)\<rparr>"
  have "wakes Signal (?z 1 1 0 [Outside, Woken Writer False True, Asleep Reader False]) ?u"
    by (auto intro!: released_counted)
  then have "rw_reach True 3 ?u"
    by (intro Go [OF l] Unlock [of 0 _ Reader]) (simp_all add: steps)
  then have r: "rw_reach True 3 forgotten"
    by (rule Go) (use Wrresume [of 1 ?u False True True] in \<open>simp add: steps forgotten_def\<close>)
  have stuck: "\<not> waiter_step forgotten s'" for s'
    by (auto simp: forgotten_def nth_Cons' less_Suc_eq elim!: waiter_step.cases)
  moreover have "\<not> held forgotten" by (simp add: forgotten_def held_def)
  moreover have "waits Reader (threads forgotten ! 2)" by (simp add: forgotten_def)
  ultimately show ?thesis using r by (auto elim: bound_to_hold.cases)
qed

text \<open>
  \<open>pthread_rwlock_destroy\<close>: whether it reports success, and whether it returns with the mutex still locked.
  A lock that never had to wake a waiter counts no permit, so it can never be destroyed.
\<close>

definition pthread_rwlock_destroy :: "rwlock \<Rightarrow> bool \<times> bool" where
  "pthread_rwlock_destroy s =
    (if rw_refcount s \<noteq> 0 \<or> rw_nwaitreaders s \<noteq> 0 \<or> rw_nwaitwriters s \<noteq> 0 then (False, True)
     else if sem s Reader = 0 then (False, False)
     else if sem s Writer = 0 then (False, False)
     else (True, False))"

lemma destroy_fresh_fails: "pthread_rwlock_destroy (pthread_rwlock_init n) = (False, False)"
  by (simp add: pthread_rwlock_destroy_def pthread_rwlock_init_def)

lemma destroy_keeps_mutex: "pthread_rwlock_destroy one_writer = (False, True)"
  by (simp add: pthread_rwlock_destroy_def one_writer_is)

end
