(* ===== verification/Rg_Bands.thy ===== *)
theory Rg_Bands
  imports Base
begin

text \<open>
  Rectangles and bands of \<open>RTT/components/rtgui/common/region.c\<close>: the tests of rectangles, and the three
  routines that combine one band of rectangles of a region with one band of another. A band is a run of
  rectangles of the same height, from left to right with gaps between them. Each routine is modelled by
  the list of rectangles it adds to the new region; the locale \<open>band_routine\<close> is what the generic
  operator asks of the routine it calls.
\<close>

section \<open>Rectangles\<close>

record rect =
  rx1 :: int
  ry1 :: int
  rx2 :: int
  ry2 :: int

definition box :: "int \<Rightarrow> int \<Rightarrow> int \<Rightarrow> int \<Rightarrow> rect" where
  "box a b c d = \<lparr>rx1 = a, ry1 = b, rx2 = c, ry2 = d\<rparr>"

lemma box_fields [simp]: "rx1 (box a b c d) = a" "ry1 (box a b c d) = b" "rx2 (box a b c d) = c" "ry2 (box a b c d) = d"
  by (simp_all add: box_def)

definition rtgui_empty_rect :: rect where
  "rtgui_empty_rect = box 0 0 0 0"

definition EXTENTCHECK :: "rect \<Rightarrow> rect \<Rightarrow> bool" where
  "EXTENTCHECK r s \<longleftrightarrow> \<not> (rx2 r \<le> rx1 s \<or> rx1 r \<ge> rx2 s \<or> ry2 r \<le> ry1 s \<or> ry1 r \<ge> ry2 s)"

definition INBOX :: "rect \<Rightarrow> int \<Rightarrow> int \<Rightarrow> bool" where
  "INBOX r x y \<longleftrightarrow> rx2 r > x \<and> rx1 r \<le> x \<and> ry2 r > y \<and> ry1 r \<le> y"

definition SUBSUMES :: "rect \<Rightarrow> rect \<Rightarrow> bool" where
  "SUBSUMES r s \<longleftrightarrow> rx1 r \<le> rx1 s \<and> rx2 r \<ge> rx2 s \<and> ry1 r \<le> ry1 s \<and> ry2 r \<ge> ry2 s"

definition CROSS :: "rect \<Rightarrow> rect \<Rightarrow> bool" where
  "CROSS r s \<longleftrightarrow> rx1 r \<le> rx1 s \<and> rx2 r \<ge> rx2 s \<and> ry1 r \<ge> ry1 s \<and> ry2 r \<le> ry2 s"

text \<open>The pixels of a list of rectangles, and their columns.\<close>

definition pix :: "rect list \<Rightarrow> int \<Rightarrow> int \<Rightarrow> bool" where
  "pix rs x y \<longleftrightarrow> (\<exists>r \<in> set rs. INBOX r x y)"

definition col :: "rect list \<Rightarrow> int \<Rightarrow> bool" where
  "col rs x \<longleftrightarrow> (\<exists>r \<in> set rs. rx1 r \<le> x \<and> x < rx2 r)"

lemma pix_simps [simp]: "pix [] x y = False" "pix (r # rs) x y = (INBOX r x y \<or> pix rs x y)" "pix (rs @ ss) x y = (pix rs x y \<or> pix ss x y)"
  by (auto simp: pix_def)

lemma col_simps [simp]: "col [] x = False" "col (r # rs) x = (rx1 r \<le> x \<and> x < rx2 r \<or> col rs x)" "col (rs @ ss) x = (col rs x \<or> col ss x)"
  by (auto simp: col_def)

section \<open>Bands\<close>

definition left_of :: "rect \<Rightarrow> rect \<Rightarrow> bool" where
  "left_of r s \<longleftrightarrow> rx2 r < rx1 s"

definition strip :: "int \<Rightarrow> int \<Rightarrow> rect list \<Rightarrow> bool" where
  "strip y1 y2 rs \<longleftrightarrow> (\<forall>r \<in> set rs. ry1 r = y1 \<and> ry2 r = y2 \<and> rx1 r < rx2 r) \<and> sorted_wrt left_of rs"

lemma strip_nil [simp]: "strip y1 y2 []"
  by (simp add: strip_def)

lemma strip_cons: "strip y1 y2 (r # rs) \<longleftrightarrow> ry1 r = y1 \<and> ry2 r = y2 \<and> rx1 r < rx2 r \<and> (\<forall>s \<in> set rs. rx2 r < rx1 s) \<and> strip y1 y2 rs"
  by (auto simp: strip_def left_of_def)

lemma strip_pix: "strip y1 y2 rs \<Longrightarrow> pix rs x y \<longleftrightarrow> y1 \<le> y \<and> y < y2 \<and> col rs x"
  by (auto simp: strip_def pix_def col_def INBOX_def)

text \<open>A band whose columns lie right of a rectangle continues it.\<close>

lemma strip_after: "strip y1 y2 rs \<Longrightarrow> (\<And>x. col rs x \<Longrightarrow> h < x) \<Longrightarrow> a < h \<Longrightarrow> strip y1 y2 (box a y1 h y2 # rs)"
proof -
  assume s: "strip y1 y2 rs" "\<And>x. col rs x \<Longrightarrow> h < x" "a < h"
  have "h < rx1 r" if "r \<in> set rs" for r
    using s(1) that by (intro s(2)) (auto simp: strip_def col_def)
  with s show ?thesis by (simp add: strip_cons)
qed

lemma strip_col_after: "strip y1 y2 (r # rs) \<Longrightarrow> col rs x \<Longrightarrow> rx2 r < x"
  by (auto simp: strip_cons col_def)

section \<open>Intersection of two bands\<close>

function rtgui_region_intersectO :: "int \<Rightarrow> int \<Rightarrow> rect list \<Rightarrow> rect list \<Rightarrow> rect list" where
  "rtgui_region_intersectO y1 y2 (a # r1) (b # r2) = (let x1 = max (rx1 a) (rx1 b); x2 = min (rx2 a) (rx2 b) in
     (if x1 < x2 then [box x1 y1 x2 y2] else []) @
     rtgui_region_intersectO y1 y2 (if rx2 a = x2 then r1 else a # r1) (if rx2 b = x2 then r2 else b # r2))"
| "rtgui_region_intersectO y1 y2 [] r2 = []"
| "rtgui_region_intersectO y1 y2 r1 [] = []"
  by pat_completeness auto
termination
  by (relation "measure (\<lambda>(y1, y2, r1, r2). length r1 + length r2)") (auto simp: min_def)

lemma intersectO_col: "strip u1 v1 r1 \<Longrightarrow> strip u2 v2 r2 \<Longrightarrow> col (rtgui_region_intersectO y1 y2 r1 r2) x \<longleftrightarrow> col r1 x \<and> col r2 x"
proof (induction y1 y2 r1 r2 rule: rtgui_region_intersectO.induct)
  case (1 y1 y2 a r1 b r2)
  note tails = strip_col_after [OF "1.prems"(1), of x] strip_col_after [OF "1.prems"(2), of x]
  show ?case using 1 tails by (auto simp: Let_def strip_cons min_def max_def split: if_splits)
qed simp_all

lemma intersectO_strip: "strip u1 v1 r1 \<Longrightarrow> strip u2 v2 r2 \<Longrightarrow> strip y1 y2 (rtgui_region_intersectO y1 y2 r1 r2)"
proof (induction y1 y2 r1 r2 rule: rtgui_region_intersectO.induct)
  case (1 y1 y2 a r1 b r2)
  let ?x1 = "max (rx1 a) (rx1 b)" and ?x2 = "min (rx2 a) (rx2 b)"
  let ?r1 = "if rx2 a = ?x2 then r1 else a # r1" and ?r2 = "if rx2 b = ?x2 then r2 else b # r2"
  have t: "strip u1 v1 ?r1" "strip u2 v2 ?r2" using "1.prems" by (auto simp: strip_cons)
  have ih: "strip y1 y2 (rtgui_region_intersectO y1 y2 ?r1 ?r2)" using "1.IH" t by simp
  have "?x2 < x" if "col (rtgui_region_intersectO y1 y2 ?r1 ?r2) x" for x
    using that strip_col_after [OF "1.prems"(1), of x] strip_col_after [OF "1.prems"(2), of x]
    unfolding intersectO_col [OF t] by (auto simp: min_def split: if_splits)
  then have "?x1 < ?x2 \<Longrightarrow> strip y1 y2 (box ?x1 y1 ?x2 y2 # rtgui_region_intersectO y1 y2 ?r1 ?r2)"
    using ih by (intro strip_after)
  with ih show ?case by (simp add: Let_def del: min_less_iff_conj)
qed simp_all

section \<open>Union of two bands\<close>

text \<open>The leftmost rectangle of two runs, of the second run when both begin at the same column.\<close>

fun next_left :: "rect list \<Rightarrow> rect list \<Rightarrow> (rect \<times> rect list \<times> rect list) option" where
  "next_left (a # r1) (b # r2) = (if rx1 a < rx1 b then Some (a, r1, b # r2) else Some (b, a # r1, r2))"
| "next_left (a # r1) [] = Some (a, r1, [])"
| "next_left [] (b # r2) = Some (b, [], r2)"
| "next_left [] [] = None"

lemma next_left_size: "next_left r1 r2 = Some (r, r1', r2') \<Longrightarrow> length r1' + length r2' < length r1 + length r2"
  by (cases "(r1, r2)" rule: next_left.cases) (auto split: if_splits)

lemma next_left_sorted: "next_left r1 r2 = Some (r, r1', r2') \<Longrightarrow> strip u1 v1 r1 \<Longrightarrow> strip u2 v2 r2 \<Longrightarrow>
    strip u1 v1 r1' \<and> strip u2 v2 r2' \<and> rx1 r < rx2 r \<and> (\<forall>s \<in> set r1' \<union> set r2'. rx1 r \<le> rx1 s)"
  by (cases "(r1, r2)" rule: next_left.cases) (fastforce simp: strip_cons split: if_splits)+

lemma next_left_col: "next_left r1 r2 = Some (r, r1', r2') \<Longrightarrow> col r1 x \<or> col r2 x \<longleftrightarrow> rx1 r \<le> x \<and> x < rx2 r \<or> col r1' x \<or> col r2' x"
  by (cases "(r1, r2)" rule: next_left.cases) (auto split: if_splits)

text \<open>\<open>MERGERECT\<close> on one rectangle after the other, with the current rectangle from \<open>x1\<close> to \<open>x2\<close>.\<close>

function merge_rects :: "int \<Rightarrow> int \<Rightarrow> int \<Rightarrow> int \<Rightarrow> rect list \<Rightarrow> rect list \<Rightarrow> rect list" where
  "merge_rects y1 y2 x1 x2 r1 r2 = (case next_left r1 r2 of
     None \<Rightarrow> [box x1 y1 x2 y2]
   | Some (r, r1', r2') \<Rightarrow>
       if rx1 r \<le> x2 then merge_rects y1 y2 x1 (if x2 < rx2 r then rx2 r else x2) r1' r2'
       else box x1 y1 x2 y2 # merge_rects y1 y2 (rx1 r) (rx2 r) r1' r2')"
  by pat_completeness auto
termination
  by (relation "measure (\<lambda>(y1, y2, x1, x2, r1, r2). length r1 + length r2)") (auto dest: next_left_size)

declare merge_rects.simps [simp del]

definition rtgui_region_unionO :: "int \<Rightarrow> int \<Rightarrow> rect list \<Rightarrow> rect list \<Rightarrow> rect list" where
  "rtgui_region_unionO y1 y2 r1 r2 = (case next_left r1 r2 of None \<Rightarrow> [] | Some (r, r1', r2') \<Rightarrow> merge_rects y1 y2 (rx1 r) (rx2 r) r1' r2')"

lemma merge_rects_ok: "strip u1 v1 r1 \<Longrightarrow> strip u2 v2 r2 \<Longrightarrow> x1 < x2 \<Longrightarrow> \<forall>s \<in> set r1 \<union> set r2. x1 \<le> rx1 s \<Longrightarrow>
    strip y1 y2 (merge_rects y1 y2 x1 x2 r1 r2) \<and> (\<forall>x. col (merge_rects y1 y2 x1 x2 r1 r2) x \<longleftrightarrow> x1 \<le> x \<and> x < x2 \<or> col r1 x \<or> col r2 x)"
proof (induction y1 y2 x1 x2 r1 r2 rule: merge_rects.induct)
  case (1 y1 y2 x1 x2 r1 r2)
  show ?case
  proof (cases "next_left r1 r2")
    case None
    then have "r1 = []" "r2 = []" by (cases "(r1, r2)" rule: next_left.cases; simp split: if_splits)+
    with "1.prems" show ?thesis by (simp add: merge_rects.simps [of y1 y2 x1 x2 "[]" "[]"] strip_cons)
  next
    case (Some t)
    obtain r r1' r2' where t: "t = (r, r1', r2')" by (cases t)
    note n = Some [unfolded t]
    note f = next_left_sorted [OF n "1.prems"(1,2)] and c = next_left_col [OF n]
    have x1r: "x1 \<le> rx1 r" "\<forall>s \<in> set r1' \<union> set r2'. x1 \<le> rx1 s"
      using n "1.prems"(4) by (cases "(r1, r2)" rule: next_left.cases; auto split: if_splits)+
    show ?thesis
    proof (cases "rx1 r \<le> x2")
      case True
      let ?h = "if x2 < rx2 r then rx2 r else x2"
      have "strip y1 y2 (merge_rects y1 y2 x1 ?h r1' r2') \<and>
          (\<forall>x. col (merge_rects y1 y2 x1 ?h r1' r2') x \<longleftrightarrow> x1 \<le> x \<and> x < ?h \<or> col r1' x \<or> col r2' x)"
        using "1.IH"(1) [OF n refl refl True] f x1r(2) "1.prems"(3) by auto
      moreover have "merge_rects y1 y2 x1 x2 r1 r2 = merge_rects y1 y2 x1 ?h r1' r2'"
        using n True by (simp add: merge_rects.simps [of y1 y2 x1 x2 r1 r2])
      ultimately show ?thesis using c True x1r(1) "1.prems"(3) by (smt (verit))
    next
      case False
      let ?m = "merge_rects y1 y2 (rx1 r) (rx2 r) r1' r2'"
      have m: "strip y1 y2 ?m" "\<And>x. col ?m x \<longleftrightarrow> rx1 r \<le> x \<and> x < rx2 r \<or> col r1' x \<or> col r2' x"
        using "1.IH"(2) [OF n refl refl False] f by auto
      have "x2 < x" if "col ?m x" for x
        using that f False unfolding m(2) by (force simp: col_def)
      then have "strip y1 y2 (box x1 y1 x2 y2 # ?m)" using m(1) "1.prems"(3) by (intro strip_after)
      moreover have "merge_rects y1 y2 x1 x2 r1 r2 = box x1 y1 x2 y2 # ?m"
        using n False by (simp add: merge_rects.simps [of y1 y2 x1 x2 r1 r2])
      ultimately show ?thesis using c m(2) by auto
    qed
  qed
qed

lemma unionO_ok: "strip u1 v1 r1 \<Longrightarrow> strip u2 v2 r2 \<Longrightarrow>
    strip y1 y2 (rtgui_region_unionO y1 y2 r1 r2) \<and> (\<forall>x. col (rtgui_region_unionO y1 y2 r1 r2) x \<longleftrightarrow> col r1 x \<or> col r2 x)"
proof (cases "next_left r1 r2")
  case None
  then have "r1 = []" "r2 = []" by (cases "(r1, r2)" rule: next_left.cases; simp split: if_splits)+
  then show ?thesis by (simp add: rtgui_region_unionO_def)
next
  case (Some t)
  assume s: "strip u1 v1 r1" "strip u2 v2 r2"
  obtain r r1' r2' where t: "t = (r, r1', r2')" by (cases t)
  note n = Some [unfolded t]
  note f = next_left_sorted [OF n s] and c = next_left_col [OF n]
  show ?thesis using merge_rects_ok [of u1 v1 r1' u2 v2 r2' "rx1 r" "rx2 r" y1 y2] f c n by (simp add: rtgui_region_unionO_def)
qed

section \<open>Difference of two bands\<close>

text \<open>The left fence after a rectangle of the minuend is used up.\<close>

definition fence :: "int \<Rightarrow> rect list \<Rightarrow> int" where
  "fence x r1 = (case r1 of [] \<Rightarrow> x | a # _ \<Rightarrow> rx1 a)"

fun rest_rects :: "int \<Rightarrow> int \<Rightarrow> int \<Rightarrow> rect list \<Rightarrow> rect list" where
  "rest_rects y1 y2 x [] = []"
| "rest_rects y1 y2 x (a # r1) = box x y1 (rx2 a) y2 # rest_rects y1 y2 (fence x r1) r1"

function subtract_rects :: "int \<Rightarrow> int \<Rightarrow> int \<Rightarrow> rect list \<Rightarrow> rect list \<Rightarrow> rect list" where
  "subtract_rects y1 y2 x (a # r1) (b # r2) =
    (if rx2 b \<le> x then subtract_rects y1 y2 x (a # r1) r2
     else if rx1 b \<le> x then
       if rx2 b \<ge> rx2 a then subtract_rects y1 y2 (fence (rx2 b) r1) r1 (b # r2)
       else subtract_rects y1 y2 (rx2 b) (a # r1) r2
     else if rx1 b < rx2 a then box x y1 (rx1 b) y2 #
       (if rx2 b \<ge> rx2 a then subtract_rects y1 y2 (fence (rx2 b) r1) r1 (b # r2)
        else subtract_rects y1 y2 (rx2 b) (a # r1) r2)
     else (if rx2 a > x then [box x y1 (rx2 a) y2] else []) @ subtract_rects y1 y2 (fence x r1) r1 (b # r2))"
| "subtract_rects y1 y2 x r1 [] = rest_rects y1 y2 x r1"
| "subtract_rects y1 y2 x [] r2 = []"
  by pat_completeness auto
termination
  by (relation "measure (\<lambda>(y1, y2, x, r1, r2). length r1 + length r2)") auto

definition rtgui_region_subtractO :: "int \<Rightarrow> int \<Rightarrow> rect list \<Rightarrow> rect list \<Rightarrow> rect list" where
  "rtgui_region_subtractO y1 y2 r1 r2 = subtract_rects y1 y2 (rx1 (hd r1)) r1 r2"

lemma fence_bounds: "strip u v (a # r1) \<Longrightarrow> rx2 a \<le> x \<Longrightarrow> r1 \<noteq> [] \<Longrightarrow> rx1 (hd r1) \<le> fence x r1 \<and> fence x r1 < rx2 (hd r1)"
  by (cases r1) (auto simp: fence_def strip_cons)

lemma fence_col: "strip u v r1 \<Longrightarrow> col r1 z \<Longrightarrow> fence x r1 \<le> z"
  by (cases r1) (auto simp: fence_def strip_cons col_def)

lemma rest_rects_ok: "strip u v r1 \<Longrightarrow> r1 \<noteq> [] \<longrightarrow> rx1 (hd r1) \<le> x \<and> x < rx2 (hd r1) \<Longrightarrow>
    strip y1 y2 (rest_rects y1 y2 x r1) \<and> (\<forall>z. col (rest_rects y1 y2 x r1) z \<longleftrightarrow> x \<le> z \<and> col r1 z)"
proof (induction y1 y2 x r1 rule: rest_rects.induct)
  case (2 y1 y2 x a r1)
  let ?o = "rest_rects y1 y2 (fence x r1) r1"
  have s: "strip u v r1" and b: "rx1 a \<le> x" "x < rx2 a" using "2.prems" by (auto simp: strip_cons)
  have "r1 \<noteq> [] \<longrightarrow> rx1 (hd r1) \<le> fence x r1 \<and> fence x r1 < rx2 (hd r1)"
    using "2.prems"(1) by (cases r1) (auto simp: fence_def strip_cons)
  then have o: "strip y1 y2 ?o" "\<And>z. col ?o z \<longleftrightarrow> fence x r1 \<le> z \<and> col r1 z" using "2.IH" s by auto
  have l: "rx2 a < z" if "col r1 z" for z using strip_col_after [OF "2.prems"(1) that] .
  have "strip y1 y2 (box x y1 (rx2 a) y2 # ?o)" using o l b by (intro strip_after) auto
  moreover have "col ?o z \<longleftrightarrow> col r1 z" for z using o(2) fence_col [OF s] by blast
  ultimately show ?case using b l by fastforce
qed simp

lemma subtract_rects_ok: "strip u1 v1 r1 \<Longrightarrow> strip u2 v2 r2 \<Longrightarrow> r1 \<noteq> [] \<longrightarrow> rx1 (hd r1) \<le> x \<and> x < rx2 (hd r1) \<Longrightarrow>
    strip y1 y2 (subtract_rects y1 y2 x r1 r2) \<and> (\<forall>z. col (subtract_rects y1 y2 x r1 r2) z \<longleftrightarrow> x \<le> z \<and> col r1 z \<and> \<not> col r2 z)"
proof (induction y1 y2 x r1 r2 rule: subtract_rects.induct)
  case (1 y1 y2 x a r1 b r2)
  have s: "strip u1 v1 r1" "strip u2 v2 r2" "rx1 a \<le> x" "x < rx2 a" "rx1 a < rx2 a" "rx1 b < rx2 b"
    using "1.prems" by (auto simp: strip_cons)
  have la: "rx2 a < z" if "col r1 z" for z using strip_col_after [OF "1.prems"(1) that] .
  have lb: "rx2 b < z" if "col r2 z" for z using strip_col_after [OF "1.prems"(2) that] .
  have fb: "r1 \<noteq> [] \<longrightarrow> rx1 (hd r1) \<le> fence w r1 \<and> fence w r1 < rx2 (hd r1)" for w
    using "1.prems"(1) by (cases r1) (auto simp: fence_def strip_cons)
  note fc = fence_col [OF s(1)]
  let ?next = "subtract_rects y1 y2 (fence (rx2 b) r1) r1 (b # r2)" and ?cut = "subtract_rects y1 y2 (rx2 b) (a # r1) r2"
  consider (skip) "rx2 b \<le> x" | (left) "x < rx2 b" "rx1 b \<le> x" | (mid) "x < rx1 b" "rx1 b < rx2 a" | (right) "x < rx1 b" "rx2 a \<le> rx1 b"
    by linarith
  then show ?case
  proof cases
    case skip
    then show ?thesis using "1.IH"(1) "1.prems" s lb by (auto simp: strip_cons)
  next
    case left
    show ?thesis
    proof (cases "rx2 a \<le> rx2 b")
      case True
      then show ?thesis using "1.IH"(2) left "1.prems" s fb fc la by (fastforce simp: strip_cons)
    next
      case False
      then show ?thesis using "1.IH"(3) left "1.prems" s la lb by (fastforce simp: strip_cons)
    qed
  next
    case mid
    show ?thesis
    proof (cases "rx2 a \<le> rx2 b")
      case True
      then have o: "strip y1 y2 ?next" "\<And>z. col ?next z \<longleftrightarrow> fence (rx2 b) r1 \<le> z \<and> col r1 z \<and> \<not> col (b # r2) z"
        using "1.IH"(4) mid "1.prems" s fb by auto
      have "strip y1 y2 (box x y1 (rx1 b) y2 # ?next)" using o la mid by (intro strip_after) force+
      then show ?thesis using True mid o(2) fc la lb s by fastforce
    next
      case False
      then have o: "strip y1 y2 ?cut" "\<And>z. col ?cut z \<longleftrightarrow> rx2 b \<le> z \<and> col (a # r1) z \<and> \<not> col r2 z"
        using "1.IH"(5) mid "1.prems" s by (auto simp: strip_cons)
      have "strip y1 y2 (box x y1 (rx1 b) y2 # ?cut)" using o s mid by (intro strip_after) auto
      then show ?thesis using False mid o(2) la lb s by fastforce
    qed
  next
    case right
    let ?o = "subtract_rects y1 y2 (fence x r1) r1 (b # r2)"
    have o: "strip y1 y2 ?o" "\<And>z. col ?o z \<longleftrightarrow> fence x r1 \<le> z \<and> col r1 z \<and> \<not> col (b # r2) z"
      using "1.IH"(6) right "1.prems" s fb by auto
    have "strip y1 y2 (box x y1 (rx2 a) y2 # ?o)" using o la s by (intro strip_after) auto
    then show ?thesis using right o(2) fc la lb s by fastforce
  qed
next
  case (2 y1 y2 x r1)
  then show ?case using rest_rects_ok [of u1 v1 r1 x y1 y2] by simp
qed simp

section \<open>What the generic operator asks of its routine\<close>

text \<open>
  The routine combines bands into a band whose columns are a Boolean combination of theirs; what lies in
  one region only is kept or dropped as the two flags say, and what lies in none is never added.
\<close>

locale band_routine =
  fixes routine :: "int \<Rightarrow> int \<Rightarrow> rect list \<Rightarrow> rect list \<Rightarrow> rect list"
    and keep1 :: bool and keep2 :: bool and comb :: "bool \<Rightarrow> bool \<Rightarrow> bool"
  assumes comb_none: "\<not> comb False False"
    and comb_first: "comb True False = keep1"
    and comb_second: "comb False True = keep2"
    and routine_strip: "strip u1 v1 r1 \<Longrightarrow> strip u2 v2 r2 \<Longrightarrow> r1 \<noteq> [] \<Longrightarrow> r2 \<noteq> [] \<Longrightarrow> strip y1 y2 (routine y1 y2 r1 r2)"
    and routine_col: "strip u1 v1 r1 \<Longrightarrow> strip u2 v2 r2 \<Longrightarrow> r1 \<noteq> [] \<Longrightarrow> r2 \<noteq> [] \<Longrightarrow> col (routine y1 y2 r1 r2) x = comb (col r1 x) (col r2 x)"

interpretation inter_band: band_routine rtgui_region_intersectO False False "\<lambda>p q. p \<and> q"
  by unfold_locales (auto intro: intersectO_strip simp: intersectO_col)

interpretation union_band: band_routine rtgui_region_unionO True True "\<lambda>p q. p \<or> q"
  by unfold_locales (auto simp: unionO_ok)

interpretation diff_band: band_routine rtgui_region_subtractO True False "\<lambda>p q. p \<and> \<not> q"
proof
  fix u1 v1 u2 v2 y1 y2 :: int and r1 r2 :: "rect list" and x :: int
  assume s: "strip u1 v1 r1" "strip u2 v2 r2" "r1 \<noteq> []"
  then have "rx1 (hd r1) < rx2 (hd r1)" by (cases r1) (simp_all add: strip_cons)
  note ok = subtract_rects_ok [OF s(1,2), of "rx1 (hd r1)" y1 y2]
  show "strip y1 y2 (rtgui_region_subtractO y1 y2 r1 r2)"
    using ok \<open>rx1 (hd r1) < rx2 (hd r1)\<close> by (simp add: rtgui_region_subtractO_def)
  have "col r1 x \<Longrightarrow> rx1 (hd r1) \<le> x" using s(1,3) by (cases r1) (auto simp: strip_cons col_def)
  then show "col (rtgui_region_subtractO y1 y2 r1 r2) x = (col r1 x \<and> \<not> col r2 x)"
    using ok \<open>rx1 (hd r1) < rx2 (hd r1)\<close> by (auto simp: rtgui_region_subtractO_def)
qed simp_all

end
