(* ===== verification/Rg_Op.thy ===== *)
theory Rg_Op
  imports Rg_Bands
begin

text \<open>
  The generic operator \<open>rtgui_op\<close> of \<open>region.c\<close> and the memory below it. A region is its extents and its
  data: none for a single rectangle, the two static blocks for an empty and for a broken region, or a
  block with an array of \<open>size\<close> places of which the first hold the rectangles. Every request for memory
  takes the next entry of a list of outcomes and succeeds when the list is at its end. The client lemmas
  are proved for every routine that keeps to \<open>band_routine\<close>.
\<close>

section \<open>Regions and their memory\<close>

datatype rdata = Null | Emptydata | Brokendata | Heap "rect list" nat

record region =
  extents :: rect
  data :: rdata

fun rtgui_malloc :: "bool list \<Rightarrow> bool \<times> bool list" where
  "rtgui_malloc [] = (True, [])"
| "rtgui_malloc (b # bs) = (b, bs)"

definition boxptr :: "region \<Rightarrow> rect list" where
  "boxptr reg = (case data reg of Heap rs sz \<Rightarrow> rs | _ \<Rightarrow> [])"

definition rects :: "region \<Rightarrow> rect list" where
  "rects reg = (if data reg = Null then [extents reg] else boxptr reg)"

definition data_size :: "region \<Rightarrow> nat" where
  "data_size reg = (case data reg of Heap rs sz \<Rightarrow> sz | _ \<Rightarrow> 0)"

definition NIL :: "region \<Rightarrow> bool" where
  "NIL reg \<longleftrightarrow> data reg \<noteq> Null \<and> boxptr reg = []"

definition NAR :: "region \<Rightarrow> bool" where
  "NAR reg \<longleftrightarrow> data reg = Brokendata"

definition set_boxes :: "rect list \<Rightarrow> region \<Rightarrow> region" where
  "set_boxes rs reg = (case data reg of Heap os sz \<Rightarrow> reg\<lparr>data := Heap rs sz\<rparr> | _ \<Rightarrow> reg)"

definition rtgui_break :: "region \<Rightarrow> region" where
  "rtgui_break reg = reg\<lparr>extents := rtgui_empty_rect, data := Brokendata\<rparr>"

definition rtgui_rect_alloc :: "region \<Rightarrow> nat \<Rightarrow> bool list \<Rightarrow> bool \<times> region \<times> bool list" where
  "rtgui_rect_alloc reg n mem = (let (ok, mem) = rtgui_malloc mem in
     if \<not> ok then (False, rtgui_break reg, mem)
     else (True, case data reg of
         Null \<Rightarrow> reg\<lparr>data := Heap [extents reg] (n + 1)\<rparr>
       | Heap rs sz \<Rightarrow> if sz = 0 then reg\<lparr>data := Heap [] n\<rparr>
           else reg\<lparr>data := Heap rs ((if n = 1 then (if 500 < length rs then 250 else length rs) else n) + length rs)\<rparr>
       | _ \<Rightarrow> reg\<lparr>data := Heap [] n\<rparr>, mem))"

text \<open>\<open>RECTALLOC\<close> and \<open>NEWRECT\<close>.\<close>

definition RECTALLOC :: "region \<Rightarrow> nat \<Rightarrow> bool list \<Rightarrow> bool \<times> region \<times> bool list" where
  "RECTALLOC reg n mem = (if data reg = Null \<or> data_size reg < length (boxptr reg) + n then rtgui_rect_alloc reg n mem else (True, reg, mem))"

definition NEWRECT :: "rect \<Rightarrow> region \<Rightarrow> bool list \<Rightarrow> bool \<times> region \<times> bool list" where
  "NEWRECT r reg mem = (let (ok, reg, mem) =
       (if data reg = Null \<or> length (boxptr reg) = data_size reg then rtgui_rect_alloc reg 1 mem else (True, reg, mem))
     in if ok then (True, set_boxes (boxptr reg @ [r]) reg, mem) else (False, reg, mem))"

fun new_rects :: "rect list \<Rightarrow> region \<Rightarrow> bool list \<Rightarrow> bool \<times> region \<times> bool list" where
  "new_rects [] reg mem = (True, reg, mem)"
| "new_rects (r # rs) reg mem = (case NEWRECT r reg mem of (ok, reg, mem) \<Rightarrow> if ok then new_rects rs reg mem else (False, reg, mem))"

definition rtgui_region_appendNonO :: "region \<Rightarrow> rect list \<Rightarrow> int \<Rightarrow> int \<Rightarrow> bool list \<Rightarrow> bool \<times> region \<times> bool list" where
  "rtgui_region_appendNonO reg rs y1 y2 mem = (case RECTALLOC reg (length rs) mem of (ok, reg, mem) \<Rightarrow>
     if ok then (True, set_boxes (boxptr reg @ map (\<lambda>r. box (rx1 r) y1 (rx2 r) y2) rs) reg, mem) else (False, reg, mem))"

definition AppendRegions :: "region \<Rightarrow> rect list \<Rightarrow> bool list \<Rightarrow> bool \<times> region \<times> bool list" where
  "AppendRegions reg rs mem = (if rs = [] then (True, reg, mem) else (case RECTALLOC reg (length rs) mem of (ok, reg, mem) \<Rightarrow>
     if ok then (True, set_boxes (boxptr reg @ rs) reg, mem) else (False, reg, mem)))"

section \<open>Coalescing\<close>

text \<open>The rectangles from \<open>prev\<close> on are the band before the one that starts at \<open>cur\<close>.\<close>

definition rtgui_coalesce :: "rect list \<Rightarrow> nat \<Rightarrow> nat \<Rightarrow> rect list \<times> nat" where
  "rtgui_coalesce rs prev cur = (let p = take (cur - prev) (drop prev rs); c = drop cur rs in
     if cur - prev = 0 then (rs, cur)
     else if ry2 (hd p) \<noteq> ry1 (hd c) then (rs, cur)
     else if list_all2 (\<lambda>a b. rx1 a = rx1 b \<and> rx2 a = rx2 b) p c
       then (take prev rs @ map (\<lambda>a. a\<lparr>ry2 := ry2 (hd c)\<rparr>) p, prev)
     else (rs, cur))"

definition Coalesce :: "region \<Rightarrow> nat \<Rightarrow> nat \<Rightarrow> region \<times> nat" where
  "Coalesce reg prev cur = (if int cur - int prev = int (length (boxptr reg)) - int cur
     then (case rtgui_coalesce (boxptr reg) prev cur of (rs, p) \<Rightarrow> (set_boxes rs reg, p)) else (reg, cur))"

section \<open>The operator\<close>

definition band_of :: "rect list \<Rightarrow> rect list" where
  "band_of rs = hd rs # takeWhile (\<lambda>r. ry1 r = ry1 (hd rs)) (tl rs)"

definition band_end :: "rect list \<Rightarrow> rect list" where
  "band_end rs = dropWhile (\<lambda>r. ry1 r = ry1 (hd rs)) (tl rs)"

text \<open>
  A band that lies in one region only, between the bottom of the last intersection and the top of the
  next; the result of the append is not looked at.
\<close>

definition non_overlap :: "bool \<Rightarrow> rect list \<Rightarrow> int \<Rightarrow> int \<Rightarrow> nat \<Rightarrow> region \<Rightarrow> bool list \<Rightarrow> nat \<times> region \<times> bool list" where
  "non_overlap keep b y1 y2 prev reg mem =
    (if keep \<and> y1 \<noteq> y2 then
       (let cur = length (boxptr reg); (ok, reg, mem) = rtgui_region_appendNonO reg b y1 y2 mem; (reg, prev) = Coalesce reg prev cur
        in (prev, reg, mem))
     else (prev, reg, mem))"

definition overlap_band :: "rect list \<Rightarrow> nat \<Rightarrow> region \<Rightarrow> bool list \<Rightarrow> bool \<times> nat \<times> region \<times> bool list" where
  "overlap_band new prev reg mem =
    (let cur = length (boxptr reg); (ok, reg, mem) = new_rects new reg mem
     in if \<not> ok then (False, prev, reg, mem) else (let (reg, prev) = Coalesce reg prev cur in (True, prev, reg, mem)))"

type_synonym routine = "int \<Rightarrow> int \<Rightarrow> rect list \<Rightarrow> rect list \<Rightarrow> rect list"

text \<open>One round of the loop up to the advance of the pointers, and the loop.\<close>

definition op_round :: "routine \<Rightarrow> bool \<Rightarrow> bool \<Rightarrow> rect list \<Rightarrow> rect list \<Rightarrow> int \<Rightarrow> nat \<Rightarrow> region \<Rightarrow> bool list \<Rightarrow>
    bool \<times> nat \<times> region \<times> bool list" where
  "op_round overlapFunc appendNon1 appendNon2 r1 r2 ybot prev reg mem =
    (let r1y1 = ry1 (hd r1); r2y1 = ry1 (hd r2);
       (prev, reg, mem) =
         (if r1y1 < r2y1 then non_overlap appendNon1 (band_of r1) (max r1y1 ybot) (min (ry2 (hd r1)) r2y1) prev reg mem
          else if r2y1 < r1y1 then non_overlap appendNon2 (band_of r2) (max r2y1 ybot) (min (ry2 (hd r2)) r1y1) prev reg mem
          else (prev, reg, mem));
       ytop = (if r1y1 < r2y1 then r2y1 else r1y1); ybot = min (ry2 (hd r1)) (ry2 (hd r2))
     in if ytop < ybot then overlap_band (overlapFunc ytop ybot (band_of r1) (band_of r2)) prev reg mem
        else (True, prev, reg, mem))"

lemma band_end_shorter: "rs \<noteq> [] \<Longrightarrow> length (band_end rs) < length rs"
  using length_dropWhile_le [of "\<lambda>r. ry1 r = ry1 (hd rs)" "tl rs"] by (cases rs) (auto simp: band_end_def less_Suc_eq_le)

function op_loop :: "routine \<Rightarrow> bool \<Rightarrow> bool \<Rightarrow> rect list \<Rightarrow> rect list \<Rightarrow> int \<Rightarrow> nat \<Rightarrow> region \<Rightarrow> bool list \<Rightarrow>
    bool \<times> rect list \<times> rect list \<times> int \<times> nat \<times> region \<times> bool list" where
  "op_loop overlapFunc appendNon1 appendNon2 r1 r2 ybot prev reg mem =
    (if r1 = [] \<or> r2 = [] then (True, r1, r2, ybot, prev, reg, mem)
     else case op_round overlapFunc appendNon1 appendNon2 r1 r2 ybot prev reg mem of (ok, prev, reg, mem) \<Rightarrow>
       let ybot = min (ry2 (hd r1)) (ry2 (hd r2)) in
       if \<not> ok then (False, r1, r2, ybot, prev, reg, mem)
       else op_loop overlapFunc appendNon1 appendNon2 (if ry2 (hd r1) = ybot then band_end r1 else r1)
         (if ry2 (hd r2) = ybot then band_end r2 else r2) ybot prev reg mem)"
  by pat_completeness auto
termination
  by (relation "measure (\<lambda>(f, a, b, r1, r2, y, p, g, m). length r1 + length r2)")
    (auto simp: min_def not_le intro: add_less_mono band_end_shorter)

declare op_loop.simps [simp del]

text \<open>What is left of one region: its first band may be cut, the others are appended as they are.\<close>

definition append_rest :: "rect list \<Rightarrow> int \<Rightarrow> nat \<Rightarrow> region \<Rightarrow> bool list \<Rightarrow> bool \<times> region \<times> bool list" where
  "append_rest r ybot prev reg mem =
    (let cur = length (boxptr reg); (ok, reg, mem) = rtgui_region_appendNonO reg (band_of r) (max (ry1 (hd r)) ybot) (ry2 (hd r)) mem;
       (reg, prev) = Coalesce reg prev cur
     in AppendRegions reg (band_end r) mem)"

definition op_rest :: "bool \<Rightarrow> bool \<Rightarrow> rect list \<Rightarrow> rect list \<Rightarrow> int \<Rightarrow> nat \<Rightarrow> region \<Rightarrow> bool list \<Rightarrow> bool \<times> region \<times> bool list" where
  "op_rest appendNon1 appendNon2 r1 r2 ybot prev reg mem =
    (if r1 \<noteq> [] \<and> appendNon1 then append_rest r1 ybot prev reg mem
     else if r2 \<noteq> [] \<and> appendNon2 then append_rest r2 ybot prev reg mem
     else (True, reg, mem))"

definition DOWNSIZE :: "region \<Rightarrow> nat \<Rightarrow> bool list \<Rightarrow> region \<times> bool list" where
  "DOWNSIZE reg n mem = (if n < data_size reg div 2 \<and> 50 < data_size reg
     then (case rtgui_malloc mem of (ok, mem) \<Rightarrow> (if ok then reg\<lparr>data := Heap (boxptr reg) n\<rparr> else reg, mem)) else (reg, mem))"

definition op_finish :: "region \<Rightarrow> bool list \<Rightarrow> region \<times> bool list" where
  "op_finish reg mem = (case boxptr reg of
     [] \<Rightarrow> (reg\<lparr>data := Emptydata\<rparr>, mem)
   | [r] \<Rightarrow> (reg\<lparr>extents := r, data := Null\<rparr>, mem)
   | rs \<Rightarrow> DOWNSIZE reg (length rs) mem)"

text \<open>The place for the result: a destination that is also a source with an array gets a new one.\<close>

definition op_start :: "bool \<Rightarrow> nat \<Rightarrow> region \<Rightarrow> bool list \<Rightarrow> bool \<times> region \<times> bool list" where
  "op_start source newSize reg mem =
    (let reg = (if source then reg\<lparr>data := Emptydata\<rparr> else reg);
       reg = (if data reg = Null then reg\<lparr>data := Emptydata\<rparr> else if data_size reg \<noteq> 0 then set_boxes [] reg else reg)
     in if data_size reg < newSize then rtgui_rect_alloc reg newSize mem else (True, reg, mem))"

type_synonym regions = "nat \<Rightarrow> region"

definition rtgui_op :: "routine \<Rightarrow> bool \<Rightarrow> bool \<Rightarrow> nat \<Rightarrow> nat \<Rightarrow> nat \<Rightarrow> regions \<Rightarrow> bool list \<Rightarrow> bool \<times> regions \<times> bool list" where
  "rtgui_op overlapFunc appendNon1 appendNon2 newReg reg1 reg2 m mem =
    (if NAR (m reg1) \<or> NAR (m reg2) then (False, m(newReg := rtgui_break (m newReg)), mem)
     else let r1 = rects (m reg1); r2 = rects (m reg2);
         source = (newReg = reg1 \<and> 1 < length r1 \<or> newReg = reg2 \<and> 1 < length r2)
       in case op_start source (2 * max (length r1) (length r2)) (m newReg) mem of (ok, reg, mem) \<Rightarrow>
         if \<not> ok then (False, m(newReg := reg), mem)
         else case op_loop overlapFunc appendNon1 appendNon2 r1 r2 (min (ry1 (hd r1)) (ry1 (hd r2))) 0 reg mem of
           (ok, r1, r2, ybot, prev, reg, mem) \<Rightarrow>
             if \<not> ok then (False, m(newReg := reg), mem)
             else case op_rest appendNon1 appendNon2 r1 r2 ybot prev reg mem of (ok, reg, mem) \<Rightarrow>
               if \<not> ok then (False, m(newReg := reg), mem)
               else case op_finish reg mem of (reg, mem) \<Rightarrow> (True, m(newReg := reg), mem))"

section \<open>Memory that lasts\<close>

definition ready :: "rect \<Rightarrow> region \<Rightarrow> bool list \<Rightarrow> rect list \<Rightarrow> bool" where
  "ready e reg mem os \<longleftrightarrow> False \<notin> set mem \<and> extents reg = e \<and> (\<exists>sz. data reg = Heap os sz \<and> length os \<le> sz \<and> 0 < sz)"

lemma malloc_lasts: "False \<notin> set mem \<Longrightarrow> \<exists>mem'. rtgui_malloc mem = (True, mem') \<and> False \<notin> set mem'"
  by (cases mem) auto

lemma ready_boxptr: "ready e reg mem os \<Longrightarrow> boxptr reg = os"
  by (auto simp: ready_def boxptr_def)

lemma NEWRECT_ready: "ready e reg mem os \<Longrightarrow> \<exists>reg' mem'. NEWRECT r reg mem = (True, reg', mem') \<and> ready e reg' mem' (os @ [r])"
  using malloc_lasts [of mem]
  by (cases os) (auto simp: ready_def NEWRECT_def boxptr_def data_size_def rtgui_rect_alloc_def set_boxes_def)

lemma new_rects_ready: "ready e reg mem os \<Longrightarrow> \<exists>reg' mem'. new_rects rs reg mem = (True, reg', mem') \<and> ready e reg' mem' (os @ rs)"
proof (induction rs arbitrary: reg mem os)
  case (Cons r rs)
  obtain reg1 mem1 where "NEWRECT r reg mem = (True, reg1, mem1)" "ready e reg1 mem1 (os @ [r])"
    using NEWRECT_ready [OF Cons.prems] by blast
  with Cons.IH [of reg1 mem1 "os @ [r]"] show ?case by auto
qed auto

lemma RECTALLOC_ready: "ready e reg mem os \<Longrightarrow> 0 < n \<Longrightarrow>
    \<exists>reg' mem'. RECTALLOC reg n mem = (True, reg', mem') \<and> False \<notin> set mem' \<and> extents reg' = e \<and> (\<exists>sz. data reg' = Heap os sz \<and> length os + n \<le> sz \<and> 0 < sz)"
  using malloc_lasts [of mem]
  by (auto simp: ready_def RECTALLOC_def boxptr_def data_size_def rtgui_rect_alloc_def)

lemma appendNonO_ready: "ready e reg mem os \<Longrightarrow> rs \<noteq> [] \<Longrightarrow>
    \<exists>reg' mem'. rtgui_region_appendNonO reg rs y1 y2 mem = (True, reg', mem') \<and> ready e reg' mem' (os @ map (\<lambda>r. box (rx1 r) y1 (rx2 r) y2) rs)"
  using RECTALLOC_ready [of e reg mem os "length rs"]
  by (auto simp: rtgui_region_appendNonO_def ready_def boxptr_def set_boxes_def)

lemma AppendRegions_ready: "ready e reg mem os \<Longrightarrow> \<exists>reg' mem'. AppendRegions reg rs mem = (True, reg', mem') \<and> ready e reg' mem' (os @ rs)"
  using RECTALLOC_ready [of e reg mem os "length rs"]
  by (auto simp: AppendRegions_def ready_def boxptr_def set_boxes_def)

section \<open>Banded lists of rectangles\<close>

definition before :: "rect \<Rightarrow> rect \<Rightarrow> bool" where
  "before r s \<longleftrightarrow> ry1 r = ry1 s \<and> ry2 r = ry2 s \<and> rx2 r < rx1 s \<or> ry2 r \<le> ry1 s"

definition banded :: "rect list \<Rightarrow> bool" where
  "banded rs \<longleftrightarrow> (\<forall>r \<in> set rs. rx1 r < rx2 r \<and> ry1 r < ry2 r) \<and> sorted_wrt before rs"

lemma banded_nil [simp]: "banded []"
  by (simp add: banded_def)

lemma banded_cons: "banded (r # rs) \<longleftrightarrow> rx1 r < rx2 r \<and> ry1 r < ry2 r \<and> (\<forall>s \<in> set rs. before r s) \<and> banded rs"
  by (auto simp: banded_def)

lemma banded_append: "banded (rs @ ss) \<longleftrightarrow> banded rs \<and> banded ss \<and> (\<forall>r \<in> set rs. \<forall>s \<in> set ss. before r s)"
  by (auto simp: banded_def sorted_wrt_append)

lemma strip_banded: "y1 < y2 \<Longrightarrow> strip y1 y2 rs \<Longrightarrow> banded rs"
  by (induction rs) (auto simp: strip_cons banded_cons before_def strip_def left_of_def)

lemma strip_above: "strip y1 y2 rs \<Longrightarrow> \<forall>r \<in> set os. ry2 r \<le> y1 \<Longrightarrow> banded os \<Longrightarrow> y1 < y2 \<Longrightarrow> banded (os @ rs)"
  by (auto simp: banded_append before_def strip_def intro: strip_banded)

lemma band_split: "rs \<noteq> [] \<Longrightarrow> rs = band_of rs @ band_end rs"
  by (cases rs) (simp_all add: band_of_def band_end_def)

lemma same_top: "before r s \<Longrightarrow> ry1 r < ry2 r \<Longrightarrow> ry1 s = ry1 r \<Longrightarrow> ry2 s = ry2 r \<and> rx2 r < rx1 s"
  by (auto simp: before_def)

lemma strip_takeWhile: "banded rs \<Longrightarrow> \<forall>s \<in> set rs. before r s \<Longrightarrow> rx1 r < rx2 r \<Longrightarrow> ry1 r < ry2 r \<Longrightarrow>
    strip (ry1 r) (ry2 r) (r # takeWhile (\<lambda>s. ry1 s = ry1 r) rs)"
proof (induction rs)
  case Nil
  then show ?case by (simp add: strip_cons)
next
  case (Cons s rs)
  show ?case
  proof (cases "ry1 s = ry1 r")
    case True
    have "ry2 s = ry2 r" "rx2 r < rx1 s" using same_top [of r s] Cons.prems True by auto
    moreover have "strip (ry1 r) (ry2 r) (r # takeWhile (\<lambda>s. ry1 s = ry1 r) rs)" using Cons by (simp add: banded_cons)
    moreover have "rx2 s < rx1 t" if "t \<in> set (takeWhile (\<lambda>s. ry1 s = ry1 r) rs)" for t
      using that Cons.prems(1) True same_top [of s t] by (auto simp: banded_cons dest!: set_takeWhileD)
    ultimately show ?thesis using Cons.prems(1) True by (simp add: strip_cons banded_cons)
  next
    case False
    then show ?thesis using Cons.prems by (simp add: strip_cons)
  qed
qed

lemma band_strip: "banded rs \<Longrightarrow> rs \<noteq> [] \<Longrightarrow> strip (ry1 (hd rs)) (ry2 (hd rs)) (band_of rs)"
  by (cases rs) (simp_all add: band_of_def banded_cons strip_takeWhile)

lemma dropWhile_below: "banded rs \<Longrightarrow> \<forall>s \<in> set rs. before r s \<Longrightarrow> ry1 r < ry2 r \<Longrightarrow> s \<in> set (dropWhile (\<lambda>s. ry1 s = ry1 r) rs) \<Longrightarrow> ry2 r \<le> ry1 s"
proof (induction rs)
  case (Cons t rs)
  show ?case
  proof (cases "ry1 t = ry1 r")
    case True
    with Cons show ?thesis by (simp add: banded_cons)
  next
    case False
    then have "ry2 r \<le> ry1 t" using Cons.prems(2) by (auto simp: before_def)
    moreover have "ry1 t \<le> ry1 s" using Cons.prems(1,4) False by (auto simp: banded_cons before_def)
    ultimately show ?thesis by simp
  qed
qed simp

lemma band_end_below: "banded rs \<Longrightarrow> rs \<noteq> [] \<Longrightarrow> s \<in> set (band_end rs) \<Longrightarrow> ry2 (hd rs) \<le> ry1 s"
  by (cases rs) (auto simp: band_end_def banded_cons dest: dropWhile_below)

lemma band_end_banded: "banded rs \<Longrightarrow> rs \<noteq> [] \<Longrightarrow> banded (band_end rs)"
  using band_split [of rs] banded_append [of "band_of rs" "band_end rs"] by simp

lemma hd_positive: "banded rs \<Longrightarrow> rs \<noteq> [] \<Longrightarrow> ry1 (hd rs) < ry2 (hd rs)"
  by (cases rs) (simp_all add: banded_cons)

text \<open>The pixels of a region above and below the bottom of its first band.\<close>

lemma pix_band: "banded rs \<Longrightarrow> rs \<noteq> [] \<Longrightarrow> y < ry2 (hd rs) \<Longrightarrow> pix rs x y \<longleftrightarrow> ry1 (hd rs) \<le> y \<and> col (band_of rs) x"
proof -
  assume b: "banded rs" "rs \<noteq> []" "y < ry2 (hd rs)"
  have "\<not> pix (band_end rs) x y" using band_end_below [OF b(1,2)] b(3) by (force simp: pix_def INBOX_def)
  then show ?thesis using strip_pix [OF band_strip [OF b(1,2)], of x y] b band_split [OF b(2)] by (metis pix_simps(3))
qed

lemma pix_band_end: "banded rs \<Longrightarrow> rs \<noteq> [] \<Longrightarrow> ry2 (hd rs) \<le> y \<Longrightarrow> pix rs x y \<longleftrightarrow> pix (band_end rs) x y"
proof -
  assume b: "banded rs" "rs \<noteq> []" "ry2 (hd rs) \<le> y"
  then show ?thesis using strip_pix [OF band_strip [OF b(1,2)], of x y] b band_split [OF b(2)] by (metis linorder_not_less pix_simps(3))
qed

lemma band_of_nonempty [simp]: "band_of rs \<noteq> []"
  by (simp add: band_of_def)

lemma strip_cut: "strip u v rs \<Longrightarrow> strip y1 y2 (map (\<lambda>r. box (rx1 r) y1 (rx2 r) y2) rs)"
  by (induction rs) (auto simp: strip_cons)

lemma col_cut [simp]: "col (map (\<lambda>r. box (rx1 r) y1 (rx2 r) y2) rs) x = col rs x"
  by (auto simp: col_def)

section \<open>Coalescing keeps the pixels\<close>

definition last_band :: "rect list \<Rightarrow> nat \<Rightarrow> bool" where
  "last_band os prev \<longleftrightarrow> prev \<le> length os \<and> (\<exists>u v. strip u v (drop prev os) \<and> (\<forall>r \<in> set (take prev os). ry2 r \<le> u))"

lemma col_same: "list_all2 (\<lambda>a b. rx1 a = rx1 b \<and> rx2 a = rx2 b) p b \<Longrightarrow> col p x = col b x"
  by (induction rule: list_all2_induct) auto

lemma strip_lower: "strip u v p \<Longrightarrow> strip u w (map (\<lambda>a. a\<lparr>ry2 := w\<rparr>) p)"
  by (induction p) (auto simp: strip_cons)

lemma col_lower [simp]: "col (map (\<lambda>a. a\<lparr>ry2 := w\<rparr>) p) x = col p x"
  by (auto simp: col_def)

lemma coalesce_list:
  assumes b: "strip y1 y2 b" "y1 < y2" and os: "banded os" "\<forall>r \<in> set os. ry2 r \<le> y1" "last_band os prev"
    and n: "length os - prev = length b"
  shows "\<exists>os' prev'. rtgui_coalesce (os @ b) prev (length os) = (os', prev') \<and> banded os' \<and> last_band os' prev' \<and>
    (\<forall>x y. pix os' x y = pix (os @ b) x y) \<and> (\<forall>r \<in> set os'. ry2 r \<le> y2)"
proof -
  define acc p where "acc = take prev os" and "p = drop prev os"
  have os_eq: "os = acc @ p" "prev = length acc" using os(3) by (simp_all add: acc_def p_def last_band_def)
  obtain u v where p: "strip u v p" "\<forall>r \<in> set acc. ry2 r \<le> u" using os(3) by (auto simp: last_band_def acc_def p_def)
  let ?same = "list_all2 (\<lambda>a b. rx1 a = rx1 b \<and> rx2 a = rx2 b) p b"
  have c: "rtgui_coalesce (os @ b) prev (length os) = (if p \<noteq> [] \<and> ry2 (hd p) = ry1 (hd b) \<and> ?same
      then (acc @ map (\<lambda>a. a\<lparr>ry2 := ry2 (hd b)\<rparr>) p, prev) else (os @ b, length os))"
    by (auto simp: rtgui_coalesce_def Let_def os_eq)
  show ?thesis
  proof (cases "p \<noteq> [] \<and> ry2 (hd p) = ry1 (hd b) \<and> ?same")
    case True
    have ne: "b \<noteq> []" using True by (cases b) auto
    have h: "ry1 (hd b) = y1" "ry2 (hd b) = y2" using b(1) ne by (cases b; simp add: strip_cons)+
    have v: "v = y1" "u < v" using True p(1) h os(1) by (cases p; simp add: strip_cons os_eq banded_append banded_cons)+
    let ?p = "map (\<lambda>a. a\<lparr>ry2 := y2\<rparr>) p"
    have sp: "strip u y2 ?p" using strip_lower [OF p(1)] .
    have "banded (acc @ ?p)" using strip_above [OF sp p(2)] os(1) b(2) v by (simp add: os_eq banded_append)
    moreover have "last_band (acc @ ?p) prev" using sp p(2) os_eq(2) by (auto simp: last_band_def)
    moreover have "pix (acc @ ?p) x y = pix (os @ b) x y" for x y
      using strip_pix [OF sp, of x y] strip_pix [OF p(1), of x y] strip_pix [OF b(1), of x y] True v b(2) col_same [of p b x]
      by (auto simp: os_eq)
    moreover have "\<forall>r \<in> set (acc @ ?p). ry2 r \<le> y2" using os(2) b(2) by (force simp: os_eq)
    ultimately show ?thesis using c True h by auto
  next
    case False
    have "banded (os @ b)" using strip_above [OF b(1) os(2,1) b(2)] .
    moreover have "last_band (os @ b) (length os)" using b(1) os(2) by (auto simp: last_band_def)
    moreover have "\<forall>r \<in> set (os @ b). ry2 r \<le> y2" using os(2) b by (auto simp: strip_def)
    ultimately show ?thesis using c False by auto
  qed
qed

lemma Coalesce_ready:
  assumes b: "strip y1 y2 b" "y1 < y2" and os: "banded os" "\<forall>r \<in> set os. ry2 r \<le> y1" "last_band os prev"
    and r: "ready e reg mem (os @ b)"
  shows "\<exists>reg' os' prev'. Coalesce reg prev (length os) = (reg', prev') \<and> ready e reg' mem os' \<and> banded os' \<and> last_band os' prev' \<and>
    (\<forall>x y. pix os' x y = pix (os @ b) x y) \<and> (\<forall>r \<in> set os'. ry2 r \<le> y2)"
proof (cases "int (length os) - int prev = int (length (os @ b)) - int (length os)")
  case True
  then have "length os - prev = length b" by simp
  from coalesce_list [OF b os this] obtain os' prev' where c: "rtgui_coalesce (os @ b) prev (length os) = (os', prev')" "banded os'"
    "last_band os' prev'" "\<forall>x y. pix os' x y = pix (os @ b) x y" "\<forall>r \<in> set os'. ry2 r \<le> y2" by blast
  have "length os' \<le> length (os @ b)" using c(1) os(3)
    by (auto simp: rtgui_coalesce_def Let_def last_band_def split: if_splits)
  then have "ready e (set_boxes os' reg) mem os'" using r by (auto simp: ready_def set_boxes_def)
  with c True ready_boxptr [OF r] show ?thesis by (auto simp: Coalesce_def)
next
  case False
  have "banded (os @ b)" using strip_above [OF b(1) os(2,1) b(2)] .
  moreover have "last_band (os @ b) (length os)" using b(1) os(2) by (auto simp: last_band_def)
  moreover have "\<forall>r \<in> set (os @ b). ry2 r \<le> y2" using os(2) b by (auto simp: strip_def)
  ultimately show ?thesis using False r ready_boxptr [OF r] by (auto simp: Coalesce_def)
qed

end
