(* ===== verification/Rg_Loop.thy ===== *)
theory Rg_Loop
  imports Rg_Op
begin

text \<open>
  The generic operator computes the combination of two regions: the loop's invariant says which pixels the
  new region has above the bottom of the last intersection and which the two rests still have to give.
\<close>

definition op_inv :: "rect list \<Rightarrow> nat \<Rightarrow> int \<Rightarrow> rect list \<Rightarrow> rect list \<Rightarrow> bool" where
  "op_inv os prev ybot r1 r2 \<longleftrightarrow> banded os \<and> last_band os prev \<and> (\<forall>r \<in> set os. ry2 r \<le> ybot) \<and> banded r1 \<and> banded r2 \<and>
     (r1 \<noteq> [] \<longrightarrow> ybot < ry2 (hd r1)) \<and> (r2 \<noteq> [] \<longrightarrow> ybot < ry2 (hd r2)) \<and>
     (r1 \<noteq> [] \<longrightarrow> r2 \<noteq> [] \<longrightarrow> ybot \<le> max (ry1 (hd r1)) (ry1 (hd r2)))"

text \<open>Adding the band of one region between two lines.\<close>

lemma non_overlap_ready:
  assumes r: "ready e reg mem os" and os: "banded os" "last_band os prev" "\<forall>r \<in> set os. ry2 r \<le> y1"
    and b: "strip u v b" "b \<noteq> []" "y1 \<le> y2"
  shows "\<exists>prev' reg' mem' os'. non_overlap keep b y1 y2 prev reg mem = (prev', reg', mem') \<and> ready e reg' mem' os' \<and> banded os' \<and>
    last_band os' prev' \<and> (\<forall>x y. pix os' x y \<longleftrightarrow> pix os x y \<or> keep \<and> y1 \<le> y \<and> y < y2 \<and> col b x) \<and> (\<forall>r \<in> set os'. ry2 r \<le> y2)"
proof (cases "keep \<and> y1 \<noteq> y2")
  case True
  with b(3) have lt: "y1 < y2" by simp
  let ?b = "map (\<lambda>r. box (rx1 r) y1 (rx2 r) y2) b"
  note sb = strip_cut [OF b(1), of y1 y2]
  obtain reg1 mem1 where a: "rtgui_region_appendNonO reg b y1 y2 mem = (True, reg1, mem1)" "ready e reg1 mem1 (os @ ?b)"
    using appendNonO_ready [OF r b(2)] by blast
  obtain reg2 os' prev' where c: "Coalesce reg1 prev (length os) = (reg2, prev')" "ready e reg2 mem1 os'" "banded os'" "last_band os' prev'"
    "\<forall>x y. pix os' x y = pix (os @ ?b) x y" "\<forall>r \<in> set os'. ry2 r \<le> y2"
    using Coalesce_ready [OF sb lt os(1,3,2) a(2)] by blast
  show ?thesis using a c True strip_pix [OF sb] ready_boxptr [OF r] by (auto simp: non_overlap_def Let_def)
next
  case False
  then have "non_overlap keep b y1 y2 prev reg mem = (prev, reg, mem)" unfolding non_overlap_def by (rule if_not_P)
  moreover have "\<forall>r \<in> set os. ry2 r \<le> y2" using os(3) b(3) by auto
  ultimately show ?thesis using r os False by (intro exI [of _ prev] exI [of _ reg] exI [of _ mem] exI [of _ os]) auto
qed

lemma overlap_band_ready:
  assumes r: "ready e reg mem os" and os: "banded os" "last_band os prev" "\<forall>r \<in> set os. ry2 r \<le> y1" and b: "strip y1 y2 b" "y1 < y2"
  shows "\<exists>prev' reg' mem' os'. overlap_band b prev reg mem = (True, prev', reg', mem') \<and> ready e reg' mem' os' \<and> banded os' \<and>
    last_band os' prev' \<and> (\<forall>x y. pix os' x y \<longleftrightarrow> pix os x y \<or> y1 \<le> y \<and> y < y2 \<and> col b x) \<and> (\<forall>r \<in> set os'. ry2 r \<le> y2)"
proof -
  obtain reg1 mem1 where a: "new_rects b reg mem = (True, reg1, mem1)" "ready e reg1 mem1 (os @ b)"
    using new_rects_ready [OF r] by blast
  obtain reg2 os' prev' where c: "Coalesce reg1 prev (length os) = (reg2, prev')" "ready e reg2 mem1 os'" "banded os'" "last_band os' prev'"
    "\<forall>x y. pix os' x y = pix (os @ b) x y" "\<forall>r \<in> set os'. ry2 r \<le> y2"
    using Coalesce_ready [OF b os(1,3,2) a(2)] by blast
  show ?thesis using a c strip_pix [OF b(1)] ready_boxptr [OF r] by (auto simp: overlap_band_def Let_def)
qed

text \<open>The rest of a region after its first band is used up.\<close>

definition advance :: "int \<Rightarrow> rect list \<Rightarrow> rect list" where
  "advance ybot r = (if ry2 (hd r) = ybot then band_end r else r)"

lemma advance_facts: "banded r \<Longrightarrow> r \<noteq> [] \<Longrightarrow> ybot \<le> ry2 (hd r) \<Longrightarrow>
    banded (advance ybot r) \<and> (advance ybot r \<noteq> [] \<longrightarrow> ybot < ry2 (hd (advance ybot r))) \<and>
    (ry2 (hd r) = ybot \<longrightarrow> advance ybot r \<noteq> [] \<longrightarrow> ybot \<le> ry1 (hd (advance ybot r)))"
  using band_end_banded [of r] band_end_below [of r "hd (band_end r)"] hd_positive [of "band_end r"]
  by (auto simp: advance_def)

lemma advance_pix: "banded r \<Longrightarrow> r \<noteq> [] \<Longrightarrow> ybot \<le> ry2 (hd r) \<Longrightarrow> ybot \<le> y \<Longrightarrow> pix (advance ybot r) x y = pix r x y"
  by (simp add: advance_def pix_band_end)

lemma op_loop_advance: "op_loop f k1 k2 r1 r2 ybot prev reg mem =
    (if r1 = [] \<or> r2 = [] then (True, r1, r2, ybot, prev, reg, mem)
     else case op_round f k1 k2 r1 r2 ybot prev reg mem of (ok, prev, reg, mem) \<Rightarrow>
       let ybot = min (ry2 (hd r1)) (ry2 (hd r2)) in
       if \<not> ok then (False, r1, r2, ybot, prev, reg, mem)
       else op_loop f k1 k2 (advance ybot r1) (advance ybot r2) ybot prev reg mem)"
  unfolding advance_def by (rule op_loop.simps)

context band_routine
begin

lemma comb_single: "comb p False = (keep1 \<and> p)" "comb False q = (keep2 \<and> q)"
  using comb_none comb_first comb_second by (cases p; cases q; simp)+

text \<open>The part of a round before the intersection.\<close>

definition first_part :: "rect list \<Rightarrow> rect list \<Rightarrow> int \<Rightarrow> nat \<Rightarrow> region \<Rightarrow> bool list \<Rightarrow> nat \<times> region \<times> bool list" where
  "first_part r1 r2 ybot prev reg mem = (let r1y1 = ry1 (hd r1); r2y1 = ry1 (hd r2) in
     if r1y1 < r2y1 then non_overlap keep1 (band_of r1) (max r1y1 ybot) (min (ry2 (hd r1)) r2y1) prev reg mem
     else if r2y1 < r1y1 then non_overlap keep2 (band_of r2) (max r2y1 ybot) (min (ry2 (hd r2)) r1y1) prev reg mem
     else (prev, reg, mem))"

lemma first_part_ready:
  assumes inv: "op_inv os prev ybot r1 r2" and ne: "r1 \<noteq> []" "r2 \<noteq> []" and r: "ready e reg mem os"
  defines "y' \<equiv> min (max (ry1 (hd r1)) (ry1 (hd r2))) (min (ry2 (hd r1)) (ry2 (hd r2)))"
  shows "\<exists>prev' reg' mem' os'. first_part r1 r2 ybot prev reg mem = (prev', reg', mem') \<and> ready e reg' mem' os' \<and> banded os' \<and>
    last_band os' prev' \<and> (\<forall>r \<in> set os'. ry2 r \<le> y') \<and>
    (\<forall>x y. pix os' x y \<longleftrightarrow> pix os x y \<or> ybot \<le> y \<and> y < y' \<and> comb (ry1 (hd r1) \<le> y \<and> col (band_of r1) x) (ry1 (hd r2) \<le> y \<and> col (band_of r2) x))"
proof -
  note i = inv [unfolded op_inv_def]
  have t: "ry1 (hd r1) < ry2 (hd r1)" "ry1 (hd r2) < ry2 (hd r2)" "ybot < ry2 (hd r1)" "ybot < ry2 (hd r2)"
    "ybot \<le> max (ry1 (hd r1)) (ry1 (hd r2))" using i ne hd_positive by auto
  have os: "banded os" "last_band os prev" "\<forall>r \<in> set os. ry2 r \<le> z" if "ybot \<le> z" for z using i that by auto
  consider (one) "ry1 (hd r1) < ry1 (hd r2)" | (two) "ry1 (hd r2) < ry1 (hd r1)" | (same) "ry1 (hd r1) = ry1 (hd r2)" by linarith
  then show ?thesis
  proof cases
    case one
    have y': "y' = min (ry2 (hd r1)) (ry1 (hd r2))" using one t by (simp add: y'_def)
    have sb: "strip (ry1 (hd r1)) (ry2 (hd r1)) (band_of r1)" using band_strip i ne by blast
    have c: "comb (ry1 (hd r1) \<le> y \<and> col (band_of r1) x) (ry1 (hd r2) \<le> y \<and> col (band_of r2) x) \<longleftrightarrow> keep1 \<and> ry1 (hd r1) \<le> y \<and> col (band_of r1) x"
      if "y < y'" for x y using that by (simp add: y' comb_single)
    have fp: "first_part r1 r2 ybot prev reg mem = non_overlap keep1 (band_of r1) (max (ry1 (hd r1)) ybot) y' prev reg mem"
      using one by (simp add: first_part_def y')
    have le: "max (ry1 (hd r1)) ybot \<le> y'" and q: "ybot \<le> max (ry1 (hd r1)) ybot" using one t by (simp_all add: y')
    obtain prev' reg' mem' os' where n: "non_overlap keep1 (band_of r1) (max (ry1 (hd r1)) ybot) y' prev reg mem = (prev', reg', mem')"
      "ready e reg' mem' os'" "banded os'" "last_band os' prev'" "\<forall>r \<in> set os'. ry2 r \<le> y'"
      "\<And>x y. pix os' x y \<longleftrightarrow> pix os x y \<or> keep1 \<and> max (ry1 (hd r1)) ybot \<le> y \<and> y < y' \<and> col (band_of r1) x"
      using non_overlap_ready [OF r os [OF q] sb band_of_nonempty le, of keep1] by blast
    have "pix os' x y \<longleftrightarrow> pix os x y \<or> ybot \<le> y \<and> y < y' \<and> comb (ry1 (hd r1) \<le> y \<and> col (band_of r1) x) (ry1 (hd r2) \<le> y \<and> col (band_of r2) x)" for x y
      using c [of y x] unfolding n(6) by auto
    then have p: "\<forall>x y. pix os' x y \<longleftrightarrow> pix os x y \<or> ybot \<le> y \<and> y < y' \<and> comb (ry1 (hd r1) \<le> y \<and> col (band_of r1) x) (ry1 (hd r2) \<le> y \<and> col (band_of r2) x)"
      by blast
    have "first_part r1 r2 ybot prev reg mem = (prev', reg', mem')" using fp n(1) by simp
    then show ?thesis using n(2-5) p by blast
  next
    case two
    have y': "y' = min (ry2 (hd r2)) (ry1 (hd r1))" using two t by (simp add: y'_def)
    have sb: "strip (ry1 (hd r2)) (ry2 (hd r2)) (band_of r2)" using band_strip i ne by blast
    have c: "comb (ry1 (hd r1) \<le> y \<and> col (band_of r1) x) (ry1 (hd r2) \<le> y \<and> col (band_of r2) x) \<longleftrightarrow> keep2 \<and> ry1 (hd r2) \<le> y \<and> col (band_of r2) x"
      if "y < y'" for x y using that by (simp add: y' comb_single)
    have fp: "first_part r1 r2 ybot prev reg mem = non_overlap keep2 (band_of r2) (max (ry1 (hd r2)) ybot) y' prev reg mem"
      using two by (simp add: first_part_def y')
    have le: "max (ry1 (hd r2)) ybot \<le> y'" and q: "ybot \<le> max (ry1 (hd r2)) ybot" using two t by (simp_all add: y')
    obtain prev' reg' mem' os' where n: "non_overlap keep2 (band_of r2) (max (ry1 (hd r2)) ybot) y' prev reg mem = (prev', reg', mem')"
      "ready e reg' mem' os'" "banded os'" "last_band os' prev'" "\<forall>r \<in> set os'. ry2 r \<le> y'"
      "\<And>x y. pix os' x y \<longleftrightarrow> pix os x y \<or> keep2 \<and> max (ry1 (hd r2)) ybot \<le> y \<and> y < y' \<and> col (band_of r2) x"
      using non_overlap_ready [OF r os [OF q] sb band_of_nonempty le, of keep2] by blast
    have "pix os' x y \<longleftrightarrow> pix os x y \<or> ybot \<le> y \<and> y < y' \<and> comb (ry1 (hd r1) \<le> y \<and> col (band_of r1) x) (ry1 (hd r2) \<le> y \<and> col (band_of r2) x)" for x y
      using c [of y x] unfolding n(6) by auto
    then have p: "\<forall>x y. pix os' x y \<longleftrightarrow> pix os x y \<or> ybot \<le> y \<and> y < y' \<and> comb (ry1 (hd r1) \<le> y \<and> col (band_of r1) x) (ry1 (hd r2) \<le> y \<and> col (band_of r2) x)"
      by blast
    have "first_part r1 r2 ybot prev reg mem = (prev', reg', mem')" using fp n(1) by simp
    then show ?thesis using n(2-5) p by blast
  next
    case same
    have y': "y' = ry1 (hd r1)" using same t by (simp add: y'_def)
    have "first_part r1 r2 ybot prev reg mem = (prev, reg, mem)" using same by (simp add: first_part_def)
    moreover have "\<not> (y < y' \<and> comb (ry1 (hd r1) \<le> y \<and> col (band_of r1) x) (ry1 (hd r2) \<le> y \<and> col (band_of r2) x))" for x y
      using same comb_none by (auto simp: y')
    ultimately show ?thesis using r os [of y'] t same
      by (intro exI [of _ prev] exI [of _ reg] exI [of _ mem] exI [of _ os]) (auto simp: y')
  qed
qed

lemma op_round_first: "op_round routine keep1 keep2 r1 r2 ybot prev reg mem =
    (case first_part r1 r2 ybot prev reg mem of (prev, reg, mem) \<Rightarrow>
       let yt = max (ry1 (hd r1)) (ry1 (hd r2)); yb = min (ry2 (hd r1)) (ry2 (hd r2))
       in if yt < yb then overlap_band (routine yt yb (band_of r1) (band_of r2)) prev reg mem else (True, prev, reg, mem))"
proof -
  have "(if a < b then b else a) = max a b" for a b :: int by (simp add: max_def)
  then show ?thesis by (simp only: op_round_def first_part_def Let_def)
qed

lemma op_round_ready:
  assumes inv: "op_inv os prev ybot r1 r2" and ne: "r1 \<noteq> []" "r2 \<noteq> []" and r: "ready e reg mem os"
  defines "yb \<equiv> min (ry2 (hd r1)) (ry2 (hd r2))"
  shows "\<exists>prev' reg' mem' os'. op_round routine keep1 keep2 r1 r2 ybot prev reg mem = (True, prev', reg', mem') \<and> ready e reg' mem' os' \<and>
    banded os' \<and> last_band os' prev' \<and> (\<forall>r \<in> set os'. ry2 r \<le> yb) \<and>
    (\<forall>x y. pix os' x y \<longleftrightarrow> pix os x y \<or> ybot \<le> y \<and> y < yb \<and> comb (pix r1 x y) (pix r2 x y))"
proof -
  note i = inv [unfolded op_inv_def]
  let ?yt = "max (ry1 (hd r1)) (ry1 (hd r2))"
  have t: "ry1 (hd r1) < ry2 (hd r1)" "ry1 (hd r2) < ry2 (hd r2)" "ybot < ry2 (hd r1)" "ybot < ry2 (hd r2)" "ybot \<le> ?yt"
    using i ne hd_positive by auto
  obtain prev1 reg1 mem1 os1 where f: "first_part r1 r2 ybot prev reg mem = (prev1, reg1, mem1)" "ready e reg1 mem1 os1" "banded os1"
    "last_band os1 prev1" "\<forall>r \<in> set os1. ry2 r \<le> min ?yt yb"
    and px: "\<And>x y. pix os1 x y \<longleftrightarrow> pix os x y \<or> ybot \<le> y \<and> y < min ?yt yb \<and>
      comb (ry1 (hd r1) \<le> y \<and> col (band_of r1) x) (ry1 (hd r2) \<le> y \<and> col (band_of r2) x)"
    using first_part_ready [OF inv ne r] unfolding yb_def by blast
  have sb: "strip (ry1 (hd r1)) (ry2 (hd r1)) (band_of r1)" "strip (ry1 (hd r2)) (ry2 (hd r2)) (band_of r2)"
    using band_strip i ne by blast+
  have px': "pix r1 x y \<longleftrightarrow> ry1 (hd r1) \<le> y \<and> col (band_of r1) x" "pix r2 x y \<longleftrightarrow> ry1 (hd r2) \<le> y \<and> col (band_of r2) x" if "y < yb" for x y
    using pix_band [of r1 y x] pix_band [of r2 y x] i ne that by (auto simp: yb_def)
  have o: "op_round routine keep1 keep2 r1 r2 ybot prev reg mem =
      (if ?yt < yb then overlap_band (routine ?yt yb (band_of r1) (band_of r2)) prev1 reg1 mem1 else (True, prev1, reg1, mem1))"
    unfolding op_round_first f(1) by (simp add: Let_def yb_def)
  show ?thesis
  proof (cases "?yt < yb")
    case True
    let ?b = "routine ?yt yb (band_of r1) (band_of r2)"
    have b: "strip ?yt yb ?b" "\<And>x. col ?b x = comb (col (band_of r1) x) (col (band_of r2) x)"
      using routine_strip [OF sb] routine_col [OF sb] by simp_all
    have "\<forall>r \<in> set os1. ry2 r \<le> ?yt" using f(5) by auto
    from overlap_band_ready [OF f(2-4) this b(1) True] obtain prev' reg' mem' os' where
      v: "overlap_band ?b prev1 reg1 mem1 = (True, prev', reg', mem')" "ready e reg' mem' os'" "banded os'" "last_band os' prev'"
      "\<forall>r \<in> set os'. ry2 r \<le> yb" "\<And>x y. pix os' x y \<longleftrightarrow> pix os1 x y \<or> ?yt \<le> y \<and> y < yb \<and> col ?b x" by blast
    have "pix os' x y \<longleftrightarrow> pix os x y \<or> ybot \<le> y \<and> y < yb \<and> comb (pix r1 x y) (pix r2 x y)" for x y
    proof (cases "y < yb")
      case yb: True
      show ?thesis
      proof (cases "y < ?yt")
        case below: False
        then have le: "ry1 (hd r1) \<le> y" "ry1 (hd r2) \<le> y" by simp_all
        then have "comb (pix r1 x y) (pix r2 x y) = comb (col (band_of r1) x) (col (band_of r2) x)" using px' [OF yb, of x] by simp
        then show ?thesis unfolding v(6) px b(2) using yb le below t(5) by simp
      qed (use True yb px' [OF yb, of x] in \<open>auto simp: v(6) px\<close>)
    qed (simp add: v(6) px)
    then show ?thesis using o True v by auto
  next
    case False
    then have "min ?yt yb = yb" by (simp only: min_absorb2 not_less)
    then show ?thesis using o False f px px' by (intro exI [of _ prev1] exI [of _ reg1] exI [of _ mem1] exI [of _ os1]) auto
  qed
qed

lemma op_loop_ready: "op_inv os prev ybot r1 r2 \<Longrightarrow> ready e reg mem os \<Longrightarrow>
  \<exists>r1' r2' ybot' prev' reg' mem' os'. op_loop routine keep1 keep2 r1 r2 ybot prev reg mem = (True, r1', r2', ybot', prev', reg', mem') \<and>
    (r1' = [] \<or> r2' = []) \<and> ready e reg' mem' os' \<and> op_inv os' prev' ybot' r1' r2' \<and>
    (\<forall>x y. pix os' x y \<or> ybot' \<le> y \<and> comb (pix r1' x y) (pix r2' x y) \<longleftrightarrow> pix os x y \<or> ybot \<le> y \<and> comb (pix r1 x y) (pix r2 x y))"
proof (induction "length r1 + length r2" arbitrary: r1 r2 ybot prev reg mem os rule: less_induct)
  case less
  show ?case
  proof (cases "r1 = [] \<or> r2 = []")
    case True
    then have "op_loop routine keep1 keep2 r1 r2 ybot prev reg mem = (True, r1, r2, ybot, prev, reg, mem)" by (simp add: op_loop_advance)
    then show ?thesis using True less.prems by blast
  next
    case False
    then have ne: "r1 \<noteq> []" "r2 \<noteq> []" by simp_all
    note i = less.prems(1) [unfolded op_inv_def]
    define yb where "yb = min (ry2 (hd r1)) (ry2 (hd r2))"
    have yb: "yb \<le> ry2 (hd r1)" "yb \<le> ry2 (hd r2)" "ry2 (hd r1) = yb \<or> ry2 (hd r2) = yb" "ybot < yb"
      using i ne by (auto simp: yb_def)
    obtain prev1 reg1 mem1 os1 where o: "op_round routine keep1 keep2 r1 r2 ybot prev reg mem = (True, prev1, reg1, mem1)" "ready e reg1 mem1 os1"
      "banded os1" "last_band os1 prev1" "\<forall>r \<in> set os1. ry2 r \<le> yb"
      "\<And>x y. pix os1 x y \<longleftrightarrow> pix os x y \<or> ybot \<le> y \<and> y < yb \<and> comb (pix r1 x y) (pix r2 x y)"
      using op_round_ready [OF less.prems(1) ne less.prems(2)] unfolding yb_def by blast
    let ?r1 = "advance yb r1" and ?r2 = "advance yb r2"
    have b: "banded r1" "banded r2" using i by blast+
    note a1 = advance_facts [OF b(1) ne(1) yb(1)] and a2 = advance_facts [OF b(2) ne(2) yb(2)]
    have inv: "op_inv os1 prev1 yb ?r1 ?r2" using o(3-5) a1 a2 yb(3) by (auto simp: op_inv_def)
    have "length ?r1 + length ?r2 < length r1 + length r2"
      using band_end_shorter [OF ne(1)] band_end_shorter [OF ne(2)] yb(3) by (auto simp: advance_def)
    from less.hyps [OF this inv o(2)] obtain r1' r2' ybot' prev' reg' mem' os' where
      h: "op_loop routine keep1 keep2 ?r1 ?r2 yb prev1 reg1 mem1 = (True, r1', r2', ybot', prev', reg', mem')" "r1' = [] \<or> r2' = []"
        "ready e reg' mem' os'" "op_inv os' prev' ybot' r1' r2'"
        "\<And>x y. pix os' x y \<or> ybot' \<le> y \<and> comb (pix r1' x y) (pix r2' x y) \<longleftrightarrow> pix os1 x y \<or> yb \<le> y \<and> comb (pix ?r1 x y) (pix ?r2 x y)" by blast
    have "op_loop routine keep1 keep2 r1 r2 ybot prev reg mem = (True, r1', r2', ybot', prev', reg', mem')"
      using h(1) o(1) ne by (subst op_loop_advance) (simp add: yb_def)
    moreover have "pix os' x y \<or> ybot' \<le> y \<and> comb (pix r1' x y) (pix r2' x y) \<longleftrightarrow> pix os x y \<or> ybot \<le> y \<and> comb (pix r1 x y) (pix r2 x y)" for x y
      using advance_pix [OF b(1) ne(1) yb(1), of y x] advance_pix [OF b(2) ne(2) yb(2), of y x] yb(4)
      unfolding h(5) o(6) by (cases "yb \<le> y") auto
    ultimately show ?thesis using h(2-4) by blast
  qed
qed

end

lemma append_rest_ready:
  assumes r: "ready e reg mem os" and os: "banded os" "last_band os prev" "\<forall>r \<in> set os. ry2 r \<le> ybot"
    and b: "banded r" "r \<noteq> []" "ybot < ry2 (hd r)"
  shows "\<exists>reg' mem' os'. append_rest r ybot prev reg mem = (True, reg', mem') \<and> ready e reg' mem' os' \<and> banded os' \<and>
    (\<forall>x y. pix os' x y \<longleftrightarrow> pix os x y \<or> ybot \<le> y \<and> pix r x y)"
proof -
  let ?y1 = "max (ry1 (hd r)) ybot" and ?y2 = "ry2 (hd r)"
  let ?b = "map (\<lambda>s. box (rx1 s) ?y1 (rx2 s) ?y2) (band_of r)"
  have lt: "?y1 < ?y2" using hd_positive [OF b(1,2)] b(3) by simp
  have os': "\<forall>r \<in> set os. ry2 r \<le> ?y1" using os(3) by auto
  note sb = strip_cut [OF band_strip [OF b(1,2)], of ?y1 ?y2]
  obtain reg1 mem1 where a: "rtgui_region_appendNonO reg (band_of r) ?y1 ?y2 mem = (True, reg1, mem1)" "ready e reg1 mem1 (os @ ?b)"
    using appendNonO_ready [OF r band_of_nonempty] by blast
  obtain reg2 os1 prev1 where c: "Coalesce reg1 prev (length os) = (reg2, prev1)" "ready e reg2 mem1 os1" "banded os1"
    "\<And>x y. pix os1 x y = pix (os @ ?b) x y" "\<forall>r \<in> set os1. ry2 r \<le> ?y2"
    using Coalesce_ready [OF sb lt os(1) os' os(2) a(2)] by blast
  obtain reg3 mem3 where d: "AppendRegions reg2 (band_end r) mem1 = (True, reg3, mem3)" "ready e reg3 mem3 (os1 @ band_end r)"
    using AppendRegions_ready [OF c(2)] by blast
  have "append_rest r ybot prev reg mem = (True, reg3, mem3)"
    using a(1) c(1) d(1) ready_boxptr [OF r] by (simp add: append_rest_def Let_def)
  moreover have "banded (os1 @ band_end r)"
    using c(3,5) band_end_banded [OF b(1,2)] band_end_below [OF b(1,2)] by (force simp: banded_append before_def)
  moreover have "pix (os1 @ band_end r) x y \<longleftrightarrow> pix os x y \<or> ybot \<le> y \<and> pix r x y" for x y
  proof (cases "y < ?y2")
    case True
    then have "\<not> pix (band_end r) x y" using band_end_below [OF b(1,2)] by (force simp: pix_def INBOX_def)
    then show ?thesis using pix_band [OF b(1,2) True, of x] strip_pix [OF sb, of x y] True by (auto simp: c(4))
  next
    case False
    then show ?thesis using pix_band_end [OF b(1,2), of y x] strip_pix [OF sb, of x y] b(3) by (auto simp: c(4))
  qed
  ultimately show ?thesis using d(2) by blast
qed

context band_routine
begin

lemma op_rest_ready:
  assumes inv: "op_inv os prev ybot r1 r2" and r: "ready e reg mem os" and e: "r1 = [] \<or> r2 = []"
  shows "\<exists>reg' mem' os'. op_rest keep1 keep2 r1 r2 ybot prev reg mem = (True, reg', mem') \<and> ready e reg' mem' os' \<and> banded os' \<and>
    (\<forall>x y. pix os' x y \<longleftrightarrow> pix os x y \<or> ybot \<le> y \<and> comb (pix r1 x y) (pix r2 x y))"
proof -
  note i = inv [unfolded op_inv_def]
  have os: "banded os" "last_band os prev" "\<forall>r \<in> set os. ry2 r \<le> ybot" using i by blast+
  consider (one) "r1 \<noteq> []" "r2 = []" keep1 | (two) "r2 \<noteq> []" "r1 = []" keep2 | (drop) "\<not> (r1 \<noteq> [] \<and> keep1)" "\<not> (r2 \<noteq> [] \<and> keep2)"
    using e by blast
  then show ?thesis
  proof cases
    case one
    then show ?thesis using append_rest_ready [OF r os, of r1] i by (auto simp: op_rest_def comb_single)
  next
    case two
    then show ?thesis using append_rest_ready [OF r os, of r2] i by (auto simp: op_rest_def comb_single)
  next
    case drop
    then have "\<not> comb (pix r1 x y) (pix r2 x y)" for x y using e by (auto simp: comb_single)
    then show ?thesis using drop r os by (auto simp: op_rest_def)
  qed
qed

end

end
