(* ===== verification/Region.thy ===== *)
theory Region
  imports Rg_Loop
begin

text \<open>
  The operations of \<open>region.c\<close> on regions: copy, union, intersection, difference, inversion. Regions lie in a
  store, so that a destination may be one of the sources. Each operation computes on the pixels what its
  name says, for every such overlap, and its result is again in the form the operations ask for: banded
  rectangles and the tightest extents.
\<close>

section \<open>The generic operator on the store\<close>

definition shaped :: "region \<Rightarrow> rect list \<Rightarrow> bool" where
  "shaped reg os \<longleftrightarrow> rects reg = os \<and> (case data reg of Null \<Rightarrow> True | Emptydata \<Rightarrow> True | Brokendata \<Rightarrow> False
     | Heap rs sz \<Rightarrow> 2 \<le> length rs \<and> length rs \<le> sz)"

lemma op_finish_ready: "ready e reg mem os \<Longrightarrow> \<exists>reg' mem'. op_finish reg mem = (reg', mem') \<and> shaped reg' os \<and> False \<notin> set mem' \<and>
    (data reg' \<noteq> Null \<longrightarrow> extents reg' = e)"
proof -
  assume r: "ready e reg mem os"
  then obtain sz where d: "data reg = Heap os sz" "length os \<le> sz" "False \<notin> set mem" "extents reg = e" by (auto simp: ready_def)
  note b = ready_boxptr [OF r]
  consider "os = []" | a where "os = [a]" | a c cs where "os = a # c # cs" by (metis list.exhaust)
  then show ?thesis
  proof cases
    case 3
    obtain reg' mem' where o: "DOWNSIZE reg (length os) mem = (reg', mem')" by (cases "DOWNSIZE reg (length os) mem")
    have "op_finish reg mem = (reg', mem')" using 3 b o by (simp add: op_finish_def)
    moreover have "shaped reg' os \<and> False \<notin> set mem' \<and> extents reg' = e"
      using o d 3 b malloc_lasts [OF d(3)]
      by (auto simp: DOWNSIZE_def shaped_def rects_def boxptr_def data_size_def split: if_splits)
    ultimately show ?thesis by blast
  qed (use b d in \<open>auto simp: op_finish_def shaped_def rects_def boxptr_def\<close>)
qed

lemma op_start_ready: "1 < newSize \<Longrightarrow> False \<notin> set mem \<Longrightarrow>
    \<exists>reg' mem'. op_start source newSize reg mem = (True, reg', mem') \<and> ready (extents reg) reg' mem' []"
  using malloc_lasts [of mem]
  by (cases "data reg") (auto simp: op_start_def Let_def ready_def rtgui_rect_alloc_def data_size_def set_boxes_def)

context band_routine
begin

lemma op_correct:
  assumes "False \<notin> set mem" and "banded (rects (m a))" "banded (rects (m b))" "rects (m a) \<noteq> []" "rects (m b) \<noteq> []"
    and "\<not> NAR (m a)" "\<not> NAR (m b)"
  shows "\<exists>reg mem' os. rtgui_op routine keep1 keep2 n a b m mem = (True, m(n := reg), mem') \<and> False \<notin> set mem' \<and>
    shaped reg os \<and> banded os \<and> (data reg \<noteq> Null \<longrightarrow> extents reg = extents (m n)) \<and> (\<forall>x y. pix os x y = comb (pix (rects (m a)) x y) (pix (rects (m b)) x y))"
proof -
  let ?r1 = "rects (m a)" and ?r2 = "rects (m b)"
  let ?s = "n = a \<and> 1 < length ?r1 \<or> n = b \<and> 1 < length ?r2" and ?y = "min (ry1 (hd ?r1)) (ry1 (hd ?r2))"
  have "1 < 2 * max (length ?r1) (length ?r2)" using assms(4) by (cases ?r1) (auto simp: max_def)
  from op_start_ready [OF this assms(1), of ?s "m n"] obtain reg0 mem0 where
    s: "op_start ?s (2 * max (length ?r1) (length ?r2)) (m n) mem = (True, reg0, mem0)" "ready (extents (m n)) reg0 mem0 []" by blast
  have h: "ry1 (hd ?r1) < ry2 (hd ?r1)" "ry1 (hd ?r2) < ry2 (hd ?r2)" using hd_positive assms by blast+
  have inv: "op_inv [] 0 ?y ?r1 ?r2" using assms h by (auto simp: op_inv_def last_band_def)
  obtain r1 r2 yb prev reg1 mem1 os1 where l: "op_loop routine keep1 keep2 ?r1 ?r2 ?y 0 reg0 mem0 = (True, r1, r2, yb, prev, reg1, mem1)"
    "r1 = [] \<or> r2 = []" "ready (extents (m n)) reg1 mem1 os1" "op_inv os1 prev yb r1 r2"
    "\<And>x y. pix os1 x y \<or> yb \<le> y \<and> comb (pix r1 x y) (pix r2 x y) \<longleftrightarrow> pix [] x y \<or> ?y \<le> y \<and> comb (pix ?r1 x y) (pix ?r2 x y)"
    using op_loop_ready [OF inv s(2)] by blast
  obtain reg2 mem2 os where t: "op_rest keep1 keep2 r1 r2 yb prev reg1 mem1 = (True, reg2, mem2)" "ready (extents (m n)) reg2 mem2 os" "banded os"
    "\<And>x y. pix os x y \<longleftrightarrow> pix os1 x y \<or> yb \<le> y \<and> comb (pix r1 x y) (pix r2 x y)"
    using op_rest_ready [OF l(4,3,2)] by blast
  obtain reg mem' where f: "op_finish reg2 mem2 = (reg, mem')" "shaped reg os" "False \<notin> set mem'" "data reg \<noteq> Null \<longrightarrow> extents reg = extents (m n)"
    using op_finish_ready [OF t(2)] by blast
  have "pix ?r1 x y \<Longrightarrow> ?y \<le> y" "pix ?r2 x y \<Longrightarrow> ?y \<le> y" for x y
    using pix_band [OF assms(2,4), of y x] pix_band [OF assms(3,5), of y x] h by force+
  then have "?y \<le> y \<and> comb (pix ?r1 x y) (pix ?r2 x y) \<longleftrightarrow> comb (pix ?r1 x y) (pix ?r2 x y)" for x y
    using comb_none by (metis (full_types))
  then have "pix os x y = comb (pix ?r1 x y) (pix ?r2 x y)" for x y unfolding t(4) l(5) by simp
  moreover have "rtgui_op routine keep1 keep2 n a b m mem = (True, m(n := reg), mem')"
    using s(1) l(1) t(1) f(1) assms(6,7) by (simp add: rtgui_op_def Let_def)
  ultimately show ?thesis using f t(3) by blast
qed

end

section \<open>Well-formed regions\<close>

definition tight :: "rect \<Rightarrow> (int \<Rightarrow> int \<Rightarrow> bool) \<Rightarrow> bool" where
  "tight e S \<longleftrightarrow> (\<forall>x y. S x y \<longrightarrow> INBOX e x y) \<and> (\<exists>y. S (rx1 e) y) \<and> (\<exists>y. S (rx2 e - 1) y) \<and> (\<exists>x. S x (ry1 e)) \<and> (\<exists>x. S x (ry2 e - 1))"

definition region_ok :: "region \<Rightarrow> bool" where
  "region_ok reg \<longleftrightarrow> banded (rects reg) \<and> shaped reg (rects reg) \<and> (rects reg \<noteq> [] \<longrightarrow> tight (extents reg) (pix (rects reg)))"

definition pixels :: "region \<Rightarrow> int \<Rightarrow> int \<Rightarrow> bool" where
  "pixels reg = pix (rects reg)"

lemma tight_unique: "tight e S \<Longrightarrow> tight f S \<Longrightarrow> e = f"
  unfolding tight_def INBOX_def by (intro rect.equality) (auto; smt (verit))+

lemma tight_single: "rx1 r < rx2 r \<Longrightarrow> ry1 r < ry2 r \<Longrightarrow> tight r (pix [r])"
  unfolding tight_def by (auto simp: INBOX_def intro: exI [of _ "rx1 r"] exI [of _ "ry1 r"])

lemma single_ok: "rx1 r < rx2 r \<Longrightarrow> ry1 r < ry2 r \<Longrightarrow> region_ok \<lparr>extents = r, data = Null\<rparr>"
  using tight_single [of r] by (simp add: region_ok_def rects_def shaped_def banded_cons)

lemma NIL_pixels: "region_ok reg \<Longrightarrow> NIL reg \<longleftrightarrow> rects reg = []"
  by (cases "data reg") (auto simp: NIL_def rects_def boxptr_def)

lemma not_NAR: "region_ok reg \<Longrightarrow> \<not> NAR reg"
  by (cases "data reg") (auto simp: region_ok_def NAR_def shaped_def)

lemma pix_some: "banded rs \<Longrightarrow> rs \<noteq> [] \<Longrightarrow> \<exists>x y. pix rs x y"
  by (cases rs) (auto simp: banded_cons INBOX_def)

lemma empty_pixels: "region_ok reg \<Longrightarrow> rects reg = [] \<longleftrightarrow> (\<forall>x y. \<not> pixels reg x y)"
  using pix_some [of "rects reg"] by (auto simp: region_ok_def pixels_def)

lemma extents_cover: "region_ok reg \<Longrightarrow> pixels reg x y \<Longrightarrow> INBOX (extents reg) x y"
  by (cases "rects reg") (auto simp: region_ok_def pixels_def tight_def)

section \<open>Extents\<close>

definition widen :: "rect \<Rightarrow> rect \<Rightarrow> rect" where
  "widen e b = e\<lparr>rx1 := (if rx1 b < rx1 e then rx1 b else rx1 e), rx2 := (if rx2 b > rx2 e then rx2 b else rx2 e)\<rparr>"

definition rtgui_set_extents :: "region \<Rightarrow> region" where
  "rtgui_set_extents reg =
    (if data reg = Null then reg
     else if data_size reg = 0 then reg\<lparr>extents := (extents reg)\<lparr>rx2 := rx1 (extents reg), ry2 := ry1 (extents reg)\<rparr>\<rparr>
     else reg\<lparr>extents := foldl widen (box (rx1 (hd (boxptr reg))) (ry1 (hd (boxptr reg))) (rx2 (last (boxptr reg))) (ry2 (last (boxptr reg)))) (boxptr reg)\<rparr>)"

lemma widen_fold: "rx1 (foldl widen e rs) = foldl min (rx1 e) (map rx1 rs) \<and> rx2 (foldl widen e rs) = foldl max (rx2 e) (map rx2 rs) \<and>
    ry1 (foldl widen e rs) = ry1 e \<and> ry2 (foldl widen e rs) = ry2 e"
  by (induction rs arbitrary: e) (auto simp: widen_def min_def max_def)

lemma foldl_min: "foldl min (a :: int) xs \<in> set (a # xs) \<and> (\<forall>x \<in> set (a # xs). foldl min a xs \<le> x)"
proof (induction xs arbitrary: a)
  case (Cons x xs)
  show ?case using Cons [of "min a x"] by (auto simp: min_def)
qed simp

lemma foldl_max: "foldl max (a :: int) xs \<in> set (a # xs) \<and> (\<forall>x \<in> set (a # xs). x \<le> foldl max a xs)"
proof (induction xs arbitrary: a)
  case (Cons x xs)
  show ?case using Cons [of "max a x"] by (auto simp: max_def)
qed simp

lemma banded_vertical: "banded rs \<Longrightarrow> r \<in> set rs \<Longrightarrow> ry1 (hd rs) \<le> ry1 r \<and> ry2 r \<le> ry2 (last rs)"
proof -
  assume b: "banded rs" "r \<in> set rs"
  then have "rs \<noteq> []" by auto
  have "ry1 (hd rs) \<le> ry1 r" using b by (cases rs) (auto simp: banded_cons before_def)
  moreover have "ry2 r \<le> ry2 (last rs)"
    using b append_butlast_last_id [OF \<open>rs \<noteq> []\<close>] banded_append [of "butlast rs" "[last rs]"]
    by (cases "r = last rs") (auto simp: before_def banded_cons dest: in_set_butlastD, (smt (verit) Un_iff list.set(2) set_append singletonD empty_set)+)
  ultimately show ?thesis by simp
qed

lemma set_extents_tight: "banded (boxptr reg) \<Longrightarrow> boxptr reg \<noteq> [] \<Longrightarrow> data reg \<noteq> Null \<Longrightarrow> data_size reg \<noteq> 0 \<Longrightarrow>
    tight (extents (rtgui_set_extents reg)) (pix (boxptr reg))"
proof -
  define rs where "rs = boxptr reg"
  assume a: "banded (boxptr reg)" "boxptr reg \<noteq> []" "data reg \<noteq> Null" "data_size reg \<noteq> 0"
  then have b: "banded rs" "rs \<noteq> []" by (simp_all add: rs_def)
  let ?e = "foldl widen (box (rx1 (hd rs)) (ry1 (hd rs)) (rx2 (last rs)) (ry2 (last rs))) rs"
  have pos: "rx1 r < rx2 r \<and> ry1 r < ry2 r" if "r \<in> set rs" for r using b(1) that by (simp add: banded_def)
  have w: "rx1 ?e = foldl min (rx1 (hd rs)) (map rx1 rs)" "rx2 ?e = foldl max (rx2 (last rs)) (map rx2 rs)"
    "ry1 ?e = ry1 (hd rs)" "ry2 ?e = ry2 (last rs)" using widen_fold [of "box _ _ _ _" rs] by simp_all
  have hl: "hd rs \<in> set rs" "last rs \<in> set rs" using b(2) by simp_all
  have mn: "rx1 ?e \<in> rx1 ` set rs" "\<forall>r \<in> set rs. rx1 ?e \<le> rx1 r" using foldl_min [of "rx1 (hd rs)" "map rx1 rs"] hl by (auto simp: w)
  have mx: "rx2 ?e \<in> rx2 ` set rs" "\<forall>r \<in> set rs. rx2 r \<le> rx2 ?e" using foldl_max [of "rx2 (last rs)" "map rx2 rs"] hl by (auto simp: w)
  have "INBOX ?e x y" if "pix rs x y" for x y
    using that mn(2) mx(2) banded_vertical [OF b(1)] by (fastforce simp: pix_def INBOX_def w(3,4))
  moreover obtain r where "r \<in> set rs" "rx1 ?e = rx1 r" using mn(1) by auto
  then have "\<exists>y. pix rs (rx1 ?e) y" using pos by (auto simp: pix_def INBOX_def intro!: exI [of _ "ry1 r"])
  moreover obtain r where "r \<in> set rs" "rx2 ?e = rx2 r" using mx(1) by auto
  then have "\<exists>y. pix rs (rx2 ?e - 1) y" using pos [of r] by (auto simp: pix_def INBOX_def intro!: exI [of _ "ry1 r"] bexI [of _ r])
  moreover have "\<exists>x. pix rs x (ry1 ?e)" using hl(1) pos by (auto simp: pix_def INBOX_def w(3) intro!: exI [of _ "rx1 (hd rs)"] bexI [of _ "hd rs"])
  moreover have "\<exists>x. pix rs x (ry2 ?e - 1)" using hl(2) pos [OF hl(2)] by (auto simp: pix_def INBOX_def w(4) intro!: exI [of _ "rx1 (last rs)"] bexI [of _ "last rs"])
  ultimately have "tight ?e (pix rs)" by (simp add: tight_def)
  then show ?thesis using a(3,4) by (simp add: rtgui_set_extents_def rs_def)
qed

lemma shaped_cases: "shaped reg os \<Longrightarrow> data reg = Null \<and> os = [extents reg] \<or> data reg = Emptydata \<and> os = [] \<or>
    (\<exists>sz. data reg = Heap os sz \<and> 2 \<le> length os \<and> length os \<le> sz)"
  by (cases "data reg") (auto simp: shaped_def rects_def boxptr_def)

lemma set_extents_ok: "shaped reg os \<Longrightarrow> banded os \<Longrightarrow> region_ok (rtgui_set_extents reg) \<and> pixels (rtgui_set_extents reg) = pix os"
proof -
  assume s: "shaped reg os" "banded os"
  from shaped_cases [OF s(1)] consider "data reg = Null" "os = [extents reg]" | "data reg = Emptydata" "os = []"
    | sz where "data reg = Heap os sz" "2 \<le> length os" "length os \<le> sz" by blast
  then show ?thesis
  proof cases
    case 1
    then show ?thesis using s single_ok [of "extents reg"]
      by (simp add: rtgui_set_extents_def region_ok_def pixels_def rects_def banded_cons tight_single)
  next
    case 2
    then show ?thesis by (simp add: rtgui_set_extents_def region_ok_def pixels_def rects_def shaped_def data_size_def boxptr_def)
  next
    case (3 sz)
    have b: "boxptr reg = os" using 3 by (simp add: boxptr_def)
    have d: "data (rtgui_set_extents reg) = data reg" by (simp add: rtgui_set_extents_def)
    have "tight (extents (rtgui_set_extents reg)) (pix os)"
      using set_extents_tight [of reg] 3 s(2) b by (cases os) (auto simp: data_size_def)
    then show ?thesis using 3 d s(2) by (simp add: region_ok_def pixels_def rects_def shaped_def boxptr_def)
  qed
qed

section \<open>The operations\<close>

definition rtgui_region_init :: region where
  "rtgui_region_init = \<lparr>extents = rtgui_empty_rect, data = Emptydata\<rparr>"

definition rtgui_region_init_with_extents :: "rect \<Rightarrow> region" where
  "rtgui_region_init_with_extents e = \<lparr>extents = e, data = Null\<rparr>"

definition rtgui_region_copy :: "nat \<Rightarrow> nat \<Rightarrow> regions \<Rightarrow> bool list \<Rightarrow> bool \<times> regions \<times> bool list" where
  "rtgui_region_copy dst src m mem =
    (if dst = src then (True, m, mem)
     else let d = (m dst)\<lparr>extents := extents (m src)\<rparr> in
       if data (m src) = Null \<or> data_size (m src) = 0 then (True, m(dst := d\<lparr>data := data (m src)\<rparr>), mem)
       else if data d = Null \<or> data_size d < length (boxptr (m src)) then
         (case rtgui_malloc mem of (ok, mem) \<Rightarrow>
            if ok then (True, m(dst := d\<lparr>data := Heap (boxptr (m src)) (length (boxptr (m src)))\<rparr>), mem)
            else (False, m(dst := rtgui_break d), mem))
       else (True, m(dst := d\<lparr>data := Heap (boxptr (m src)) (data_size d)\<rparr>), mem))"

definition rtgui_region_intersect :: "nat \<Rightarrow> nat \<Rightarrow> nat \<Rightarrow> regions \<Rightarrow> bool list \<Rightarrow> bool \<times> regions \<times> bool list" where
  "rtgui_region_intersect newReg reg1 reg2 m mem = (let e1 = extents (m reg1); e2 = extents (m reg2); n = m newReg in
     if NIL (m reg1) \<or> NIL (m reg2) \<or> \<not> EXTENTCHECK e1 e2 then
       (let n' = n\<lparr>extents := (extents n)\<lparr>rx2 := rx1 (extents n), ry2 := ry1 (extents n)\<rparr>\<rparr> in
        if NAR (m reg1) \<or> NAR (m reg2) then (False, m(newReg := n'\<lparr>data := Brokendata\<rparr>), mem)
        else (True, m(newReg := n'\<lparr>data := Emptydata\<rparr>), mem))
     else if data (m reg1) = Null \<and> data (m reg2) = Null then
       (True, m(newReg := \<lparr>extents = box (max (rx1 e1) (rx1 e2)) (max (ry1 e1) (ry1 e2)) (min (rx2 e1) (rx2 e2)) (min (ry2 e1) (ry2 e2)), data = Null\<rparr>), mem)
     else if data (m reg2) = Null \<and> SUBSUMES e2 e1 then rtgui_region_copy newReg reg1 m mem
     else if data (m reg1) = Null \<and> SUBSUMES e1 e2 then rtgui_region_copy newReg reg2 m mem
     else if reg1 = reg2 then rtgui_region_copy newReg reg1 m mem
     else case rtgui_op rtgui_region_intersectO False False newReg reg1 reg2 m mem of (ok, m, mem) \<Rightarrow>
       if \<not> ok then (False, m, mem) else (True, m(newReg := rtgui_set_extents (m newReg)), mem))"

definition hull :: "rect \<Rightarrow> rect \<Rightarrow> rect" where
  "hull e f = box (min (rx1 e) (rx1 f)) (min (ry1 e) (ry1 f)) (max (rx2 e) (rx2 f)) (max (ry2 e) (ry2 f))"

definition rtgui_region_union :: "nat \<Rightarrow> nat \<Rightarrow> nat \<Rightarrow> regions \<Rightarrow> bool list \<Rightarrow> bool \<times> regions \<times> bool list" where
  "rtgui_region_union newReg reg1 reg2 m mem =
    (if reg1 = reg2 then rtgui_region_copy newReg reg1 m mem
     else if NIL (m reg1) then
       if NAR (m reg1) then (False, m(newReg := rtgui_break (m newReg)), mem)
       else if newReg \<noteq> reg2 then rtgui_region_copy newReg reg2 m mem else (True, m, mem)
     else if NIL (m reg2) then
       if NAR (m reg2) then (False, m(newReg := rtgui_break (m newReg)), mem)
       else if newReg \<noteq> reg1 then rtgui_region_copy newReg reg1 m mem else (True, m, mem)
     else if data (m reg1) = Null \<and> SUBSUMES (extents (m reg1)) (extents (m reg2)) then
       if newReg \<noteq> reg1 then rtgui_region_copy newReg reg1 m mem else (True, m, mem)
     else if data (m reg2) = Null \<and> SUBSUMES (extents (m reg2)) (extents (m reg1)) then
       if newReg \<noteq> reg2 then rtgui_region_copy newReg reg2 m mem else (True, m, mem)
     else case rtgui_op rtgui_region_unionO True True newReg reg1 reg2 m mem of (ok, m, mem) \<Rightarrow>
       if \<not> ok then (False, m, mem)
       else (True, m(newReg := (m newReg)\<lparr>extents := hull (extents (m reg1)) (extents (m reg2))\<rparr>), mem))"

definition rtgui_region_subtract :: "nat \<Rightarrow> nat \<Rightarrow> nat \<Rightarrow> regions \<Rightarrow> bool list \<Rightarrow> bool \<times> regions \<times> bool list" where
  "rtgui_region_subtract regD regM regS m mem =
    (if NIL (m regM) \<or> NIL (m regS) \<or> \<not> EXTENTCHECK (extents (m regM)) (extents (m regS)) then
       if NAR (m regS) then (False, m(regD := rtgui_break (m regD)), mem) else rtgui_region_copy regD regM m mem
     else if regM = regS then
       (let d = m regD in (True, m(regD := d\<lparr>extents := (extents d)\<lparr>rx2 := rx1 (extents d), ry2 := ry1 (extents d)\<rparr>, data := Emptydata\<rparr>), mem))
     else case rtgui_op rtgui_region_subtractO True False regD regM regS m mem of (ok, m, mem) \<Rightarrow>
       if \<not> ok then (False, m, mem) else (True, m(regD := rtgui_set_extents (m regD)), mem))"

text \<open>
  The variants with a rectangle put it into a region of their own, here under a number that is neither
  the destination nor the source; it is gone afterwards.
\<close>

definition with_rect :: "(nat \<Rightarrow> regions \<Rightarrow> bool list \<Rightarrow> bool \<times> regions \<times> bool list) \<Rightarrow> nat \<Rightarrow> nat \<Rightarrow> rect \<Rightarrow> regions \<Rightarrow> bool list \<Rightarrow> bool \<times> regions \<times> bool list" where
  "with_rect f a b r m mem = (let local = Suc (max a b) in
     case f local (m(local := rtgui_region_init_with_extents r)) mem of (ok, m', mem) \<Rightarrow> (ok, m'(local := m local), mem))"

definition rtgui_region_intersect_rect :: "nat \<Rightarrow> nat \<Rightarrow> rect \<Rightarrow> regions \<Rightarrow> bool list \<Rightarrow> bool \<times> regions \<times> bool list" where
  "rtgui_region_intersect_rect newReg reg1 r = with_rect (\<lambda>l. rtgui_region_intersect newReg reg1 l) newReg reg1 r"

definition rtgui_region_union_rect :: "nat \<Rightarrow> nat \<Rightarrow> rect \<Rightarrow> regions \<Rightarrow> bool list \<Rightarrow> bool \<times> regions \<times> bool list" where
  "rtgui_region_union_rect dest source r = with_rect (\<lambda>l. rtgui_region_union dest source l) dest source r"

definition rtgui_region_subtract_rect :: "nat \<Rightarrow> nat \<Rightarrow> rect \<Rightarrow> regions \<Rightarrow> bool list \<Rightarrow> bool \<times> regions \<times> bool list" where
  "rtgui_region_subtract_rect regD regM r = with_rect (\<lambda>l. rtgui_region_subtract regD regM l) regD regM r"

definition rtgui_region_inverse :: "nat \<Rightarrow> nat \<Rightarrow> rect \<Rightarrow> regions \<Rightarrow> bool list \<Rightarrow> bool \<times> regions \<times> bool list" where
  "rtgui_region_inverse newReg reg1 invRect m mem =
    (if NIL (m reg1) \<or> \<not> EXTENTCHECK invRect (extents (m reg1)) then
       if NAR (m reg1) then (False, m(newReg := rtgui_break (m newReg)), mem)
       else (True, m(newReg := \<lparr>extents = invRect, data = Null\<rparr>), mem)
     else with_rect (\<lambda>l m mem. case rtgui_op rtgui_region_subtractO True False newReg l reg1 m mem of (ok, m, mem) \<Rightarrow>
       if \<not> ok then (False, m, mem) else (True, m(newReg := rtgui_set_extents (m newReg)), mem)) newReg reg1 invRect m mem)"

definition rtgui_region_empty :: "region \<Rightarrow> region" where
  "rtgui_region_empty reg = reg\<lparr>extents := rtgui_empty_rect, data := Emptydata\<rparr>"

definition rtgui_region_reset :: "region \<Rightarrow> rect \<Rightarrow> region" where
  "rtgui_region_reset reg r = rtgui_region_init_with_extents r"

definition rtgui_region_not_empty :: "region \<Rightarrow> bool" where
  "rtgui_region_not_empty reg \<longleftrightarrow> \<not> NIL reg"

definition rtgui_region_is_flat :: "region \<Rightarrow> bool" where
  "rtgui_region_is_flat reg \<longleftrightarrow> length (rects reg) = 1"

section \<open>What they deliver\<close>

definition delivers :: "bool \<times> regions \<times> bool list \<Rightarrow> nat \<Rightarrow> regions \<Rightarrow> (int \<Rightarrow> int \<Rightarrow> bool) \<Rightarrow> bool" where
  "delivers res n m S \<longleftrightarrow> (\<exists>reg mem'. res = (True, m(n := reg), mem') \<and> False \<notin> set mem' \<and> region_ok reg \<and> pixels reg = S)"

lemma deliversI: "res = (True, m(n := reg), mem') \<Longrightarrow> False \<notin> set mem' \<Longrightarrow> region_ok reg \<Longrightarrow> pixels reg = S \<Longrightarrow> delivers res n m S"
  by (auto simp: delivers_def)

lemma same_content: "data d = data s \<Longrightarrow> extents d = extents s \<Longrightarrow> region_ok s \<Longrightarrow> region_ok d \<and> pixels d = pixels s"
  by (cases "data s") (simp_all add: region_ok_def pixels_def rects_def shaped_def boxptr_def)

lemma heap_content: "data s = Heap rs sz \<Longrightarrow> data d = Heap rs sz' \<Longrightarrow> length rs \<le> sz' \<Longrightarrow> extents d = extents s \<Longrightarrow> region_ok s \<Longrightarrow>
    region_ok d \<and> pixels d = pixels s"
  by (simp add: region_ok_def pixels_def rects_def shaped_def boxptr_def)

lemma copy_delivers: "region_ok (m a) \<Longrightarrow> False \<notin> set mem \<Longrightarrow> delivers (rtgui_region_copy n a m mem) n m (pixels (m a))"
proof (cases "n = a")
  case True
  assume "region_ok (m a)" "False \<notin> set mem"
  with True show ?thesis by (intro deliversI [of _ _ _ "m a" mem]) (simp_all add: rtgui_region_copy_def)
next
  case False
  assume ok: "region_ok (m a)" "False \<notin> set mem"
  let ?d = "(m n)\<lparr>extents := extents (m a)\<rparr>"
  have "shaped (m a) (rects (m a))" using ok(1) by (simp add: region_ok_def)
  from shaped_cases [OF this] consider (static) "data (m a) = Null \<or> data (m a) = Emptydata"
    | (heap) sz where "data (m a) = Heap (rects (m a)) sz" "2 \<le> length (rects (m a))" "length (rects (m a)) \<le> sz" by blast
  then show ?thesis
  proof cases
    case static
    then have "data (m a) = Null \<or> data_size (m a) = 0" by (auto simp: data_size_def)
    then show ?thesis using False ok same_content [of "?d\<lparr>data := data (m a)\<rparr>" "m a"]
      by (intro deliversI [of _ _ _ "?d\<lparr>data := data (m a)\<rparr>" mem]) (simp_all add: rtgui_region_copy_def Let_def)
  next
    case (heap sz)
    let ?rs = "rects (m a)"
    have b: "boxptr (m a) = ?rs" "data (m a) \<noteq> Null" "data_size (m a) \<noteq> 0" using heap(1) heap(2,3) by (simp_all add: boxptr_def data_size_def)
    show ?thesis
    proof (cases "data ?d = Null \<or> data_size ?d < length ?rs")
      case True
      obtain mem' where "rtgui_malloc mem = (True, mem')" "False \<notin> set mem'" using malloc_lasts ok(2) by blast
      then show ?thesis using True False b heap_content [OF heap(1), of "?d\<lparr>data := Heap ?rs (length ?rs)\<rparr>"] ok(1)
        by (intro deliversI [of _ _ _ "?d\<lparr>data := Heap ?rs (length ?rs)\<rparr>" mem']) (simp_all add: rtgui_region_copy_def Let_def)
    next
      case room: False
      then show ?thesis using False b heap_content [OF heap(1), of "?d\<lparr>data := Heap ?rs (data_size ?d)\<rparr>"] ok
        by (intro deliversI [of _ _ _ "?d\<lparr>data := Heap ?rs (data_size ?d)\<rparr>" mem]) (simp_all add: rtgui_region_copy_def Let_def)
    qed
  qed
qed

lemma keep_delivers: "region_ok (m n) \<Longrightarrow> False \<notin> set mem \<Longrightarrow> delivers (True, m, mem) n m (pixels (m n))"
  by (rule deliversI [of _ _ _ "m n" mem]) simp_all

lemma empty_delivers: "data reg = Emptydata \<Longrightarrow> False \<notin> set mem \<Longrightarrow> (\<And>x y. \<not> S x y) \<Longrightarrow> delivers (True, m(n := reg), mem) n m S"
  by (rule deliversI [of _ _ _ reg mem]) (auto simp: region_ok_def pixels_def rects_def shaped_def boxptr_def fun_eq_iff)

lemma subsumes_pixels: "SUBSUMES e f \<Longrightarrow> INBOX f x y \<Longrightarrow> INBOX e x y"
  by (auto simp: SUBSUMES_def INBOX_def)

lemma apart: "region_ok a \<Longrightarrow> region_ok b \<Longrightarrow> \<not> EXTENTCHECK (extents a) (extents b) \<Longrightarrow> \<not> (pixels a x y \<and> pixels b x y)"
  using extents_cover [of a x y] extents_cover [of b x y] by (auto simp: EXTENTCHECK_def INBOX_def)

lemma Null_pixels: "data reg = Null \<Longrightarrow> pixels reg x y = INBOX (extents reg) x y"
  by (simp add: pixels_def rects_def)

lemma region_banded: "region_ok reg \<Longrightarrow> banded (rects reg)"
  by (simp add: region_ok_def)

lemma tight_hull: "tight e S \<Longrightarrow> tight f T \<Longrightarrow> tight (hull e f) (\<lambda>x y. S x y \<or> T x y)"
proof -
  assume e: "tight e S" and f: "tight f T"
  have "INBOX (hull e f) x y" if "S x y \<or> T x y" for x y using that e f by (fastforce simp: tight_def hull_def INBOX_def min_def max_def)
  moreover have "\<exists>y. S (rx1 (hull e f)) y \<or> T (rx1 (hull e f)) y" using e f by (cases "rx1 e \<le> rx1 f") (auto simp: tight_def hull_def min_def)
  moreover have "\<exists>y. S (rx2 (hull e f) - 1) y \<or> T (rx2 (hull e f) - 1) y" using e f by (cases "rx2 e \<le> rx2 f") (auto simp: tight_def hull_def max_def)
  moreover have "\<exists>x. S x (ry1 (hull e f)) \<or> T x (ry1 (hull e f))" using e f by (cases "ry1 e \<le> ry1 f") (auto simp: tight_def hull_def min_def)
  moreover have "\<exists>x. S x (ry2 (hull e f) - 1) \<or> T x (ry2 (hull e f) - 1)" using e f by (cases "ry2 e \<le> ry2 f") (auto simp: tight_def hull_def max_def)
  ultimately show ?thesis by (simp add: tight_def)
qed

lemma not_NIL: "region_ok reg \<Longrightarrow> \<not> NIL reg \<Longrightarrow> rects reg \<noteq> []"
  by (simp add: NIL_pixels)

lemma NIL_no_pixels: "region_ok reg \<Longrightarrow> NIL reg \<Longrightarrow> \<not> pixels reg x y"
  by (simp add: NIL_pixels pixels_def)

text \<open>The operator followed by the computation of the extents.\<close>

lemma op_extents_delivers:
  assumes "shaped reg os" "banded os" "\<forall>x y. pix os x y = S x y" "False \<notin> set mem'"
  shows "delivers (True, m(n := rtgui_set_extents reg), mem') n m S"
  using set_extents_ok [OF assms(1,2)] assms(3,4) by (intro deliversI [of _ _ _ "rtgui_set_extents reg" mem']) (auto simp: fun_eq_iff)

lemma intersect_delivers:
  assumes ok: "region_ok (m a)" "region_ok (m b)" "False \<notin> set mem"
  shows "delivers (rtgui_region_intersect n a b m mem) n m (\<lambda>x y. pixels (m a) x y \<and> pixels (m b) x y)"
proof -
  let ?S = "\<lambda>x y. pixels (m a) x y \<and> pixels (m b) x y" and ?e1 = "extents (m a)" and ?e2 = "extents (m b)"
  note nar = not_NAR [OF ok(1)] not_NAR [OF ok(2)]
  consider (reject) "NIL (m a) \<or> NIL (m b) \<or> \<not> EXTENTCHECK ?e1 ?e2"
    | (single) "\<not> NIL (m a)" "\<not> NIL (m b)" "EXTENTCHECK ?e1 ?e2" "data (m a) = Null" "data (m b) = Null"
    | (second) "\<not> NIL (m a)" "\<not> NIL (m b)" "EXTENTCHECK ?e1 ?e2" "data (m a) \<noteq> Null" "data (m b) = Null" "SUBSUMES ?e2 ?e1"
    | (first) "\<not> NIL (m a)" "\<not> NIL (m b)" "EXTENTCHECK ?e1 ?e2" "data (m b) \<noteq> Null" "data (m a) = Null" "SUBSUMES ?e1 ?e2"
    | (same) "\<not> NIL (m a)" "\<not> NIL (m b)" "EXTENTCHECK ?e1 ?e2" "a = b" "data (m a) \<noteq> Null"
    | (general) "\<not> NIL (m a)" "\<not> NIL (m b)" "EXTENTCHECK ?e1 ?e2" "\<not> (data (m a) = Null \<and> data (m b) = Null)"
        "\<not> (data (m b) = Null \<and> SUBSUMES ?e2 ?e1)" "\<not> (data (m a) = Null \<and> SUBSUMES ?e1 ?e2)" "a \<noteq> b" by blast
  then show ?thesis
  proof cases
    case reject
    then have "\<not> ?S x y" for x y using apart [OF ok(1,2), of x y] NIL_no_pixels ok by blast
    then show ?thesis using reject nar ok(3) by (auto simp: rtgui_region_intersect_def Let_def intro: empty_delivers)
  next
    case single
    let ?e = "box (max (rx1 ?e1) (rx1 ?e2)) (max (ry1 ?e1) (ry1 ?e2)) (min (rx2 ?e1) (rx2 ?e2)) (min (ry2 ?e1) (ry2 ?e2))"
    have b: "rx1 ?e1 < rx2 ?e1" "ry1 ?e1 < ry2 ?e1" "rx1 ?e2 < rx2 ?e2" "ry1 ?e2 < ry2 ?e2"
      using region_banded [OF ok(1)] region_banded [OF ok(2)] single(4,5) by (simp_all add: rects_def banded_cons)
    then have "rx1 ?e < rx2 ?e" "ry1 ?e < ry2 ?e" using single(3) by (auto simp: EXTENTCHECK_def)
    then have "region_ok \<lparr>extents = ?e, data = Null\<rparr>" by (rule single_ok)
    moreover have "pixels \<lparr>extents = ?e, data = Null\<rparr> = ?S" using single(4,5) by (auto simp: Null_pixels INBOX_def fun_eq_iff)
    ultimately show ?thesis using single ok(3) by (auto simp: rtgui_region_intersect_def Let_def intro: deliversI)
  next
    case second
    then have "?S = pixels (m a)" using subsumes_pixels [OF second(6)] extents_cover [OF ok(1)] by (auto simp: Null_pixels fun_eq_iff)
    then show ?thesis using second copy_delivers [of m a mem n] ok by (simp add: rtgui_region_intersect_def Let_def)
  next
    case first
    then have "?S = pixels (m b)" using subsumes_pixels [OF first(6)] extents_cover [OF ok(2)] by (auto simp: Null_pixels fun_eq_iff)
    then show ?thesis using first copy_delivers [of m b mem n] ok by (simp add: rtgui_region_intersect_def Let_def)
  next
    case same
    then show ?thesis using copy_delivers [of m a mem n] ok by (simp add: rtgui_region_intersect_def Let_def)
  next
    case general
    have ne: "rects (m a) \<noteq> []" "rects (m b) \<noteq> []" using not_NIL ok general by blast+
    from inter_band.op_correct [OF ok(3) region_banded [OF ok(1)] region_banded [OF ok(2)] ne nar, of n] obtain reg mem' os where
      o: "rtgui_op rtgui_region_intersectO False False n a b m mem = (True, m(n := reg), mem')" "False \<notin> set mem'" "shaped reg os" "banded os"
        "\<forall>x y. pix os x y = (pix (rects (m a)) x y \<and> pix (rects (m b)) x y)" by blast
    have "rtgui_region_intersect n a b m mem = (True, m(n := rtgui_set_extents reg), mem')"
      using general o(1) by (auto simp: rtgui_region_intersect_def Let_def)
    moreover have "\<forall>x y. pix os x y = ?S x y" using o(5) by (simp add: pixels_def)
    ultimately show ?thesis using op_extents_delivers [OF o(3,4) _ o(2)] by simp
  qed
qed

lemma subtract_delivers:
  assumes ok: "region_ok (m a)" "region_ok (m b)" "False \<notin> set mem"
  shows "delivers (rtgui_region_subtract n a b m mem) n m (\<lambda>x y. pixels (m a) x y \<and> \<not> pixels (m b) x y)"
proof -
  let ?S = "\<lambda>x y. pixels (m a) x y \<and> \<not> pixels (m b) x y" and ?e1 = "extents (m a)" and ?e2 = "extents (m b)"
  note nar = not_NAR [OF ok(1)] not_NAR [OF ok(2)]
  consider (reject) "NIL (m a) \<or> NIL (m b) \<or> \<not> EXTENTCHECK ?e1 ?e2"
    | (same) "\<not> NIL (m a)" "\<not> NIL (m b)" "EXTENTCHECK ?e1 ?e2" "a = b"
    | (general) "\<not> NIL (m a)" "\<not> NIL (m b)" "EXTENTCHECK ?e1 ?e2" "a \<noteq> b" by blast
  then show ?thesis
  proof cases
    case reject
    then have "?S x y = pixels (m a) x y" for x y using apart [OF ok(1,2), of x y] NIL_no_pixels ok by blast
    then have "?S = pixels (m a)" by (intro ext)
    then show ?thesis using reject nar copy_delivers [of m a mem n] ok by (simp add: rtgui_region_subtract_def)
  next
    case same
    then show ?thesis using ok(3) by (auto simp: rtgui_region_subtract_def Let_def intro: empty_delivers)
  next
    case general
    have ne: "rects (m a) \<noteq> []" "rects (m b) \<noteq> []" using not_NIL ok general by blast+
    from diff_band.op_correct [OF ok(3) region_banded [OF ok(1)] region_banded [OF ok(2)] ne nar, of n] obtain reg mem' os where
      o: "rtgui_op rtgui_region_subtractO True False n a b m mem = (True, m(n := reg), mem')" "False \<notin> set mem'" "shaped reg os" "banded os"
        "\<forall>x y. pix os x y = (pix (rects (m a)) x y \<and> \<not> pix (rects (m b)) x y)" by blast
    have "rtgui_region_subtract n a b m mem = (True, m(n := rtgui_set_extents reg), mem')"
      using general o(1) by (simp add: rtgui_region_subtract_def)
    moreover have "\<forall>x y. pix os x y = ?S x y" using o(5) by (simp add: pixels_def)
    ultimately show ?thesis using op_extents_delivers [OF o(3,4) _ o(2)] by simp
  qed
qed

lemma union_delivers:
  assumes ok: "region_ok (m a)" "region_ok (m b)" "False \<notin> set mem"
  shows "delivers (rtgui_region_union n a b m mem) n m (\<lambda>x y. pixels (m a) x y \<or> pixels (m b) x y)"
proof -
  let ?S = "\<lambda>x y. pixels (m a) x y \<or> pixels (m b) x y" and ?e1 = "extents (m a)" and ?e2 = "extents (m b)"
  note nar = not_NAR [OF ok(1)] not_NAR [OF ok(2)]
  consider (first) "a = b \<or> a \<noteq> b \<and> \<not> NIL (m a) \<and> (NIL (m b) \<or> data (m a) = Null \<and> SUBSUMES ?e1 ?e2)"
    | (second) "a \<noteq> b" "NIL (m a) \<or> \<not> NIL (m b) \<and> \<not> (data (m a) = Null \<and> SUBSUMES ?e1 ?e2) \<and> data (m b) = Null \<and> SUBSUMES ?e2 ?e1"
    | (general) "\<not> NIL (m a)" "\<not> NIL (m b)" "a \<noteq> b" "\<not> (data (m b) = Null \<and> SUBSUMES ?e2 ?e1)" "\<not> (data (m a) = Null \<and> SUBSUMES ?e1 ?e2)" by blast
  then show ?thesis
  proof cases
    case first
    then have "?S x y = pixels (m a) x y" for x y
      using NIL_no_pixels [OF ok(2)] subsumes_pixels [of ?e1 ?e2 x y] extents_cover [OF ok(2), of x y] Null_pixels [of "m a" x y] by auto
    then have S: "?S = pixels (m a)" by (intro ext)
    have "rtgui_region_union n a b m mem = rtgui_region_copy n a m mem \<or> n = a \<and> rtgui_region_union n a b m mem = (True, m, mem)"
      using first nar by (auto simp: rtgui_region_union_def)
    then show ?thesis unfolding S using copy_delivers [of m a mem n] keep_delivers [of m n mem] ok by auto
  next
    case second
    then have "?S x y = pixels (m b) x y" for x y
      using NIL_no_pixels [OF ok(1)] subsumes_pixels [of ?e2 ?e1 x y] extents_cover [OF ok(1), of x y] Null_pixels [of "m b" x y] by auto
    then have S: "?S = pixels (m b)" by (intro ext)
    have "rtgui_region_union n a b m mem = rtgui_region_copy n b m mem \<or> n = b \<and> rtgui_region_union n a b m mem = (True, m, mem)"
      using second nar by (auto simp: rtgui_region_union_def)
    then show ?thesis unfolding S using copy_delivers [of m b mem n] keep_delivers [of m n mem] ok by auto
  next
    case general
    have ne: "rects (m a) \<noteq> []" "rects (m b) \<noteq> []" using not_NIL ok general by blast+
    from union_band.op_correct [OF ok(3) region_banded [OF ok(1)] region_banded [OF ok(2)] ne nar, of n] obtain reg mem' os where
      o: "rtgui_op rtgui_region_unionO True True n a b m mem = (True, m(n := reg), mem')" "False \<notin> set mem'" "shaped reg os" "banded os"
        "data reg \<noteq> Null \<longrightarrow> extents reg = extents (m n)"
        "\<forall>x y. pix os x y = (pix (rects (m a)) x y \<or> pix (rects (m b)) x y)" by blast
    have px: "pix os = ?S" using o(6) by (simp add: pixels_def fun_eq_iff)
    have t: "tight (hull ?e1 ?e2) (pix os)"
      using tight_hull [of ?e1 "pixels (m a)" ?e2 "pixels (m b)"] ok(1,2) ne unfolding px by (simp add: region_ok_def pixels_def)
    let ?m = "m(n := reg)"
    let ?h = "hull (extents (?m a)) (extents (?m b))"
    have "?h = hull ?e1 ?e2"
    proof (cases "data reg = Null \<and> (n = a \<or> n = b)")
      case True
      then have "os = [extents reg]" using shaped_cases [OF o(3)] by auto
      then have "tight (extents reg) (pix os)" using o(4) by (simp add: tight_single banded_cons)
      then have e: "extents reg = hull ?e1 ?e2" using tight_unique t by blast
      show ?thesis using True general(3) by (auto simp: e) (simp_all add: hull_def)
    next
      case False
      then show ?thesis using o(5) general(3) by auto
    qed
    then have u: "rtgui_region_union n a b m mem = (True, m(n := reg\<lparr>extents := hull ?e1 ?e2\<rparr>), mem')"
      using general o(1) nar by (auto simp: rtgui_region_union_def)
    have os: "os \<noteq> []" using t by (auto simp: tight_def)
    have "data reg = Null \<longrightarrow> os = [hull ?e1 ?e2]"
    proof
      assume "data reg = Null"
      then have s: "os = [extents reg]" using shaped_cases [OF o(3)] by auto
      then have "tight (extents reg) (pix os)" using o(4) by (simp add: tight_single banded_cons)
      then show "os = [hull ?e1 ?e2]" using tight_unique [OF _ t] s by blast
    qed
    then have "rects (reg\<lparr>extents := hull ?e1 ?e2\<rparr>) = os" "shaped (reg\<lparr>extents := hull ?e1 ?e2\<rparr>) os"
      using shaped_cases [OF o(3)] os by (auto simp: rects_def shaped_def boxptr_def)
    then show ?thesis using u o(2,4) t px by (intro deliversI [of _ _ _ "reg\<lparr>extents := hull ?e1 ?e2\<rparr>" mem']) (simp_all add: region_ok_def pixels_def)
  qed
qed

text \<open>
  C16. Union, intersection and difference of two regions, each possibly also the destination: with memory
  that lasts the operation succeeds, the destination's pixels are the union, intersection or difference of
  the sources' pixels, it is again banded with the tightest extents, and no other region changes.
\<close>

theorem region_set_algebra:
  assumes "region_ok (m a)" "region_ok (m b)" "False \<notin> set mem"
  shows "delivers (rtgui_region_union n a b m mem) n m (\<lambda>x y. pixels (m a) x y \<or> pixels (m b) x y) \<and>
    delivers (rtgui_region_intersect n a b m mem) n m (\<lambda>x y. pixels (m a) x y \<and> pixels (m b) x y) \<and>
    delivers (rtgui_region_subtract n a b m mem) n m (\<lambda>x y. pixels (m a) x y \<and> \<not> pixels (m b) x y)"
  using union_delivers intersect_delivers subtract_delivers assms by blast

text \<open>Two boxes side by side and one below, and a box over their corner.\<close>

definition corner :: region where
  "corner = \<lparr>extents = box 0 0 30 20, data = Heap [box 0 0 10 10, box 20 0 30 10, box 0 10 30 20] 4\<rparr>"

definition patch :: region where
  "patch = \<lparr>extents = box 5 5 25 15, data = Null\<rparr>"

lemma corner_ok: "region_ok corner"
proof -
  have "tight (box 0 0 30 20) (pix [box 0 0 10 10, box 20 0 30 10, box 0 10 30 20])"
    by (auto simp: tight_def INBOX_def intro: exI [of _ 0] exI [of _ 10] exI [of _ 19])
  then show ?thesis by (simp add: region_ok_def corner_def rects_def boxptr_def shaped_def banded_cons before_def)
qed

lemma patch_ok: "region_ok patch"
  unfolding patch_def by (rule single_ok) simp_all

theorem region_set_algebra_witness:
  "let m = (\<lambda>i. if i = 0 then corner else patch) in
    delivers (rtgui_region_union 0 0 1 m []) 0 m (\<lambda>x y. pixels corner x y \<or> pixels patch x y) \<and>
    delivers (rtgui_region_intersect 0 0 1 m []) 0 m (\<lambda>x y. pixels corner x y \<and> pixels patch x y) \<and>
    delivers (rtgui_region_subtract 0 0 1 m []) 0 m (\<lambda>x y. pixels corner x y \<and> \<not> pixels patch x y)"
  using region_set_algebra [of "\<lambda>i. if i = 0 then corner else patch" 0 1 "[]" 0] corner_ok patch_ok by (simp add: Let_def)

lemma with_rect_delivers: "delivers (f (Suc (max a b)) (m(Suc (max a b) := rtgui_region_init_with_extents r)) mem) a
      (m(Suc (max a b) := rtgui_region_init_with_extents r)) S \<Longrightarrow> delivers (with_rect f a b r m mem) a m S"
proof -
  let ?l = "Suc (max a b)"
  assume "delivers (f ?l (m(?l := rtgui_region_init_with_extents r)) mem) a (m(?l := rtgui_region_init_with_extents r)) S"
  then obtain reg mem' where o: "f ?l (m(?l := rtgui_region_init_with_extents r)) mem = (True, m(?l := rtgui_region_init_with_extents r, a := reg), mem')"
    "False \<notin> set mem'" "region_ok reg" "pixels reg = S" by (auto simp: delivers_def)
  have "m(?l := rtgui_region_init_with_extents r, a := reg, ?l := m ?l) = m(a := reg)" by auto
  then have "with_rect f a b r m mem = (True, m(a := reg), mem')" using o(1) by (simp add: with_rect_def Let_def)
  then show ?thesis using o(2-4) by (rule deliversI)
qed

lemma init_rect_ok: "rx1 r < rx2 r \<Longrightarrow> ry1 r < ry2 r \<Longrightarrow> region_ok (rtgui_region_init_with_extents r) \<and> pixels (rtgui_region_init_with_extents r) = INBOX r"
  using single_ok [of r] by (auto simp: rtgui_region_init_with_extents_def Null_pixels fun_eq_iff)

text \<open>
  C38. The union, intersection and difference of a region with a rectangle, and the inversion of a
  region within a rectangle, compute the set operations on the pixels, also in place, as long as
  memory lasts; the inversion gives the rectangle's pixels outside the region.
\<close>

theorem region_rect_algebra:
  assumes "region_ok (m a)" "rx1 r < rx2 r" "ry1 r < ry2 r" "False \<notin> set mem"
  shows "delivers (rtgui_region_union_rect n a r m mem) n m (\<lambda>x y. pixels (m a) x y \<or> INBOX r x y) \<and>
    delivers (rtgui_region_intersect_rect n a r m mem) n m (\<lambda>x y. pixels (m a) x y \<and> INBOX r x y) \<and>
    delivers (rtgui_region_subtract_rect n a r m mem) n m (\<lambda>x y. pixels (m a) x y \<and> \<not> INBOX r x y) \<and>
    delivers (rtgui_region_inverse n a r m mem) n m (\<lambda>x y. INBOX r x y \<and> \<not> pixels (m a) x y)"
proof -
  let ?l = "Suc (max n a)"
  let ?m = "m(?l := rtgui_region_init_with_extents r)"
  note i = init_rect_ok [OF assms(2,3)]
  have "a < ?l" by (simp add: less_Suc_eq_le)
  then have l: "a \<noteq> ?l" by simp
  then have k: "region_ok (?m a)" "region_ok (?m ?l)" "pixels (?m a) = pixels (m a)" "pixels (?m ?l) = INBOX r"
    using assms(1) i by (simp_all del: max_Suc_Suc)
  have u: "delivers (rtgui_region_union n a ?l ?m mem) n ?m (\<lambda>x y. pixels (m a) x y \<or> INBOX r x y)"
    using union_delivers [of ?m a ?l mem n] k assms(4) by simp
  have t: "delivers (rtgui_region_intersect n a ?l ?m mem) n ?m (\<lambda>x y. pixels (m a) x y \<and> INBOX r x y)"
    using intersect_delivers [of ?m a ?l mem n] k assms(4) by simp
  have d: "delivers (rtgui_region_subtract n a ?l ?m mem) n ?m (\<lambda>x y. pixels (m a) x y \<and> \<not> INBOX r x y)"
    using subtract_delivers [of ?m a ?l mem n] k assms(4) by simp
  have v: "delivers (rtgui_region_inverse n a r m mem) n m (\<lambda>x y. INBOX r x y \<and> \<not> pixels (m a) x y)"
  proof (cases "NIL (m a) \<or> \<not> EXTENTCHECK r (extents (m a))")
    case True
    have "\<not> (INBOX r x y \<and> pixels (m a) x y)" for x y
      using True NIL_no_pixels [OF assms(1)] apart [of "rtgui_region_init_with_extents r" "m a" x y] i assms(1)
      by (auto simp: rtgui_region_init_with_extents_def)
    then have "(\<lambda>x y. INBOX r x y \<and> \<not> pixels (m a) x y) = INBOX r" by (intro ext) blast
    moreover have "rtgui_region_inverse n a r m mem = (True, m(n := rtgui_region_init_with_extents r), mem)"
      using True not_NAR [OF assms(1)] by (auto simp: rtgui_region_inverse_def rtgui_region_init_with_extents_def)
    ultimately show ?thesis using i assms(4) by (auto intro: deliversI)
  next
    case False
    have ne: "rects (?m ?l) \<noteq> []" "rects (?m a) \<noteq> []"
      using not_NIL [OF assms(1)] False l by (simp_all add: rtgui_region_init_with_extents_def) (simp add: rects_def)
    from diff_band.op_correct [OF assms(4) region_banded [OF k(2)] region_banded [OF k(1)] ne not_NAR [OF k(2)] not_NAR [OF k(1)], of n]
    obtain reg mem' os where o: "rtgui_op rtgui_region_subtractO True False n ?l a ?m mem = (True, ?m(n := reg), mem')" "False \<notin> set mem'"
      "shaped reg os" "banded os" "\<forall>x y. pix os x y = (pix (rects (?m ?l)) x y \<and> \<not> pix (rects (?m a)) x y)" by blast
    have "\<forall>x y. pix os x y = (INBOX r x y \<and> \<not> pixels (m a) x y)" using o(5) k(3,4) by (simp add: pixels_def)
    from op_extents_delivers [OF o(3,4) this o(2), of ?m n]
    have "delivers (case rtgui_op rtgui_region_subtractO True False n ?l a ?m mem of (ok, m, mem) \<Rightarrow>
       if \<not> ok then (False, m, mem) else (True, m(n := rtgui_set_extents (m n)), mem)) n ?m (\<lambda>x y. INBOX r x y \<and> \<not> pixels (m a) x y)"
      by (simp add: o(1))
    then show ?thesis using False by (simp add: rtgui_region_inverse_def with_rect_delivers)
  qed
  show ?thesis
    unfolding rtgui_region_union_rect_def rtgui_region_intersect_rect_def rtgui_region_subtract_rect_def
    using with_rect_delivers [of "\<lambda>l. rtgui_region_union n a l" n a m r mem, OF u]
      with_rect_delivers [of "\<lambda>l. rtgui_region_intersect n a l" n a m r mem, OF t]
      with_rect_delivers [of "\<lambda>l. rtgui_region_subtract n a l" n a m r mem, OF d] v by blast
qed

theorem region_rect_algebra_witness:
  "let m = (\<lambda>i. corner); r = box 5 5 25 15 in
    delivers (rtgui_region_union_rect 0 0 r m []) 0 m (\<lambda>x y. pixels corner x y \<or> INBOX r x y) \<and>
    delivers (rtgui_region_intersect_rect 0 0 r m []) 0 m (\<lambda>x y. pixels corner x y \<and> INBOX r x y) \<and>
    delivers (rtgui_region_subtract_rect 0 0 r m []) 0 m (\<lambda>x y. pixels corner x y \<and> \<not> INBOX r x y) \<and>
    delivers (rtgui_region_inverse 0 0 r m []) 0 m (\<lambda>x y. INBOX r x y \<and> \<not> pixels corner x y)"
  using region_rect_algebra [of "\<lambda>i. corner" 0 "box 5 5 25 15" "[]" 0] corner_ok by (simp add: Let_def)

section \<open>Memory that does not last\<close>

text \<open>
  The generic operator does not look at the result of an append of a band that lies in one region only: when
  the array cannot grow there, the rectangles so far are gone and the union still reports success.
\<close>

definition tall :: region where
  "tall = \<lparr>extents = box 0 0 1 100, data = Null\<rparr>"

definition spots :: region where
  "spots = \<lparr>extents = box 2 10 3 60, data = Heap [box 2 10 3 20, box 2 30 3 40, box 2 50 3 60] 3\<rparr>"

lemma union_loses_pixels: "let m = (\<lambda>i. if i = 0 then tall else if i = 1 then spots else rtgui_region_init) in
    case rtgui_region_union 2 0 1 m [True, False] of (ok, m', mem) \<Rightarrow>
      ok \<and> rects (m' 2) = [box 0 50 1 60, box 2 50 3 60, box 0 60 1 100] \<and> rects (m 0) = [box 0 0 1 100]"
  by code_simp

end
