(* ===== verification/Rg_Query.thy ===== *)
theory Rg_Query
  imports Region
begin

text \<open>
  The tests and movements of \<open>region.c\<close>: whether a region contains a point or a rectangle, the translation
  of a region, and the functions on single rectangles. Coordinates are 16 bits wide; \<open>short\<close> is the value
  a coordinate takes when an \<open>int\<close> is stored in it.
\<close>

lemma region_cases: "region_ok reg \<Longrightarrow> rects reg = [] \<or> rects reg = [extents reg] \<or> 2 \<le> length (rects reg) \<and> boxptr reg = rects reg"
  by (cases "data reg") (auto simp: region_ok_def shaped_def rects_def boxptr_def)

section \<open>Points\<close>

fun find_box :: "int \<Rightarrow> int \<Rightarrow> rect list \<Rightarrow> rect option" where
  "find_box x y [] = None"
| "find_box x y (b # bs) =
    (if ry2 b \<le> y then find_box x y bs
     else if y < ry1 b \<or> x < rx1 b then None
     else if rx2 b \<le> x then find_box x y bs
     else Some b)"

definition rtgui_region_contains_point :: "region \<Rightarrow> int \<Rightarrow> int \<Rightarrow> rect option" where
  "rtgui_region_contains_point reg x y =
    (if rects reg = [] \<or> \<not> INBOX (extents reg) x y then None
     else if length (rects reg) = 1 then Some (extents reg)
     else find_box x y (boxptr reg))"

lemma find_box_some: "find_box x y bs = Some b \<Longrightarrow> b \<in> set bs \<and> INBOX b x y"
  by (induction bs) (auto simp: INBOX_def split: if_splits)

lemma find_box_none: "banded bs \<Longrightarrow> find_box x y bs = None \<Longrightarrow> \<not> pix bs x y"
proof (induction bs)
  case (Cons b bs)
  have "\<not> pix bs x y" if "y < ry1 b \<or> y < ry2 b \<and> x < rx1 b"
    using that Cons.prems(1) by (fastforce simp: banded_cons before_def pix_def INBOX_def)
  with Cons show ?case by (auto simp: banded_cons INBOX_def split: if_splits)
qed simp

text \<open>A point is found in a region exactly when it is one of its pixels, with a rectangle of the region around it.\<close>

lemma contains_point_exact: "region_ok reg \<Longrightarrow>
    (rtgui_region_contains_point reg x y \<noteq> None \<longleftrightarrow> pixels reg x y) \<and>
    (\<forall>b. rtgui_region_contains_point reg x y = Some b \<longrightarrow> b \<in> set (rects reg) \<and> INBOX b x y)"
proof -
  assume ok: "region_ok reg"
  from region_cases [OF this] consider "rects reg = []" | "rects reg = [extents reg]"
    | "2 \<le> length (rects reg)" "boxptr reg = rects reg" by blast
  then show ?thesis
  proof cases
    case 3
    then show ?thesis using find_box_some [of x y "rects reg"] find_box_none [of "rects reg" x y] extents_cover [OF ok, of x y] region_banded [OF ok]
      by (auto simp: rtgui_region_contains_point_def pixels_def pix_def)
  qed (auto simp: rtgui_region_contains_point_def pixels_def)
qed

lemma contains_point_exact_witness: "(rtgui_region_contains_point corner 25 5 \<noteq> None \<longleftrightarrow> pixels corner 25 5) \<and>
    (\<forall>b. rtgui_region_contains_point corner 25 5 = Some b \<longrightarrow> b \<in> set (rects corner) \<and> INBOX b 25 5)"
  by (rule contains_point_exact [OF corner_ok])

section \<open>Rectangles\<close>

datatype part = RTGUI_REGION_OUT | RTGUI_REGION_IN | RTGUI_REGION_PART

definition verdict :: "rect \<Rightarrow> int \<Rightarrow> bool \<Rightarrow> part" where
  "verdict p y partIn = (if partIn then (if y < ry2 p then RTGUI_REGION_PART else RTGUI_REGION_IN) else RTGUI_REGION_OUT)"

text \<open>The loop over the boxes; the left side from which a band is scanned never moves.\<close>

fun scan :: "rect \<Rightarrow> int \<Rightarrow> bool \<Rightarrow> bool \<Rightarrow> rect list \<Rightarrow> part" where
  "scan p y partIn partOut [] = verdict p y partIn"
| "scan p y partIn partOut (b # bs) =
    (if ry2 b \<le> y then scan p y partIn partOut bs
     else if y < ry1 b \<and> (partIn \<or> ry2 p \<le> ry1 b) then verdict p y partIn
     else let partOut = (partOut \<or> y < ry1 b); y = (if y < ry1 b then ry1 b else y) in
       if rx2 b \<le> rx1 p then scan p y partIn partOut bs
       else if rx1 p < rx1 b \<and> partIn then verdict p y partIn
       else let partOut = (partOut \<or> rx1 p < rx1 b) in
         if rx1 b < rx2 p \<and> partOut then verdict p y True
         else let partIn = (partIn \<or> rx1 b < rx2 p) in
           if rx2 p \<le> rx2 b then (if ry2 p \<le> ry2 b then verdict p (ry2 b) partIn else scan p (ry2 b) partIn partOut bs)
           else verdict p y partIn)"

definition rtgui_region_contains_rectangle :: "region \<Rightarrow> rect \<Rightarrow> part" where
  "rtgui_region_contains_rectangle reg p =
    (if rects reg = [] \<or> \<not> EXTENTCHECK (extents reg) p then RTGUI_REGION_OUT
     else if length (rects reg) = 1 then (if SUBSUMES (extents reg) p then RTGUI_REGION_IN else RTGUI_REGION_PART)
     else scan p (ry1 p) False False (boxptr reg))"

definition lower_part :: "rect \<Rightarrow> int \<Rightarrow> (int \<Rightarrow> int \<Rightarrow> bool) \<Rightarrow> bool" where
  "lower_part p y Q \<longleftrightarrow> (\<forall>X Y. rx1 p \<le> X \<and> X < rx2 p \<and> y \<le> Y \<and> Y < ry2 p \<longrightarrow> Q X Y)"

definition answer :: "rect \<Rightarrow> int \<Rightarrow> bool \<Rightarrow> bool \<Rightarrow> (int \<Rightarrow> int \<Rightarrow> bool) \<Rightarrow> part" where
  "answer p y partIn partOut Q =
    (if \<not> partIn \<and> lower_part p y (\<lambda>X Y. \<not> Q X Y) then RTGUI_REGION_OUT
     else if \<not> partOut \<and> lower_part p y Q then RTGUI_REGION_IN else RTGUI_REGION_PART)"

lemma lower_cong: "(\<And>X Y. rx1 p \<le> X \<Longrightarrow> X < rx2 p \<Longrightarrow> y \<le> Y \<Longrightarrow> Y < ry2 p \<Longrightarrow> Q X Y = R X Y) \<Longrightarrow> lower_part p y Q = lower_part p y R"
  by (auto simp: lower_part_def)

lemma answer_cong: "(\<And>X Y. rx1 p \<le> X \<Longrightarrow> X < rx2 p \<Longrightarrow> y \<le> Y \<Longrightarrow> Y < ry2 p \<Longrightarrow> Q X Y = R X Y) \<Longrightarrow>
    answer p y partIn partOut Q = answer p y partIn partOut R"
  unfolding answer_def by (simp cong: lower_cong)

lemma lower_split: "y \<le> z \<Longrightarrow> lower_part p y Q \<longleftrightarrow>
    (\<forall>X Y. rx1 p \<le> X \<and> X < rx2 p \<and> y \<le> Y \<and> Y < z \<and> Y < ry2 p \<longrightarrow> Q X Y) \<and> lower_part p z Q"
  unfolding lower_part_def by (meson linorder_not_less order_trans)

lemma not_all: "rx1 p \<le> X \<Longrightarrow> X < rx2 p \<Longrightarrow> y \<le> Y \<Longrightarrow> Y < ry2 p \<Longrightarrow> \<not> Q X Y \<Longrightarrow> \<not> lower_part p y Q"
  by (auto simp: lower_part_def)

text \<open>A box that reaches up to the line of the scan.\<close>

lemma scan_row:
  assumes b: "banded (b # bs)" and p: "rx1 p < rx2 p" "y < ry2 p" and y: "ry1 b \<le> y" "y < ry2 b" and f: "\<not> (partIn \<and> partOut)"
    and IH: "\<And>y partIn partOut. y < ry2 p \<Longrightarrow> \<not> (partIn \<and> partOut) \<Longrightarrow> scan p y partIn partOut bs = answer p y partIn partOut (pix bs)"
  shows "scan p y partIn partOut (b # bs) = answer p y partIn partOut (pix (b # bs))"
proof -
  let ?Q = "pix (b # bs)"
  have right: "rx2 b < X" if "pix bs X Y" "Y < ry2 b" for X Y
    using b that by (fastforce simp: banded_cons before_def pix_def INBOX_def)
  have pos: "rx1 b < rx2 b" using b by (simp add: banded_cons)
  consider (left) "rx2 b \<le> rx1 p" | (gap) "rx1 p < rx1 b" "partIn" | (part) "rx1 p < rx1 b" "\<not> partIn" "rx1 b < rx2 p"
    | (beyond) "rx1 p < rx1 b" "\<not> partIn" "rx2 p \<le> rx1 b" | (late) "rx1 b \<le> rx1 p" "rx1 p < rx2 b" partOut
    | (cover) "rx1 b \<le> rx1 p" "rx2 p \<le> rx2 b" "\<not> partOut" | (short) "rx1 b \<le> rx1 p" "rx1 p < rx2 b" "rx2 b < rx2 p" "\<not> partOut"
    by linarith
  then show ?thesis
  proof cases
    case left
    have "scan p y partIn partOut (b # bs) = scan p y partIn partOut bs" using left y by simp
    also have "\<dots> = answer p y partIn partOut ?Q" unfolding IH [OF p(2) f] using left by (intro answer_cong) (auto simp: INBOX_def)
    finally show ?thesis .
  next
    case gap
    have "\<not> lower_part p y ?Q" using gap p y right [of "rx1 p" y] pos by (intro not_all [of p "rx1 p" y y]) (auto simp: INBOX_def)
    then show ?thesis using gap y p pos by (simp add: answer_def verdict_def)
  next
    case part
    have "\<not> lower_part p y ?Q" using part p y right [of "rx1 p" y] pos by (intro not_all [of p "rx1 p" y y]) (auto simp: INBOX_def)
    moreover have "\<not> lower_part p y (\<lambda>X Y. \<not> ?Q X Y)" using part p y pos by (intro not_all [of p "rx1 b" y y]) (auto simp: INBOX_def)
    ultimately show ?thesis using part y p pos by (simp add: answer_def verdict_def)
  next
    case beyond
    have na: "\<not> lower_part p y ?Q" using beyond p y right [of "rx1 p" y] pos by (intro not_all [of p "rx1 p" y y]) (auto simp: INBOX_def)
    have rows: "\<not> ?Q X Y" if "X < rx2 p" "Y < ry2 b" for X Y using that beyond pos right [of X Y] by (auto simp: INBOX_def)
    show ?thesis
    proof (cases "ry2 p \<le> ry2 b")
      case True
      then have "lower_part p y (\<lambda>X Y. \<not> ?Q X Y)" using rows by (auto simp: lower_part_def)
      then show ?thesis using True beyond y p pos by (simp add: answer_def verdict_def)
    next
      case False
      have "lower_part p y (\<lambda>X Y. \<not> ?Q X Y) = lower_part p (ry2 b) (\<lambda>X Y. \<not> ?Q X Y)"
        using lower_split [of y "ry2 b" p "\<lambda>X Y. \<not> ?Q X Y"] rows y by auto
      also have "\<dots> = lower_part p (ry2 b) (\<lambda>X Y. \<not> pix bs X Y)" by (rule lower_cong) (simp add: INBOX_def)
      finally have e: "lower_part p y (\<lambda>X Y. \<not> ?Q X Y) = lower_part p (ry2 b) (\<lambda>X Y. \<not> pix bs X Y)" .
      have "scan p y partIn partOut (b # bs) = scan p (ry2 b) False True bs" using False beyond y p pos by simp
      also have "\<dots> = answer p (ry2 b) False True (pix bs)" using False by (intro IH) simp_all
      finally show ?thesis unfolding answer_def e using na beyond by simp
    qed
  next
    case late
    then have "rx1 b < rx2 p" using p by simp
    have "\<not> lower_part p y (\<lambda>X Y. \<not> ?Q X Y)" using late p y pos by (intro not_all [of p "rx1 p" y y]) (auto simp: INBOX_def)
    then show ?thesis using late y p pos \<open>rx1 b < rx2 p\<close> by (simp add: answer_def verdict_def)
  next
    case cover
    have lt: "rx1 p < rx2 b" "rx1 b < rx2 p" using cover p by simp_all
    have rows: "?Q X Y" if "rx1 p \<le> X" "X < rx2 p" "y \<le> Y" "Y < ry2 b" for X Y using that cover y by (auto simp: INBOX_def)
    have nn: "\<not> lower_part p y (\<lambda>X Y. \<not> ?Q X Y)" using cover p y lt by (intro not_all [of p "rx1 p" y y]) (auto simp: INBOX_def)
    show ?thesis
    proof (cases "ry2 p \<le> ry2 b")
      case True
      then have "lower_part p y ?Q" using rows by (auto simp: lower_part_def)
      then show ?thesis using True cover y p lt nn by (simp add: answer_def verdict_def)
    next
      case False
      have "lower_part p y ?Q = lower_part p (ry2 b) ?Q" using lower_split [of y "ry2 b" p ?Q] rows y by auto
      also have "\<dots> = lower_part p (ry2 b) (pix bs)" by (rule lower_cong) (simp add: INBOX_def)
      finally have e: "lower_part p y ?Q = lower_part p (ry2 b) (pix bs)" .
      have "scan p y partIn partOut (b # bs) = scan p (ry2 b) True False bs" using False cover y p lt by simp
      also have "\<dots> = answer p (ry2 b) True False (pix bs)" using False by (intro IH) simp_all
      finally show ?thesis unfolding answer_def e using nn cover by simp
    qed
  next
    case short
    have lt: "rx1 b < rx2 p" using short p by simp
    have "\<not> lower_part p y (\<lambda>X Y. \<not> ?Q X Y)" using short p y by (intro not_all [of p "rx1 p" y y]) (auto simp: INBOX_def)
    moreover have "\<not> lower_part p y ?Q" using short p y right [of "rx2 b" y] by (intro not_all [of p "rx2 b" y y]) (auto simp: INBOX_def)
    ultimately show ?thesis using short y p lt by (simp add: answer_def verdict_def)
  qed
qed

lemma scan_answer: "banded bs \<Longrightarrow> rx1 p < rx2 p \<Longrightarrow> y < ry2 p \<Longrightarrow> \<not> (partIn \<and> partOut) \<Longrightarrow>
    scan p y partIn partOut bs = answer p y partIn partOut (pix bs)"
proof (induction bs arbitrary: y partIn partOut)
  case Nil
  then have "\<not> lower_part p y (pix [])" "\<not> lower_part p y (\<lambda>X Y. False)" "lower_part p y (\<lambda>X Y. \<not> pix [] X Y)" by (auto simp: lower_part_def)
  then show ?case using Nil by (simp add: verdict_def answer_def)
next
  case (Cons b bs)
  let ?Q = "pix (b # bs)"
  have bs: "banded bs" using Cons.prems(1) by (simp add: banded_cons)
  note IH = Cons.IH [OF bs Cons.prems(2)]
  have above: "\<not> ?Q X Y" if "Y < ry1 b" for X Y
    using that Cons.prems(1) by (fastforce simp: banded_cons before_def pix_def INBOX_def)
  consider (skip) "ry2 b \<le> y" | (row) "ry1 b \<le> y" "y < ry2 b" | (stop) "y < ry1 b" "partIn \<or> ry2 p \<le> ry1 b" | (jump) "y < ry1 b" "\<not> partIn" "ry1 b < ry2 p"
    by linarith
  then show ?case
  proof cases
    case skip
    then have "scan p y partIn partOut (b # bs) = scan p y partIn partOut bs" by simp
    also have "\<dots> = answer p y partIn partOut ?Q" unfolding IH [OF Cons.prems(3,4)] using skip by (intro answer_cong) (auto simp: INBOX_def)
    finally show ?thesis .
  next
    case row
    then show ?thesis using scan_row [OF Cons.prems(1-3) row Cons.prems(4) IH] by blast
  next
    case stop
    have "ry1 b < ry2 b" using Cons.prems(1) by (simp add: banded_cons)
    have "\<not> lower_part p y ?Q" using above [OF stop(1), of "rx1 p"] Cons.prems(2,3) by (intro not_all [of p "rx1 p" y y]) auto
    moreover have "\<not> partIn \<Longrightarrow> lower_part p y (\<lambda>X Y. \<not> ?Q X Y)" using stop above by (auto simp: lower_part_def)
    ultimately show ?thesis using stop \<open>ry1 b < ry2 b\<close> Cons.prems(3) by (simp add: answer_def verdict_def del: pix_simps)
  next
    case jump
    have pos: "ry1 b < ry2 b" using Cons.prems(1) by (simp add: banded_cons)
    have "scan p y partIn partOut (b # bs) = scan p (ry1 b) False True (b # bs)" using jump pos by simp
    also have "\<dots> = answer p (ry1 b) False True ?Q" using scan_row [OF Cons.prems(1,2) jump(3) order_refl pos _ IH] by blast
    also have "\<dots> = answer p y partIn partOut ?Q"
    proof -
      have "\<not> lower_part p y ?Q" using above [OF jump(1), of "rx1 p"] Cons.prems(2,3) by (intro not_all [of p "rx1 p" y y]) auto
      moreover have "lower_part p y (\<lambda>X Y. \<not> ?Q X Y) = lower_part p (ry1 b) (\<lambda>X Y. \<not> ?Q X Y)"
        using lower_split [of y "ry1 b" p "\<lambda>X Y. \<not> ?Q X Y"] above jump(1) by auto
      ultimately show ?thesis using jump(2) by (simp add: answer_def)
    qed
    finally show ?thesis .
  qed
qed

text \<open>
  C17. The test of a rectangle against a region: outside when no pixel of the rectangle lies in the region,
  inside when all do, and in part otherwise.
\<close>

theorem contains_rectangle_exact: "region_ok reg \<Longrightarrow> rx1 p < rx2 p \<Longrightarrow> ry1 p < ry2 p \<Longrightarrow>
    rtgui_region_contains_rectangle reg p =
      (if \<forall>x y. INBOX p x y \<longrightarrow> \<not> pixels reg x y then RTGUI_REGION_OUT
       else if \<forall>x y. INBOX p x y \<longrightarrow> pixels reg x y then RTGUI_REGION_IN else RTGUI_REGION_PART)"
proof -
  assume ok: "region_ok reg" and p: "rx1 p < rx2 p" "ry1 p < ry2 p"
  have lower: "lower_part p (ry1 p) Q \<longleftrightarrow> (\<forall>x y. INBOX p x y \<longrightarrow> Q x y)" for Q by (auto simp: lower_part_def INBOX_def)
  have corner_in: "INBOX p (rx1 p) (ry1 p)" "INBOX p (rx2 p - 1) (ry2 p - 1)" using p by (simp_all add: INBOX_def)
  consider (out) "rects reg = [] \<or> \<not> EXTENTCHECK (extents reg) p" | (one) "rects reg = [extents reg]" "EXTENTCHECK (extents reg) p"
    | (several) "2 \<le> length (rects reg)" "boxptr reg = rects reg" "EXTENTCHECK (extents reg) p"
    using region_cases [OF ok] by blast
  then show ?thesis
  proof cases
    case out
    then have "\<forall>x y. INBOX p x y \<longrightarrow> \<not> pixels reg x y"
      using extents_cover [OF ok] by (fastforce simp: pixels_def EXTENTCHECK_def INBOX_def)
    then show ?thesis using out by (simp add: rtgui_region_contains_rectangle_def)
  next
    case one
    let ?e = "extents reg"
    have px: "pixels reg x y = INBOX ?e x y" for x y using one(1) by (simp add: pixels_def)
    have "rx1 ?e < rx2 ?e" "ry1 ?e < ry2 ?e" using region_banded [OF ok] one(1) by (simp_all add: banded_cons)
    then have "INBOX p (max (rx1 p) (rx1 ?e)) (max (ry1 p) (ry1 ?e)) \<and> INBOX ?e (max (rx1 p) (rx1 ?e)) (max (ry1 p) (ry1 ?e))"
      using one(2) p by (auto simp: EXTENTCHECK_def INBOX_def)
    then have "\<not> (\<forall>x y. INBOX p x y \<longrightarrow> \<not> pixels reg x y)" using px by blast
    moreover have "(\<forall>x y. INBOX p x y \<longrightarrow> pixels reg x y) \<longleftrightarrow> SUBSUMES ?e p"
    proof
      assume "\<forall>x y. INBOX p x y \<longrightarrow> pixels reg x y"
      then have "INBOX ?e (rx1 p) (ry1 p)" "INBOX ?e (rx2 p - 1) (ry2 p - 1)" using corner_in px by blast+
      then show "SUBSUMES ?e p" by (simp add: SUBSUMES_def INBOX_def)
    qed (use subsumes_pixels px in blast)
    ultimately show ?thesis using one by (simp add: rtgui_region_contains_rectangle_def)
  next
    case several
    have "rtgui_region_contains_rectangle reg p = scan p (ry1 p) False False (rects reg)"
      using several by (auto simp: rtgui_region_contains_rectangle_def)
    also have "\<dots> = answer p (ry1 p) False False (pixels reg)"
      using scan_answer [OF region_banded [OF ok] p, of False False] by (simp add: pixels_def)
    finally show ?thesis by (simp add: answer_def lower)
  qed
qed

theorem contains_rectangle_exact_witness: "rtgui_region_contains_rectangle corner (box 2 8 9 12) = RTGUI_REGION_IN"
proof -
  have "\<forall>x y. INBOX (box 2 8 9 12) x y \<longrightarrow> pixels corner x y"
    by (auto simp: INBOX_def pixels_def corner_def rects_def boxptr_def)
  moreover have "INBOX (box 2 8 9 12) 2 8" by (simp add: INBOX_def)
  ultimately show ?thesis using contains_rectangle_exact [OF corner_ok, of "box 2 8 9 12"] by auto
qed

section \<open>Translation\<close>

definition SHRT_MIN :: int where
  "SHRT_MIN = - 32768"

definition SHRT_MAX :: int where
  "SHRT_MAX = 32767"

definition short :: "int \<Rightarrow> int" where
  "short x = signed_take_bit 15 x"

lemma short_id: "SHRT_MIN \<le> x \<Longrightarrow> x \<le> SHRT_MAX \<Longrightarrow> short x = x"
  unfolding short_def SHRT_MIN_def SHRT_MAX_def by (intro signed_take_bit_int_eq_self) simp_all

definition shift_rect :: "int \<Rightarrow> int \<Rightarrow> rect \<Rightarrow> rect" where
  "shift_rect dx dy r = box (short (rx1 r + dx)) (short (ry1 r + dy)) (short (rx2 r + dx)) (short (ry2 r + dy))"

text \<open>A rectangle that was shifted to the given sides, clipped to the range of a coordinate.\<close>

definition clip_rect :: "int \<Rightarrow> int \<Rightarrow> int \<Rightarrow> int \<Rightarrow> rect" where
  "clip_rect x1 y1 x2 y2 = box (if x1 < SHRT_MIN then SHRT_MIN else short x1) (if y1 < SHRT_MIN then SHRT_MIN else short y1)
     (if \<not> x1 < SHRT_MIN \<and> SHRT_MAX < x2 then SHRT_MAX else short x2) (if \<not> y1 < SHRT_MIN \<and> SHRT_MAX < y2 then SHRT_MAX else short y2)"

unbundle bit_operations_syntax

definition all_in :: "int \<Rightarrow> int \<Rightarrow> int \<Rightarrow> int \<Rightarrow> bool" where
  "all_in x1 y1 x2 y2 \<longleftrightarrow> 0 \<le> ((x1 - SHRT_MIN) OR (y1 - SHRT_MIN) OR (SHRT_MAX - x2) OR (SHRT_MAX - y2))"

definition all_out :: "int \<Rightarrow> int \<Rightarrow> int \<Rightarrow> int \<Rightarrow> bool" where
  "all_out x1 y1 x2 y2 \<longleftrightarrow> ((x2 - SHRT_MIN) OR (y2 - SHRT_MIN) OR (SHRT_MAX - x1) OR (SHRT_MAX - y1)) \<le> 0"

fun clip_boxes :: "int \<Rightarrow> int \<Rightarrow> rect list \<Rightarrow> rect list" where
  "clip_boxes dx dy [] = []"
| "clip_boxes dx dy (r # rs) =
    (if all_out (rx1 r + dx) (ry1 r + dy) (rx2 r + dx) (ry2 r + dy) then clip_boxes dx dy rs
     else clip_rect (rx1 r + dx) (ry1 r + dy) (rx2 r + dx) (ry2 r + dy) # clip_boxes dx dy rs)"

definition rtgui_region_translate :: "region \<Rightarrow> int \<Rightarrow> int \<Rightarrow> region" where
  "rtgui_region_translate reg dx dy = (let e = extents reg; x1 = rx1 e + dx; y1 = ry1 e + dy; x2 = rx2 e + dx; y2 = ry2 e + dy in
     if all_in x1 y1 x2 y2 then set_boxes (map (shift_rect dx dy) (boxptr reg)) (reg\<lparr>extents := shift_rect dx dy e\<rparr>)
     else if all_out x1 y1 x2 y2 then reg\<lparr>extents := box (short x1) (short y1) (short x1) (short y1), data := Emptydata\<rparr>
     else let reg1 = reg\<lparr>extents := clip_rect x1 y1 x2 y2\<rparr>; rs = clip_boxes dx dy (boxptr reg); reg2 = set_boxes rs reg1 in
       if boxptr reg = [] \<or> length rs = length (boxptr reg) then reg2
       else if length rs = 1 then reg2\<lparr>extents := hd rs, data := Null\<rparr>
       else rtgui_set_extents reg2)"

lemma all_in_iff: "all_in x1 y1 x2 y2 \<longleftrightarrow> SHRT_MIN \<le> x1 \<and> SHRT_MIN \<le> y1 \<and> x2 \<le> SHRT_MAX \<and> y2 \<le> SHRT_MAX"
  by (auto simp: all_in_def or_nonnegative_int_iff)

lemma shift_rect_exact: "SUBSUMES e r \<Longrightarrow> rx1 r < rx2 r \<Longrightarrow> ry1 r < ry2 r \<Longrightarrow> SHRT_MIN \<le> rx1 e + dx \<Longrightarrow> SHRT_MIN \<le> ry1 e + dy \<Longrightarrow>
    rx2 e + dx \<le> SHRT_MAX \<Longrightarrow> ry2 e + dy \<le> SHRT_MAX \<Longrightarrow>
    shift_rect dx dy r = box (rx1 r + dx) (ry1 r + dy) (rx2 r + dx) (ry2 r + dy)"
  by (simp add: shift_rect_def SUBSUMES_def short_id)

lemma cover_subsumes: "region_ok reg \<Longrightarrow> r \<in> set (rects reg) \<Longrightarrow> SUBSUMES (extents reg) r"
proof -
  assume ok: "region_ok reg" and r: "r \<in> set (rects reg)"
  then have "rx1 r < rx2 r" "ry1 r < ry2 r" using region_banded [OF ok] by (simp_all add: banded_def)
  then have "pixels reg (rx1 r) (ry1 r)" "pixels reg (rx2 r - 1) (ry2 r - 1)" using r by (auto simp: pixels_def pix_def INBOX_def intro: bexI [of _ r])
  then have "INBOX (extents reg) (rx1 r) (ry1 r)" "INBOX (extents reg) (rx2 r - 1) (ry2 r - 1)" using extents_cover [OF ok] by blast+
  then show ?thesis by (simp add: SUBSUMES_def INBOX_def)
qed

definition moved_by :: "int \<Rightarrow> int \<Rightarrow> rect \<Rightarrow> rect" where
  "moved_by dx dy r = box (rx1 r + dx) (ry1 r + dy) (rx2 r + dx) (ry2 r + dy)"

lemma moved_pix: "pix (map (moved_by dx dy) rs) x y \<longleftrightarrow> pix rs (x - dx) (y - dy)"
  by (induction rs) (auto simp: moved_by_def INBOX_def)

lemma moved_banded: "banded rs \<Longrightarrow> banded (map (moved_by dx dy) rs)"
  by (induction rs) (auto simp: banded_cons moved_by_def before_def)

lemma moved_tight: "tight e (pix rs) \<Longrightarrow> tight (moved_by dx dy e) (pix (map (moved_by dx dy) rs))"
proof -
  assume t: "tight e (pix rs)"
  have "INBOX (moved_by dx dy e) x y" if "pix (map (moved_by dx dy) rs) x y" for x y
    using that t by (force simp: moved_pix tight_def INBOX_def moved_by_def)
  moreover obtain y1 y2 x1 x2 where w: "pix rs (rx1 e) y1" "pix rs (rx2 e - 1) y2" "pix rs x1 (ry1 e)" "pix rs x2 (ry2 e - 1)"
    using t by (auto simp: tight_def)
  have "rx1 e + dx - dx = rx1 e" "rx2 e + dx - 1 - dx = rx2 e - 1" "ry1 e + dy - dy = ry1 e" "ry2 e + dy - 1 - dy = ry2 e - 1" by simp_all
  then have "pix (map (moved_by dx dy) rs) (rx1 (moved_by dx dy e)) (y1 + dy)" "pix (map (moved_by dx dy) rs) (rx2 (moved_by dx dy e) - 1) (y2 + dy)"
    "pix (map (moved_by dx dy) rs) (x1 + dx) (ry1 (moved_by dx dy e))" "pix (map (moved_by dx dy) rs) (x2 + dx) (ry2 (moved_by dx dy e) - 1)"
    using w by (simp_all add: moved_pix moved_by_def)
  ultimately show ?thesis unfolding tight_def by blast
qed

text \<open>
  A region whose extents stay within the range of a coordinate is moved as a whole: every pixel by the
  given distance, nothing else.
\<close>

lemma translate_moves_pixels:
  assumes ok: "region_ok reg" and ne: "rects reg \<noteq> []"
    and range: "SHRT_MIN \<le> rx1 (extents reg) + dx" "SHRT_MIN \<le> ry1 (extents reg) + dy" "rx2 (extents reg) + dx \<le> SHRT_MAX" "ry2 (extents reg) + dy \<le> SHRT_MAX"
  shows "region_ok (rtgui_region_translate reg dx dy) \<and> (\<forall>x y. pixels (rtgui_region_translate reg dx dy) x y = pixels reg (x - dx) (y - dy))"
proof -
  let ?e = "extents reg" and ?t = "rtgui_region_translate reg dx dy"
  have "pixels reg (rx1 ?e) (SOME y. pixels reg (rx1 ?e) y)" using ok ne by (auto simp: region_ok_def tight_def pixels_def intro: someI)
  then have e: "rx1 ?e < rx2 ?e" "ry1 ?e < ry2 ?e" using extents_cover [OF ok] by (fastforce simp: INBOX_def)+
  have t: "?t = set_boxes (map (shift_rect dx dy) (boxptr reg)) (reg\<lparr>extents := shift_rect dx dy ?e\<rparr>)"
    using range by (simp add: rtgui_region_translate_def Let_def all_in_iff)
  have s: "shift_rect dx dy r = moved_by dx dy r" if "r \<in> set (rects reg)" for r
    using shift_rect_exact [OF cover_subsumes [OF ok that]] region_banded [OF ok] that range by (simp add: moved_by_def banded_def)
  have se: "shift_rect dx dy ?e = moved_by dx dy ?e"
    using shift_rect_exact [of ?e ?e] e range by (simp add: moved_by_def SUBSUMES_def)
  have r: "rects ?t = map (moved_by dx dy) (rects reg)" "extents ?t = moved_by dx dy ?e" "shaped ?t (rects ?t)"
    using ok s by (auto simp: t se region_ok_def shaped_def rects_def boxptr_def set_boxes_def split: rdata.splits)
  have "tight ?e (pix (rects reg))" using ok ne by (simp add: region_ok_def)
  then show ?thesis using r moved_banded [OF region_banded [OF ok], of dx dy] moved_tight [of ?e "rects reg" dx dy]
    by (simp add: region_ok_def pixels_def moved_pix)
qed

lemma translate_moves_pixels_witness: "region_ok (rtgui_region_translate corner 32700 (- 5)) \<and>
    (\<forall>x y. pixels (rtgui_region_translate corner 32700 (- 5)) x y = pixels corner (x - 32700) (y - - 5))"
  using corner_ok by (intro translate_moves_pixels) (simp_all add: corner_def rects_def boxptr_def SHRT_MIN_def SHRT_MAX_def)

text \<open>
  At the edge of the range: a box whose right side is moved exactly onto the smallest coordinate has no pixel
  left, but the test for boxes that are gone takes it for one that is only clipped, and it stays as an empty
  rectangle.
\<close>

lemma translate_keeps_empty_box: "rects (rtgui_region_translate corner (- 32778) 0) = [box (- 32768) 0 (- 32768) 10, box (- 32758) 0 (- 32748) 10, box (- 32768) 10 (- 32748) 20]"
  by code_simp

section \<open>Single rectangles\<close>

definition rtgui_rect_moveto :: "rect \<Rightarrow> int \<Rightarrow> int \<Rightarrow> rect" where
  "rtgui_rect_moveto r x y = shift_rect x y r"

definition rtgui_rect_inflate :: "rect \<Rightarrow> int \<Rightarrow> rect" where
  "rtgui_rect_inflate r d = box (short (rx1 r - d)) (short (ry1 r - d)) (short (rx2 r + d)) (short (ry2 r + d))"

definition rtgui_rect_intersect :: "rect \<Rightarrow> rect \<Rightarrow> rect" where
  "rtgui_rect_intersect src dest = box (if rx1 dest < rx1 src then rx1 src else rx1 dest) (if ry1 dest < ry1 src then ry1 src else ry1 dest)
     (if rx2 dest > rx2 src then rx2 src else rx2 dest) (if ry2 dest > ry2 src then ry2 src else ry2 dest)"

definition rtgui_rect_is_intersect :: "rect \<Rightarrow> rect \<Rightarrow> bool" where
  "rtgui_rect_is_intersect r s \<longleftrightarrow>
     INBOX r (rx1 s) (ry1 s) \<or> INBOX r (rx1 s) (ry2 s) \<or> INBOX r (rx2 s) (ry1 s) \<or> INBOX r (rx2 s) (ry2 s) \<or>
     INBOX s (rx1 r) (ry1 r) \<or> INBOX s (rx1 r) (ry2 r) \<or> INBOX s (rx2 r) (ry1 r) \<or> INBOX s (rx2 r) (ry2 r) \<or>
     CROSS r s \<or> CROSS s r"

text \<open>The alignments as sets of their bits.\<close>

datatype align = CENTER_HORIZONTAL | RIGHT | BOTTOM | CENTER_VERTICAL

definition rtgui_rect_moveto_align :: "rect \<Rightarrow> rect \<Rightarrow> align set \<Rightarrow> rect" where
  "rtgui_rect_moveto_align r to al =
    (let dw = max 0 ((rx2 r - rx1 r) - (rx2 to - rx1 to)); dh = max 0 ((ry2 r - ry1 r) - (ry2 to - ry1 to));
       to = rtgui_rect_moveto to (rx1 r) (ry1 r);
       to = to\<lparr>rx2 := (if dw = 0 then rx2 r else rx2 to), ry2 := (if dh = 0 then ry2 r else ry2 to)\<rparr>;
       to = (if RIGHT \<in> al then to\<lparr>rx1 := short (rx1 to + dw), rx2 := short (rx2 to + dw)\<rparr> else to);
       to = (if BOTTOM \<in> al then to\<lparr>ry1 := short (ry1 to + dh), ry2 := short (ry2 to + dh)\<rparr> else to);
       to = (if CENTER_HORIZONTAL \<in> al then to\<lparr>rx1 := short (rx1 to + drop_bit 1 dw), rx2 := short (rx2 to + drop_bit 1 dw)\<rparr> else to)
     in if CENTER_VERTICAL \<in> al then to\<lparr>ry1 := short (ry1 to + drop_bit 1 dh), ry2 := short (ry2 to + drop_bit 1 dh)\<rparr> else to)"

lemma rect_intersect_pixels: "INBOX (rtgui_rect_intersect r s) x y \<longleftrightarrow> INBOX r x y \<and> INBOX s x y"
  by (auto simp: rtgui_rect_intersect_def INBOX_def)

lemma overlap_cross: "rx1 r < rx2 r \<Longrightarrow> ry1 r < ry2 r \<Longrightarrow> rx1 s < rx2 s \<Longrightarrow> ry1 s < ry2 s \<Longrightarrow> EXTENTCHECK r s \<Longrightarrow>
    rx1 r \<le> rx1 s \<Longrightarrow> ry1 s < ry1 r \<Longrightarrow> INBOX r (rx1 s) (ry2 s) \<or> INBOX s (rx2 r) (ry1 r) \<or> CROSS r s"
  by (cases "ry2 s < ry2 r"; cases "rx2 r < rx2 s") (simp_all add: EXTENTCHECK_def INBOX_def CROSS_def)

lemma is_intersect_complete: "rx1 r < rx2 r \<Longrightarrow> ry1 r < ry2 r \<Longrightarrow> rx1 s < rx2 s \<Longrightarrow> ry1 s < ry2 s \<Longrightarrow> EXTENTCHECK r s \<Longrightarrow> rtgui_rect_is_intersect r s"
proof -
  assume a: "rx1 r < rx2 r" "ry1 r < ry2 r" "rx1 s < rx2 s" "ry1 s < ry2 s" and e: "EXTENTCHECK r s"
  have e': "EXTENTCHECK s r" using e by (auto simp: EXTENTCHECK_def)
  consider "rx1 r \<le> rx1 s" "ry1 r \<le> ry1 s" | "rx1 s \<le> rx1 r" "ry1 s \<le> ry1 r" | "rx1 r \<le> rx1 s" "ry1 s < ry1 r" | "rx1 s \<le> rx1 r" "ry1 r < ry1 s"
    by linarith
  then show ?thesis
  proof cases
    case 1
    then have "INBOX r (rx1 s) (ry1 s)" using e by (simp add: EXTENTCHECK_def INBOX_def)
    then show ?thesis by (simp add: rtgui_rect_is_intersect_def)
  next
    case 2
    then have "INBOX s (rx1 r) (ry1 r)" using e by (simp add: EXTENTCHECK_def INBOX_def)
    then show ?thesis by (simp add: rtgui_rect_is_intersect_def)
  next
    case 3
    show ?thesis using overlap_cross [OF a e 3] unfolding rtgui_rect_is_intersect_def by blast
  next
    case 4
    show ?thesis using overlap_cross [OF a(3,4,1,2) e' 4] unfolding rtgui_rect_is_intersect_def by blast
  qed
qed

text \<open>Rectangles that only touch are said to intersect as well.\<close>

lemma is_intersect_touching: "rtgui_rect_is_intersect (box 0 0 10 10) (box 10 0 20 10) \<and> \<not> EXTENTCHECK (box 0 0 10 10) (box 10 0 20 10)"
  by (simp add: rtgui_rect_is_intersect_def INBOX_def EXTENTCHECK_def)

end
