(* ===== verification/Finsh_Vm.thy ===== *)
theory Finsh_Vm
  imports Base "HOL-Library.Signed_Division"
begin

text \<open>
  The virtual machine of the command shell (\<open>RTT/components/finsh/finsh_vm.c\<close> and
  \<open>finsh_ops.c\<close>): 48 byte-coded operations on a stack of 64 unions, run from the start of a
  text segment of 128 bytes until the program counter leaves it. Memory outside the machine is a
  partial map from addresses to bytes; the routines that a command calls are a parameter.
\<close>

unbundle bit_operations_syntax

section \<open>Values of the three widths\<close>

text \<open>
  A stack slot is a union of \<open>char\<close>, \<open>short\<close> and \<open>long\<close> on a little-endian machine, so that a
  store of a narrow member leaves the other bytes of the slot as they were. The project is
  built with plain \<open>char\<close> unsigned.
\<close>

datatype width = Byte | Word | Dword

definition FINSH_STACK_MAX :: nat where "FINSH_STACK_MAX = 64"
definition FINSH_TEXT_MAX :: nat where "FINSH_TEXT_MAX = 128"

fun member :: "width \<Rightarrow> u32 \<Rightarrow> int" where
  "member Byte u = uint (ucast u :: u8)"
| "member Word u = sint (ucast u :: u16)"
| "member Dword u = sint u"

fun set_member :: "width \<Rightarrow> int \<Rightarrow> u32 \<Rightarrow> u32" where
  "set_member Byte v u = push_bit 8 (drop_bit 8 u) OR ucast (word_of_int v :: u8)"
| "set_member Word v u = push_bit 16 (drop_bit 16 u) OR ucast (word_of_int v :: u16)"
| "set_member Dword v u = word_of_int v"

text \<open>What is left of an integer stored in a member.\<close>

definition trunc :: "width \<Rightarrow> int \<Rightarrow> int" where
  "trunc w v = member w (set_member w v 0)"

text \<open>
  The C operators on promoted operands. A division by zero and a shift by a negative count or by
  32 and more are undefined; a signed overflow wraps, as on the target.
\<close>

datatype binop = Add | Sub | Div | Mod | Mul | And | Or | Xor | Shl | Shr

fun c_op :: "binop \<Rightarrow> int \<Rightarrow> int \<Rightarrow> int option" where
  "c_op Add a b = Some (a + b)"
| "c_op Sub a b = Some (a - b)"
| "c_op Div a b = (if b = 0 then None else Some (a sdiv b))"
| "c_op Mod a b = (if b = 0 then None else Some (a smod b))"
| "c_op Mul a b = Some (a * b)"
| "c_op And a b = Some (a AND b)"
| "c_op Or a b = Some (a OR b)"
| "c_op Xor a b = Some (a XOR b)"
| "c_op Shl a b = (if 0 \<le> b \<and> b < 32 then Some (push_bit (nat b) a) else None)"
| "c_op Shr a b = (if 0 \<le> b \<and> b < 32 then Some (drop_bit (nat b) a) else None)"

section \<open>Memory\<close>

type_synonym memory = "u32 \<rightharpoonup> u8"

fun load :: "width \<Rightarrow> memory \<Rightarrow> u32 \<Rightarrow> int option" where
  "load Byte m a = map_option uint (m a)"
| "load Word m a = (case (m a, m (a + 1)) of
      (Some x, Some y) \<Rightarrow> Some (sint (ucast x OR push_bit 8 (ucast y) :: u16))
    | _ \<Rightarrow> None)"
| "load Dword m a = (case (m a, m (a + 1), m (a + 2), m (a + 3)) of
      (Some x, Some y, Some z, Some t) \<Rightarrow>
        Some (sint (ucast x OR push_bit 8 (ucast y) OR push_bit 16 (ucast z) OR push_bit 24 (ucast t) :: u32))
    | _ \<Rightarrow> None)"

definition put_byte :: "memory \<Rightarrow> u32 \<Rightarrow> int \<Rightarrow> memory option" where
  "put_byte m a v = (if m a = None then None else Some (m(a \<mapsto> word_of_int v)))"

fun store :: "width \<Rightarrow> memory \<Rightarrow> u32 \<Rightarrow> int \<Rightarrow> memory option" where
  "store Byte m a v = put_byte m a v"
| "store Word m a v = Option.bind (put_byte m a v) (\<lambda>m. put_byte m (a + 1) (drop_bit 8 v))"
| "store Dword m a v = Option.bind (put_byte m a v) (\<lambda>m. Option.bind (put_byte m (a + 1) (drop_bit 8 v))
     (\<lambda>m. Option.bind (put_byte m (a + 2) (drop_bit 16 v)) (\<lambda>m. put_byte m (a + 3) (drop_bit 24 v))))"

section \<open>The machine\<close>

record vm =
  text_segment :: "u8 list"
  finsh_pc :: nat
  finsh_sp :: nat
  finsh_vm_stack :: "u32 list"
  mem :: memory

text \<open>A routine called by its address on its arguments returns a value and the memory it leaves.\<close>

type_synonym routines = "u32 \<Rightarrow> u32 list \<Rightarrow> memory \<Rightarrow> (u32 \<times> memory) option"

text \<open>\<open>slot k\<close> is \<open>finsh_sp - k\<close>; \<open>upd_slot\<close> assigns one member of it.\<close>

definition slot :: "nat \<Rightarrow> vm \<Rightarrow> u32 res" where
  "slot k s = (if k \<le> finsh_sp s \<and> finsh_sp s - k < FINSH_STACK_MAX
     then Ok (finsh_vm_stack s ! (finsh_sp s - k)) else Fault)"

definition upd_slot :: "nat \<Rightarrow> width \<Rightarrow> int \<Rightarrow> vm \<Rightarrow> vm res" where
  "upd_slot k w v s = (if k \<le> finsh_sp s \<and> finsh_sp s - k < FINSH_STACK_MAX
     then Ok (s\<lparr>finsh_vm_stack := (finsh_vm_stack s)
                [finsh_sp s - k := set_member w v (finsh_vm_stack s ! (finsh_sp s - k))]\<rparr>)
     else Fault)"

definition move_sp :: "int \<Rightarrow> vm \<Rightarrow> vm res" where
  "move_sp d s = (if 0 \<le> int (finsh_sp s) + d \<and> int (finsh_sp s) + d \<le> int FINSH_STACK_MAX
     then Ok (s\<lparr>finsh_sp := nat (int (finsh_sp s) + d)\<rparr>) else Fault)"

definition of_option :: "'a option \<Rightarrow> 'a res" where
  "of_option x = (case x of Some y \<Rightarrow> Ok y | None \<Rightarrow> Fault)"

text \<open>The immediate operand at the program counter, read byte by byte from the text segment.\<close>

definition fetch :: "width \<Rightarrow> vm \<Rightarrow> int res" where
  "fetch w s = (let t = text_segment s; p = finsh_pc s in
    case w of
      Byte \<Rightarrow> if p < FINSH_TEXT_MAX then Ok (uint (t ! p)) else Fault
    | Word \<Rightarrow> if p + 1 < FINSH_TEXT_MAX then Ok (uint (t ! p) OR push_bit 8 (uint (t ! (p + 1)))) else Fault
    | Dword \<Rightarrow> if p + 3 < FINSH_TEXT_MAX
        then Ok (uint (t ! p) OR push_bit 8 (uint (t ! (p + 1))) OR push_bit 16 (uint (t ! (p + 2)))
                 OR push_bit 24 (uint (t ! (p + 3))))
        else Fault)"

fun width_bytes :: "width \<Rightarrow> nat" where
  "width_bytes Byte = 1" | "width_bytes Word = 2" | "width_bytes Dword = 4"

definition skip_pc :: "nat \<Rightarrow> vm \<Rightarrow> vm" where
  "skip_pc n s = s\<lparr>finsh_pc := finsh_pc s + n\<rparr>"

section \<open>The operations\<close>

definition OP_no_op :: "vm \<Rightarrow> vm res" where
  "OP_no_op s = Ok s"

definition OP_BIN :: "binop \<Rightarrow> width \<Rightarrow> vm \<Rightarrow> vm res" where
  "OP_BIN b w s =
    rbind (slot 2 s) (\<lambda>x. rbind (slot 1 s) (\<lambda>y. rbind (of_option (c_op b (member w x) (member w y)))
      (\<lambda>v. rbind (upd_slot 2 w v s) (move_sp (- 1)))))"

definition OP_bw :: "width \<Rightarrow> vm \<Rightarrow> vm res" where
  "OP_bw w s = rbind (slot 1 s) (\<lambda>x. upd_slot 1 w (NOT (member w x)) s)"

definition OP_ld :: "width \<Rightarrow> vm \<Rightarrow> vm res" where
  "OP_ld w s = rbind (fetch w s) (\<lambda>v. rbind (upd_slot 0 w v s) (\<lambda>s. rbind (move_sp 1 s)
      (\<lambda>s. Ok (skip_pc (width_bytes w) s))))"

definition OP_ld_value :: "width \<Rightarrow> vm \<Rightarrow> vm res" where
  "OP_ld_value w s = rbind (fetch Dword s) (\<lambda>a. rbind (of_option (load w (mem s) (word_of_int a)))
     (\<lambda>v. rbind (upd_slot 0 w v s) (\<lambda>s. rbind (move_sp 1 s) (\<lambda>s. Ok (skip_pc 4 s)))))"

definition OP_ld_value_stack :: "width \<Rightarrow> vm \<Rightarrow> vm res" where
  "OP_ld_value_stack w s = rbind (slot 1 s) (\<lambda>a. rbind (of_option (load w (mem s) a))
     (\<lambda>v. upd_slot 1 w v s))"

definition OP_st :: "width \<Rightarrow> vm \<Rightarrow> vm res" where
  "OP_st w s = rbind (slot 2 s) (\<lambda>a. rbind (slot 1 s)
     (\<lambda>x. rbind (of_option (store w (mem s) a (member w x))) (\<lambda>m. move_sp (- 1) (s\<lparr>mem := m\<rparr>))))"

definition OP_pop :: "vm \<Rightarrow> vm res" where
  "OP_pop s = move_sp (- 1) s"

text \<open>
  The arguments are taken from the top of the stack into \<open>parameterv[16]\<close>; the slot below them
  holds the address of the routine and receives its result.
\<close>

fun take_args :: "nat \<Rightarrow> u32 list \<Rightarrow> vm \<Rightarrow> (u32 list \<times> vm) res" where
  "take_args 0 as s = Ok (as, s)"
| "take_args (Suc n) as s = rbind (slot 0 s) (\<lambda>x. rbind (move_sp (- 1) s) (take_args n (x # as)))"

definition OP_call :: "routines \<Rightarrow> vm \<Rightarrow> vm res" where
  "OP_call sys s = rbind (fetch Byte s) (\<lambda>n. let s = skip_pc 1 s in
     if n > 16 then Fault
     else rbind (move_sp (- 1) s) (\<lambda>s. rbind (take_args (nat n) [] s) (\<lambda>(as, s).
       rbind (slot 0 s) (\<lambda>f. rbind (of_option (sys f as (mem s))) (\<lambda>(r, m).
         rbind (upd_slot 0 Dword (sint r) (s\<lparr>mem := m\<rparr>)) (move_sp 1))))))"

definition op_table :: "routines \<Rightarrow> (vm \<Rightarrow> vm res) list" where
  "op_table sys =
    [OP_no_op,
     OP_BIN Add Byte, OP_BIN Add Word, OP_BIN Add Dword,
     OP_BIN Sub Byte, OP_BIN Sub Word, OP_BIN Sub Dword,
     OP_BIN Div Byte, OP_BIN Div Word, OP_BIN Div Dword,
     OP_BIN Mod Byte, OP_BIN Mod Word, OP_BIN Mod Dword,
     OP_BIN Mul Byte, OP_BIN Mul Word, OP_BIN Mul Dword,
     OP_BIN And Byte, OP_BIN And Word, OP_BIN And Dword,
     OP_BIN Or Byte, OP_BIN Or Word, OP_BIN Or Dword,
     OP_BIN Xor Byte, OP_BIN Xor Word, OP_BIN Xor Dword,
     OP_bw Byte, OP_bw Word, OP_bw Dword,
     OP_BIN Shl Byte, OP_BIN Shl Word, OP_BIN Shl Dword,
     OP_BIN Shr Byte, OP_BIN Shr Word, OP_BIN Shr Dword,
     OP_ld Byte, OP_ld Word, OP_ld Dword,
     OP_ld_value Byte, OP_ld_value Word, OP_ld_value Dword,
     OP_st Byte, OP_st Word, OP_st Dword,
     OP_pop, OP_call sys,
     OP_ld_value_stack Byte, OP_ld_value_stack Word, OP_ld_value_stack Dword]"

text \<open>The table ends with a null pointer: code 48 jumps to it, larger codes read past the table.\<close>

definition op_run :: "routines \<Rightarrow> u8 \<Rightarrow> vm \<Rightarrow> vm res" where
  "op_run sys c s = (if unat c < 48 then (op_table sys ! unat c) s else Fault)"

section \<open>Running\<close>

lemma rbind_cong [fundef_cong]:
  "m = m' \<Longrightarrow> (\<And>x. m' = Ok x \<Longrightarrow> f x = g x) \<Longrightarrow> rbind m f = rbind m' g"
  by (cases m') auto

lemma slot_Ok_iff: "slot k s = Ok x \<longleftrightarrow>
    k \<le> finsh_sp s \<and> finsh_sp s - k < FINSH_STACK_MAX \<and> x = finsh_vm_stack s ! (finsh_sp s - k)"
  by (auto simp: slot_def)

lemma upd_slot_pc: "upd_slot k w v s = Ok s' \<Longrightarrow> finsh_pc s' = finsh_pc s"
  by (auto simp: upd_slot_def split: if_splits)

lemma move_sp_pc: "move_sp d s = Ok s' \<Longrightarrow> finsh_pc s' = finsh_pc s"
  by (auto simp: move_sp_def split: if_splits)

lemma skip_pc_pc: "finsh_pc (skip_pc n s) = finsh_pc s + n"
  by (simp add: skip_pc_def)

lemma take_args_pc: "take_args n as s = Ok (as', s') \<Longrightarrow> finsh_pc s' = finsh_pc s"
  by (induction n as s rule: take_args.induct) (auto simp: rbind_Ok_iff dest: move_sp_pc)

lemmas pc_dests = upd_slot_pc move_sp_pc take_args_pc

text \<open>No operation moves the program counter backwards.\<close>

lemma op_pc:
  "OP_no_op s = Ok s' \<Longrightarrow> finsh_pc s \<le> finsh_pc s'"
  "OP_BIN b w s = Ok s' \<Longrightarrow> finsh_pc s \<le> finsh_pc s'"
  "OP_bw w s = Ok s' \<Longrightarrow> finsh_pc s \<le> finsh_pc s'"
  "OP_ld w s = Ok s' \<Longrightarrow> finsh_pc s \<le> finsh_pc s'"
  "OP_ld_value w s = Ok s' \<Longrightarrow> finsh_pc s \<le> finsh_pc s'"
  "OP_ld_value_stack w s = Ok s' \<Longrightarrow> finsh_pc s \<le> finsh_pc s'"
  "OP_st w s = Ok s' \<Longrightarrow> finsh_pc s \<le> finsh_pc s'"
  "OP_pop s = Ok s' \<Longrightarrow> finsh_pc s \<le> finsh_pc s'"
  "OP_call sys s = Ok s' \<Longrightarrow> finsh_pc s \<le> finsh_pc s'"
  unfolding OP_no_op_def OP_BIN_def OP_bw_def OP_ld_def OP_ld_value_def OP_ld_value_stack_def OP_st_def OP_pop_def OP_call_def
  by (auto simp: rbind_Ok_iff Let_def skip_pc_pc split: if_splits prod.splits dest!: pc_dests)

lemma op_table_pc:
  assumes "f \<in> set (op_table sys)" and "f s = Ok s'"
  shows "finsh_pc s \<le> finsh_pc s'"
  using assms unfolding op_table_def by (auto dest: op_pc)

lemma length_op_table [simp]: "length (op_table sys) = 48"
  by (simp add: op_table_def)

lemma op_run_pc: "op_run sys c s = Ok s' \<Longrightarrow> finsh_pc s \<le> finsh_pc s'"
  unfolding op_run_def by (auto split: if_splits intro: op_table_pc [OF nth_mem])

text \<open>
  \<open>while (finsh_pc is inside the text segment)\<close>: the rest of the segment is zero, and zero is
  the empty operation, so the loop ends behind the last byte.
\<close>

function vm_loop :: "routines \<Rightarrow> vm \<Rightarrow> vm res" where
  "vm_loop sys s = (if finsh_pc s < FINSH_TEXT_MAX
     then rbind (op_run sys (text_segment s ! finsh_pc s) (skip_pc 1 s)) (vm_loop sys)
     else Ok s)"
  by auto

termination
proof (relation "measure (\<lambda>(sys, s). FINSH_TEXT_MAX - finsh_pc s)", goal_cases)
  case 1
  then show ?case by simp
next
  case (2 sys s s')
  then have "finsh_pc s + 1 \<le> finsh_pc s'"
    by (auto dest: op_run_pc simp: skip_pc_pc)
  with 2 show ?case by simp
qed

declare vm_loop.simps [simp del]

definition finsh_vm_run :: "routines \<Rightarrow> vm \<Rightarrow> vm res" where
  "finsh_vm_run sys s = vm_loop sys (s\<lparr>finsh_sp := 0, finsh_pc := 0\<rparr>)"

definition finsh_stack_bottom :: "vm \<Rightarrow> u32" where
  "finsh_stack_bottom s = finsh_vm_stack s ! 0"

text \<open>One instruction of the loop.\<close>

definition vm_step :: "routines \<Rightarrow> vm \<Rightarrow> vm res" where
  "vm_step sys s = (if finsh_pc s < FINSH_TEXT_MAX
     then op_run sys (text_segment s ! finsh_pc s) (skip_pc 1 s) else Ok s)"

inductive vm_steps :: "routines \<Rightarrow> vm \<Rightarrow> vm \<Rightarrow> bool" for sys where
  refl: "vm_steps sys s s"
| step: "finsh_pc s < FINSH_TEXT_MAX \<Longrightarrow> vm_step sys s = Ok s1 \<Longrightarrow> vm_steps sys s1 s2 \<Longrightarrow> vm_steps sys s s2"

lemma vm_steps_loop: "vm_steps sys s s' \<Longrightarrow> vm_loop sys s = vm_loop sys s'"
proof (induction rule: vm_steps.induct)
  case (refl s)
  then show ?case ..
next
  case (step s s1 s2)
  then show ?case by (subst vm_loop.simps) (simp add: vm_step_def)
qed

lemma vm_steps_trans: "vm_steps sys s s1 \<Longrightarrow> vm_steps sys s1 s2 \<Longrightarrow> vm_steps sys s s2"
  by (induction rule: vm_steps.induct) (auto intro: vm_steps.step)

lemma vm_steps_one: "finsh_pc s < FINSH_TEXT_MAX \<Longrightarrow> vm_step sys s = Ok s' \<Longrightarrow> vm_steps sys s s'"
  by (rule vm_steps.step [OF _ _ vm_steps.refl])

text \<open>The zeros behind the code are run through.\<close>

lemma vm_tail:
  assumes "\<forall>i. finsh_pc s \<le> i \<and> i < FINSH_TEXT_MAX \<longrightarrow> text_segment s ! i = 0" and "finsh_pc s \<le> FINSH_TEXT_MAX"
  shows "vm_loop sys s = Ok (s\<lparr>finsh_pc := FINSH_TEXT_MAX\<rparr>)"
  using assms
proof (induction "FINSH_TEXT_MAX - finsh_pc s" arbitrary: s)
  case 0
  then have "finsh_pc s = FINSH_TEXT_MAX" by simp
  then show ?case by (subst vm_loop.simps) simp
next
  case (Suc n)
  then have lt: "finsh_pc s < FINSH_TEXT_MAX" by simp
  then have z: "text_segment s ! finsh_pc s = 0" using Suc.prems by simp
  have "vm_loop sys s = vm_loop sys (skip_pc 1 s)"
    using lt z by (subst vm_loop.simps) (simp add: op_run_def op_table_def OP_no_op_def)
  also have "\<dots> = Ok ((skip_pc 1 s)\<lparr>finsh_pc := FINSH_TEXT_MAX\<rparr>)"
    using Suc.hyps(2) Suc.prems lt by (intro Suc.hyps(1)) (auto simp: skip_pc_def)
  finally show ?case by (simp add: skip_pc_def)
qed

section \<open>Members and memory\<close>

text \<open>\<open>FINSH_SET32\<close>, which lays a 32-bit value into the text segment.\<close>

definition code_dword :: "u32 \<Rightarrow> u8 list" where
  "code_dword v = [ucast v, ucast (drop_bit 8 v), ucast (drop_bit 16 v), ucast (drop_bit 24 v)]"

lemma ucast_low: "(ucast (push_bit 8 (drop_bit 8 u) OR ucast (b :: u8) :: u32) :: u8) = b"
  by (rule bit_word_eqI) (auto simp: bit_simps)

lemma ucast_low16: "(ucast (push_bit 16 (drop_bit 16 u) OR ucast (b :: u16) :: u32) :: u16) = b"
  by (rule bit_word_eqI) (auto simp: bit_simps)

lemma down_up [simp]: "(ucast (ucast (b :: u8) :: u32) :: u8) = b" "(ucast (ucast (c :: u16) :: u32) :: u16) = c"
  by ((rule bit_word_eqI, simp add: bit_simps)+)

lemma four_bytes: "n < 8 \<or> 8 \<le> n \<and> n < 16 \<or> 16 \<le> n \<and> n < 24 \<or> 24 \<le> n \<and> n < 32 \<or> 32 \<le> n" for n :: nat
  by arith

lemma dword_bytes: "uint (ucast v :: u8) OR push_bit 8 (uint (ucast (drop_bit 8 v) :: u8)) OR push_bit 16 (uint (ucast (drop_bit 16 v) :: u8))
                 OR push_bit 24 (uint (ucast (drop_bit 24 v):: u8)) = uint (v :: u32)"
proof (rule bit_eqI)
  fix n
  show "bit (uint (ucast v :: u8) OR push_bit 8 (uint (ucast (drop_bit 8 v) :: u8)) OR push_bit 16 (uint (ucast (drop_bit 16 v) :: u8))
                 OR push_bit 24 (uint (ucast (drop_bit 24 v):: u8))) n = bit (uint v) n"
    using four_bytes [of n] bit_imp_le_length [of v n]
    by (auto simp add: bit_simps less_diff_conv2)
qed

lemma member_set: "member w (set_member w v u) = trunc w v"
  by (cases w) (simp_all add: trunc_def ucast_low ucast_low16)

lemma trunc_member: "trunc w (member w u) = member w u"
  by (cases w) (simp_all add: trunc_def)

lemma load_trunc: "load w m a = Some v \<Longrightarrow> trunc w v = v"
  by (cases w) (auto simp: trunc_def split: option.splits)

lemma h8: "(ucast (word_of_int v :: u8) OR push_bit 8 (ucast (word_of_int (drop_bit 8 v) :: u8)) :: u16) = word_of_int v"
  by (rule bit_word_eqI) (auto simp: bit_simps)

lemma h32: "(ucast (word_of_int v :: u8) OR push_bit 8 (ucast (word_of_int (drop_bit 8 v) :: u8)) 
  OR push_bit 16 (ucast (word_of_int (drop_bit 16 v) :: u8)) OR push_bit 24 (ucast (word_of_int (drop_bit 24 v) :: u8)) :: u32) = word_of_int v"
proof (rule bit_word_eqI)
  fix n :: nat
  show "bit (ucast (word_of_int v :: u8) OR push_bit 8 (ucast (word_of_int (drop_bit 8 v) :: u8)) 
  OR push_bit 16 (ucast (word_of_int (drop_bit 16 v) :: u8)) OR push_bit 24 (ucast (word_of_int (drop_bit 24 v) :: u8)) :: u32) n = bit (word_of_int v :: u32) n"
      using four_bytes [of n] by (auto simp add: bit_simps less_diff_conv2)
qed

lemma store_load: "store w m a v = Some m' \<Longrightarrow> load w m' a = Some (trunc w v)"
  by (cases w) (auto simp: trunc_def put_byte_def h8 h32 split: if_splits bind_splits)

section \<open>Code placed in the text segment\<close>

text \<open>
  A triple \<open>triple sys c k m Ps m' Qs\<close> says what a piece of code does wherever it stands in the
  text segment: from a stack whose topmost slots satisfy \<open>Ps\<close> over memory \<open>m\<close> it runs through,
  replaces them by slots that satisfy \<open>Qs\<close>, leaves memory \<open>m'\<close> and every slot below unchanged,
  and never uses more than \<open>k\<close> slots above them.
\<close>

definition code_at :: "u8 list \<Rightarrow> vm \<Rightarrow> bool" where
  "code_at c s \<longleftrightarrow> finsh_pc s + length c \<le> FINSH_TEXT_MAX \<and>
    length (text_segment s) = FINSH_TEXT_MAX \<and> (\<forall>i < length c. text_segment s ! (finsh_pc s + i) = c ! i)"

definition tops :: "nat \<Rightarrow> (u32 \<Rightarrow> bool) list \<Rightarrow> vm \<Rightarrow> bool" where
  "tops n Ps s \<longleftrightarrow> length (finsh_vm_stack s) = FINSH_STACK_MAX \<and> finsh_sp s = n + length Ps \<and>
    finsh_sp s \<le> FINSH_STACK_MAX \<and> (\<forall>i < length Ps. (Ps ! i) (finsh_vm_stack s ! (n + i)))"

definition keeps :: "nat \<Rightarrow> nat \<Rightarrow> vm \<Rightarrow> vm \<Rightarrow> bool" where
  "keeps n l s s' \<longleftrightarrow> text_segment s' = text_segment s \<and> finsh_pc s' = finsh_pc s + l \<and>
    (\<forall>i < n. finsh_vm_stack s' ! i = finsh_vm_stack s ! i)"

definition triple where
  "triple sys c k m Ps m' Qs \<longleftrightarrow> (\<forall>s n. code_at c s \<longrightarrow> mem s = m \<longrightarrow> tops n Ps s \<longrightarrow>
     n + k \<le> FINSH_STACK_MAX \<longrightarrow>
     (\<exists>s'. vm_steps sys s s' \<and> mem s' = m' \<and> tops n Qs s' \<and> keeps n (length c) s s'))"

lemma tripleI:
  assumes "\<And>s n. code_at c s \<Longrightarrow> mem s = m \<Longrightarrow> tops n Ps s \<Longrightarrow> n + k \<le> FINSH_STACK_MAX \<Longrightarrow>
     \<exists>s'. vm_steps sys s s' \<and> mem s' = m' \<and> tops n Qs s' \<and> keeps n (length c) s s'"
  shows "triple sys c k m Ps m' Qs"
  using assms unfolding triple_def by blast

lemma tripleD:
  assumes "triple sys c k m Ps m' Qs" and "code_at c s" and "mem s = m" and "tops n Ps s"
    and "n + k \<le> FINSH_STACK_MAX"
  obtains s' where "vm_steps sys s s'" and "mem s' = m'" and "tops n Qs s'" and "keeps n (length c) s s'"
  using assms unfolding triple_def by blast

lemma code_at_append:
  "code_at (c @ d) s \<Longrightarrow> code_at c s"
  "code_at (c @ d) s \<Longrightarrow> keeps n (length c) s s' \<Longrightarrow> code_at d s'"
proof -
  assume a: "code_at (c @ d) s"
  have "i < length c \<Longrightarrow> text_segment s ! (finsh_pc s + i) = (c @ d) ! i"
    and e: "j < length d \<Longrightarrow> text_segment s ! (finsh_pc s + (length c + j)) = (c @ d) ! (length c + j)" for i j
    using a by (simp_all add: code_at_def)
  then show "code_at c s"
    using a by (simp add: code_at_def nth_append)
  assume "keeps n (length c) s s'"
  with a e show "code_at d s'"
    by (simp add: code_at_def keeps_def add.assoc)
qed

lemma triple_nil: "triple sys [] k m Ps m Ps"
  by (intro tripleI exI conjI) (auto simp: keeps_def intro: vm_steps.refl)

lemma triple_seq:
  assumes "triple sys c k m Ps m1 Qs" and "triple sys d k m1 Qs m2 Rs"
  shows "triple sys (c @ d) k m Ps m2 Rs"
proof (rule tripleI)
  fix s n
  assume a: "code_at (c @ d) s" "mem s = m" "tops n Ps s" "n + k \<le> FINSH_STACK_MAX"
  obtain s1 where 1: "vm_steps sys s s1" "mem s1 = m1" "tops n Qs s1" "keeps n (length c) s s1"
    using tripleD [OF assms(1) code_at_append(1) [OF a(1)] a(2-4)] by blast
  obtain s2 where "vm_steps sys s1 s2" "mem s2 = m2" "tops n Rs s2" "keeps n (length d) s1 s2"
    using tripleD [OF assms(2) code_at_append(2) [OF a(1) 1(4)] 1(2,3) a(4)] by blast
  with 1 show "\<exists>s'. vm_steps sys s s' \<and> mem s' = m2 \<and> tops n Rs s' \<and> keeps n (length (c @ d)) s s'"
    by (auto simp: keeps_def intro: vm_steps_trans)
qed

lemma triple_mono:
  assumes "triple sys c k m Ps m' Qs" and "k \<le> k'"
  shows "triple sys c k' m Ps m' Qs"
proof (rule tripleI)
  fix s n
  assume "code_at c s" "mem s = m" "tops n Ps s" "n + k' \<le> FINSH_STACK_MAX"
  with assms(2) show "\<exists>s'. vm_steps sys s s' \<and> mem s' = m' \<and> tops n Qs s' \<and> keeps n (length c) s s'"
    by (auto elim!: tripleD [OF assms(1), of s n])
qed

lemma triple_weaken:
  assumes "triple sys c k m Ps m' [P]" and "\<And>u. P u \<Longrightarrow> Q u"
  shows "triple sys c k m Ps m' [Q]"
proof (rule tripleI)
  fix s n
  assume "code_at c s" "mem s = m" "tops n Ps s" "n + k \<le> FINSH_STACK_MAX"
  then obtain s' where "vm_steps sys s s'" "mem s' = m'" "tops n [P] s'" "keeps n (length c) s s'"
    using tripleD [OF assms(1)] by blast
  then show "\<exists>s'. vm_steps sys s s' \<and> mem s' = m' \<and> tops n [Q] s' \<and> keeps n (length c) s s'"
    using assms(2) by (intro exI [of _ s']) (simp add: tops_def)
qed

lemma tops_append:
  "tops n (Fs @ Ps) s \<longleftrightarrow> tops (n + length Fs) Ps s \<and> (\<forall>i < length Fs. (Fs ! i) (finsh_vm_stack s ! (n + i)))"
proof -
  have "(\<forall>i < length Fs + length Ps. ((Fs @ Ps) ! i) (st ! (n + i))) \<longleftrightarrow>
      (\<forall>i < length Ps. (Ps ! i) (st ! (n + length Fs + i))) \<and> (\<forall>i < length Fs. (Fs ! i) (st ! (n + i)))" for st :: "u32 list"
  proof (intro iffI conjI allI impI)
    fix i assume a: "\<forall>i < length Fs + length Ps. ((Fs @ Ps) ! i) (st ! (n + i))"
    show "(Ps ! i) (st ! (n + length Fs + i))" if "i < length Ps"
      using a [rule_format, of "length Fs + i"] that by (simp add: add.assoc)
    show "(Fs ! i) (st ! (n + i))" if "i < length Fs"
      using a [rule_format, of i] that by (simp add: nth_append)
  next
    fix i assume a: "(\<forall>i < length Ps. (Ps ! i) (st ! (n + length Fs + i))) \<and> (\<forall>i < length Fs. (Fs ! i) (st ! (n + i)))"
      and i: "i < length Fs + length Ps"
    show "((Fs @ Ps) ! i) (st ! (n + i))"
    proof (cases "i < length Fs")
      case False
      then obtain j where "i = length Fs + j" using le_Suc_ex linorder_not_less by blast
      with a i show ?thesis by (simp add: add.assoc)
    qed (use a in \<open>simp add: nth_append\<close>)
  qed
  then show ?thesis
    unfolding tops_def by (auto simp: add.assoc)
qed

lemma triple_frame:
  assumes "triple sys c k m Ps m' Qs"
  shows "triple sys c (length Fs + k) m (Fs @ Ps) m' (Fs @ Qs)"
proof (rule tripleI)
  fix s n
  assume a: "code_at c s" "mem s = m" "tops n (Fs @ Ps) s" "n + (length Fs + k) \<le> FINSH_STACK_MAX"
  then have t: "tops (n + length Fs) Ps s" "\<forall>i < length Fs. (Fs ! i) (finsh_vm_stack s ! (n + i))"
    by (simp_all add: tops_append)
  obtain s' where s': "vm_steps sys s s'" "mem s' = m'" "tops (n + length Fs) Qs s'" "keeps (n + length Fs) (length c) s s'"
    using a(4) by (auto intro: tripleD [OF assms a(1,2) t(1)])
  with t(2) have "tops n (Fs @ Qs) s'" "keeps n (length c) s s'"
    by (simp_all add: tops_append keeps_def)
  with s' show "\<exists>s'. vm_steps sys s s' \<and> mem s' = m' \<and> tops n (Fs @ Qs) s' \<and> keeps n (length c) s s'"
    by blast
qed

text \<open>What one instruction does, for the codes the compiler emits.\<close>

abbreviation slot_is :: "width \<Rightarrow> int \<Rightarrow> u32 \<Rightarrow> bool" where
  "slot_is w v u \<equiv> member w u = v"

lemma tops_sp: "tops n Ps s \<Longrightarrow> finsh_sp s = n + length Ps \<and> length (finsh_vm_stack s) = FINSH_STACK_MAX"
  unfolding tops_def by simp

lemma code_at_fetch:
  "code_at (c # d) s \<Longrightarrow> finsh_pc s < FINSH_TEXT_MAX"
  "code_at (c # d) s \<Longrightarrow> text_segment s ! finsh_pc s = c"
  unfolding code_at_def by force+

lemma code_at_tail: "code_at (c # d) s \<Longrightarrow> code_at d (skip_pc 1 s)"
  using code_at_append(2) [of "[c]" d s 0 "skip_pc 1 s"] by (simp add: keeps_def skip_pc_def)

text \<open>A triple for one instruction follows from what its operation does behind the code byte.\<close>

lemma triple_op:
  assumes "unat c < 48"
    and "\<And>s n. code_at d s \<Longrightarrow> mem s = m \<Longrightarrow> tops n Ps s \<Longrightarrow> n + k \<le> FINSH_STACK_MAX \<Longrightarrow>
       \<exists>s'. (op_table sys ! unat c) s = Ok s' \<and> mem s' = m' \<and> tops n Qs s' \<and> keeps n (length d) s s'"
  shows "triple sys (c # d) k m Ps m' Qs"
proof (rule tripleI)
  fix s n
  assume a: "code_at (c # d) s" "mem s = m" "tops n Ps s" "n + k \<le> FINSH_STACK_MAX"
  have "mem (skip_pc 1 s) = m" "tops n Ps (skip_pc 1 s)"
    using a by (simp_all add: skip_pc_def tops_def)
  then obtain s' where s': "(op_table sys ! unat c) (skip_pc 1 s) = Ok s'" "mem s' = m'" "tops n Qs s'"
      "keeps n (length d) (skip_pc 1 s) s'"
    using assms(2) [OF code_at_tail [OF a(1)]] a(4) by blast
  then have "vm_steps sys s s'"
    using code_at_fetch [OF a(1)] assms(1) by (intro vm_steps_one) (simp_all add: vm_step_def op_run_def)
  with s' show "\<exists>s'. vm_steps sys s s' \<and> mem s' = m' \<and> tops n Qs s' \<and> keeps n (length (c # d)) s s'"
    by (auto simp: keeps_def skip_pc_def)
qed

section \<open>Operation codes\<close>

text \<open>The codes of \<open>finsh_ops.h\<close>: three consecutive ones for the widths of an operation.\<close>

fun width_index :: "width \<Rightarrow> u8" where
  "width_index Byte = 0" | "width_index Word = 1" | "width_index Dword = 2"

fun FINSH_OP_BIN :: "binop \<Rightarrow> width \<Rightarrow> u8" where
  "FINSH_OP_BIN Add w = 0x01 + width_index w"
| "FINSH_OP_BIN Sub w = 0x04 + width_index w"
| "FINSH_OP_BIN Div w = 0x07 + width_index w"
| "FINSH_OP_BIN Mod w = 0x0A + width_index w"
| "FINSH_OP_BIN Mul w = 0x0D + width_index w"
| "FINSH_OP_BIN And w = 0x10 + width_index w"
| "FINSH_OP_BIN Or w = 0x13 + width_index w"
| "FINSH_OP_BIN Xor w = 0x16 + width_index w"
| "FINSH_OP_BIN Shl w = 0x1C + width_index w"
| "FINSH_OP_BIN Shr w = 0x1F + width_index w"

definition FINSH_OP_BITWISE :: "width \<Rightarrow> u8" where "FINSH_OP_BITWISE w = 0x19 + width_index w"
definition FINSH_OP_LD :: "width \<Rightarrow> u8" where "FINSH_OP_LD w = 0x22 + width_index w"
definition FINSH_OP_LD_VALUE :: "width \<Rightarrow> u8" where "FINSH_OP_LD_VALUE w = 0x25 + width_index w"
definition FINSH_OP_ST :: "width \<Rightarrow> u8" where "FINSH_OP_ST w = 0x28 + width_index w"
definition FINSH_OP_POP :: u8 where "FINSH_OP_POP = 0x2B"
definition FINSH_OP_SYSCALL :: u8 where "FINSH_OP_SYSCALL = 0x2C"
definition FINSH_OP_LD_VALUE_STACK :: "width \<Rightarrow> u8" where "FINSH_OP_LD_VALUE_STACK w = 0x2D + width_index w"

lemmas op_codes = FINSH_OP_BITWISE_def FINSH_OP_LD_def FINSH_OP_LD_VALUE_def FINSH_OP_ST_def
  FINSH_OP_POP_def FINSH_OP_SYSCALL_def FINSH_OP_LD_VALUE_STACK_def

text \<open>The table of the machine agrees with the codes the compiler emits.\<close>

lemma op_code_range [simp]:
  "unat (FINSH_OP_BIN b w) < 48" "unat (FINSH_OP_BITWISE w) < 48" "unat (FINSH_OP_LD w) < 48"
  "unat (FINSH_OP_LD_VALUE w) < 48" "unat (FINSH_OP_ST w) < 48" "unat FINSH_OP_POP < 48"
  "unat FINSH_OP_SYSCALL < 48" "unat (FINSH_OP_LD_VALUE_STACK w) < 48"
  by (cases w; cases b; simp add: op_codes)+

lemma op_table_entry [simp]:
  "op_table sys ! unat (FINSH_OP_BIN b w) = OP_BIN b w"
  "op_table sys ! unat (FINSH_OP_BITWISE w) = OP_bw w"
  "op_table sys ! unat (FINSH_OP_LD w) = OP_ld w"
  "op_table sys ! unat (FINSH_OP_LD_VALUE w) = OP_ld_value w"
  "op_table sys ! unat (FINSH_OP_ST w) = OP_st w"
  "op_table sys ! unat FINSH_OP_POP = OP_pop"
  "op_table sys ! unat FINSH_OP_SYSCALL = OP_call sys"
  "op_table sys ! unat (FINSH_OP_LD_VALUE_STACK w) = OP_ld_value_stack w"
  by (cases w; cases b; simp add: op_codes op_table_def)+

section \<open>Instruction triples\<close>

lemma fetch_dword: "code_at (code_dword v) s \<Longrightarrow> fetch Dword s = Ok (uint v)"
proof -
  assume a: "code_at (code_dword v) s"
  have i: "text_segment s ! (finsh_pc s + i) = code_dword v ! i" if "i < 4" for i
    using a that by (simp add: code_at_def code_dword_def)
  show ?thesis
    using a i [of 0] i [of 1] i [of 2] i [of 3] dword_bytes [of v]
    by (simp add: fetch_def code_at_def code_dword_def)
qed

lemma fetch_byte: "code_at [c] s \<Longrightarrow> fetch Byte s = Ok (uint c)"
  by (simp add: fetch_def code_at_def)

lemma fetch_word: "code_at [c, d] s \<Longrightarrow> fetch Word s = Ok (uint c OR push_bit 8 (uint d))"
  by (auto simp: fetch_def code_at_def All_less_Suc numeral_2_eq_2)

lemma triple_ld:
  assumes "\<And>s. code_at d s \<Longrightarrow> fetch w s = Ok v" and "length d = width_bytes w"
    and "\<And>u. P (set_member w v u)"
  shows "triple sys (FINSH_OP_LD w # d) 1 m [] m [P]"
proof (rule triple_op)
  fix s n
  assume a: "code_at d s" "mem s = m" "tops n [] s" "n + 1 \<le> FINSH_STACK_MAX"
  show "\<exists>s'. (op_table sys ! unat (FINSH_OP_LD w)) s = Ok s' \<and> mem s' = m \<and> tops n [P] s' \<and> keeps n (length d) s s'"
    using a assms(2,3) 
    by (auto simp: OP_ld_def assms(1) [OF a(1)] upd_slot_def move_sp_def skip_pc_def tops_def keeps_def nat_add_distrib)
qed simp

lemma triple_ld_value:
  assumes "load w m a = Some v"
  shows "triple sys (FINSH_OP_LD_VALUE w # code_dword a) 1 m [] m [slot_is w v]"
proof (rule triple_op)
  fix s n
  assume a: "code_at (code_dword a) s" "mem s = m" "tops n [] s" "n + 1 \<le> FINSH_STACK_MAX"
  show "\<exists>s'. (op_table sys ! unat (FINSH_OP_LD_VALUE w)) s = Ok s' \<and> mem s' = m \<and> tops n [slot_is w v] s' \<and> keeps n (length (code_dword a)) s s'"
    using a assms(1) load_trunc [OF assms(1)]
    by (auto simp: OP_ld_value_def fetch_dword [OF a(1)] upd_slot_def move_sp_def skip_pc_def tops_def keeps_def nat_add_distrib
       of_option_def member_set code_dword_def)
qed simp

lemma triple_bin:
  assumes "c_op b x y = Some v"
  shows "triple sys [FINSH_OP_BIN b w] 2 m [slot_is w x, slot_is w y] m [slot_is w (trunc w v)]"
proof (rule triple_op)
  fix s n
  assume a: "code_at [] s" "mem s = m" "tops n [slot_is w x, slot_is w y] s" "n + 2 \<le> FINSH_STACK_MAX"
  then have "member w (finsh_vm_stack s ! n) = x" "member w (finsh_vm_stack s ! Suc n) = y" "finsh_sp s = n + 2"
    by (auto simp: tops_def All_less_Suc numeral_2_eq_2)
  with a assms show "\<exists>s'. (op_table sys ! unat (FINSH_OP_BIN b w)) s = Ok s' \<and> mem s' = m \<and> tops n [slot_is w (trunc w v)] s' \<and> keeps n (length []) s s'"
    by (auto simp: OP_BIN_def slot_def upd_slot_def move_sp_def tops_def keeps_def of_option_def member_set)
qed simp

lemma triple_bw:
  "triple sys [FINSH_OP_BITWISE w] 1 m [slot_is w x] m [slot_is w (trunc w (NOT x))]"
proof (rule triple_op)
  fix s n
  assume a: "code_at [] s" "mem s = m" "tops n [slot_is w x] s" "n + 1 \<le> FINSH_STACK_MAX"
  then show "\<exists>s'. (op_table sys ! unat (FINSH_OP_BITWISE w)) s = Ok s' \<and> mem s' = m \<and> tops n [slot_is w (trunc w (NOT x))] s' \<and> keeps n (length []) s s'"
    by (auto simp: OP_bw_def slot_def upd_slot_def tops_def keeps_def member_set)
qed simp

lemma triple_st:
  assumes "store w m a v = Some m'"
  shows "triple sys [FINSH_OP_ST w] 2 m [\<lambda>u. u = a, slot_is w v] m' [\<lambda>u. u = a]"
proof (rule triple_op)
  fix s n
  assume a: "code_at [] s" "mem s = m" "tops n [\<lambda>u. u = a, slot_is w v] s" "n + 2 \<le> FINSH_STACK_MAX"
  then have "finsh_vm_stack s ! n = a" "member w (finsh_vm_stack s ! Suc n) = v" "finsh_sp s = n + 2"
    by (auto simp: tops_def All_less_Suc numeral_2_eq_2)
  with a assms show "\<exists>s'. (op_table sys ! unat (FINSH_OP_ST w)) s = Ok s' \<and> mem s' = m' \<and> tops n [\<lambda>u. u = a] s' \<and> keeps n (length []) s s'"
    by (auto simp: OP_st_def slot_def move_sp_def tops_def keeps_def of_option_def)
qed simp

text \<open>A narrow reload leaves the upper bytes of the address in the slot.\<close>

lemma triple_reload:
  assumes "load w m a = Some v"
  shows "triple sys [FINSH_OP_LD_VALUE_STACK w] 1 m [\<lambda>u. u = a] m [\<lambda>u. u = set_member w v a]"
proof (rule triple_op)
  fix s n
  assume "code_at [] s" "mem s = m" "tops n [\<lambda>u. u = a] s" "n + 1 \<le> FINSH_STACK_MAX"
  with assms show "\<exists>s'. (op_table sys ! unat (FINSH_OP_LD_VALUE_STACK w)) s = Ok s' \<and> mem s' = m \<and>
      tops n [\<lambda>u. u = set_member w v a] s' \<and> keeps n (length []) s s'"
    by (auto simp: OP_ld_value_stack_def slot_def upd_slot_def tops_def keeps_def of_option_def)
qed simp

lemma triple_ld_value_stack:
  assumes "load w m a = Some v"
  shows "triple sys [FINSH_OP_LD_VALUE_STACK w] 1 m [\<lambda>u. u = a] m [slot_is w v]"
  using load_trunc [OF assms] by (intro triple_weaken [OF triple_reload [OF assms]]) (simp add: member_set)

lemma triple_pop: "triple sys [FINSH_OP_POP] 1 m [P] m []"
proof (rule triple_op)
  fix s n
  assume a: "code_at [] s" "mem s = m" "tops n [P] s" "n + 1 \<le> FINSH_STACK_MAX"
  then show "\<exists>s'. (op_table sys ! unat FINSH_OP_POP) s = Ok s' \<and> mem s' = m \<and> tops n [] s' \<and> keeps n (length []) s s'"
    by (auto simp: OP_pop_def move_sp_def tops_def keeps_def)
qed simp

lemma take_args_tops:
  assumes "length (finsh_vm_stack s) = FINSH_STACK_MAX" and "finsh_sp s = n + length as" and "n + length as < FINSH_STACK_MAX"
    and "\<forall>i < length as. finsh_vm_stack s ! (n + 1 + i) = as ! i"
  shows "take_args (length as) bs s = Ok (as @ bs, s\<lparr>finsh_sp := n\<rparr>)"
  using assms
proof (induction as arbitrary: bs s rule: rev_induct)
  case Nil
  then show ?case by simp
next
  case (snoc a as)
  have "finsh_vm_stack s ! (n + 1 + length as) = a"
    using snoc.prems(4) [rule_format, of "length as"] by simp
  moreover have "i < length as \<Longrightarrow> finsh_vm_stack s ! (n + 1 + i) = as ! i" for i
    using snoc.prems(4) [rule_format, of i] by (simp add: nth_append)
  ultimately show ?case
    using snoc.prems(1-3) snoc.IH [of "s\<lparr>finsh_sp := n + length as\<rparr>" "a # bs"]
    by (simp add: slot_def move_sp_def nat_add_distrib)
qed

lemma triple_call:
  assumes "sys f as m = Some (r, m')" and "length as \<le> 16"
  shows "triple sys [FINSH_OP_SYSCALL, of_nat (length as)] (1 + length as) m ((\<lambda>u. u = f) # map (\<lambda>x u. u = x) as) m' [\<lambda>u. u = r]"
proof (rule triple_op)
  fix s n
  assume a: "code_at [of_nat (length as)] s" "mem s = m" "tops n ((\<lambda>u. u = f) # map (\<lambda>x u. u = x) as) s" 
   "n + (1 + length as) \<le> FINSH_STACK_MAX"
  have l: "length (finsh_vm_stack s) = FINSH_STACK_MAX" "finsh_sp s = n + 1 + length as" "finsh_vm_stack s ! n = f"
    using a(3) by (auto simp: tops_def)
  have args: "finsh_vm_stack s ! (n + 1 + i) = as ! i" if "i < length as" for i
  proof -
    have "(((\<lambda>u. u = f) # map (\<lambda>x u. u = x) as) ! Suc i) (finsh_vm_stack s ! (n + Suc i))"
      using a(3) that unfolding tops_def by (metis length_Cons length_map not_less_eq)
    then show ?thesis using that by simp
  qed
  have u: "uint (of_nat (length as) :: u8) = int (length as)"
    using assms(2) by (simp add: unsigned_of_nat take_bit_nat_eq_self)
  let ?s = "skip_pc 1 s \<lparr>finsh_sp := n + length as\<rparr>"
  have t: "take_args (length as) [] ?s = Ok (as @ [], ?s\<lparr>finsh_sp := n\<rparr>)"
    using l a(4) args by (intro take_args_tops) (auto simp: skip_pc_def)
  show "\<exists>s'. (op_table sys ! unat FINSH_OP_SYSCALL) s = Ok s' \<and> mem s' = m' \<and> tops n [\<lambda>u. u = r] s' \<and> keeps n (length [of_nat (length as) :: u8]) s s'"
    using l a t assms
    by (auto simp: OP_call_def fetch_byte [OF a(1)] u Let_def slot_def upd_slot_def move_sp_def tops_def keeps_def of_option_def skip_pc_def nat_add_distrib)
qed simp

end
