(* ===== verification/Finsh_Node.thy ===== *)
theory Finsh_Node
  imports Finsh_Vm
begin

text \<open>
  The symbols and the syntax tree of the command shell: the table of shell variables
  (\<open>finsh_var.c\<close>), the tables and lists of exported variables and routines (\<open>finsh_var.c\<close>,
  \<open>finsh_vm.c\<close>), and the tree nodes (\<open>finsh_node.c\<close>). The two tables are laid out by the linker
  and are a parameter, as are the addresses of the variable table and of the string heap.
\<close>

unbundle bit_operations_syntax

section \<open>Errors\<close>

datatype finsh_error =
    ERROR_OK | ERROR_INVALID_TOKEN | ERROR_EXPECT_TYPE | ERROR_UNKNOWN_TYPE | ERROR_VARIABLE_EXIST
  | ERROR_EXPECT_OPERATOR | ERROR_MEMORY_FULL | ERROR_UNKNOWN_OP | ERROR_UNKNOWN_NODE
  | ERROR_EXPECT_CHAR | ERROR_UNEXPECT_END | ERROR_UNKNOWN_TOKEN | ERROR_NO_FLOAT
  | ERROR_UNKNOWN_SYMBOL | ERROR_NULL_NODE

section \<open>Symbols\<close>

datatype finsh_type =
    type_unknown | type_void | type_voidp | type_char | type_uchar | type_charp | type_short
  | type_ushort | type_shortp | type_int | type_uint | type_intp | type_long | type_ulong | type_longp

fun type_no :: "finsh_type \<Rightarrow> u8" where
  "type_no type_unknown = 0" | "type_no type_void = 1" | "type_no type_voidp = 2"
| "type_no type_char = 3" | "type_no type_uchar = 4" | "type_no type_charp = 5"
| "type_no type_short = 6" | "type_no type_ushort = 7" | "type_no type_shortp = 8"
| "type_no type_int = 9" | "type_no type_uint = 10" | "type_no type_intp = 11"
| "type_no type_long = 12" | "type_no type_ulong = 13" | "type_no type_longp = 14"

text \<open>Names are byte lists without the terminating zero.\<close>

type_synonym name = "u8 list"

definition FINSH_NAME_MAX :: nat where "FINSH_NAME_MAX = 16"
definition FINSH_VARIABLE_MAX :: nat where "FINSH_VARIABLE_MAX = 8"

record finsh_var =
  var_name :: name
  var_type :: finsh_type

record finsh_sysvar =
  sysvar_name :: name
  sysvar_type :: finsh_type
  sysvar_var :: u32
  sysvar_at :: u32

record finsh_syscall =
  syscall_name :: name
  syscall_func :: u32
  syscall_at :: u32

text \<open>
  What the linker and earlier calls of \<open>finsh_sysvar_append\<close> and \<open>finsh_syscall_append\<close> fixed;
  \<open>sysvar_at\<close> and \<open>syscall_at\<close> are the addresses of the entries themselves.
\<close>

record exports =
  global_variable_at :: u32
  finsh_heap_at :: u32
  sysvar_table :: "finsh_sysvar list"
  global_sysvar_list :: "finsh_sysvar list"
  syscall_table :: "finsh_syscall list"
  global_syscall_list :: "finsh_syscall list"

text \<open>\<open>&(var->value)\<close> lies 20 bytes into a \<open>struct finsh_var\<close> of 24 bytes.\<close>

definition var_value_at :: "exports \<Rightarrow> nat \<Rightarrow> u32" where
  "var_value_at x i = global_variable_at x + 24 * of_nat i + 20"

text \<open>\<open>strncmp (a, b, n) == 0\<close> on zero-terminated strings.\<close>

definition strncmp_eq :: "nat \<Rightarrow> name \<Rightarrow> name \<Rightarrow> bool" where
  "strncmp_eq n a b = (take n a = take n b)"

definition finsh_var_init :: "finsh_var list" where
  "finsh_var_init = replicate FINSH_VARIABLE_MAX \<lparr>var_name = [], var_type = type_unknown\<rparr>"

text \<open>The first position that satisfies a test.\<close>

fun first_index :: "('a \<Rightarrow> bool) \<Rightarrow> 'a list \<Rightarrow> nat option" where
  "first_index P [] = None"
| "first_index P (x # xs) = (if P x then Some 0 else map_option Suc (first_index P xs))"

text \<open>
  Inserting fails when the name is taken or the table is full; the result is the index of the
  entry. The name is cut to 16 characters.
\<close>

definition finsh_var_insert :: "name \<Rightarrow> finsh_type \<Rightarrow> finsh_var list \<Rightarrow> nat option \<times> finsh_var list" where
  "finsh_var_insert nm t vs =
    (if \<exists>v \<in> set vs. strncmp_eq FINSH_NAME_MAX (var_name v) nm then (None, vs)
     else (case first_index (\<lambda>v. var_type v = type_unknown) vs of
         None \<Rightarrow> (None, vs)
       | Some i \<Rightarrow> (Some i, vs[i := \<lparr>var_name = take FINSH_NAME_MAX nm, var_type = t\<rparr>])))"

text \<open>
  The delete routine compares with \<open>strncpy\<close> where \<open>strncmp\<close> is meant: every name becomes the
  given one, the comparison of its address with zero never succeeds, and no entry is freed.
\<close>

definition finsh_var_delete :: "name \<Rightarrow> finsh_var list \<Rightarrow> int \<times> finsh_var list" where
  "finsh_var_delete nm vs = (- 1, map (\<lambda>v. v\<lparr>var_name := take FINSH_NAME_MAX nm\<rparr>) vs)"

definition finsh_var_lookup :: "name \<Rightarrow> finsh_var list \<Rightarrow> nat option" where
  "finsh_var_lookup nm vs = first_index (\<lambda>v. strncmp_eq FINSH_NAME_MAX (var_name v) nm) vs"

definition finsh_sysvar_append :: "bool \<Rightarrow> name \<Rightarrow> finsh_type \<Rightarrow> u32 \<Rightarrow> u32 \<Rightarrow> exports \<Rightarrow> exports" where
  "finsh_sysvar_append allocated nm t var item x = (if allocated
     then x\<lparr>global_sysvar_list := \<lparr>sysvar_name = nm, sysvar_type = t, sysvar_var = var, sysvar_at = item + 4\<rparr>
              # global_sysvar_list x\<rparr>
     else x)"

definition finsh_syscall_append :: "bool \<Rightarrow> name \<Rightarrow> u32 \<Rightarrow> u32 \<Rightarrow> exports \<Rightarrow> exports" where
  "finsh_syscall_append allocated nm func item x = (if allocated
     then x\<lparr>global_syscall_list := \<lparr>syscall_name = nm, syscall_func = func, syscall_at = item + 4\<rparr>
              # global_syscall_list x\<rparr>
     else x)"

text \<open>
  A table is searched for the exact name, an appended list for a name that begins with the given
  one (\<open>strncmp\<close> over the length of the given name).
\<close>

definition finsh_sysvar_lookup :: "name \<Rightarrow> exports \<Rightarrow> finsh_sysvar option" where
  "finsh_sysvar_lookup nm x =
    (case find (\<lambda>v. sysvar_name v = nm) (sysvar_table x) of
       Some v \<Rightarrow> Some v
     | None \<Rightarrow> find (\<lambda>v. strncmp_eq (length nm) (sysvar_name v) nm) (global_sysvar_list x))"

definition finsh_syscall_lookup :: "name \<Rightarrow> exports \<Rightarrow> finsh_syscall option" where
  "finsh_syscall_lookup nm x =
    (case find (\<lambda>v. syscall_name v = nm) (syscall_table x) of
       Some v \<Rightarrow> Some v
     | None \<Rightarrow> find (\<lambda>v. strncmp_eq (length nm) (syscall_name v) nm) (global_syscall_list x))"

section \<open>Tree nodes\<close>

datatype node_type =
    NODE_ID | VALUE_CHAR | VALUE_INT | VALUE_LONG | VALUE_STRING | VALUE_NULL
  | SYS binop | SYS_BITWISE | SYS_FUNC | SYS_ASSIGN | SYS_CAST
  | SYS_PREINC | SYS_PREDEC | SYS_INC | SYS_DEC | SYS_GETVALUE | SYS_GETADDR | SYS_NULL

text \<open>The union \<open>id\<close> of a node: an index into the variable table or a pointer into an export.\<close>

datatype symbol = IdVar nat | IdSysvar finsh_sysvar | IdSyscall finsh_syscall

definition IDTYPE_VAR :: u8 where "IDTYPE_VAR = 0x01"
definition IDTYPE_SYSVAR :: u8 where "IDTYPE_SYSVAR = 0x02"
definition IDTYPE_SYSCALL :: u8 where "IDTYPE_SYSCALL = 0x04"
definition IDTYPE_ADDRESS :: u8 where "IDTYPE_ADDRESS = 0x08"

lemmas idtypes = IDTYPE_VAR_def IDTYPE_SYSVAR_def IDTYPE_SYSCALL_def IDTYPE_ADDRESS_def

text \<open>\<open>Null\<close> is the null pointer in the links \<open>child\<close> and \<open>sibling\<close>.\<close>

datatype finsh_node =
    Null
  | Node (node_type: node_type) (data_type: u8) (idtype: u8) (val: u32) (ident: "symbol option")
      (child: finsh_node) (sibling: finsh_node)

text \<open>
  A node comes from a table of 16 that is only cleared as a whole, so the allocator is a count of
  the entries in use.
\<close>

definition FINSH_NODE_MAX :: nat where "FINSH_NODE_MAX = 16"

definition finsh_node_allocate :: "node_type \<Rightarrow> nat \<Rightarrow> finsh_node \<times> nat" where
  "finsh_node_allocate t used = (if used < FINSH_NODE_MAX
     then (Node t 0 0 0 None Null Null, used + 1) else (Null, used))"

fun set_sibling :: "finsh_node \<Rightarrow> finsh_node \<Rightarrow> finsh_node" where
  "set_sibling (Node t d i v s c _) n = Node t d i v s c n"
| "set_sibling Null n = Null"

fun nodes :: "finsh_node \<Rightarrow> nat" where
  "nodes Null = 0"
| "nodes (Node t d i v s c n) = Suc (nodes c + nodes n)"

section \<open>The variable table\<close>

lemma first_index_None: "first_index P xs = None \<longleftrightarrow> (\<forall>x \<in> set xs. \<not> P x)"
  by (induction xs) auto

lemma first_index_Some:
  "first_index P xs = Some i \<longleftrightarrow> i < length xs \<and> P (xs ! i) \<and> (\<forall>j < i. \<not> P (xs ! j))"
proof (induction xs arbitrary: i)
  case Nil
  then show ?case by simp
next
  case (Cons x xs)
  then show ?case
    by (cases i) (auto simp: All_less_Suc2)
qed


text \<open>Free entries have no name, and the names of the entries in use differ.\<close>

definition vars_ok :: "finsh_var list \<Rightarrow> bool" where
  "vars_ok vs \<longleftrightarrow> length vs = FINSH_VARIABLE_MAX \<and>
    (\<forall>v \<in> set vs. length (var_name v) \<le> FINSH_NAME_MAX \<and> (var_type v = type_unknown \<longrightarrow> var_name v = [])) \<and>
    (\<forall>i j. i < j \<longrightarrow> j < length vs \<longrightarrow> var_name (vs ! i) = var_name (vs ! j) \<longrightarrow> var_name (vs ! i) = [])"

lemma vars_ok_init: "vars_ok finsh_var_init"
  by (simp add: vars_ok_def finsh_var_init_def)

lemma lookup_Some:
  "finsh_var_lookup nm vs = Some i \<longleftrightarrow> i < length vs \<and> strncmp_eq FINSH_NAME_MAX (var_name (vs ! i)) nm \<and>
     (\<forall>j < i. \<not> strncmp_eq FINSH_NAME_MAX (var_name (vs ! j)) nm)"
  unfolding finsh_var_lookup_def by (rule first_index_Some)

lemma insert_cases:
  assumes "finsh_var_insert nm t vs = (Some i, vs')"
  shows "i < length vs" "var_type (vs ! i) = type_unknown"
    "vs' = vs[i := \<lparr>var_name = take FINSH_NAME_MAX nm, var_type = t\<rparr>]"
    "\<forall>v \<in> set vs. \<not> strncmp_eq FINSH_NAME_MAX (var_name v) nm"
  using assms unfolding finsh_var_insert_def
  by (auto simp: first_index_Some split: if_splits option.splits)

lemma vars_ok_insert:
  assumes "vars_ok vs" and "finsh_var_insert nm t vs = (Some i, vs')" and "t \<noteq> type_unknown"
  shows "vars_ok vs'"
proof -
  note ins = insert_cases [OF assms(2)]
  have new: "var_name (vs ! j) \<noteq> take FINSH_NAME_MAX nm" if "j < length vs" for j
  proof -
    have "vs ! j \<in> set vs" using that by simp
    then have "take FINSH_NAME_MAX (var_name (vs ! j)) \<noteq> take FINSH_NAME_MAX nm"
      and "length (var_name (vs ! j)) \<le> FINSH_NAME_MAX"
      using ins(4) assms(1) by (auto simp: strncmp_eq_def vars_ok_def)
    then show ?thesis by auto
  qed
  show ?thesis
    using assms(1,3) new ins(1) unfolding vars_ok_def ins(3)
    by (auto simp: nth_list_update dest!: set_update_subset_insert [THEN subsetD]) metis+
qed

text \<open>
  A declared variable is found under its name, at the index and with the type it was declared
  with, and every other name is looked up as before; the table keeps its invariant. Names count
  up to their sixteenth character.
\<close>

lemma var_insert_lookup:
  assumes "vars_ok vs" and "finsh_var_insert nm t vs = (Some i, vs')" and "t \<noteq> type_unknown"
  shows "vars_ok vs' \<and> finsh_var_lookup nm vs' = Some i \<and> var_type (vs' ! i) = t \<and>
    (\<forall>nm'. nm' \<noteq> [] \<and> take FINSH_NAME_MAX nm' \<noteq> take FINSH_NAME_MAX nm \<longrightarrow>
       finsh_var_lookup nm' vs' = finsh_var_lookup nm' vs)"
proof (intro conjI allI impI)
  note ins = insert_cases [OF assms(2)]
  show "vars_ok vs'" by (rule vars_ok_insert [OF assms])
  show "finsh_var_lookup nm vs' = Some i"
    using ins by (auto simp: lookup_Some nth_list_update strncmp_eq_def)
  show "var_type (vs' ! i) = t"
    using ins by simp
  fix nm' :: name
  assume n: "nm' \<noteq> [] \<and> take FINSH_NAME_MAX nm' \<noteq> take FINSH_NAME_MAX nm"
  have "var_name (vs ! i) = []"
    using assms(1) ins(1,2) by (auto simp: vars_ok_def)
  then have same: "strncmp_eq FINSH_NAME_MAX (var_name (vs' ! j)) nm' = strncmp_eq FINSH_NAME_MAX (var_name (vs ! j)) nm'" for j
    using n ins(1) unfolding ins(3)
    by (cases "j = i") (auto simp: strncmp_eq_def FINSH_NAME_MAX_def take_eq_Nil nth_list_update)
  have "finsh_var_lookup nm' vs' = Some j \<longleftrightarrow> finsh_var_lookup nm' vs = Some j" for j
    using same ins(3) by (simp add: lookup_Some)
  then show "finsh_var_lookup nm' vs' = finsh_var_lookup nm' vs"
    by (metis not_Some_eq)
qed

lemma var_insert_lookup_witness:
  "finsh_var_lookup (bytes ''n'') (snd (finsh_var_insert (bytes ''n'') type_int finsh_var_init)) = Some 0"
proof -
  have ins: "finsh_var_insert (bytes ''n'') type_int finsh_var_init =
      (Some 0, finsh_var_init[0 := \<lparr>var_name = bytes ''n'', var_type = type_int\<rparr>])"
    by (simp add: finsh_var_insert_def finsh_var_init_def FINSH_VARIABLE_MAX_def FINSH_NAME_MAX_def
        strncmp_eq_def eval_nat_numeral)
  from var_insert_lookup [OF vars_ok_init ins] show ?thesis
    unfolding ins by simp
qed

text \<open>Deleting a variable renames all of them and frees none, so the name can never be declared again.\<close>

lemma var_delete_keeps_all:
  assumes "vs \<noteq> []" and "finsh_var_delete nm vs = (r, vs')"
  shows "r = - 1" "map var_type vs' = map var_type vs" "finsh_var_insert nm t vs' = (None, vs')"
proof -
  show "r = - 1" "map var_type vs' = map var_type vs"
    using assms(2) by (auto simp: finsh_var_delete_def comp_def)
  have "\<exists>v \<in> set vs'. strncmp_eq FINSH_NAME_MAX (var_name v) nm"
    using assms by (cases vs) (auto simp: finsh_var_delete_def strncmp_eq_def)
  then show "finsh_var_insert nm t vs' = (None, vs')"
    by (auto simp: finsh_var_insert_def)
qed

end
