(* ===== verification/Finsh_Lex.thy ===== *)
theory Finsh_Lex
  imports Finsh_Node
begin

text \<open>
  The scanner of the command shell (\<open>finsh_token.c\<close>): one token at a time from a line, with one
  token of push-back. Overrunning one of its 128-byte buffers is a \<open>Fault\<close>.
\<close>

unbundle bit_operations_syntax

section \<open>State\<close>

datatype token =
    Tleft_paren | Tright_paren | Tcomma | Tsemicolon | Tmul | Tadd | Tinc | Tsub | Tdec | Tdiv | Tmod
  | Tassign | Tand | Tor | Txor | Tbitwise | Tshl | Tshr | Tvoid | Tchar | Tshort | Tint | Tlong
  | Tunsigned | Tvalue_char | Tvalue_int | Tvalue_long | Tvalue_string | Tvalue_null | Tidentifier
  | Tbad | Teof

text \<open>\<open>struct finsh_token\<close> and the error number \<open>global_errno\<close>; the line has no zero byte in it.\<close>

record lex =
  eof :: bool
  replay :: bool
  position :: nat
  current_token :: token
  tvalue :: u32
  tstring :: "u8 list"
  tline :: "u8 list"
  errno :: finsh_error

definition FINSH_STRING_MAX :: nat where "FINSH_STRING_MAX = 128"

definition finsh_token_init :: "u8 list \<Rightarrow> finsh_error \<Rightarrow> lex" where
  "finsh_token_init l err = \<lparr>eof = False, replay = False, position = 0, current_token = Tbad, tvalue = 0,
     tstring = replicate FINSH_STRING_MAX 0, tline = l, errno = err\<rparr>"

definition set_errno :: "finsh_error \<Rightarrow> lex \<Rightarrow> lex" where
  "set_errno e s = s\<lparr>errno := e\<rparr>"

section \<open>Characters\<close>

definition is_digit :: "u8 \<Rightarrow> bool" where
  "is_digit c = (48 \<le> c \<and> c \<le> 57)"

definition isalpha :: "u8 \<Rightarrow> bool" where
  "isalpha c = (97 \<le> c \<and> c \<le> 122 \<or> 65 \<le> c \<and> c \<le> 90)"

definition is_separator :: "u8 \<Rightarrow> bool" where
  "is_separator c = (\<not> (isalpha c \<or> is_digit c \<or> c = 95))"

text \<open>At the end of the line the position goes back to the start.\<close>

definition token_next_char :: "lex \<Rightarrow> u8 \<times> lex" where
  "token_next_char s =
    (if eof s then (0, s)
     else if position s < length (tline s) \<and> tline s ! position s \<noteq> 10
     then (tline s ! position s, s\<lparr>position := position s + 1\<rparr>)
     else (0, s\<lparr>eof := True, position := 0\<rparr>))"

definition token_prev_char :: "lex \<Rightarrow> lex" where
  "token_prev_char s = (if eof s \<or> position s = 0 then s else s\<lparr>position := position s - 1\<rparr>)"

text \<open>
  The loops of the scanner read characters while a test holds; the result is the characters, the
  character that ended the loop, and the state behind it.
\<close>

lemma next_char_measure:
  "token_next_char s = (c, s') \<Longrightarrow> c \<noteq> 0 \<Longrightarrow>
     length (tline s') - position s' < length (tline s) - position s"
  by (auto simp: token_next_char_def split: if_splits)

function scan :: "(u8 \<Rightarrow> bool) \<Rightarrow> u8 \<Rightarrow> lex \<Rightarrow> u8 list \<times> u8 \<times> lex" where
  "scan P c s = (if P c \<and> c \<noteq> 0 then
      (case token_next_char s of (c', s') \<Rightarrow>
         if c' = 0 then ([c], 0, s')
         else (case scan P c' s' of (cs, d, t) \<Rightarrow> (c # cs, d, t)))
    else ([], c, s))"
  by auto
termination
proof (relation "measure (\<lambda>(P, c, s). length (tline s) - position s)", goal_cases)
  case 1
  then show ?case by simp
next
  case (2 P c s x y)
  have "length (tline y) - position y < length (tline s) - position s"
    by (rule next_char_measure [OF 2(2) [symmetric]]) (rule 2(3))
  then show ?case by (simp only: in_measure prod.case)
qed

declare scan.simps [simp del]

section \<open>Identifiers and keywords\<close>

definition put_string :: "u8 list \<Rightarrow> lex \<Rightarrow> lex res" where
  "put_string cs s = (if length cs < FINSH_STRING_MAX
     then Ok (s\<lparr>tstring := cs @ 0 # drop (Suc (length cs)) (tstring s)\<rparr>) else Fault)"

definition token_get_string :: "lex \<Rightarrow> lex res" where
  "token_get_string s =
    (let (c, s) = token_next_char s in
     if eof s then Ok s
     else if is_digit c then Ok (token_prev_char (s\<lparr>tstring := (tstring s)[0 := 0]\<rparr>))
     else (let (cs, d, s) = scan (\<lambda>c. \<not> is_separator c) c s in
           put_string cs (token_prev_char (s\<lparr>eof := False\<rparr>))))"

definition finsh_name_table :: "(u8 list \<times> token) list" where
  "finsh_name_table =
    [(bytes ''void'', Tvoid), (bytes ''char'', Tchar), (bytes ''short'', Tshort), (bytes ''int'', Tint),
     (bytes ''long'', Tlong), (bytes ''unsigned'', Tunsigned), (bytes ''NULL'', Tvalue_null), (bytes ''null'', Tvalue_null)]"

definition token_match_name :: "u8 list \<Rightarrow> token" where
  "token_match_name nm = (case map_of finsh_name_table nm of Some t \<Rightarrow> t | None \<Rightarrow> Tidentifier)"

definition token_trim_space :: "lex \<Rightarrow> lex" where
  "token_trim_space s =
    (let (c, s) = token_next_char s; (cs, d, s) = scan (\<lambda>c. c = 32 \<or> c = 9) c s in token_prev_char s)"

section \<open>Characters and strings\<close>

text \<open>
  A character escape made of digits is collected into a buffer of four bytes and then read from
  its end, so its value is always zero.
\<close>

definition char_escape :: "u8 \<Rightarrow> u8 option" where
  "char_escape c = (if c = 110 then Some 10 else if c = 116 then Some 9 else if c = 118 then Some 11
     else if c = 98 then Some 8 else if c = 114 then Some 13 else if c = 92 then Some 92
     else if c = 39 then Some 39 else None)"

definition token_proc_char :: "lex \<Rightarrow> (u8 \<times> lex) res" where
  "token_proc_char s =
    (let (c, s) = token_next_char s in
     rbind (if c \<noteq> 92 then Ok (c, s)
       else (let (c, s) = token_next_char s in
         case char_escape c of
           Some d \<Rightarrow> Ok (d, s)
         | None \<Rightarrow> (let (cs, d, s) = scan is_digit c s in
             if length cs < 4 then Ok (0, token_prev_char s) else Fault)))
     (\<lambda>(v, s). let (d, s) = token_next_char s in
       Ok (v, if d = 39 then s else set_errno ERROR_EXPECT_CHAR (token_prev_char s))))"

text \<open>The value of a run of characters above \<open>'0'\<close> in a number base.\<close>

definition digits_value :: "u32 \<Rightarrow> u8 list \<Rightarrow> u32" where
  "digits_value b cs = fold (\<lambda>c v. v * b + (ucast c - 48)) cs 0"

definition string_escape :: "u8 \<Rightarrow> u8 option" where
  "string_escape c = (if c = 110 then Some 10 else if c = 116 then Some 9 else if c = 118 then Some 11
     else if c = 98 then Some 8 else if c = 114 then Some 13 else if c = 102 then Some 12
     else if c = 97 then Some 7 else None)"

definition token_proc_escape :: "lex \<Rightarrow> u8 \<times> lex" where
  "token_proc_escape s =
    (let (c, s) = token_next_char s in
     case string_escape c of
       Some d \<Rightarrow> (d, s)
     | None \<Rightarrow>
        if c = 120 then
          (let (c, s) = token_next_char s; (cs, d, s) = scan (\<lambda>c. 48 \<le> c \<and> c < 64) c s
           in (ucast (digits_value 16 cs), token_prev_char s))
        else if 48 \<le> c \<and> c < 56 then
          (let (cs, d, s) = scan (\<lambda>c. 48 \<le> c \<and> c < 56) c s
           in (ucast (digits_value 8 cs), token_prev_char s))
        else (0, s))"

text \<open>
  A string is copied into the buffer up to the closing quote; 128 characters without one end the
  copy with no terminating zero.
\<close>

fun string_loop :: "nat \<Rightarrow> nat \<Rightarrow> lex \<Rightarrow> lex" where
  "string_loop 0 p s = s"
| "string_loop (Suc n) p s =
    (let (c, s) = token_next_char s in
     if eof s then set_errno ERROR_UNEXPECT_END s
     else if c = 34 then s\<lparr>tstring := (tstring s)[p := 0]\<rparr>
     else (let (c, s) = (if c = 92 then token_proc_escape s else (c, s))
           in string_loop n (p + 1) (s\<lparr>tstring := (tstring s)[p := c]\<rparr>)))"

definition token_proc_string :: "lex \<Rightarrow> lex" where
  "token_proc_string s = string_loop FINSH_STRING_MAX 0 s"

section \<open>Numbers\<close>

text \<open>
  \<open>token_spec_number\<close> shifts the digits through two 32-bit words and returns the lower one, so a
  long number keeps its last digits.
\<close>

definition digit_value :: "u8 \<Rightarrow> u32" where
  "digit_value c = (if 97 \<le> c \<and> c \<le> 102 then ucast c - 97 + 10
     else if 65 \<le> c \<and> c \<le> 70 then ucast c - 65 + 10 else ucast c - 48)"

fun bn_shift :: "nat \<Rightarrow> u32 \<Rightarrow> u32 list \<Rightarrow> u32 list" where
  "bn_shift sh t [] = []"
| "bn_shift sh t (v # vs) = (push_bit sh v OR t) # bn_shift sh (drop_bit (32 - sh) v) vs"

definition base_shift :: "nat \<Rightarrow> nat" where
  "base_shift b = (if b = 16 then 4 else if b = 8 then 3 else 1)"

definition token_spec_number :: "u8 list \<Rightarrow> nat \<Rightarrow> u32" where
  "token_spec_number cs b = hd (fold (\<lambda>c. bn_shift (base_shift b) (digit_value c)) cs [0, 0])"

definition spec_digits :: "(u8 \<Rightarrow> bool) \<Rightarrow> nat \<Rightarrow> u8 \<Rightarrow> lex \<Rightarrow> (u32 \<times> u8 \<times> lex) res" where
  "spec_digits P b c s = (let (cs, d, s) = scan P c s in
     if length cs < FINSH_STRING_MAX then Ok (token_spec_number cs b, d, s) else Fault)"

definition token_proc_number :: "lex \<Rightarrow> lex res" where
  "token_proc_number s =
    (let (c, s) = token_next_char s in
     rbind (if c = 48 then
         (let (c, s) = token_next_char s in
          if c = 120 \<or> c = 88 then
            (let (c, s) = token_next_char s in spec_digits (\<lambda>c. is_digit c \<or> isalpha c) 16 c s)
          else if c = 98 \<or> c = 66 then
            (let (c, s) = token_next_char s in spec_digits (\<lambda>c. c = 48 \<or> c = 49) 2 c s)
          else spec_digits is_digit 8 c s)
       else (let (cs, d, s) = scan is_digit c s in Ok (digits_value 10 cs, d, s)))
     (\<lambda>(v, d, s). Ok (if d = 108 \<or> d = 76 then s\<lparr>tvalue := v, current_token := Tvalue_long\<rparr>
        else token_prev_char (s\<lparr>tvalue := v, current_token := Tvalue_int\<rparr>))))"

section \<open>Tokens\<close>

definition set_token :: "token \<Rightarrow> lex \<Rightarrow> lex" where
  "set_token t s = s\<lparr>current_token := t\<rparr>"

text \<open>The second character of a two-character operator, or a step back.\<close>

definition twice :: "u8 \<Rightarrow> token \<Rightarrow> token \<Rightarrow> lex \<Rightarrow> lex" where
  "twice c two one s = (let (d, s) = token_next_char s in
     if d = c then set_token two s else set_token one (token_prev_char s))"

definition single_token :: "u8 \<Rightarrow> token option" where
  "single_token c = map_of
    [(40, Tleft_paren), (41, Tright_paren), (44, Tcomma), (59, Tsemicolon), (38, Tand), (42, Tmul), (47, Tdiv),
     (124, Tor), (37, Tmod), (126, Tbitwise), (94, Txor), (61, Tassign)] c"

definition operator_token :: "lex \<Rightarrow> lex res" where
  "operator_token s =
    (let (c, s) = token_next_char s in
     case single_token c of
       Some t \<Rightarrow> Ok (set_token t s)
     | None \<Rightarrow>
        if c = 43 then Ok (twice 43 Tinc Tadd s)
        else if c = 45 then Ok (twice 45 Tdec Tsub s)
        else if c = 60 then Ok (twice 60 Tshl Tbad s)
        else if c = 62 then Ok (twice 62 Tshr Tbad s)
        else if c = 39 then
          rbind (token_proc_char s) (\<lambda>(v, s). Ok (set_token Tvalue_char (s\<lparr>tvalue := set_member Byte (uint v) (tvalue s)\<rparr>)))
        else if c = 34 then Ok (set_token Tvalue_string (token_proc_string s))
        else if is_digit c then token_proc_number (token_prev_char s)
        else Ok (set_token Tbad (set_errno ERROR_UNKNOWN_TOKEN s)))"

definition token_run :: "lex \<Rightarrow> lex res" where
  "token_run s =
    rbind (token_get_string (token_trim_space s)) (\<lambda>s.
      if eof s then Ok (set_token Teof s)
      else if tstring s ! 0 \<noteq> 0 then Ok (set_token (token_match_name (c_text (tstring s))) s)
      else operator_token s)"

definition finsh_token_token :: "lex \<Rightarrow> (token \<times> lex) res" where
  "finsh_token_token s =
    (if replay s then Ok (current_token s, s\<lparr>replay := False\<rparr>)
     else rbind (token_run s) (\<lambda>s. Ok (current_token s, s)))"

definition finsh_token_replay :: "lex \<Rightarrow> lex" where
  "finsh_token_replay s = s\<lparr>replay := True\<rparr>"

end
