(* ===== verification/Finsh_Heap.thy ===== *)
theory Finsh_Heap
  imports Finsh_Node
begin

text \<open>
  The heap of 128 bytes in which the command shell keeps string literals (\<open>finsh_heap.c\<close>): blocks
  with a header of 8 bytes on a list of free and a list of allocated blocks, both linked through
  the headers. Headers are known by their offset in the heap; the lengths and links are stores
  over offsets, so that a stale link is seen.
\<close>

section \<open>State\<close>

record heap =
  blen :: "nat \<Rightarrow> nat"
  bnext :: "nat \<Rightarrow> nat option"
  hfree :: "nat option"
  halloc :: "nat option"

definition FINSH_HEAP_MAX :: nat where "FINSH_HEAP_MAX = 128"
definition HEADER :: nat where "HEADER = 8"

definition HEAP_ALIGN_SIZE :: "nat \<Rightarrow> nat" where
  "HEAP_ALIGN_SIZE n = (n + 3) div 4 * 4"

definition finsh_heap_init :: heap where
  "finsh_heap_init = \<lparr>blen = (\<lambda>_. 0)(0 := FINSH_HEAP_MAX - HEADER), bnext = (\<lambda>_. None), hfree = Some 0, halloc = None\<rparr>"

section \<open>Lists of blocks\<close>

datatype which = Free | Allocated

fun head :: "which \<Rightarrow> heap \<Rightarrow> nat option" where
  "head Free h = hfree h"
| "head Allocated h = halloc h"

fun set_head :: "which \<Rightarrow> nat option \<Rightarrow> heap \<Rightarrow> heap" where
  "set_head Free p h = h\<lparr>hfree := p\<rparr>"
| "set_head Allocated p h = h\<lparr>halloc := p\<rparr>"

definition link :: "nat \<Rightarrow> nat option \<Rightarrow> heap \<Rightarrow> heap" where
  "link n p h = h\<lparr>bnext := (bnext h)(n := p)\<rparr>"

definition set_len :: "nat \<Rightarrow> nat \<Rightarrow> heap \<Rightarrow> heap" where
  "set_len n l h = h\<lparr>blen := (blen h)(n := l)\<rparr>"

text \<open>
  The walks along a list. There are at most 16 headers in the heap, so a walk of more than
  \<open>HEADERS\<close> steps goes round in a circle and never ends.
\<close>

definition HEADERS :: nat where "HEADERS = 17"

fun walk :: "nat \<Rightarrow> (nat \<Rightarrow> bool) \<Rightarrow> heap \<Rightarrow> nat option \<Rightarrow> nat option res" where
  "walk n P h None = Ok None"
| "walk 0 P h (Some b) = Halt"
| "walk (Suc n) P h (Some b) = (if P b then Ok (Some b) else walk n P h (bnext h b))"

definition finsh_block_insert :: "which \<Rightarrow> nat \<Rightarrow> heap \<Rightarrow> heap res" where
  "finsh_block_insert l b h =
    (case head l h of
       None \<Rightarrow> Ok (set_head l (Some b) h)
     | Some n \<Rightarrow>
        if n > b then Ok (set_head l (Some b) (link b (Some n) h))
        else rbind (walk HEADERS (\<lambda>n. case bnext h n of None \<Rightarrow> True | Some m \<Rightarrow> m > b) h (Some n)) (\<lambda>r.
          case r of None \<Rightarrow> Fault
          | Some n \<Rightarrow> Ok (link n (Some b) (case bnext h n of None \<Rightarrow> h | Some m \<Rightarrow> link b (Some m) h))))"

definition finsh_block_remove :: "which \<Rightarrow> nat \<Rightarrow> heap \<Rightarrow> heap res" where
  "finsh_block_remove l b h =
    (if head l h = Some b then Ok (link b None (set_head l (bnext h b) h))
     else rbind (walk HEADERS (\<lambda>n. bnext h n = Some b) h (head l h)) (\<lambda>r.
       Ok (case r of None \<Rightarrow> h | Some n \<Rightarrow> link n (bnext h b) h)))"

definition finsh_block_split :: "nat \<Rightarrow> nat \<Rightarrow> heap \<Rightarrow> heap" where
  "finsh_block_split b n h =
    (let r = b + HEADER + n in
     link b (Some r) (link r (bnext h b) (set_len b n (set_len r (blen h b - HEADER - n) h))))"

definition adjacent :: "nat \<Rightarrow> nat option \<Rightarrow> heap \<Rightarrow> bool" where
  "adjacent b r h = (r = Some (b + blen h b + HEADER))"

definition finsh_block_merge :: "which \<Rightarrow> nat \<Rightarrow> heap \<Rightarrow> heap res" where
  "finsh_block_merge l b h =
    rbind (if head l h = Some b then Ok None else walk HEADERS (\<lambda>n. bnext h n = Some b) h (head l h)) (\<lambda>prev.
      let nxt = bnext h b; nlen = (case nxt of Some n \<Rightarrow> blen h n | None \<Rightarrow> 0);
          nnext = (case nxt of Some n \<Rightarrow> bnext h n | None \<Rightarrow> None) in
      Ok (case prev of
            Some p \<Rightarrow>
              (if adjacent p (Some b) h then
                 (if adjacent b nxt h
                  then link p nnext (set_len p (blen h p + blen h b + nlen + 2 * HEADER) h)
                  else link p nxt (set_len p (blen h p + blen h b + HEADER) h))
               else if adjacent b nxt h then link b nnext (set_len b (blen h b + nlen + HEADER) h)
               else h)
          | None \<Rightarrow>
              (if adjacent b nxt h then link b nnext (set_len b (blen h b + nlen + HEADER) h) else h)))"

section \<open>Allocating and releasing\<close>

definition finsh_heap_free :: "nat \<Rightarrow> heap \<Rightarrow> heap res" where
  "finsh_heap_free b h = rbind (finsh_block_remove Allocated b h) (\<lambda>h.
     rbind (finsh_block_insert Free b h) (finsh_block_merge Free b))"

text \<open>A block is in use when a shell variable in use holds its address.\<close>

definition block_data :: "exports \<Rightarrow> nat \<Rightarrow> u32" where
  "block_data x b = finsh_heap_at x + of_nat (b + HEADER)"

definition in_use :: "exports \<Rightarrow> finsh_var list \<Rightarrow> memory \<Rightarrow> nat \<Rightarrow> bool" where
  "in_use x vs m b = (\<exists>i \<in> set [0..<length vs]. var_type (vs ! i) \<noteq> type_unknown \<and>
     load Dword m (var_value_at x i) = Some (sint (block_data x b)))"

fun gc_loop :: "nat \<Rightarrow> (nat \<Rightarrow> bool) \<Rightarrow> nat option \<Rightarrow> heap \<Rightarrow> heap res" where
  "gc_loop n used None h = Ok h"
| "gc_loop 0 used (Some b) h = Halt"
| "gc_loop (Suc n) used (Some b) h =
    (let nxt = bnext h b in
     rbind (if used b then Ok h else finsh_heap_free b h) (gc_loop n used nxt))"

definition finsh_heap_gc :: "exports \<Rightarrow> finsh_var list \<Rightarrow> memory \<Rightarrow> heap \<Rightarrow> heap res" where
  "finsh_heap_gc x vs m h = gc_loop HEADERS (in_use x vs m) (halloc h) h"

definition take_block :: "nat \<Rightarrow> nat \<Rightarrow> heap \<Rightarrow> (nat option \<times> heap) res" where
  "take_block n b h = rbind (finsh_block_remove Free b (finsh_block_split b n h)) (\<lambda>h.
     rbind (finsh_block_insert Allocated b (link b None h)) (\<lambda>h. Ok (Some b, h)))"

text \<open>
  First fit, with a garbage collection in between. Before it a block must be strictly longer than
  the size and a header.
\<close>

definition finsh_heap_allocate ::
  "exports \<Rightarrow> finsh_var list \<Rightarrow> memory \<Rightarrow> nat \<Rightarrow> heap \<Rightarrow> (nat option \<times> heap) res" where
  "finsh_heap_allocate x vs m sz h =
    (let n = HEAP_ALIGN_SIZE sz in
     rbind (walk HEADERS (\<lambda>b. \<not> blen h b \<le> n + HEADER) h (hfree h)) (\<lambda>r.
       case r of
         Some b \<Rightarrow> take_block n b h
       | None \<Rightarrow> rbind (finsh_heap_gc x vs m h) (\<lambda>h.
           rbind (walk HEADERS (\<lambda>b. \<not> blen h b < n + HEADER) h (hfree h)) (\<lambda>r.
             case r of None \<Rightarrow> Ok (None, h) | Some b \<Rightarrow> take_block n b h))))"

end
