(* ===== verification/Finsh_Parse.thy ===== *)
theory Finsh_Parse
  imports Finsh_Lex Finsh_Heap
begin

text \<open>
  The parser of the command shell (\<open>finsh_parser.c\<close>): recursive descent over the scanner, building
  nodes from the table of 16. The recursion is bounded by a number of calls; \<open>Halt\<close> stands for a
  run that has not ended within it.
\<close>

unbundle bit_operations_syntax

section \<open>State\<close>

text \<open>The scanner with the global state the parser works on.\<close>

record parser =
  scanner :: lex
  used :: nat
  vars :: "finsh_var list"
  heap_of :: heap
  memory_of :: memory

definition next_token :: "parser \<Rightarrow> (token \<times> parser) res" where
  "next_token s = rbind (finsh_token_token (scanner s)) (\<lambda>(k, t). Ok (k, s\<lparr>scanner := t\<rparr>))"

definition replay_token :: "parser \<Rightarrow> parser" where
  "replay_token s = s\<lparr>scanner := finsh_token_replay (scanner s)\<rparr>"

definition parse_error :: "finsh_error \<Rightarrow> parser \<Rightarrow> parser" where
  "parse_error e s = s\<lparr>scanner := set_errno e (scanner s)\<rparr>"

definition check_token :: "token \<Rightarrow> token \<Rightarrow> parser \<Rightarrow> parser" where
  "check_token t want s = (if t \<noteq> want then replay_token (parse_error ERROR_INVALID_TOKEN s) else s)"

definition match_token :: "token \<Rightarrow> parser \<Rightarrow> parser res" where
  "match_token want s = rbind (next_token s) (\<lambda>(t, s). Ok (check_token t want s))"

section \<open>Nodes\<close>

definition new_node :: "node_type \<Rightarrow> parser \<Rightarrow> finsh_node \<times> parser" where
  "new_node t s = (let (n, u) = finsh_node_allocate t (used s) in (n, s\<lparr>used := u\<rparr>))"

fun set_ident :: "u8 \<Rightarrow> symbol \<Rightarrow> finsh_node \<Rightarrow> finsh_node" where
  "set_ident idt sb (Node t d _ v _ c s) = Node t d idt v (Some sb) c s"
| "set_ident idt sb Null = Null"

fun set_value :: "u32 \<Rightarrow> finsh_node \<Rightarrow> finsh_node" where
  "set_value v (Node t d i _ sb c s) = Node t d i v sb c s"
| "set_value v Null = Null"

fun set_data :: "u8 \<Rightarrow> finsh_node \<Rightarrow> finsh_node" where
  "set_data d (Node t _ i v sb c s) = Node t d i v sb c s"
| "set_data d Null = Null"

fun set_child :: "finsh_node \<Rightarrow> finsh_node \<Rightarrow> finsh_node" where
  "set_child c (Node t d i v sb _ s) = Node t d i v sb c s"
| "set_child c Null = Null"

text \<open>An allocated node, or the error that the table is full.\<close>

definition or_full :: "(finsh_node \<Rightarrow> finsh_node) \<Rightarrow> finsh_node \<times> parser \<Rightarrow> finsh_node \<times> parser" where
  "or_full f ns = (case ns of (Null, s) \<Rightarrow> (Null, parse_error ERROR_MEMORY_FULL s) | (n, s) \<Rightarrow> (f n, s))"

text \<open>
  The name of an identifier is copied to a buffer of 17 bytes that is terminated only when the
  name is shorter than 16: looking a longer name up in the exports reads a byte never written.
\<close>

definition find_symbol :: "exports \<Rightarrow> name \<Rightarrow> finsh_var list \<Rightarrow> (u8 \<times> symbol) option res" where
  "find_symbol x nm vs =
    (case finsh_var_lookup nm vs of
       Some i \<Rightarrow> Ok (Some (IDTYPE_VAR, IdVar i))
     | None \<Rightarrow>
        if FINSH_NAME_MAX \<le> length nm then Fault
        else (case finsh_sysvar_lookup nm x of
            Some v \<Rightarrow> Ok (Some (IDTYPE_SYSVAR, IdSysvar v))
          | None \<Rightarrow> Ok (map_option (\<lambda>f. (IDTYPE_SYSCALL, IdSyscall f)) (finsh_syscall_lookup nm x))))"

definition finsh_node_new_id :: "exports \<Rightarrow> name \<Rightarrow> parser \<Rightarrow> (finsh_node \<times> parser) res" where
  "finsh_node_new_id x nm s = rbind (find_symbol x nm (vars s)) (\<lambda>r. Ok (case r of
      None \<Rightarrow> (Null, parse_error ERROR_UNKNOWN_SYMBOL s)
    | Some (idt, sb) \<Rightarrow> or_full (set_ident idt sb) (new_node NODE_ID s)))"

definition new_value :: "node_type \<Rightarrow> u32 \<Rightarrow> parser \<Rightarrow> finsh_node \<times> parser" where
  "new_value t v s = or_full (set_value v) (new_node t s)"

definition finsh_node_new_char :: "u8 \<Rightarrow> parser \<Rightarrow> finsh_node \<times> parser" where
  "finsh_node_new_char c s = new_value VALUE_CHAR (ucast c) s"

definition finsh_node_new_int :: "u32 \<Rightarrow> parser \<Rightarrow> finsh_node \<times> parser" where
  "finsh_node_new_int v s = new_value VALUE_INT v s"

definition finsh_node_new_long :: "u32 \<Rightarrow> parser \<Rightarrow> finsh_node \<times> parser" where
  "finsh_node_new_long v s = new_value VALUE_LONG v s"

definition finsh_node_new_ptr :: "u32 \<Rightarrow> parser \<Rightarrow> finsh_node \<times> parser" where
  "finsh_node_new_ptr v s = new_value VALUE_NULL v s"

fun put_bytes :: "memory \<Rightarrow> u32 \<Rightarrow> u8 list \<Rightarrow> memory option" where
  "put_bytes m a [] = Some m"
| "put_bytes m a (b # bs) = Option.bind (put_byte m a (uint b)) (\<lambda>m. put_bytes m (a + 1) bs)"

text \<open>A string is copied to the heap; a full heap returns a null pointer, which is written through.\<close>

definition finsh_node_new_string :: "exports \<Rightarrow> u8 list \<Rightarrow> parser \<Rightarrow> (finsh_node \<times> parser) res" where
  "finsh_node_new_string x str s =
    (case new_node VALUE_STRING s of
       (Null, s) \<Rightarrow> Ok (Null, parse_error ERROR_MEMORY_FULL s)
     | (n, s) \<Rightarrow>
        rbind (finsh_heap_allocate x (vars s) (memory_of s) (length str + 1) (heap_of s)) (\<lambda>(b, h).
          case b of None \<Rightarrow> Fault
          | Some b \<Rightarrow>
             rbind (of_option (put_bytes (memory_of s) (block_data x b)
                 (str @ replicate (HEAP_ALIGN_SIZE (length str + 1) - length str) 0))) (\<lambda>m.
               Ok (set_value (block_data x b) n, s\<lparr>heap_of := h, memory_of := m\<rparr>))))"

text \<open>The first operand becomes the child, the second its sibling; both are lost on an error.\<close>

definition make_sys_node :: "node_type \<Rightarrow> finsh_node \<Rightarrow> finsh_node \<Rightarrow> parser \<Rightarrow> finsh_node \<times> parser" where
  "make_sys_node t n1 n2 s = (let (n, s) = new_node t s in
     if n1 \<noteq> Null \<and> n \<noteq> Null then (set_child (set_sibling n1 n2) n, s) else (n, parse_error ERROR_NULL_NODE s))"

fun chain :: "finsh_node list \<Rightarrow> finsh_node" where
  "chain [] = Null"
| "chain (n # ns) = set_sibling n (chain ns)"

section \<open>Types and identifiers\<close>

fun base_type :: "token \<Rightarrow> finsh_type option" where
  "base_type Tvoid = Some type_void"
| "base_type Tchar = Some type_char"
| "base_type Tshort = Some type_short"
| "base_type Tint = Some type_int"
| "base_type Tlong = Some type_long"
| "base_type _ = None"

fun unsigned_type :: "token \<Rightarrow> finsh_type option" where
  "unsigned_type Tchar = Some type_uchar"
| "unsigned_type Tshort = Some type_ushort"
| "unsigned_type Tint = Some type_uint"
| "unsigned_type Tlong = Some type_ulong"
| "unsigned_type _ = None"

fun pointer_type :: "finsh_type \<Rightarrow> finsh_type" where
  "pointer_type type_void = type_voidp"
| "pointer_type type_char = type_charp"
| "pointer_type type_uchar = type_charp"
| "pointer_type type_short = type_shortp"
| "pointer_type type_ushort = type_shortp"
| "pointer_type type_int = type_intp"
| "pointer_type type_uint = type_intp"
| "pointer_type type_long = type_longp"
| "pointer_type type_ulong = type_longp"
| "pointer_type _ = type_voidp"

definition proc_pointer :: "finsh_type \<Rightarrow> parser \<Rightarrow> (finsh_type \<times> parser) res" where
  "proc_pointer t s = rbind (next_token s) (\<lambda>(k, s).
     Ok (if k = Tmul then (pointer_type t, s) else (t, replay_token s)))"

definition no_type :: "parser \<Rightarrow> (finsh_type \<times> parser) res" where
  "no_type s = Ok (type_unknown, parse_error ERROR_UNKNOWN_TYPE (replay_token s))"

definition proc_type :: "parser \<Rightarrow> (finsh_type \<times> parser) res" where
  "proc_type s = rbind (next_token s) (\<lambda>(k, s).
     case base_type k of
       Some t \<Rightarrow> proc_pointer t s
     | None \<Rightarrow>
        if k = Tunsigned then rbind (next_token s) (\<lambda>(k, s).
          case unsigned_type k of
            Some t \<Rightarrow> proc_pointer t s
          | None \<Rightarrow> if base_type k \<noteq> None then no_type s
              else proc_pointer type_unknown (parse_error ERROR_EXPECT_TYPE (replay_token s)))
        else no_type s)"

definition proc_identifier :: "parser \<Rightarrow> (name \<times> parser) res" where
  "proc_identifier s = rbind (match_token Tidentifier s) (\<lambda>s. Ok (take FINSH_NAME_MAX (c_text (tstring (scanner s))), s))"

section \<open>Expressions\<close>

text \<open>
  The six binary levels \<open>proc_inclusive_or_expr\<close>, \<open>proc_exclusive_or_expr\<close>, \<open>proc_and_expr\<close>,
  \<open>proc_shift_expr\<close>, \<open>proc_additive_expr\<close> and \<open>proc_multiplicative_expr\<close> differ in their operators
  and in the level they call: they are levels 0 to 5 of one function.
\<close>

fun level_op :: "nat \<Rightarrow> token \<Rightarrow> binop option" where
  "level_op l Tor = (if l = 0 then Some Or else None)"
| "level_op l Txor = (if l = 1 then Some Xor else None)"
| "level_op l Tand = (if l = 2 then Some And else None)"
| "level_op l Tshl = (if l = 3 then Some Shl else None)"
| "level_op l Tshr = (if l = 3 then Some Shr else None)"
| "level_op l Tsub = (if l = 4 then Some Sub else None)"
| "level_op l Tadd = (if l = 4 then Some Add else None)"
| "level_op l Tmul = (if l = 5 then Some Mul else None)"
| "level_op l Tdiv = (if l = 5 then Some Div else None)"
| "level_op l Tmod = (if l = 5 then Some Mod else None)"
| "level_op l _ = None"

definition unary_node :: "node_type \<Rightarrow> finsh_node \<times> parser \<Rightarrow> (finsh_node \<times> parser) res" where
  "unary_node t ns = (case ns of (n, s) \<Rightarrow> Ok (make_sys_node t n Null s))"

text \<open>
  The calls the parser makes to itself. Each routine is given the calls it may make; \<open>proc\<close> ties
  them together and counts the depth of the recursion.
\<close>

datatype call =
    Assign_expr
  | Binary_expr nat
  | Binary_loop nat finsh_node
  | Cast_expr
  | Unary_expr
  | Postfix_expr
  | Postfix_loop finsh_node
  | Primary_expr
  | Param_list
  | Param_loop "finsh_node list"

type_synonym calls = "call \<Rightarrow> parser \<Rightarrow> (finsh_node \<times> parser) res"

definition proc_assign_expr :: "calls \<Rightarrow> parser \<Rightarrow> (finsh_node \<times> parser) res" where
  "proc_assign_expr rec s = rbind (rec (Binary_expr 0) s) (\<lambda>(e, s). rbind (next_token s) (\<lambda>(k, s).
     if k = Tassign then rbind (rec Assign_expr s) (\<lambda>(a, s). Ok (make_sys_node SYS_ASSIGN e a s))
     else Ok (e, replay_token s)))"

definition proc_binary_expr :: "calls \<Rightarrow> nat \<Rightarrow> parser \<Rightarrow> (finsh_node \<times> parser) res" where
  "proc_binary_expr rec l s = (if l > 5 then rec Cast_expr s
     else rbind (rec (Binary_expr (l + 1)) s) (\<lambda>(e, s). rec (Binary_loop l e) s))"

definition binary_loop :: "calls \<Rightarrow> nat \<Rightarrow> finsh_node \<Rightarrow> parser \<Rightarrow> (finsh_node \<times> parser) res" where
  "binary_loop rec l e s = rbind (next_token s) (\<lambda>(k, s). case level_op l k of
       None \<Rightarrow> Ok (e, replay_token s)
     | Some b \<Rightarrow> rbind (rec (Binary_expr (l + 1)) s) (\<lambda>(f, s).
         if f = Null then rec (Binary_loop l e) (parse_error ERROR_EXPECT_OPERATOR s)
         else (case make_sys_node (SYS b) e f s of (e, s) \<Rightarrow> rec (Binary_loop l e) s)))"

definition proc_cast_expr :: "calls \<Rightarrow> parser \<Rightarrow> (finsh_node \<times> parser) res" where
  "proc_cast_expr rec s = rbind (next_token s) (\<lambda>(k, s).
     if k = Tleft_paren then
       rbind (proc_type s) (\<lambda>(t, s). rbind (match_token Tright_paren s) (\<lambda>s.
         rbind (rec Cast_expr s) (\<lambda>(c, s).
           if c \<noteq> Null then Ok (set_data (type_no t) c, s) else rec Unary_expr (replay_token s))))
     else rec Unary_expr (replay_token s))"

definition proc_unary_expr :: "calls \<Rightarrow> parser \<Rightarrow> (finsh_node \<times> parser) res" where
  "proc_unary_expr rec s = rbind (next_token s) (\<lambda>(k, s).
     if k = Tadd then rec Cast_expr s
     else if k = Tinc then rbind (rec Cast_expr s) (unary_node SYS_PREINC)
     else if k = Tsub then rbind (rec Cast_expr s) (\<lambda>(c, s).
       case finsh_node_new_long 0 s of (z, s) \<Rightarrow> Ok (make_sys_node (SYS Sub) z c s))
     else if k = Tdec then rbind (rec Cast_expr s) (unary_node SYS_PREDEC)
     else if k = Tbitwise then rbind (rec Cast_expr s) (unary_node SYS_BITWISE)
     else if k = Tmul then rbind (rec Cast_expr s) (unary_node SYS_GETVALUE)
     else if k = Tand then rbind (rec Cast_expr s) (unary_node SYS_GETADDR)
     else rec Postfix_expr (replay_token s))"

definition proc_postfix_expr :: "calls \<Rightarrow> parser \<Rightarrow> (finsh_node \<times> parser) res" where
  "proc_postfix_expr rec s = rbind (rec Primary_expr s) (\<lambda>(e, s). rec (Postfix_loop e) s)"

definition postfix_loop :: "calls \<Rightarrow> finsh_node \<Rightarrow> parser \<Rightarrow> (finsh_node \<times> parser) res" where
  "postfix_loop rec e s = rbind (next_token s) (\<lambda>(k, s).
     if k = Tinc then (case make_sys_node SYS_INC e Null s of (e, s) \<Rightarrow> rec (Postfix_loop e) s)
     else if k = Tdec then (case make_sys_node SYS_DEC e Null s of (e, s) \<Rightarrow> rec (Postfix_loop e) s)
     else if k = Tleft_paren then rbind (next_token s) (\<lambda>(k, s).
       rbind (if k = Tright_paren then Ok (Null, s)
         else rbind (rec Param_list (replay_token s)) (\<lambda>(ps, s).
           rbind (match_token Tright_paren s) (\<lambda>s. Ok (ps, s)))) (\<lambda>(ps, s).
         case make_sys_node SYS_FUNC e ps s of (e, s) \<Rightarrow> rec (Postfix_loop e) s))
     else Ok (e, replay_token s))"

definition proc_primary_expr :: "exports \<Rightarrow> calls \<Rightarrow> parser \<Rightarrow> (finsh_node \<times> parser) res" where
  "proc_primary_expr x rec s = rbind (next_token s) (\<lambda>(k, s).
     if k = Tidentifier then
       rbind (proc_identifier (replay_token s)) (\<lambda>(nm, s). finsh_node_new_id x nm s)
     else if k = Tleft_paren then rbind (rec Assign_expr s) (\<lambda>(e, s).
       rbind (match_token Tright_paren s) (\<lambda>s. Ok (e, s)))
     else if k = Tvalue_int then Ok (finsh_node_new_int (tvalue (scanner s)) s)
     else if k = Tvalue_long then Ok (finsh_node_new_long (tvalue (scanner s)) s)
     else if k = Tvalue_char then Ok (finsh_node_new_char (ucast (tvalue (scanner s))) s)
     else if k = Tvalue_string then finsh_node_new_string x (c_text (tstring (scanner s))) s
     else if k = Tvalue_null then Ok (finsh_node_new_ptr 0 s)
     else Ok (Null, parse_error ERROR_INVALID_TOKEN s))"

definition proc_param_list :: "calls \<Rightarrow> parser \<Rightarrow> (finsh_node \<times> parser) res" where
  "proc_param_list rec s = rbind (rec Assign_expr s) (\<lambda>(a, s).
     if a = Null then Ok (Null, s) else rec (Param_loop [a]) s)"

definition param_loop :: "calls \<Rightarrow> finsh_node list \<Rightarrow> parser \<Rightarrow> (finsh_node \<times> parser) res" where
  "param_loop rec ps s = rbind (next_token s) (\<lambda>(k, s).
     if k = Tcomma then rbind (rec Assign_expr s) (\<lambda>(a, s).
       if a \<noteq> Null then rec (Param_loop (ps @ [a])) s else rec (Param_loop ps) (parse_error ERROR_EXPECT_OPERATOR s))
     else Ok (chain ps, replay_token s))"

definition proc_call :: "exports \<Rightarrow> calls \<Rightarrow> calls" where
  "proc_call x rec c s = (case c of
     Assign_expr \<Rightarrow> proc_assign_expr rec s
   | Binary_expr l \<Rightarrow> proc_binary_expr rec l s
   | Binary_loop l e \<Rightarrow> binary_loop rec l e s
   | Cast_expr \<Rightarrow> proc_cast_expr rec s
   | Unary_expr \<Rightarrow> proc_unary_expr rec s
   | Postfix_expr \<Rightarrow> proc_postfix_expr rec s
   | Postfix_loop e \<Rightarrow> postfix_loop rec e s
   | Primary_expr \<Rightarrow> proc_primary_expr x rec s
   | Param_list \<Rightarrow> proc_param_list rec s
   | Param_loop ps \<Rightarrow> param_loop rec ps s)"

primrec proc :: "exports \<Rightarrow> nat \<Rightarrow> calls" where
  "proc x 0 = (\<lambda>c s. Halt)"
| "proc x (Suc n) = proc_call x (proc x n)"

section \<open>Statements\<close>

text \<open>An expression, as \<open>proc_expr\<close> starts it, with the given depth of recursion.\<close>

definition proc_expr :: "exports \<Rightarrow> nat \<Rightarrow> parser \<Rightarrow> (finsh_node \<times> parser) res" where
  "proc_expr x n s = proc x n Assign_expr s"

definition proc_expr_statement :: "exports \<Rightarrow> nat \<Rightarrow> parser \<Rightarrow> (finsh_node \<times> parser) res" where
  "proc_expr_statement x n s = rbind (next_token s) (\<lambda>(k, s).
     if k = Tsemicolon then Ok (Null, s)
     else rbind (proc_expr x n (replay_token s)) (\<lambda>(e, s).
       rbind (match_token Tsemicolon s) (\<lambda>s. Ok (e, s))))"

definition declare_var :: "finsh_type \<Rightarrow> parser \<Rightarrow> (name \<times> parser) res" where
  "declare_var t s = rbind (proc_identifier s) (\<lambda>(nm, s).
     case finsh_var_insert nm t (vars s) of
       (Some i, vs) \<Rightarrow> Ok (nm, s\<lparr>vars := vs\<rparr>)
     | (None, vs) \<Rightarrow> Ok (nm, parse_error ERROR_VARIABLE_EXIST s))"

text \<open>
  The list of assignments of a declaration starts anew while its first node is null; appending
  behind a null node writes through it.
\<close>

definition append_node :: "finsh_node list \<Rightarrow> finsh_node \<Rightarrow> finsh_node list res" where
  "append_node ns e = (if ns = [] \<or> hd ns = Null then Ok [e]
     else if last ns = Null then Fault else Ok (ns @ [e]))"

text \<open>
  An initial value: the assignment is appended to the ones before it, and the next token is read;
  without a value the token stays as it is.
\<close>

definition decl_value :: "exports \<Rightarrow> nat \<Rightarrow> name \<Rightarrow> finsh_node list \<Rightarrow> parser \<Rightarrow> (finsh_node list \<times> token \<times> parser) res" where
  "decl_value x n nm ns s = rbind (proc x n Assign_expr s) (\<lambda>(a, s).
     if a = Null then Ok (ns, Tassign, s)
     else rbind (finsh_node_new_id x nm s) (\<lambda>(i, s).
       case make_sys_node SYS_ASSIGN i a s of (e, s) \<Rightarrow>
         rbind (append_node ns e) (\<lambda>ns. rbind (next_token s) (\<lambda>(k, s). Ok (ns, k, s)))))"

fun decl_loop :: "exports \<Rightarrow> nat \<Rightarrow> finsh_type \<Rightarrow> finsh_node list \<Rightarrow> token \<Rightarrow> parser \<Rightarrow> (finsh_node \<times> parser) res" where
  "decl_loop x 0 t ns k s = Halt"
| "decl_loop x (Suc n) t ns k s =
    (if k = Tcomma then rbind (declare_var t s) (\<lambda>(nm, s). rbind (next_token s) (\<lambda>(k, s).
       if k = Tassign then rbind (decl_value x n nm ns s) (\<lambda>(ns, k, s). decl_loop x n t ns k s)
       else decl_loop x n t ns k s))
     else Ok (chain ns, check_token k Tsemicolon s))"

definition proc_variable_decl :: "exports \<Rightarrow> nat \<Rightarrow> parser \<Rightarrow> (finsh_node \<times> parser) res" where
  "proc_variable_decl x n s = rbind (proc_type s) (\<lambda>(t, s). rbind (declare_var t s) (\<lambda>(nm, s).
     rbind (next_token s) (\<lambda>(k, s).
       if k = Tcomma then decl_loop x n t [] k s
       else if k = Tassign then rbind (decl_value x n nm [] s) (\<lambda>(ns, k, s). decl_loop x n t ns k s)
       else if k = Tsemicolon then Ok (Null, s)
       else Ok (Null, parse_error ERROR_EXPECT_TYPE s))))"

section \<open>Lines\<close>

text \<open>
  \<open>attach i n r\<close> makes \<open>n\<close> the sibling of the node at place \<open>i\<close> of the list of siblings \<open>r\<close>; what
  followed that node is lost.
\<close>

fun attach :: "nat \<Rightarrow> finsh_node \<Rightarrow> finsh_node \<Rightarrow> finsh_node" where
  "attach i n Null = Null"
| "attach 0 n (Node t d idt v sb c s) = Node t d idt v sb c n"
| "attach (Suc i) n (Node t d idt v sb c s) = Node t d idt v sb c (attach i n s)"

text \<open>
  The state of \<open>finsh_parser_run\<close>: the root, and the place of the node that the next statement is
  attached to. After a statement that is not empty the place moves on by one.
\<close>

definition add_statement :: "finsh_node \<Rightarrow> finsh_node \<times> nat \<Rightarrow> finsh_node \<times> nat" where
  "add_statement n r = (case r of (root, i) \<Rightarrow>
     if root = Null then (n, 0) else (attach i n root, if n = Null then i else i + 1))"

definition is_type_token :: "token \<Rightarrow> bool" where
  "is_type_token k = (base_type k \<noteq> None \<or> k = Tunsigned)"

fun run_loop :: "exports \<Rightarrow> nat \<Rightarrow> token \<Rightarrow> finsh_node \<times> nat \<Rightarrow> parser \<Rightarrow> (finsh_node \<times> parser) res" where
  "run_loop x 0 k r s = Halt"
| "run_loop x (Suc n) k r s =
    (if k = Teof \<or> k = Tbad then Ok (fst r, s)
     else rbind (if is_type_token k then proc_variable_decl x n (replay_token s)
                 else proc_expr_statement x n (replay_token s)) (\<lambda>(e, s).
       rbind (if k \<noteq> Tidentifier \<and> \<not> is_type_token k \<and> fst r \<noteq> Null \<and> e = Null
              then next_token s else Ok (k, s)) (\<lambda>(_, s).
         rbind (next_token s) (\<lambda>(k, s). run_loop x n k (add_statement e r) s))))"

definition finsh_parser_run :: "exports \<Rightarrow> nat \<Rightarrow> u8 list \<Rightarrow> parser \<Rightarrow> (finsh_node \<times> parser) res" where
  "finsh_parser_run x n l s =
    rbind (next_token (s\<lparr>scanner := finsh_token_init l (errno (scanner s))\<rparr>)) (\<lambda>(k, s). run_loop x n k (Null, 0) s)"

end
