(* ===== verification/Finsh_Comp.thy ===== *)
theory Finsh_Comp
  imports Finsh_Node
begin

text \<open>
  The compiler of the command shell (\<open>finsh_compiler.c\<close>): a pass over the tree that marks
  addresses and data types, and a pass that writes operation codes into the text segment. A
  reference evaluation of expressions says what the compiled code must compute.
\<close>

unbundle bit_operations_syntax

section \<open>Types\<close>

definition DATA_VOID :: u8 where "DATA_VOID = 0x00"
definition DATA_BYTE :: u8 where "DATA_BYTE = 0x01"
definition DATA_WORD :: u8 where "DATA_WORD = 0x02"
definition DATA_DWORD :: u8 where "DATA_DWORD = 0x03"

lemmas data_types = DATA_VOID_def DATA_BYTE_def DATA_WORD_def DATA_DWORD_def

text \<open>The data type of a variable in the type check; an unknown type is an error.\<close>

fun type_data :: "finsh_type \<Rightarrow> u8 option" where
  "type_data type_unknown = None"
| "type_data type_void = Some DATA_VOID"
| "type_data type_char = Some DATA_BYTE"
| "type_data type_uchar = Some DATA_BYTE"
| "type_data type_short = Some DATA_WORD"
| "type_data type_ushort = Some DATA_WORD"
| "type_data type_int = Some DATA_DWORD"
| "type_data type_uint = Some DATA_DWORD"
| "type_data type_long = Some DATA_DWORD"
| "type_data type_ulong = Some DATA_DWORD"
| "type_data type_charp = Some DATA_DWORD"
| "type_data type_voidp = Some DATA_DWORD"
| "type_data type_shortp = Some DATA_DWORD"
| "type_data type_intp = Some DATA_DWORD"
| "type_data type_longp = Some DATA_DWORD"

text \<open>The width of a variable in the code generator, which has no case for \<open>void\<close> pointers.\<close>

fun type_width :: "finsh_type \<Rightarrow> width option" where
  "type_width type_char = Some Byte"
| "type_width type_uchar = Some Byte"
| "type_width type_short = Some Word"
| "type_width type_ushort = Some Word"
| "type_width type_int = Some Dword"
| "type_width type_uint = Some Dword"
| "type_width type_long = Some Dword"
| "type_width type_ulong = Some Dword"
| "type_width type_charp = Some Dword"
| "type_width type_shortp = Some Dword"
| "type_width type_intp = Some Dword"
| "type_width type_longp = Some Dword"
| "type_width _ = None"

definition data_width :: "u8 \<Rightarrow> width option" where
  "data_width d = (if d = DATA_BYTE then Some Byte else if d = DATA_WORD then Some Word
     else if d = DATA_DWORD then Some Dword else None)"

section \<open>Type check\<close>

text \<open>
  The type of an identifier leaf; \<open>vs\<close> is the table of shell variables.
\<close>

definition check_id :: "finsh_var list \<Rightarrow> symbol option \<Rightarrow> u8 \<Rightarrow> u8 \<Rightarrow> finsh_error \<Rightarrow> u8 \<times> finsh_error" where
  "check_id vs sb idt d err =
    (let by_type = (\<lambda>t. case type_data t of Some d' \<Rightarrow> (d', err) | None \<Rightarrow> (d, ERROR_UNKNOWN_TYPE)) in
     if idt AND IDTYPE_VAR \<noteq> 0 then
       (case sb of Some (IdVar i) \<Rightarrow> by_type (var_type (vs ! i)) | _ \<Rightarrow> (d, err))
     else if idt AND IDTYPE_SYSVAR \<noteq> 0 then
       (case sb of Some (IdSysvar v) \<Rightarrow> by_type (sysvar_type v) | _ \<Rightarrow> (d, err))
     else (d, err))"

definition child_flag :: "node_type \<Rightarrow> u8 \<Rightarrow> u8" where
  "child_flag t is_addr =
    (if t = SYS_ASSIGN \<or> t = SYS_PREINC \<or> t = SYS_PREDEC \<or> t = SYS_GETADDR then IDTYPE_ADDRESS
     else if t = SYS_GETVALUE \<and> is_addr \<noteq> 0 then 0
     else is_addr)"

definition leaf_type :: "finsh_var list \<Rightarrow> node_type \<Rightarrow> symbol option \<Rightarrow> u8 \<Rightarrow> u8 \<Rightarrow> finsh_error \<Rightarrow> u8 \<times> finsh_error" where
  "leaf_type vs t sb idt d err =
    (if t = NODE_ID then check_id vs sb idt d err
     else if t = VALUE_CHAR then (DATA_BYTE, err)
     else if t \<in> {VALUE_INT, VALUE_LONG, VALUE_STRING, VALUE_NULL} then (DATA_DWORD, err)
     else (d, err))"

fun finsh_type_check :: "finsh_var list \<Rightarrow> finsh_node \<Rightarrow> u8 \<Rightarrow> finsh_error \<Rightarrow> finsh_node \<times> finsh_error" where
  "finsh_type_check vs Null is_addr err = (Null, err)"
| "finsh_type_check vs (Node t d idt v sb c s) is_addr err =
    (let (c', err) = finsh_type_check vs c (child_flag t is_addr) err;
         (s', err) = finsh_type_check vs s 0 err;
         idt' = (if idt \<noteq> IDTYPE_SYSCALL then idt OR is_addr else idt);
         (d', err) = (case c' of Node _ dc _ _ _ _ _ \<Rightarrow> (dc, err)
                      | Null \<Rightarrow> leaf_type vs t sb idt' d err)
     in (Node t d' idt' v sb c' s', err))"

section \<open>Code generation\<close>

text \<open>
  The increments read \<open>id.var\<close> whatever the identifier is: for an export this is the address of
  the entry, taken as a \<open>struct finsh_var\<close>.
\<close>

fun id_var_value_at :: "exports \<Rightarrow> symbol option \<Rightarrow> u32" where
  "id_var_value_at x (Some (IdVar i)) = var_value_at x i"
| "id_var_value_at x (Some (IdSysvar v)) = sysvar_at v + 20"
| "id_var_value_at x (Some (IdSyscall f)) = syscall_at f + 20"
| "id_var_value_at x None = 20"

definition load_symbol :: "u8 \<Rightarrow> finsh_type \<Rightarrow> u32 \<Rightarrow> u8 list" where
  "load_symbol idt t a = (case type_width t of None \<Rightarrow> []
     | Some w \<Rightarrow> (if idt AND IDTYPE_ADDRESS \<noteq> 0 then FINSH_OP_LD Dword else FINSH_OP_LD_VALUE w) # code_dword a)"

definition compile_id :: "exports \<Rightarrow> finsh_var list \<Rightarrow> u8 \<Rightarrow> symbol option \<Rightarrow> u8 list res" where
  "compile_id x vs idt sb =
    (if idt AND IDTYPE_SYSCALL \<noteq> 0 then
       (case sb of Some (IdSyscall f) \<Rightarrow> Ok (FINSH_OP_LD Dword # code_dword (syscall_func f)) | _ \<Rightarrow> Fault)
     else if idt AND IDTYPE_SYSVAR \<noteq> 0 then
       (case sb of Some (IdSysvar v) \<Rightarrow> Ok (load_symbol idt (sysvar_type v) (sysvar_var v))
        | None \<Rightarrow> Ok [] | _ \<Rightarrow> Fault)
     else
       (case sb of Some (IdVar i) \<Rightarrow> Ok (load_symbol idt (var_type (vs ! i)) (var_value_at x i))
        | None \<Rightarrow> Ok [] | _ \<Rightarrow> Fault))"

text \<open>The constant 1 of a width as an immediate operand.\<close>

fun code_one :: "width \<Rightarrow> u8 list" where
  "code_one Byte = [1]" | "code_one Word = [1, 0]" | "code_one Dword = code_dword 1"

text \<open>
  Prefix and postfix steps of a variable; the prefix form always reloads four bytes.
\<close>

definition code_prefix :: "binop \<Rightarrow> width \<Rightarrow> u32 \<Rightarrow> u8 list" where
  "code_prefix b w a = FINSH_OP_LD_VALUE w # code_dword a @ FINSH_OP_LD w # code_one w @
     [FINSH_OP_BIN b w, FINSH_OP_ST w, FINSH_OP_LD_VALUE_STACK Dword]"

definition code_postfix :: "binop \<Rightarrow> width \<Rightarrow> u32 \<Rightarrow> u8 list" where
  "code_postfix b w a = FINSH_OP_LD Dword # code_dword a @ FINSH_OP_LD_VALUE w # code_dword a @
     FINSH_OP_LD w # code_one w @ [FINSH_OP_BIN b w, FINSH_OP_ST w, FINSH_OP_POP]"

definition compile_step :: "exports \<Rightarrow> (width \<Rightarrow> u32 \<Rightarrow> u8 list) \<Rightarrow> u8 \<Rightarrow> finsh_node \<Rightarrow> u8 list res" where
  "compile_step x code d c = (case c of Null \<Rightarrow> Fault
     | Node t _ _ _ sb _ _ \<Rightarrow> Ok (if t = NODE_ID
         then (case data_width d of Some w \<Rightarrow> code w (id_var_value_at x sb) | None \<Rightarrow> []) else []))"

definition code_assign :: "width option \<Rightarrow> finsh_error \<Rightarrow> u8 list \<times> finsh_error" where
  "code_assign dw err = (case dw of
       Some w \<Rightarrow> ([FINSH_OP_ST w, FINSH_OP_LD_VALUE_STACK w], err)
     | None \<Rightarrow> ([], ERROR_UNKNOWN_TYPE))"

definition compile_assign :: "finsh_node \<Rightarrow> finsh_error \<Rightarrow> (u8 list \<times> finsh_error) res" where
  "compile_assign c err = (case c of Null \<Rightarrow> Fault
     | Node t d _ _ _ _ _ \<Rightarrow> Ok (
         if t = NODE_ID then code_assign (data_width d) err
         else if t = SYS_GETVALUE then code_assign (data_width (d AND 0x0F)) err
         else ([], err)))"

fun count_siblings :: "finsh_node \<Rightarrow> nat" where
  "count_siblings Null = 0"
| "count_siblings (Node _ _ _ _ _ _ s) = Suc (count_siblings s)"

definition by_width :: "(width \<Rightarrow> u8) \<Rightarrow> u8 \<Rightarrow> u8 list" where
  "by_width f d = (case data_width d of Some w \<Rightarrow> [f w] | None \<Rightarrow> [])"

text \<open>The code of a node itself, behind the code of its children.\<close>

definition compile_node ::
  "exports \<Rightarrow> finsh_var list \<Rightarrow> node_type \<Rightarrow> u8 \<Rightarrow> u8 \<Rightarrow> u32 \<Rightarrow> symbol option \<Rightarrow> finsh_node \<Rightarrow> finsh_error \<Rightarrow>
    (u8 list \<times> finsh_error) res" where
  "compile_node x vs t d idt v sb c err = (case t of
     NODE_ID \<Rightarrow> rbind (compile_id x vs idt sb) (\<lambda>code. Ok (code, err))
   | VALUE_CHAR \<Rightarrow> Ok ([FINSH_OP_LD Byte, ucast v], err)
   | VALUE_INT \<Rightarrow> Ok (FINSH_OP_LD Dword # code_dword v, err)
   | VALUE_LONG \<Rightarrow> Ok (FINSH_OP_LD Dword # code_dword v, err)
   | VALUE_NULL \<Rightarrow> Ok (FINSH_OP_LD Dword # code_dword v, err)
   | VALUE_STRING \<Rightarrow> Ok (FINSH_OP_LD Dword # code_dword v, err)
   | SYS b \<Rightarrow> Ok (by_width (FINSH_OP_BIN b) d, err)
   | SYS_BITWISE \<Rightarrow> Ok (by_width FINSH_OP_BITWISE d, err)
   | SYS_FUNC \<Rightarrow> (case c of Null \<Rightarrow> Fault
       | Node _ _ _ _ _ _ s \<Rightarrow> Ok ([FINSH_OP_SYSCALL, of_nat (count_siblings s)], err))
   | SYS_ASSIGN \<Rightarrow> compile_assign c err
   | SYS_PREINC \<Rightarrow> rbind (compile_step x (code_prefix Add) d c) (\<lambda>code. Ok (code, err))
   | SYS_PREDEC \<Rightarrow> rbind (compile_step x (code_prefix Sub) d c) (\<lambda>code. Ok (code, err))
   | SYS_INC \<Rightarrow> rbind (compile_step x (code_postfix Add) d c) (\<lambda>code. Ok (code, err))
   | SYS_DEC \<Rightarrow> rbind (compile_step x (code_postfix Sub) d c) (\<lambda>code. Ok (code, err))
   | SYS_NULL \<Rightarrow> Ok (code_dword 0, err)
   | SYS_GETVALUE \<Rightarrow> Ok (if idt AND IDTYPE_ADDRESS \<noteq> 0 then [] else by_width FINSH_OP_LD_VALUE_STACK d, err)
   | SYS_GETADDR \<Rightarrow> Ok ([], err)
   | SYS_CAST \<Rightarrow> Ok ([], ERROR_UNKNOWN_NODE))"

fun finsh_compile :: "exports \<Rightarrow> finsh_var list \<Rightarrow> finsh_node \<Rightarrow> finsh_error \<Rightarrow> (u8 list \<times> finsh_error) res" where
  "finsh_compile x vs Null err = Ok ([], err)"
| "finsh_compile x vs (Node t d idt v sb c s) err =
    rbind (finsh_compile x vs c err) (\<lambda>(code1, err).
    rbind (compile_node x vs t d idt v sb c err) (\<lambda>(code2, err).
    rbind (finsh_compile x vs s err) (\<lambda>(code3, err). Ok (code1 @ code2 @ code3, err))))"

text \<open>
  The statements of a line are the siblings of the root; each is compiled with its link cut, and
  a \<open>pop\<close> separates them.
\<close>

fun compile_chain :: "exports \<Rightarrow> finsh_var list \<Rightarrow> finsh_node \<Rightarrow> finsh_error \<Rightarrow> (u8 list \<times> finsh_error) res" where
  "compile_chain x vs Null err = Ok ([], err)"
| "compile_chain x vs (Node t d idt v sb c s) err =
    rbind (finsh_compile x vs (Node t d idt v sb c Null) err) (\<lambda>(code1, err).
    rbind (compile_chain x vs s err) (\<lambda>(code2, err).
      Ok (code1 @ (if s \<noteq> Null then [FINSH_OP_POP] else []) @ code2, err)))"

text \<open>
  Nothing compares the code with the 128 bytes of the text segment: longer code overwrites what
  follows the segment. Only the first slot of the stack is cleared.
\<close>

definition finsh_compiler_run :: "exports \<Rightarrow> finsh_var list \<Rightarrow> finsh_node \<Rightarrow> finsh_error \<Rightarrow> vm \<Rightarrow> (vm \<times> finsh_error) res" where
  "finsh_compiler_run x vs root err s =
    (let (root, err) = finsh_type_check vs root 0 err in
     rbind (compile_chain x vs root err) (\<lambda>(code, err).
       if length code \<le> FINSH_TEXT_MAX
       then Ok (s\<lparr>text_segment := code @ replicate (FINSH_TEXT_MAX - length code) 0,
                  finsh_vm_stack := (finsh_vm_stack s)[0 := 0]\<rparr>, err)
       else Fault))"

end
