(* ===== verification/Finsh_Expr.thy ===== *)
theory Finsh_Expr
  imports Finsh_Comp
begin

text \<open>
  What the compiled code of the command shell computes. A language of expressions with a
  reference evaluation over memory, the trees the parser builds for them, and the proof that the
  compiler and the machine together compute the reference evaluation.
\<close>

unbundle bit_operations_syntax

section \<open>Expressions\<close>

text \<open>A place is a shell variable, by its index, or an exported variable.\<close>

datatype place = Shell nat | Export finsh_sysvar

datatype exp =
    Lit u32
  | Chr u8
  | Var place
  | Bin binop exp exp
  | Inv exp
  | Asgn place exp
  | Pre binop nat
  | Post binop nat
  | Call finsh_syscall args
and args = NoArgs | Arg exp args

fun place_symbol :: "place \<Rightarrow> symbol" where
  "place_symbol (Shell i) = IdVar i"
| "place_symbol (Export v) = IdSysvar v"

fun place_idtype :: "place \<Rightarrow> u8" where
  "place_idtype (Shell i) = IDTYPE_VAR"
| "place_idtype (Export v) = IDTYPE_SYSVAR"

fun place_type :: "finsh_var list \<Rightarrow> place \<Rightarrow> finsh_type" where
  "place_type vs (Shell i) = var_type (vs ! i)"
| "place_type vs (Export v) = sysvar_type v"

fun place_at :: "exports \<Rightarrow> place \<Rightarrow> u32" where
  "place_at x (Shell i) = var_value_at x i"
| "place_at x (Export v) = sysvar_var v"

section \<open>Trees\<close>

text \<open>The tree of an expression, with the node that follows it as its sibling.\<close>

definition id_node :: "u8 \<Rightarrow> u8 \<Rightarrow> symbol \<Rightarrow> finsh_node \<Rightarrow> finsh_node" where
  "id_node d idt sb s = Node NODE_ID d idt 0 (Some sb) Null s"

primrec tree :: "exp \<Rightarrow> finsh_node \<Rightarrow> finsh_node" and arg_trees :: "args \<Rightarrow> finsh_node" where
  "tree (Lit v) s = Node VALUE_INT 0 0 v None Null s"
| "tree (Chr c) s = Node VALUE_CHAR 0 0 (ucast c) None Null s"
| "tree (Var p) s = id_node 0 (place_idtype p) (place_symbol p) s"
| "tree (Bin b e f) s = Node (SYS b) 0 0 0 None (tree e (tree f Null)) s"
| "tree (Inv e) s = Node SYS_BITWISE 0 0 0 None (tree e Null) s"
| "tree (Asgn p e) s = Node SYS_ASSIGN 0 0 0 None
     (id_node 0 (place_idtype p) (place_symbol p) (tree e Null)) s"
| "tree (Pre b i) s = Node (if b = Add then SYS_PREINC else SYS_PREDEC) 0 0 0 None
     (id_node 0 IDTYPE_VAR (IdVar i) Null) s"
| "tree (Post b i) s = Node (if b = Add then SYS_INC else SYS_DEC) 0 0 0 None
     (id_node 0 IDTYPE_VAR (IdVar i) Null) s"
| "tree (Call f as) s = Node SYS_FUNC 0 0 0 None
     (id_node 0 IDTYPE_SYSCALL (IdSyscall f) (arg_trees as)) s"
| "arg_trees NoArgs = Null"
| "arg_trees (Arg e as) = tree e (arg_trees as)"

section \<open>Types\<close>

text \<open>
  An expression has width \<open>w\<close> when all its leaves have. The result of a call has no type of its
  own, so a call can be an argument, the right operand or the assigned value, never the operand
  that an operator takes its width from.
\<close>

fun is_call :: "exp \<Rightarrow> bool" where
  "is_call (Call f as) = True"
| "is_call _ = False"

fun arg_count :: "args \<Rightarrow> nat" where
  "arg_count NoArgs = 0"
| "arg_count (Arg e as) = Suc (arg_count as)"

primrec wt :: "finsh_var list \<Rightarrow> width \<Rightarrow> exp \<Rightarrow> bool" and wt_args :: "finsh_var list \<Rightarrow> args \<Rightarrow> bool" where
  "wt vs w (Lit v) = (w = Dword)"
| "wt vs w (Chr c) = (w = Byte)"
| "wt vs w (Var p) = (type_width (place_type vs p) = Some w)"
| "wt vs w (Bin b e f) = (wt vs w e \<and> wt vs w f \<and> \<not> is_call e)"
| "wt vs w (Inv e) = (wt vs w e \<and> \<not> is_call e)"
| "wt vs w (Asgn p e) = (type_width (place_type vs p) = Some w \<and> wt vs w e)"
| "wt vs w (Pre b i) = (w = Dword \<and> b \<in> {Add, Sub} \<and> type_width (var_type (vs ! i)) = Some w)"
| "wt vs w (Post b i) = (b \<in> {Add, Sub} \<and> type_width (var_type (vs ! i)) = Some w)"
| "wt vs w (Call f as) = (w = Dword \<and> wt_args vs as \<and> arg_count as \<le> 16)"
| "wt_args vs NoArgs = True"
| "wt_args vs (Arg e as) = (wt vs Dword e \<and> wt_args vs as)"

section \<open>Reference evaluation\<close>

text \<open>
  Operands are evaluated from left to right, every result is cut to the width; undefined
  operations and unmapped addresses have no value.
\<close>

primrec eval :: "routines \<Rightarrow> exports \<Rightarrow> width \<Rightarrow> exp \<Rightarrow> memory \<Rightarrow> (int \<times> memory) option"
  and eval_args :: "routines \<Rightarrow> exports \<Rightarrow> args \<Rightarrow> memory \<Rightarrow> (u32 list \<times> memory) option" where
  "eval sys x w (Lit v) m = Some (sint v, m)"
| "eval sys x w (Chr c) m = Some (uint c, m)"
| "eval sys x w (Var p) m = Option.bind (load w m (place_at x p)) (\<lambda>v. Some (v, m))"
| "eval sys x w (Bin b e f) m = Option.bind (eval sys x w e m) (\<lambda>(a, m).
     Option.bind (eval sys x w f m) (\<lambda>(c, m). Option.bind (c_op b a c) (\<lambda>v. Some (trunc w v, m))))"
| "eval sys x w (Inv e) m = Option.bind (eval sys x w e m) (\<lambda>(a, m). Some (trunc w (NOT a), m))"
| "eval sys x w (Asgn p e) m = Option.bind (eval sys x w e m) (\<lambda>(a, m).
     Option.bind (store w m (place_at x p) a) (\<lambda>m. Some (a, m)))"
| "eval sys x w (Pre b i) m = Option.bind (load w m (var_value_at x i)) (\<lambda>a.
     Option.bind (c_op b a 1) (\<lambda>v. Option.bind (store w m (var_value_at x i) (trunc w v))
       (\<lambda>m. Some (trunc w v, m))))"
| "eval sys x w (Post b i) m = Option.bind (load w m (var_value_at x i)) (\<lambda>a.
     Option.bind (c_op b a 1) (\<lambda>v. Option.bind (store w m (var_value_at x i) (trunc w v))
       (\<lambda>m. Some (a, m))))"
| "eval sys x w (Call f as) m = Option.bind (eval_args sys x as m) (\<lambda>(vs, m).
     Option.bind (sys (syscall_func f) vs m) (\<lambda>(r, m). Some (sint r, m)))"
| "eval_args sys x NoArgs m = Some ([], m)"
| "eval_args sys x (Arg e as) m = Option.bind (eval sys x Dword e m) (\<lambda>(v, m).
     Option.bind (eval_args sys x as m) (\<lambda>(vs, m). Some (word_of_int v # vs, m)))"

section \<open>The tree after the type check\<close>

fun width_data :: "width \<Rightarrow> u8" where
  "width_data Byte = DATA_BYTE" | "width_data Word = DATA_WORD" | "width_data Dword = DATA_DWORD"

lemma data_width_data [simp]: "data_width (width_data w) = Some w"
  by (cases w) (simp_all add: data_width_def data_types)

lemmas data_width_simps [simp] =
  data_width_data [of Byte, simplified] data_width_data [of Word, simplified] data_width_data [of Dword, simplified]

lemma type_data_width: "type_width t = Some w \<Longrightarrow> type_data t = Some (width_data w)"
  by (cases t) (auto simp: data_types)

text \<open>The data type of a node: the width, or nothing for a call.\<close>

definition exp_data :: "width \<Rightarrow> exp \<Rightarrow> u8" where
  "exp_data w e = (if is_call e then 0 else width_data w)"

primrec ctree :: "width \<Rightarrow> exp \<Rightarrow> finsh_node \<Rightarrow> finsh_node" and carg_trees :: "args \<Rightarrow> finsh_node" where
  "ctree w (Lit v) s = Node VALUE_INT DATA_DWORD 0 v None Null s"
| "ctree w (Chr c) s = Node VALUE_CHAR DATA_BYTE 0 (ucast c) None Null s"
| "ctree w (Var p) s = id_node (width_data w) (place_idtype p) (place_symbol p) s"
| "ctree w (Bin b e f) s = Node (SYS b) (width_data w) 0 0 None (ctree w e (ctree w f Null)) s"
| "ctree w (Inv e) s = Node SYS_BITWISE (width_data w) 0 0 None (ctree w e Null) s"
| "ctree w (Asgn p e) s = Node SYS_ASSIGN (width_data w) 0 0 None
     (id_node (width_data w) (place_idtype p OR IDTYPE_ADDRESS) (place_symbol p) (ctree w e Null)) s"
| "ctree w (Pre b i) s = Node (if b = Add then SYS_PREINC else SYS_PREDEC) (width_data w) 0 0 None
     (id_node (width_data w) (IDTYPE_VAR OR IDTYPE_ADDRESS) (IdVar i) Null) s"
| "ctree w (Post b i) s = Node (if b = Add then SYS_INC else SYS_DEC) (width_data w) 0 0 None
     (id_node (width_data w) IDTYPE_VAR (IdVar i) Null) s"
| "ctree w (Call f as) s = Node SYS_FUNC 0 0 0 None
     (id_node 0 IDTYPE_SYSCALL (IdSyscall f) (carg_trees as)) s"
| "carg_trees NoArgs = Null"
| "carg_trees (Arg e as) = ctree Dword e (carg_trees as)"

lemma tree_not_null [simp]: "tree e s \<noteq> Null"
  by (cases e) (simp_all add: id_node_def)

lemma ctree_node: "wt vs w e \<Longrightarrow> \<exists>t i v sb c. ctree w e s = Node t (exp_data w e) i v sb c s"
  by (cases e) (auto simp: id_node_def exp_data_def)

lemma check_place:
  assumes "type_width (place_type vs p) = Some w" and "a = 0 \<or> a = IDTYPE_ADDRESS"
  shows "finsh_type_check vs (id_node 0 (place_idtype p) (place_symbol p) s) a err =
     (let (s', err) = finsh_type_check vs s 0 err
      in (id_node (width_data w) (place_idtype p OR a) (place_symbol p) s', err))"
  using type_data_width [OF assms(1)] assms(2)
  by (cases p) (auto simp: id_node_def leaf_type_def check_id_def Let_def idtypes split: prod.splits)

lemma check_callee:
  "finsh_type_check vs (id_node 0 IDTYPE_SYSCALL (IdSyscall f) s) 0 err =
     (let (s', err) = finsh_type_check vs s 0 err in (id_node 0 IDTYPE_SYSCALL (IdSyscall f) s', err))"
  by (simp add: id_node_def leaf_type_def check_id_def Let_def idtypes split: prod.splits)

text \<open>A node takes the data type of its first child.\<close>

lemma check_parent:
  assumes "finsh_type_check vs c (child_flag t 0) err = (c', err)" and "c' \<noteq> Null" and "data_type c' = d"
  shows "finsh_type_check vs (Node t 0 0 v sb c s) 0 err =
     (let (s', err) = finsh_type_check vs s 0 err in (Node t d 0 v sb c' s', err))"
  using assms by (cases c') (simp_all add: idtypes split: prod.splits)

lemma ctree_data: "wt vs w e \<Longrightarrow> \<not> is_call e \<Longrightarrow> data_type (ctree w e s) = width_data w"
  by (cases e) (auto simp: id_node_def)

lemma ctree_not_null [simp]: "ctree w e s \<noteq> Null" "id_node d i sb s \<noteq> Null"
  by (cases e; simp add: id_node_def)+

lemma child_flags [simp]:
  "child_flag (SYS b) 0 = 0" "child_flag SYS_BITWISE 0 = 0" "child_flag SYS_FUNC 0 = 0"
  "child_flag SYS_INC 0 = 0" "child_flag SYS_DEC 0 = 0" "child_flag SYS_ASSIGN 0 = IDTYPE_ADDRESS"
  "child_flag SYS_PREINC 0 = IDTYPE_ADDRESS" "child_flag SYS_PREDEC 0 = IDTYPE_ADDRESS"
  by (simp_all add: child_flag_def)

lemma id_node_data [simp]: "data_type (id_node d i sb s) = d"
  by (simp add: id_node_def)

lemma check_tree:
  "wt vs w e \<Longrightarrow> finsh_type_check vs (tree e s) 0 err =
     (let (s', err) = finsh_type_check vs s 0 err in (ctree w e s', err))"
  "wt_args vs as \<Longrightarrow> finsh_type_check vs (arg_trees as) 0 err = (carg_trees as, err)"
proof (induction e and as arbitrary: w s err and err rule: exp.induct args.induct)
  case (Bin b e f)
  then have "finsh_type_check vs (tree e (tree f Null)) (child_flag (SYS b) 0) err = (ctree w e (ctree w f Null), err)"
    using Bin.IH(1) [of w "tree f Null" err] Bin.IH(2) [of w Null err] by simp
  from check_parent [OF this] show ?case
    using Bin.prems ctree_data [of vs w e "ctree w f Null"] by (simp del: finsh_type_check.simps)
next
  case (Inv e)
  then have "finsh_type_check vs (tree e Null) (child_flag SYS_BITWISE 0) err = (ctree w e Null, err)"
    using Inv.IH [of w Null err] by simp
  from check_parent [OF this] show ?case
    using Inv.prems ctree_data [of vs w e Null] by (simp del: finsh_type_check.simps)
next
  case (Asgn p e)
  then have "finsh_type_check vs (id_node 0 (place_idtype p) (place_symbol p) (tree e Null)) (child_flag SYS_ASSIGN 0) err
      = (id_node (width_data w) (place_idtype p OR IDTYPE_ADDRESS) (place_symbol p) (ctree w e Null), err)"
    using Asgn.IH [of w Null err] by (simp add: check_place)
  from check_parent [OF this] show ?case
    by (simp del: finsh_type_check.simps)
next
  case (Pre b i)
  then have "finsh_type_check vs (id_node 0 IDTYPE_VAR (IdVar i) Null) (child_flag (if b = Add then SYS_PREINC else SYS_PREDEC) 0) err
      = (id_node (width_data w) (IDTYPE_VAR OR IDTYPE_ADDRESS) (IdVar i) Null, err)"
    using check_place [of vs "Shell i" w IDTYPE_ADDRESS Null err] by simp
  from check_parent [OF this] show ?case
    by (simp del: finsh_type_check.simps)
next
  case (Post b i)
  then have "finsh_type_check vs (id_node 0 IDTYPE_VAR (IdVar i) Null) (child_flag (if b = Add then SYS_INC else SYS_DEC) 0) err
      = (id_node (width_data w) IDTYPE_VAR (IdVar i) Null, err)"
    using check_place [of vs "Shell i" w 0 Null err] by simp
  from check_parent [OF this] show ?case
    by (simp del: finsh_type_check.simps)
next
  case (Call f as)
  then have "finsh_type_check vs (id_node 0 IDTYPE_SYSCALL (IdSyscall f) (arg_trees as)) (child_flag SYS_FUNC 0) err
      = (id_node 0 IDTYPE_SYSCALL (IdSyscall f) (carg_trees as), err)"
    by (simp add: check_callee)
  from check_parent [OF this] show ?case
    by (simp del: finsh_type_check.simps)
next
  case (Var p)
  then show ?case
    using check_place [of vs p w 0 s err] by simp
next
  case (Arg e as)
  then show ?case
    using Arg.IH(1) [of Dword "arg_trees as" err] by simp
qed (auto simp: leaf_type_def idtypes split: prod.splits)

section \<open>The code of an expression\<close>

primrec code :: "exports \<Rightarrow> width \<Rightarrow> exp \<Rightarrow> u8 list" and arg_code :: "exports \<Rightarrow> args \<Rightarrow> u8 list" where
  "code x w (Lit v) = FINSH_OP_LD Dword # code_dword v"
| "code x w (Chr c) = [FINSH_OP_LD Byte, c]"
| "code x w (Var p) = FINSH_OP_LD_VALUE w # code_dword (place_at x p)"
| "code x w (Bin b e f) = code x w e @ code x w f @ [FINSH_OP_BIN b w]"
| "code x w (Inv e) = code x w e @ [FINSH_OP_BITWISE w]"
| "code x w (Asgn p e) = (FINSH_OP_LD Dword # code_dword (place_at x p)) @ code x w e @
     [FINSH_OP_ST w, FINSH_OP_LD_VALUE_STACK w]"
| "code x w (Pre b i) = (FINSH_OP_LD Dword # code_dword (var_value_at x i)) @ code_prefix b w (var_value_at x i)"
| "code x w (Post b i) = (FINSH_OP_LD_VALUE w # code_dword (var_value_at x i)) @ code_postfix b w (var_value_at x i)"
| "code x w (Call f as) = (FINSH_OP_LD Dword # code_dword (syscall_func f)) @ arg_code x as @
     [FINSH_OP_SYSCALL, of_nat (arg_count as)]"
| "arg_code x NoArgs = []"
| "arg_code x (Arg e as) = code x Dword e @ arg_code x as"

lemma count_args [simp]: "count_siblings (carg_trees as) = arg_count as"
proof (induction as rule: args.induct [where ?P1.0 = "\<lambda>_. True"])
  case (Arg e as)
  then show ?case by (cases e) (simp_all add: id_node_def)
qed auto

lemma compile_place:
  assumes "type_width (place_type vs p) = Some w"
  shows "compile_id x vs (place_idtype p) (Some (place_symbol p)) = Ok (FINSH_OP_LD_VALUE w # code_dword (place_at x p))"
    "compile_id x vs (place_idtype p OR IDTYPE_ADDRESS) (Some (place_symbol p)) = Ok (FINSH_OP_LD Dword # code_dword (place_at x p))"
  using assms by (cases p; simp add: compile_id_def load_symbol_def idtypes)+

lemma compile_tree:
  "wt vs w e \<Longrightarrow> finsh_compile x vs (ctree w e s) err =
     rbind (finsh_compile x vs s err) (\<lambda>(c, err). Ok (code x w e @ c, err))"
  "wt_args vs as \<Longrightarrow> finsh_compile x vs (carg_trees as) err = Ok (arg_code x as, err)"
proof (induction e and as arbitrary: w s err and err rule: exp.induct args.induct)
  case (Var p)
  then show ?case by (simp add: id_node_def compile_node_def compile_place)
next
  case (Asgn p e)
  then show ?case
    by (simp add: id_node_def compile_node_def compile_place compile_assign_def code_assign_def)
next
  case (Pre b i)
  then show ?case
    using compile_place [of vs "Shell i" w x]
    by (auto simp: id_node_def compile_node_def compile_step_def)
next
  case (Post b i)
  then show ?case
    using compile_place [of vs "Shell i" w x]
    by (auto simp: id_node_def compile_node_def compile_step_def)
next
  case (Call f as)
  then show ?case
    by (simp add: id_node_def compile_node_def compile_id_def idtypes)
qed (auto simp: compile_node_def by_width_def)

section \<open>The code computes the evaluation\<close>

lemma triple_push:
  assumes "triple sys c k1 m [] m1 Ps" and "triple sys d k2 m1 [] m2 Qs" and "k1 \<le> k" and "length Ps + k2 \<le> k"
  shows "triple sys (c @ d) k m [] m2 (Ps @ Qs)"
  using triple_seq [OF triple_mono [OF assms(1,3)], of d m2 "Ps @ Qs"]
    triple_mono [OF triple_frame [OF assms(2), of Ps] assms(4)] by simp

lemma triple_then:
  assumes "triple sys c k1 m [] m1 Ps" and "triple sys d k2 m1 Ps m2 Qs" and "k1 \<le> k" and "k2 \<le> k"
  shows "triple sys (c @ d) k m [] m2 Qs"
  using triple_seq [OF triple_mono [OF assms(1,3)] triple_mono [OF assms(2,4)]] .

lemma top_dword: "slot_is Dword (sint v) = (\<lambda>u. u = v)"
  by (auto simp: fun_eq_iff signed_word_eqI)

lemma triple_ld_dword: "triple sys (FINSH_OP_LD Dword # code_dword v) 1 m [] m [\<lambda>u. u = v]"
  by (rule triple_ld [OF fetch_dword]) (simp_all add: code_dword_def)

lemma triple_ld_byte: "triple sys [FINSH_OP_LD Byte, c] 1 m [] m [slot_is Byte (uint c)]"
  by (rule triple_ld [OF fetch_byte]) (simp_all add: ucast_low)

lemma trunc_one [simp]: "trunc w 1 = 1"
  by (cases w) (simp_all add: trunc_def)

lemma triple_one: "triple sys (FINSH_OP_LD w # code_one w) 1 m [] m [slot_is w 1]"
proof (cases w)
  case Byte
  then show ?thesis using triple_ld_byte [of sys 1 m] by simp
next
  case Word
  have "triple sys (FINSH_OP_LD Word # [1, 0]) 1 m [] m [slot_is Word 1]"
  proof (rule triple_ld)
    show "fetch Word s = Ok 1" if "code_at [1, 0] s" for s
      using fetch_word [OF that] by simp
    show "slot_is Word 1 (set_member Word 1 u)" for u
      by (simp only: member_set trunc_one)
  qed simp
  with Word show ?thesis by simp
next
  case Dword
  then show ?thesis using triple_ld_dword [of sys 1 m] top_dword [of 1] by simp
qed

text \<open>The code of a step of a variable: load it, load 1, combine.\<close>

lemma triple_var_op:
  assumes "load w m a = Some y" and "c_op b y 1 = Some v"
  shows "triple sys ((FINSH_OP_LD_VALUE w # code_dword a) @ (FINSH_OP_LD w # code_one w) @ [FINSH_OP_BIN b w]) 2 m [] m
     [slot_is w (trunc w v)]"
proof -
  have "triple sys ((FINSH_OP_LD_VALUE w # code_dword a) @ (FINSH_OP_LD w # code_one w)) 2 m [] m [slot_is w y, slot_is w 1]"
    using triple_push [OF triple_ld_value [OF assms(1)] triple_one, of 2] by simp
  from triple_then [OF this triple_bin [OF assms(2)], of 2] show ?thesis by simp
qed

text \<open>The address below, a value above: store it.\<close>

lemma triple_store:
  assumes "triple sys c k m [] m1 [slot_is w v]" and "store w m1 a v = Some m2" and "k \<noteq> 0"
  shows "triple sys ((FINSH_OP_LD Dword # code_dword a) @ c @ [FINSH_OP_ST w]) (k + 1) m [] m2 [\<lambda>u. u = a]"
proof -
  have "triple sys ((FINSH_OP_LD Dword # code_dword a) @ c) (k + 1) m [] m1 [\<lambda>u. u = a, slot_is w v]"
    using triple_push [OF triple_ld_dword assms(1), of "k + 1"] by simp
  from triple_then [OF this triple_st [OF assms(2)], of "k + 1"] assms(3) show ?thesis by simp
qed

lemma trunc_trunc [simp]: "trunc w (trunc w v) = trunc w v"
  unfolding trunc_def [of w v] by (rule trunc_member)

lemma eval_trunc: "eval sys x w e m = Some (v, m') \<Longrightarrow> wt vs w e \<Longrightarrow> trunc w v = v"
proof (induction e arbitrary: m v m' rule: exp.induct [where ?P2.0 = "\<lambda>_. True"])
  case (Lit y)
  then show ?case using trunc_member [of Dword y] by simp
next
  case (Chr c)
  then show ?case using trunc_member [of Byte "ucast c"] by simp
next
  case (Call f as)
  then show ?case using trunc_member [of Dword] by (auto simp: bind_eq_Some_conv)
next
  case (Asgn p e)
  then show ?case by (auto simp: bind_eq_Some_conv)
qed (auto simp: bind_eq_Some_conv load_trunc)

lemma nodes_tree: "nodes (tree e s) = nodes (tree e Null) + nodes s"
  by (cases e) (simp_all add: id_node_def)

lemma nodes_tree_pos: "0 < nodes (tree e s)"
  by (cases e) (simp_all add: id_node_def)



text \<open>Arguments are the nodes of their list.\<close>

lemma nodes_args: "arg_count as \<le> nodes (arg_trees as)"
proof (induction as rule: args.induct [where ?P1.0 = "\<lambda>_. True"])
  case (Arg e as)
  then show ?case
    using nodes_tree [of e "arg_trees as"] nodes_tree_pos [of e Null] by simp
qed auto

lemma code_correct:
  "eval sys x w e m = Some (v, m') \<Longrightarrow> wt vs w e \<Longrightarrow>
     triple sys (code x w e) (nodes (tree e Null) + 2) m [] m' [slot_is w v]"
  "eval_args sys x as m = Some (us, m') \<Longrightarrow> wt_args vs as \<Longrightarrow>
     triple sys (arg_code x as) (nodes (arg_trees as) + 2) m [] m' (map (\<lambda>a u. u = a) us)
     \<and> length us = arg_count as"
proof (induction e and as arbitrary: w m v m' and m us m' rule: exp.induct args.induct)
  case (Lit y)
  then show ?case
    using triple_mono [OF triple_ld_dword [of sys y m], of 3]
    by (auto simp: top_dword eval_nat_numeral simp del: member.simps)
next
  case (Chr c)
  then show ?case
    using triple_mono [OF triple_ld_byte [of sys c m], of 3] by (auto simp: eval_nat_numeral)
next
  case (Var p)
  then show ?case
    by (auto simp: bind_eq_Some_conv id_node_def intro: triple_mono [OF triple_ld_value])
next
  case (Bin b e f)
  then obtain a m1 c r where e: "eval sys x w e m = Some (a, m1)" "eval sys x w f m1 = Some (c, m')"
      "c_op b a c = Some r" "v = trunc w r" "wt vs w e" "wt vs w f"
    by (auto simp: bind_eq_Some_conv)
  let ?k = "nodes (tree e Null) + nodes (tree f Null) + 3"
  have "triple sys (code x w e @ code x w f) ?k m [] m' [slot_is w a, slot_is w c]"
    using triple_push [OF Bin.IH(1) [OF e(1,5)] Bin.IH(2) [OF e(2,6)], of ?k] by simp
  from triple_then [OF this triple_bin [OF e(3)], of ?k] e(4) show ?case
    by (simp add: nodes_tree [of e "tree f Null"] eval_nat_numeral)
next
  case (Inv e)
  then obtain a where e: "eval sys x w e m = Some (a, m')" "v = trunc w (NOT a)" "wt vs w e"
    by (auto simp: bind_eq_Some_conv)
  from triple_then [OF Inv.IH [OF e(1,3)] triple_bw, of "nodes (tree e Null) + 3"] e(2) show ?case
    by (simp add: eval_nat_numeral)
next
  case (Asgn p e)
  then obtain m1 where e: "eval sys x w e m = Some (v, m1)" "store w m1 (place_at x p) v = Some m'" "wt vs w e"
    by (auto simp: bind_eq_Some_conv)
  have "load w m' (place_at x p) = Some v"
    using store_load [OF e(2)] eval_trunc [OF e(1,3)] by simp
  from triple_then [OF triple_store [OF Asgn.IH [OF e(1,3)] e(2)] triple_ld_value_stack [OF this],
      of "nodes (tree e Null) + 4"] show ?case
    by (simp add: id_node_def eval_nat_numeral)
next
  case (Pre b i)
  then obtain a r where e: "load w m (var_value_at x i) = Some a" "c_op b a 1 = Some r"
      "store w m (var_value_at x i) (trunc w r) = Some m'" "v = trunc w r" "w = Dword"
    by (auto simp: bind_eq_Some_conv)
  have "load w m' (var_value_at x i) = Some v"
    using store_load [OF e(3)] e(4) by simp
  from triple_then [OF triple_store [OF triple_var_op [OF e(1,2)] e(3)] triple_ld_value_stack [OF this], of 4] e(5)
  show ?case
    by (simp add: eval_nat_numeral id_node_def code_prefix_def)
next
  case (Post b i)
  then obtain r where e: "load w m (var_value_at x i) = Some v" "c_op b v 1 = Some r"
      "store w m (var_value_at x i) (trunc w r) = Some m'"
    by (auto simp: bind_eq_Some_conv)
  have push: "triple sys ((FINSH_OP_LD_VALUE w # code_dword (var_value_at x i)) @ (FINSH_OP_LD Dword # code_dword (var_value_at x i)) @
      ((FINSH_OP_LD_VALUE w # code_dword (var_value_at x i)) @ (FINSH_OP_LD w # code_one w) @ [FINSH_OP_BIN b w]) @
      [FINSH_OP_ST w]) 4 m [] m' ([slot_is w v] @ [\<lambda>u. u = var_value_at x i])"
    by (rule triple_push [OF triple_ld_value [OF e(1)] triple_store [OF triple_var_op [OF e(1,2)] e(3)]]) simp_all
  have pop: "triple sys [FINSH_OP_POP] (1 + 1) m' ([slot_is w v] @ [\<lambda>u. u = var_value_at x i]) m' ([slot_is w v] @ [])"
    using triple_frame [OF triple_pop, of _ "[slot_is w v]"] by simp
  from triple_then [OF push pop, of 4] show ?case
    by (simp add: eval_nat_numeral id_node_def code_postfix_def)
next
  case (Call f as)
  then obtain us m1 r where e: "eval_args sys x as m = Some (us, m1)" "sys (syscall_func f) us m1 = Some (r, m')"
      "v = sint r" "w = Dword" "wt_args vs as" "arg_count as \<le> 16"
    by (auto simp: bind_eq_Some_conv)
  let ?k = "nodes (arg_trees as) + 4"
  have as: "triple sys (arg_code x as) (nodes (arg_trees as) + 2) m [] m1 (map (\<lambda>a u. u = a) us)" "length us = arg_count as"
    using Call.IH [OF e(1,5)] by simp_all
  have "triple sys ((FINSH_OP_LD Dword # code_dword (syscall_func f)) @ arg_code x as) ?k m [] m1
      ((\<lambda>u. u = syscall_func f) # map (\<lambda>a u. u = a) us)"
    using triple_push [OF triple_ld_dword as(1), of ?k] by simp
  from triple_then [OF this triple_call [of sys "syscall_func f" us m1 r m', OF e(2)], of ?k] as(2) e(3,4,6) nodes_args [of as] show ?case
    by (simp add: id_node_def top_dword eval_nat_numeral del: member.simps)
next
  case NoArgs
  then show ?case by (simp add: triple_nil)
next
  case (Arg e as)
  then obtain a m1 us' where e: "eval sys x Dword e m = Some (a, m1)" "eval_args sys x as m1 = Some (us', m')"
      "us = word_of_int a # us'" "wt vs Dword e" "wt_args vs as"
    by (auto simp: bind_eq_Some_conv)
  have t: "slot_is Dword a = (\<lambda>u. u = word_of_int a)"
    using eval_trunc [OF e(1,4)] top_dword [of "word_of_int a"] by (simp add: trunc_def)
  let ?k = "nodes (tree e Null) + nodes (arg_trees as) + 2"
  have "triple sys (code x Dword e @ arg_code x as) ?k m [] m' ([slot_is Dword a] @ map (\<lambda>a u. u = a) us')"
    using Arg.IH(2) [OF e(2,5)] nodes_tree_pos [of e Null]
    by (intro triple_push [OF Arg.IH(1) [OF e(1,4)]]) auto
  with Arg.IH(2) [OF e(2,5)] e(3) show ?case
    by (simp add: t nodes_tree [of e "arg_trees as"] del: member.simps)
qed


section \<open>Lines of statements\<close>

text \<open>
  A line is a list of expressions, each with its width; its value is that of the last one.
\<close>

type_synonym line = "(width \<times> exp) list"

fun line_tree :: "line \<Rightarrow> finsh_node" where
  "line_tree [] = Null"
| "line_tree ((w, e) # l) = tree e (line_tree l)"

fun cline_tree :: "line \<Rightarrow> finsh_node" where
  "cline_tree [] = Null"
| "cline_tree ((w, e) # l) = ctree w e (cline_tree l)"

fun line_code :: "exports \<Rightarrow> line \<Rightarrow> u8 list" where
  "line_code x [] = []"
| "line_code x ((w, e) # l) = code x w e @ (if l = [] then [] else FINSH_OP_POP # line_code x l)"

fun eval_line :: "routines \<Rightarrow> exports \<Rightarrow> line \<Rightarrow> memory \<Rightarrow> (width \<times> int \<times> memory) option" where
  "eval_line sys x [] m = None"
| "eval_line sys x ((w, e) # l) m = Option.bind (eval sys x w e m) (\<lambda>(v, m).
     if l = [] then Some (w, v, m) else eval_line sys x l m)"

definition wt_line :: "finsh_var list \<Rightarrow> line \<Rightarrow> bool" where
  "wt_line vs l = (\<forall>(w, e) \<in> set l. wt vs w e)"

lemma wt_line_simps [simp]:
  "wt_line vs []" "wt_line vs ((w, e) # l) = (wt vs w e \<and> wt_line vs l)"
  by (simp_all add: wt_line_def)

lemma check_line: "wt_line vs l \<Longrightarrow> finsh_type_check vs (line_tree l) 0 err = (cline_tree l, err)"
proof (induction l rule: line_tree.induct)
  case (2 w e l)
  then show ?case using check_tree(1) [of vs w e "line_tree l" err] by simp
qed simp

lemma cline_tree_null [simp]: "cline_tree l = Null \<longleftrightarrow> l = []"
  by (cases l rule: cline_tree.cases) simp_all

lemma chain_ctree:
  "compile_chain x vs (ctree w e s) err = rbind (finsh_compile x vs (ctree w e Null) err) (\<lambda>(c, err).
     rbind (compile_chain x vs s err) (\<lambda>(d, err). Ok (c @ (if s \<noteq> Null then [FINSH_OP_POP] else []) @ d, err)))"
  by (cases e) (simp_all add: id_node_def)

lemma compile_line: "wt_line vs l \<Longrightarrow> compile_chain x vs (cline_tree l) err = Ok (line_code x l, err)"
  by (induction l rule: cline_tree.induct) (auto simp: chain_ctree compile_tree(1))

lemma line_correct:
  "eval_line sys x l m = Some (w, v, m') \<Longrightarrow> wt_line vs l \<Longrightarrow>
     triple sys (line_code x l) (nodes (line_tree l) + 2) m [] m' [slot_is w v]"
proof (induction l arbitrary: m rule: line_tree.induct)
  case 1
  then show ?case by simp
next
  case (2 u e l)
  then obtain a m1 where e: "eval sys x u e m = Some (a, m1)" "wt vs u e" "wt_line vs l"
    by (auto simp: bind_eq_Some_conv)
  let ?k = "nodes (tree e (line_tree l)) + 2"
  have c: "triple sys (code x u e) ?k m [] m1 [slot_is u a]"
    using triple_mono [OF code_correct(1) [OF e(1,2)], of ?k] nodes_tree [of e "line_tree l"] by simp
  show ?case
  proof (cases "l = []")
    case True
    with c e 2(2) show ?thesis by auto
  next
    case False
    then have "eval_line sys x l m1 = Some (w, v, m')"
      using 2(2) e(1) by simp
    from 2(1) [OF this e(3)] have "triple sys (line_code x l) ?k m1 [] m' [slot_is w v]"
      using triple_mono [of sys _ _ m1 "[]" m' _ ?k] nodes_tree [of e "line_tree l"] by simp
    moreover have "triple sys [FINSH_OP_POP] ?k m1 [slot_is u a] m1 []"
      by (rule triple_mono [OF triple_pop]) simp
    ultimately have "triple sys ([FINSH_OP_POP] @ line_code x l) ?k m1 [slot_is u a] m' [slot_is w v]"
      using triple_seq by blast
    from triple_seq [OF c this] False show ?thesis by simp
  qed
qed

text \<open>Running code that the compiler has put into the text segment.\<close>

definition loaded :: "u8 list \<Rightarrow> vm \<Rightarrow> vm" where
  "loaded c s = s\<lparr>text_segment := c @ replicate (FINSH_TEXT_MAX - length c) 0,
     finsh_vm_stack := (finsh_vm_stack s)[0 := 0]\<rparr>"

lemma compiler_run_loaded:
  assumes "finsh_type_check vs root 0 err = (root', err')" and "compile_chain x vs root' err' = Ok (c, err'')"
    and "length c \<le> FINSH_TEXT_MAX"
  shows "finsh_compiler_run x vs root err s = Ok (loaded c s, err'')"
  using assms by (simp add: finsh_compiler_run_def loaded_def)

lemma run_loaded:
  assumes "triple sys c k (mem s) [] m Ps" and "length c \<le> FINSH_TEXT_MAX" and "k \<le> FINSH_STACK_MAX"
    and "length (finsh_vm_stack s) = FINSH_STACK_MAX"
  obtains s2 where "finsh_vm_run sys (loaded c s) = Ok s2" and "mem s2 = m" and "tops 0 Ps s2"
proof -
  let ?s = "(loaded c s)\<lparr>finsh_sp := 0, finsh_pc := 0\<rparr>"
  have "code_at c ?s" "tops 0 [] ?s" "mem ?s = mem s"
    using assms(2,4) by (simp_all add: code_at_def tops_def nth_append loaded_def)
  then obtain s' where s': "vm_steps sys ?s s'" "mem s' = m" "tops 0 Ps s'" "keeps 0 (length c) ?s s'"
    using assms(3) by (auto intro: tripleD [OF assms(1), of ?s 0])
  have "vm_loop sys s' = Ok (s'\<lparr>finsh_pc := FINSH_TEXT_MAX\<rparr>)"
    using s'(4) assms(2) by (intro vm_tail) (auto simp: keeps_def loaded_def nth_append)
  then have "finsh_vm_run sys (loaded c s) = Ok (s'\<lparr>finsh_pc := FINSH_TEXT_MAX\<rparr>)"
    using vm_steps_loop [OF s'(1)] by (simp add: finsh_vm_run_def)
  with s'(2,3) show ?thesis
    by (intro that [of "s'\<lparr>finsh_pc := FINSH_TEXT_MAX\<rparr>"]) (simp_all add: tops_def)
qed

lemma tops_bottom: "tops 0 (P # Ps) s \<Longrightarrow> P (finsh_stack_bottom s)"
  by (auto simp: tops_def finsh_stack_bottom_def)

lemma line_runs:
  assumes "wt_line vs l" and "eval_line sys x l (mem s) = Some (w, v, m)"
    and "nodes (line_tree l) \<le> FINSH_NODE_MAX" and "length (line_code x l) \<le> FINSH_TEXT_MAX"
    and "length (finsh_vm_stack s) = FINSH_STACK_MAX"
  shows "\<exists>s1 s2. finsh_compiler_run x vs (line_tree l) ERROR_OK s = Ok (s1, ERROR_OK) \<and>
    finsh_vm_run sys s1 = Ok s2 \<and> mem s2 = m \<and> member w (finsh_stack_bottom s2) = v"
proof -
  have "finsh_compiler_run x vs (line_tree l) ERROR_OK s = Ok (loaded (line_code x l) s, ERROR_OK)"
    using compiler_run_loaded [OF check_line [OF assms(1)] compile_line [OF assms(1)] assms(4)] .
  moreover have "nodes (line_tree l) + 2 \<le> FINSH_STACK_MAX"
    using assms(3) by (simp add: FINSH_NODE_MAX_def FINSH_STACK_MAX_def)
  then obtain s2 where "finsh_vm_run sys (loaded (line_code x l) s) = Ok s2" "mem s2 = m" "tops 0 [slot_is w v] s2"
    using run_loaded [OF line_correct [OF assms(2,1)] assms(4) _ assms(5)] by blast
  ultimately show ?thesis
    by (metis tops_bottom)
qed

text \<open>
  C4. A line of well-typed statements that the reference evaluation gives a value runs through
  compiler and machine without an error: the memory it leaves and the value at the bottom of the
  stack are those of the reference evaluation, whatever the stack held before. The line may use
  the 16 nodes of the table and its code the 128 bytes of the text segment.
\<close>

theorem line_runs_as_evaluated:
  assumes "wt_line vs l" and "eval_line sys x l (mem s) = Some (w, v, m)"
    and "nodes (line_tree l) \<le> FINSH_NODE_MAX" and "length (line_code x l) \<le> FINSH_TEXT_MAX"
    and "length (finsh_vm_stack s) = FINSH_STACK_MAX"
  shows "\<exists>s1 s2. finsh_compiler_run x vs (line_tree l) ERROR_OK s = Ok (s1, ERROR_OK) \<and>
    finsh_vm_run sys s1 = Ok s2 \<and> mem s2 = m \<and> member w (finsh_stack_bottom s2) = v"
  using line_runs [OF assms] .

text \<open>One \<open>int\<close> variable at the start of the variable table, and a stack full of old values.\<close>

definition demo_vars :: "finsh_var list" where
  "demo_vars = finsh_var_init[0 := \<lparr>var_name = bytes ''n'', var_type = type_int\<rparr>,
     1 := \<lparr>var_name = bytes ''c'', var_type = type_char\<rparr>]"

definition demo_exports :: exports where
  "demo_exports = \<lparr>global_variable_at = 0x20000000, finsh_heap_at = 0x20000100, sysvar_table = [], global_sysvar_list = [],
     syscall_table = [], global_syscall_list = []\<rparr>"

definition demo_vm :: vm where
  "demo_vm = \<lparr>text_segment = replicate 128 0, finsh_pc = 0, finsh_sp = 0, finsh_vm_stack = replicate 64 7,
     mem = [0x20000014 \<mapsto> 0, 0x20000015 \<mapsto> 0, 0x20000016 \<mapsto> 0, 0x20000017 \<mapsto> 0,
       0x2000002C \<mapsto> 0, 0x2000002D \<mapsto> 0, 0x2000002E \<mapsto> 0, 0x2000002F \<mapsto> 0]\<rparr>"

lemma demo_stack [simp]: "length (finsh_vm_stack demo_vm) = FINSH_STACK_MAX"
  by (simp add: demo_vm_def FINSH_STACK_MAX_def)

theorem line_runs_as_evaluated_witness:
  "\<exists>s1 s2. finsh_compiler_run demo_exports demo_vars
      (line_tree [(Dword, Asgn (Shell 0) (Lit 6)), (Dword, Bin Mul (Var (Shell 0)) (Lit 7))]) ERROR_OK demo_vm
        = Ok (s1, ERROR_OK) \<and>
    finsh_vm_run (\<lambda>f as m. None) s1 = Ok s2 \<and> sint (finsh_stack_bottom s2) = 42"
proof -
  let ?l = "[(Dword, Asgn (Shell 0) (Lit 6)), (Dword, Bin Mul (Var (Shell 0)) (Lit 7))]"
  have "wt_line demo_vars ?l"
    by (simp add: demo_vars_def finsh_var_init_def FINSH_VARIABLE_MAX_def)
  moreover have "\<exists>m. eval_line (\<lambda>f as m. None) demo_exports ?l (mem demo_vm) = Some (Dword, 42, m)"
    by (simp add: demo_exports_def demo_vm_def var_value_at_def put_byte_def trunc_def)
  moreover have "nodes (line_tree ?l) \<le> FINSH_NODE_MAX" "length (line_code demo_exports ?l) \<le> FINSH_TEXT_MAX"
    by (simp_all add: id_node_def FINSH_NODE_MAX_def FINSH_TEXT_MAX_def code_dword_def)
  ultimately show ?thesis
    using line_runs_as_evaluated [of demo_vars ?l "\<lambda>f as m. None" demo_exports demo_vm Dword 42] by fastforce
qed

section \<open>Where the code does not compute the evaluation\<close>

text \<open>
  C40. The result of a call has no data type, so an operator whose left operand is a call is
  compiled to nothing: for any binary operator, any well-typed call and any well-typed right operand
  that have values, the line is accepted, its code is that of the two operands alone, whatever the
  operator is, and running it evaluates both and shows the result of the call.
\<close>

theorem call_operand_dropped:
  assumes "wt vs Dword (Call f as)" and "wt vs w e"
    and "eval sys x Dword (Call f as) (mem s) = Some (r, m1)" and "eval sys x w e m1 = Some (c, m2)"
    and "nodes (tree (Call f as) (tree e Null)) < FINSH_NODE_MAX"
    and "length (code x Dword (Call f as) @ code x w e) \<le> FINSH_TEXT_MAX"
    and "length (finsh_vm_stack s) = FINSH_STACK_MAX"
  shows "(\<forall>b. finsh_compiler_run x vs (tree (Bin b (Call f as) e) Null) ERROR_OK s
      = Ok (loaded (code x Dword (Call f as) @ code x w e) s, ERROR_OK)) \<and>
    (\<exists>s2. finsh_vm_run sys (loaded (code x Dword (Call f as) @ code x w e) s) = Ok s2 \<and> mem s2 = m2 \<and>
      member Dword (finsh_stack_bottom s2) = r)"
proof (intro conjI allI)
  fix b
  have d: "data_type (ctree Dword (Call f as) (ctree w e Null)) = 0" by simp
  have "finsh_type_check vs (tree (Call f as) (tree e Null)) (child_flag (SYS b) 0) ERROR_OK
      = (ctree Dword (Call f as) (ctree w e Null), ERROR_OK)"
    using check_tree(1) [OF assms(1), of "tree e Null" ERROR_OK] check_tree(1) [OF assms(2), of Null ERROR_OK]
    by (simp del: tree.simps ctree.simps)
  from check_parent [OF this ctree_not_null(1) d, of 0 None Null]
  have t: "finsh_type_check vs (tree (Bin b (Call f as) e) Null) 0 ERROR_OK
      = (Node (SYS b) 0 0 0 None (ctree Dword (Call f as) (ctree w e Null)) Null, ERROR_OK)"
    by (simp only: tree.simps(4) finsh_type_check.simps(1) Let_def prod.case)
  have "compile_chain x vs (Node (SYS b) 0 0 0 None (ctree Dword (Call f as) (ctree w e Null)) Null) ERROR_OK
      = Ok (code x Dword (Call f as) @ code x w e, ERROR_OK)"
    using compile_tree(1) [OF assms(1), of x "ctree w e Null" ERROR_OK] compile_tree(1) [OF assms(2), of x Null ERROR_OK]
    by (simp add: compile_node_def by_width_def data_width_def data_types del: ctree.simps code.simps)
  from compiler_run_loaded [OF t this assms(6)]
  show "finsh_compiler_run x vs (tree (Bin b (Call f as) e) Null) ERROR_OK s
      = Ok (loaded (code x Dword (Call f as) @ code x w e) s, ERROR_OK)" .
next
  have n: "nodes (tree (Call f as) Null) + nodes (tree e Null) + 3 \<le> FINSH_STACK_MAX"
    using assms(5) nodes_tree [of "Call f as" "tree e Null"]
    by (simp add: FINSH_NODE_MAX_def FINSH_STACK_MAX_def del: tree.simps)
  have "triple sys (code x Dword (Call f as) @ code x w e) (nodes (tree (Call f as) Null) + nodes (tree e Null) + 3)
      (mem s) [] m2 ([slot_is Dword r] @ [slot_is w c])"
    by (rule triple_push [OF code_correct(1) [OF assms(3,1)] code_correct(1) [OF assms(4,2)]])
      (use nodes_tree_pos [of e Null] in simp_all)
  from run_loaded [OF this assms(6) n assms(7)]
  obtain s2 where "finsh_vm_run sys (loaded (code x Dword (Call f as) @ code x w e) s) = Ok s2" "mem s2 = m2"
    "tops 0 ([slot_is Dword r] @ [slot_is w c]) s2" by blast
  moreover from this(3) have "slot_is Dword r (finsh_stack_bottom s2)" using tops_bottom by fastforce
  ultimately show "\<exists>s2. finsh_vm_run sys (loaded (code x Dword (Call f as) @ code x w e) s) = Ok s2 \<and> mem s2 = m2 \<and>
      member Dword (finsh_stack_bottom s2) = r" by auto
qed

theorem call_operand_dropped_witness:
  "\<exists>s1 s2. finsh_compiler_run demo_exports demo_vars
      (tree (Bin Add (Call \<lparr>syscall_name = bytes ''time'', syscall_func = 0x08000101, syscall_at = 0x08000200\<rparr> NoArgs) (Lit 1)) Null)
      ERROR_OK demo_vm = Ok (s1, ERROR_OK) \<and>
    finsh_vm_run (\<lambda>f as m. Some (41, m)) s1 = Ok s2 \<and> sint (finsh_stack_bottom s2) = 41"
proof -
  let ?f = "\<lparr>syscall_name = bytes ''time'', syscall_func = 0x08000101, syscall_at = 0x08000200\<rparr>"
  have "wt demo_vars Dword (Call ?f NoArgs)" "wt demo_vars Dword (Lit 1)"
    "eval (\<lambda>f as m. Some (41, m)) demo_exports Dword (Call ?f NoArgs) (mem demo_vm) = Some (41, mem demo_vm)"
    "eval (\<lambda>f as m. Some (41, m)) demo_exports Dword (Lit 1) (mem demo_vm) = Some (1, mem demo_vm)"
    "nodes (tree (Call ?f NoArgs) (tree (Lit 1) Null)) < FINSH_NODE_MAX"
    "length (code demo_exports Dword (Call ?f NoArgs) @ code demo_exports Dword (Lit 1)) \<le> FINSH_TEXT_MAX"
    by (simp_all add: id_node_def FINSH_NODE_MAX_def FINSH_TEXT_MAX_def code_dword_def)
  from call_operand_dropped [OF this demo_stack] show ?thesis by auto
qed

text \<open>
  Assigning to a \<open>char\<close> variable stores the character, but the value shown for it is the
  address of the variable with the character in place of its last byte.
\<close>

lemma char_assignment_shows_address:
  assumes "type_width (var_type (vs ! i)) = Some Byte" and "mem s (var_value_at x i) \<noteq> None"
    and "length (finsh_vm_stack s) = FINSH_STACK_MAX"
  shows "\<exists>s1 s2. finsh_compiler_run x vs (tree (Asgn (Shell i) (Chr c)) Null) ERROR_OK s = Ok (s1, ERROR_OK) \<and>
    finsh_vm_run sys s1 = Ok s2 \<and> mem s2 = (mem s)(var_value_at x i \<mapsto> c) \<and>
    finsh_stack_bottom s2 = push_bit 8 (drop_bit 8 (var_value_at x i)) OR ucast c"
proof -
  let ?a = "var_value_at x i" and ?m = "(mem s)(var_value_at x i \<mapsto> c)"
  let ?c = "((FINSH_OP_LD Dword # code_dword ?a) @ [FINSH_OP_LD Byte, c] @ [FINSH_OP_ST Byte]) @ [FINSH_OP_LD_VALUE_STACK Byte]"
  have st: "store Byte (mem s) ?a (uint c) = Some ?m"
    using assms(2) by (simp add: put_byte_def)
  have "triple sys [FINSH_OP_LD_VALUE_STACK Byte] 1 ?m [\<lambda>u. u = ?a] ?m [\<lambda>u. u = set_member Byte (uint c) ?a]"
    by (rule triple_reload) simp
  from triple_then [OF triple_store [OF triple_ld_byte st] this, of 2]
  have t: "triple sys ?c 2 (mem s) [] ?m [\<lambda>u. u = set_member Byte (uint c) ?a]" by simp
  have wt: "wt_line vs [(Byte, Asgn (Shell i) (Chr c))]"
    using assms(1) by simp
  have "line_code x [(Byte, Asgn (Shell i) (Chr c))] = ?c" by simp
  moreover have l: "length ?c \<le> FINSH_TEXT_MAX"
    by (simp add: code_dword_def FINSH_TEXT_MAX_def)
  ultimately have "finsh_compiler_run x vs (tree (Asgn (Shell i) (Chr c)) Null) ERROR_OK s = Ok (loaded ?c s, ERROR_OK)"
    using compiler_run_loaded [OF check_line [OF wt] compile_line [OF wt]] by simp
  moreover obtain s2 where "finsh_vm_run sys (loaded ?c s) = Ok s2" "mem s2 = ?m" "tops 0 [\<lambda>u. u = set_member Byte (uint c) ?a] s2"
    using run_loaded [OF t l _ assms(3)] by (auto simp: FINSH_STACK_MAX_def)
  ultimately show ?thesis
    using tops_bottom by fastforce
qed

lemma char_assignment_shows_address_witness:
  "\<exists>s1 s2. finsh_compiler_run demo_exports demo_vars (tree (Asgn (Shell 1) (Chr 0x41)) Null) ERROR_OK demo_vm = Ok (s1, ERROR_OK) \<and>
    finsh_vm_run (\<lambda>f as m. None) s1 = Ok s2 \<and> finsh_stack_bottom s2 = 0x20000041"
proof -
  have "type_width (var_type (demo_vars ! 1)) = Some Byte"
    by (simp add: demo_vars_def finsh_var_init_def FINSH_VARIABLE_MAX_def)
  moreover have "mem demo_vm (var_value_at demo_exports 1) \<noteq> None"
    by (simp add: demo_vm_def demo_exports_def var_value_at_def)
  moreover have "push_bit 8 (drop_bit 8 (var_value_at demo_exports 1)) OR ucast (0x41 :: u8) = (0x20000041 :: u32)"
    by (simp add: demo_exports_def var_value_at_def)
  ultimately show ?thesis
    using char_assignment_shows_address [where vs = demo_vars and i = 1 and s = demo_vm
        and x = demo_exports and c = "0x41" and sys = "\<lambda>f as m. None"] by auto
qed

section \<open>Room for the code\<close>

lemma length_code_dword [simp]: "length (code_dword v) = 4"
  by (simp add: code_dword_def)

lemma length_code_one: "length (code_one w) \<le> 4" "length (code_one w) = width_bytes w"
  by (cases w; simp)+

text \<open>A node takes at most twelve bytes; a postfix step of an \<open>int\<close> variable takes 23 for two.\<close>

lemma code_length:
  "length (code x w e) + 1 \<le> 12 * nodes (tree e Null)"
  "length (arg_code x as) \<le> 12 * nodes (arg_trees as)"
proof (induction e and as arbitrary: w rule: exp.induct args.induct)
  case (Bin b e f)
  show ?case
    using Bin.IH(1) [of w] Bin.IH(2) [of w] nodes_tree [of e "tree f Null"] by simp
next
  case (Arg e as)
  show ?case
    using Arg.IH(1) [of Dword] Arg.IH(2) nodes_tree [of e "arg_trees as"] by simp
next
  case (Inv e)
  show ?case using Inv.IH [of w] by simp
next
  case (Asgn p e)
  show ?case using Asgn.IH [of w] by (simp add: id_node_def)
next
  case (Call f as)
  show ?case using Call.IH by (simp add: id_node_def)
next
  case (Pre b i)
  show ?case using length_code_one(1) [of w] by (simp add: id_node_def code_prefix_def)
next
  case (Post b i)
  show ?case using length_code_one(1) [of w] by (simp add: id_node_def code_postfix_def)
qed (simp_all add: id_node_def)

lemma line_code_length: "length (line_code x l) \<le> 12 * nodes (line_tree l)"
proof (induction l rule: line_tree.induct)
  case (2 w e l)
  then show ?case
    using code_length(1) [of x w e] nodes_tree [of e "line_tree l"] by auto
qed simp

text \<open>
  A line of at most ten nodes always fits the text segment. The node table admits sixteen:
  six increments of an \<open>int\<close> variable use twelve nodes and 143 bytes, which are written beyond the
  128 of the segment.
\<close>

lemma text_segment_bound:
  assumes "wt_line vs l" and "nodes (line_tree l) \<le> 10"
  shows "\<exists>s1. finsh_compiler_run x vs (line_tree l) ERROR_OK s = Ok (s1, ERROR_OK)"
proof -
  have "length (line_code x l) \<le> FINSH_TEXT_MAX"
    using line_code_length [of x l] assms(2) by (simp add: FINSH_TEXT_MAX_def)
  from compiler_run_loaded [OF check_line [OF assms(1)] compile_line [OF assms(1)] this] show ?thesis
    by blast
qed

lemma text_segment_bound_witness:
  "\<exists>s1. finsh_compiler_run demo_exports demo_vars (line_tree (replicate 5 (Dword, Post Add 0))) ERROR_OK demo_vm
     = Ok (s1, ERROR_OK)"
  by (rule text_segment_bound)
    (simp_all add: eval_nat_numeral id_node_def demo_vars_def finsh_var_init_def FINSH_VARIABLE_MAX_def)

text \<open>
  Six increments of an \<open>int\<close> variable on one line are accepted by the parser's node table and
  overrun the text segment.
\<close>

lemma increments_overrun_text:
  assumes "type_width (var_type (vs ! i)) = Some Dword"
  shows "nodes (line_tree (replicate 6 (Dword, Post Add i))) \<le> FINSH_NODE_MAX \<and>
    finsh_compiler_run x vs (line_tree (replicate 6 (Dword, Post Add i))) ERROR_OK s = Fault"
proof
  let ?l = "replicate 6 (Dword, Post Add i)"
  show "nodes (line_tree ?l) \<le> FINSH_NODE_MAX"
    by (simp add: eval_nat_numeral id_node_def FINSH_NODE_MAX_def)
  have wt: "wt_line vs ?l"
    using assms by (simp add: wt_line_def)
  have "length (line_code x ?l) = 143"
    by (simp add: eval_nat_numeral code_postfix_def)
  then show "finsh_compiler_run x vs (line_tree ?l) ERROR_OK s = Fault"
    by (simp add: finsh_compiler_run_def check_line [OF wt] compile_line [OF wt] FINSH_TEXT_MAX_def)
qed

lemma increments_overrun_text_witness:
  "finsh_compiler_run demo_exports demo_vars (line_tree (replicate 6 (Dword, Post Add 0))) ERROR_OK demo_vm = Fault"
  using increments_overrun_text [of demo_vars 0]
  by (simp add: demo_vars_def finsh_var_init_def FINSH_VARIABLE_MAX_def)

end
