(* ===== verification/Finsh_Shell.thy ===== *)
theory Finsh_Shell
  imports Finsh_Parse Finsh_Expr
begin

text \<open>
  A command line from its characters to the value that is shown (\<open>finsh_run_line\<close> of
  \<open>shell.c\<close>, with \<open>finsh_init.c\<close> and \<open>finsh_error.c\<close>).
\<close>

unbundle bit_operations_syntax

section \<open>Running a line\<close>

text \<open>What lives on from line to line: variables, string heap and the machine with its memory.\<close>

record shell =
  sh_vars :: "finsh_var list"
  sh_heap :: heap
  sh_vm :: vm

datatype shown = Shown_error string | Shown_value "u8 option" u32

definition finsh_init :: "vm \<Rightarrow> shell" where
  "finsh_init v = \<lparr>sh_vars = finsh_var_init, sh_heap = finsh_heap_init, sh_vm = v\<rparr>"

text \<open>\<open>finsh_reset\<close> forgets variables and strings.\<close>

definition finsh_reset :: "shell \<Rightarrow> shell" where
  "finsh_reset s = s\<lparr>sh_vars := finsh_var_init, sh_heap := finsh_heap_init\<rparr>"

fun finsh_error_string :: "finsh_error \<Rightarrow> string" where
  "finsh_error_string ERROR_OK = ''No error''"
| "finsh_error_string ERROR_INVALID_TOKEN = ''Invalid token''"
| "finsh_error_string ERROR_EXPECT_TYPE = ''Expect a type''"
| "finsh_error_string ERROR_UNKNOWN_TYPE = ''Unknown type''"
| "finsh_error_string ERROR_VARIABLE_EXIST = ''Variable exist''"
| "finsh_error_string ERROR_EXPECT_OPERATOR = ''Expect a operater''"
| "finsh_error_string ERROR_MEMORY_FULL = ''Memory full''"
| "finsh_error_string ERROR_UNKNOWN_OP = ''Unknown operator''"
| "finsh_error_string ERROR_UNKNOWN_NODE = ''Unknown node''"
| "finsh_error_string ERROR_EXPECT_CHAR = ''Expect a character''"
| "finsh_error_string ERROR_UNEXPECT_END = ''Unexpect end''"
| "finsh_error_string ERROR_UNKNOWN_TOKEN = ''Unknown token''"
| "finsh_error_string ERROR_NO_FLOAT = ''Float not supported''"
| "finsh_error_string ERROR_UNKNOWN_SYMBOL = ''Unknown symbol''"
| "finsh_error_string ERROR_NULL_NODE = ''Null node''"

definition finsh_stack_value :: "vm \<Rightarrow> shown" where
  "finsh_stack_value v = (let b = finsh_stack_bottom v; c = ucast b :: u8 in
     Shown_value (if 0x20 < c \<and> c < 0x7e then Some c else None) b)"

definition line_parser :: "shell \<Rightarrow> parser" where
  "line_parser sh = \<lparr>scanner = finsh_token_init [] ERROR_OK, used = 0, vars = sh_vars sh, heap_of = sh_heap sh,
     memory_of = mem (sh_vm sh)\<rparr>"

text \<open>
  The line starts with an empty node table and no error, as \<open>finsh_flush\<close> left them. An error of
  the parser is shown; an error of the compiler ends the line in silence.
\<close>

definition finsh_run_line :: "exports \<Rightarrow> routines \<Rightarrow> nat \<Rightarrow> u8 list \<Rightarrow> shell \<Rightarrow> (shown option \<times> shell) res" where
  "finsh_run_line x sys n l sh =
    rbind (finsh_parser_run x n l (line_parser sh)) (\<lambda>(root, p).
      let sh = \<lparr>sh_vars = vars p, sh_heap = heap_of p, sh_vm = (sh_vm sh)\<lparr>mem := memory_of p\<rparr>\<rparr> in
      if errno (scanner p) \<noteq> ERROR_OK then Ok (Some (Shown_error (finsh_error_string (errno (scanner p)))), sh)
      else rbind (finsh_compiler_run x (vars p) root ERROR_OK (sh_vm sh)) (\<lambda>(v, err).
        if err \<noteq> ERROR_OK then Ok (None, sh\<lparr>sh_vm := v\<rparr>)
        else rbind (finsh_vm_run sys v) (\<lambda>v. Ok (Some (finsh_stack_value v), sh\<lparr>sh_vm := v\<rparr>))))"

end
