(* ===== verification/Finsh_Edit.thy ===== *)
theory Finsh_Edit
  imports Finsh_Shell
begin

text \<open>
  The line editor of the command shell (\<open>shell.c\<close>): keys, history and completion, and the thread
  that runs the lines. A buffer that always holds less than a line and a list of the five newest
  lines say what the editor is for.
\<close>

section \<open>State\<close>

definition FINSH_CMD_SIZE :: nat where "FINSH_CMD_SIZE = 80"
definition FINSH_HISTORY_LINES :: nat where "FINSH_HISTORY_LINES = 5"

datatype input_stat = WAIT_NORMAL | WAIT_SPEC_KEY | WAIT_FUNC_KEY

text \<open>\<open>cmd_line\<close> is the array \<open>line\<close>; it and the history entries hold 80 bytes.\<close>

record editor =
  stat :: input_stat
  echo_mode :: bool
  use_history :: bool
  current_history :: nat
  history_count :: nat
  cmd_history :: "u8 list list"
  cmd_line :: "u8 list"
  line_position :: nat

text \<open>What is printed.\<close>

datatype console =
    Newline
  | Prompt
  | Echo u8
  | Erase u8
  | Redraw "u8 list"
  | Listed "name list"
  | Result "shown option"

definition blank_line :: "u8 list" where
  "blank_line = replicate FINSH_CMD_SIZE 0"

text \<open>\<open>finsh_system_init\<close> clears the structure; the thread turns the echo on.\<close>

definition finsh_system_init :: editor where
  "finsh_system_init = \<lparr>stat = WAIT_NORMAL, echo_mode = False, use_history = False, current_history = 0, history_count = 0,
     cmd_history = replicate FINSH_HISTORY_LINES blank_line, cmd_line = blank_line, line_position = 0\<rparr>"

definition finsh_set_echo :: "u32 \<Rightarrow> editor \<Rightarrow> editor" where
  "finsh_set_echo e s = s\<lparr>echo_mode := odd (uint e)\<rparr>"

definition finsh_get_echo :: "editor \<Rightarrow> u32" where
  "finsh_get_echo s = (if echo_mode s then 1 else 0)"

definition thread_start :: "editor \<Rightarrow> editor" where
  "thread_start s = s\<lparr>echo_mode := True\<rparr>"

text \<open>A string in an array of 80 bytes; without a zero it is read beyond the array.\<close>

definition line_string :: "u8 list \<Rightarrow> u8 list res" where
  "line_string l = (if 0 \<in> set l then Ok (c_text l) else Fault)"

section \<open>History keys\<close>

definition redraw :: "editor \<Rightarrow> (bool \<times> console list \<times> editor) res" where
  "redraw s = (if use_history s
     then rbind (line_string (cmd_line s)) (\<lambda>l. Ok (True, [Redraw l], s))
     else Ok (False, [], s))"

definition recall :: "nat \<Rightarrow> editor \<Rightarrow> (bool \<times> console list \<times> editor) res" where
  "recall i s = rbind (line_string (cmd_history s ! i)) (\<lambda>l.
     redraw (s\<lparr>current_history := i, cmd_line := cmd_history s ! i, line_position := length l, use_history := True\<rparr>))"

definition finsh_handle_history :: "u8 \<Rightarrow> editor \<Rightarrow> (bool \<times> console list \<times> editor) res" where
  "finsh_handle_history ch s =
    (if ch = 0x1b then Ok (True, [], s\<lparr>stat := WAIT_SPEC_KEY\<rparr>)
     else case stat s of
       WAIT_SPEC_KEY \<Rightarrow>
         if ch = 0x5b then Ok (True, [], s\<lparr>stat := WAIT_FUNC_KEY\<rparr>) else Ok (False, [], s\<lparr>stat := WAIT_NORMAL\<rparr>)
     | WAIT_FUNC_KEY \<Rightarrow> (let s = s\<lparr>stat := WAIT_NORMAL\<rparr> in
         if ch = 0x41 then
           (if current_history s > 0 then recall (current_history s - 1) s else Ok (True, [], s))
         else if ch = 0x42 then
           (if current_history s + 1 < history_count s then recall (current_history s + 1) s
            else if history_count s \<noteq> 0 then recall (history_count s - 1) s
            else Ok (True, [], s))
         else redraw s)
     | WAIT_NORMAL \<Rightarrow> Ok (False, [], s))"

definition history_entry :: "editor \<Rightarrow> u8 list" where
  "history_entry s = take (line_position s) (cmd_line s) @ drop (line_position s) blank_line"

definition finsh_push_history :: "editor \<Rightarrow> editor" where
  "finsh_push_history s =
    (let s = (if \<not> use_history s \<and> line_position s \<noteq> 0 then
         (if FINSH_HISTORY_LINES \<le> history_count s
          then s\<lparr>cmd_history := tl (cmd_history s) @ [history_entry s], history_count := FINSH_HISTORY_LINES\<rparr>
          else s\<lparr>cmd_history := (cmd_history s)[history_count s := history_entry s], history_count := history_count s + 1\<rparr>)
       else s)
     in s\<lparr>current_history := history_count s\<rparr>)"

section \<open>Completion\<close>

definition matching :: "u8 list \<Rightarrow> exports \<Rightarrow> name list" where
  "matching p x = filter (\<lambda>nm. take (length p) nm = p)
     (map syscall_name (syscall_table x) @ map syscall_name (global_syscall_list x) @
      map sysvar_name (sysvar_table x) @ map sysvar_name (global_sysvar_list x))"

text \<open>The only match is copied over the line, without the zero behind it.\<close>

definition list_prefix :: "exports \<Rightarrow> u8 list \<Rightarrow> (name list \<times> u8 list) res" where
  "list_prefix x l = rbind (line_string l) (\<lambda>p.
     case matching p x of
       [nm] \<Rightarrow> if length nm \<le> length l then Ok ([nm], nm @ drop (length nm) l) else Fault
     | nms \<Rightarrow> Ok (nms, l))"

definition finsh_auto_complete :: "exports \<Rightarrow> editor \<Rightarrow> (console list \<times> editor) res" where
  "finsh_auto_complete x s = rbind (list_prefix x (cmd_line s)) (\<lambda>(nms, l).
     rbind (line_string l) (\<lambda>t. Ok ([Newline, Listed nms, Redraw t], s\<lparr>cmd_line := l, line_position := length t\<rparr>)))"

section \<open>Keys\<close>

definition backspace :: "u8 \<Rightarrow> editor \<Rightarrow> console list \<times> editor" where
  "backspace ch s = (let p = line_position s - 1 in
     (if line_position s \<noteq> 0 then [Erase ch] else [], s\<lparr>line_position := p, cmd_line := (cmd_line s)[p := 0]\<rparr>))"

definition put_char :: "u8 \<Rightarrow> editor \<Rightarrow> console list \<times> editor" where
  "put_char ch s = (let p = (if FINSH_CMD_SIZE \<le> line_position s then 0 else line_position s) in
     (if echo_mode s then [Echo ch] else [],
      s\<lparr>cmd_line := (cmd_line s)[p := ch], line_position := p + 1, use_history := False\<rparr>))"

datatype entered = Waiting | Empty_line | Command "u8 list"

text \<open>The end of a line; the \<open>;\<close> goes behind the last character, at 80 beyond the array.\<close>

definition enter :: "editor \<Rightarrow> (entered \<times> editor) res" where
  "enter s = (if line_position s < FINSH_CMD_SIZE then
     (let s = finsh_push_history (s\<lparr>cmd_line := (cmd_line s)[line_position s := 59]\<rparr>);
          cleared = s\<lparr>cmd_line := blank_line, line_position := 0\<rparr> in
      if line_position s \<noteq> 0 then rbind (line_string (cmd_line s)) (\<lambda>l. Ok (Command l, cleared))
      else Ok (Empty_line, cleared))
    else Fault)"

definition printed :: "console list \<Rightarrow> (console list \<times> entered \<times> u8 list \<times> editor) res \<Rightarrow> (console list \<times> entered \<times> u8 list \<times> editor) res" where
  "printed out r = rbind r (\<lambda>(out', e, rest, s). Ok (out @ out', e, rest, s))"

text \<open>
  The inner loop of \<open>finsh_thread_entry\<close> on the characters that the device holds: up to the end of
  a line, or until they are used up. Behind a carriage return the next character is taken at once.
\<close>

function read_loop :: "exports \<Rightarrow> u8 list \<Rightarrow> editor \<Rightarrow> (console list \<times> entered \<times> u8 list \<times> editor) res" where
  "read_loop x [] s = Ok ([], Waiting, [], s)"
| "read_loop x (ch # inp) s = rbind (finsh_handle_history ch s) (\<lambda>(handled, out, s).
     printed out
      (if handled then read_loop x inp s
       else if ch = 9 then rbind (finsh_auto_complete x s) (\<lambda>(out, s). printed out (read_loop x inp s))
       else if ch = 0x7f \<or> ch = 8 then (case backspace ch s of (out, s) \<Rightarrow> printed out (read_loop x inp s))
       else (let (ch, inp') = (if ch = 13 \<and> inp \<noteq> [] then (hd inp, tl inp) else (ch, inp)) in
         if ch = 13 \<or> ch = 10 then rbind (enter s) (\<lambda>(e, s). Ok ([], e, inp', s))
         else (case put_char ch s of (out, s) \<Rightarrow> printed out (read_loop x inp' s)))))"
  by pat_completeness auto

termination
  by (relation "measure (\<lambda>(x, inp, s). length inp)") (auto split: if_splits)

declare read_loop.simps(2) [simp del]

text \<open>One pass of the thread: what is printed, what is left to read, and the state behind it.\<close>

definition finsh_thread_pass :: "exports \<Rightarrow> routines \<Rightarrow> nat \<Rightarrow> u8 list \<Rightarrow> editor \<times> shell \<Rightarrow>
    (console list \<times> u8 list \<times> editor \<times> shell) res" where
  "finsh_thread_pass x sys n inp st = (case st of (ed, sh) \<Rightarrow> rbind (read_loop x inp ed) (\<lambda>(out, e, rest, ed).
     case e of
       Waiting \<Rightarrow> Ok (out, rest, ed, sh)
     | Empty_line \<Rightarrow> Ok (out @ [Newline, Prompt], rest, ed, sh)
     | Command l \<Rightarrow> rbind (finsh_run_line x sys n l sh) (\<lambda>(r, sh). Ok (out @ [Newline, Result r, Prompt], rest, ed, sh))))"

end
