(* ===== verification/Finsh_Round.thy ===== *)
theory Finsh_Round
  imports Finsh_Shell
begin

text \<open>
  The parser of the command shell reads back what is written down: for every expression that can
  be written without parentheses, the tokens of the expression are parsed to its tree.
\<close>

unbundle bit_operations_syntax

section \<open>Runs of the parser\<close>

text \<open>\<open>parses\<close>: the call ends with this result for every large enough depth of recursion.\<close>

definition parses :: "exports \<Rightarrow> call \<Rightarrow> parser \<Rightarrow> finsh_node \<times> parser \<Rightarrow> bool" where
  "parses x c s r \<longleftrightarrow> (\<forall>\<^sub>F m in sequentially. proc x m c s = Ok r)"

lemma parses_step: "parses x c s r \<longleftrightarrow> (\<forall>\<^sub>F m in sequentially. proc_call x (proc x m) c s = Ok r)"
  unfolding parses_def by (subst eventually_sequentially_Suc [symmetric]) simp

lemma parses_now: "(\<And>rec. proc_call x rec c s = Ok r) \<Longrightarrow> parses x c s r"
  by (simp add: parses_step)

lemma parses_via:
  assumes "parses x c1 s1 r1" and "\<And>rec. rec c1 s1 = Ok r1 \<Longrightarrow> proc_call x rec c s = Ok r"
  shows "parses x c s r"
  using assms(1) unfolding parses_step [of x c s r] parses_def [of x c1]
  by (rule eventually_mono) (rule assms(2))

lemma parses_via2:
  assumes "parses x c1 s1 r1" and "parses x c2 s2 r2"
    and "\<And>rec. rec c1 s1 = Ok r1 \<Longrightarrow> rec c2 s2 = Ok r2 \<Longrightarrow> proc_call x rec c s = Ok r"
  shows "parses x c s r"
  using eventually_conj [OF assms(1) [unfolded parses_def] assms(2) [unfolded parses_def]]
  unfolding parses_step [of x c s r] by (rule eventually_mono) (use assms(3) in blast)

section \<open>Token streams\<close>

text \<open>An item is a token with what the parser takes from the scanner for it.\<close>

datatype item = Op token | Num u32 | Chr_lit u8 | Ident name

fun item_token :: "item \<Rightarrow> token" where
  "item_token (Op k) = k"
| "item_token (Num v) = Tvalue_int"
| "item_token (Chr_lit c) = Tvalue_char"
| "item_token (Ident nm) = Tidentifier"

fun item_ok :: "item \<Rightarrow> lex \<Rightarrow> bool" where
  "item_ok (Op k) t = True"
| "item_ok (Num v) t = (tvalue t = v)"
| "item_ok (Chr_lit c) t = (ucast (tvalue t) = c)"
| "item_ok (Ident nm) t = (c_text (tstring t) = nm)"

definition scans :: "lex \<Rightarrow> item \<Rightarrow> lex \<Rightarrow> bool" where
  "scans t d t' \<longleftrightarrow> finsh_token_token t = Ok (item_token d, t') \<and> item_ok d t' \<and> \<not> replay t' \<and>
     current_token t' = item_token d \<and> errno t' = errno t"

fun reads :: "lex \<Rightarrow> item list \<Rightarrow> bool" where
  "reads t [] = True"
| "reads t (d # ds) = (\<exists>t'. scans t d t' \<and> reads t' ds)"

lemma scans_replay: "scans t d t' \<Longrightarrow> scans (finsh_token_replay t') d t'"
  by (auto simp: scans_def finsh_token_token_def finsh_token_replay_def)

text \<open>Reading the next token: what the parser sees, and how it may go on.\<close>

lemma next_read:
  assumes "reads (scanner s) (d # ds)"
  obtains t where "next_token s = Ok (item_token d, s\<lparr>scanner := t\<rparr>)" and "item_ok d t" and "reads t ds"
    and "reads (finsh_token_replay t) (d # ds)" and "errno t = errno (scanner s)"
    and "next_token (s\<lparr>scanner := finsh_token_replay t\<rparr>) = Ok (item_token d, s\<lparr>scanner := t\<rparr>)"
proof -
  from assms obtain t where t: "scans (scanner s) d t" "reads t ds" by auto
  show ?thesis
  proof (rule that)
    show "next_token s = Ok (item_token d, s\<lparr>scanner := t\<rparr>)" "item_ok d t" "reads t ds" "errno t = errno (scanner s)"
      using t by (simp_all add: next_token_def scans_def)
    show "reads (finsh_token_replay t) (d # ds)"
      using scans_replay [OF t(1)] t(2) by auto
    show "next_token (s\<lparr>scanner := finsh_token_replay t\<rparr>) = Ok (item_token d, s\<lparr>scanner := t\<rparr>)"
      using scans_replay [OF t(1)] by (simp add: next_token_def scans_def)
  qed
qed

lemma errno_replay [simp]: "errno (finsh_token_replay t) = errno t"
  by (simp add: finsh_token_replay_def)

section \<open>Expressions as items\<close>

fun place_name :: "finsh_var list \<Rightarrow> place \<Rightarrow> name" where
  "place_name vs (Shell i) = var_name (vs ! i)"
| "place_name vs (Export v) = sysvar_name v"

fun op_token :: "binop \<Rightarrow> token" where
  "op_token Add = Tadd" | "op_token Sub = Tsub" | "op_token Div = Tdiv" | "op_token Mod = Tmod"
| "op_token Mul = Tmul" | "op_token And = Tand" | "op_token Or = Tor" | "op_token Xor = Txor"
| "op_token Shl = Tshl" | "op_token Shr = Tshr"

fun op_level :: "binop \<Rightarrow> nat" where
  "op_level Or = 0" | "op_level Xor = 1" | "op_level And = 2" | "op_level Shl = 3" | "op_level Shr = 3"
| "op_level Add = 4" | "op_level Sub = 4" | "op_level Mul = 5" | "op_level Div = 5" | "op_level Mod = 5"

fun step_token :: "binop \<Rightarrow> token" where
  "step_token Add = Tinc" | "step_token _ = Tdec"

primrec items :: "finsh_var list \<Rightarrow> exp \<Rightarrow> item list" and arg_items :: "finsh_var list \<Rightarrow> args \<Rightarrow> item list" where
  "items vs (Lit v) = [Num v]"
| "items vs (Chr c) = [Chr_lit c]"
| "items vs (Var p) = [Ident (place_name vs p)]"
| "items vs (Bin b e f) = items vs e @ Op (op_token b) # items vs f"
| "items vs (Inv e) = Op Tbitwise # items vs e"
| "items vs (Asgn p e) = Ident (place_name vs p) # Op Tassign # items vs e"
| "items vs (Pre b i) = [Op (step_token b), Ident (var_name (vs ! i))]"
| "items vs (Post b i) = [Ident (var_name (vs ! i)), Op (step_token b)]"
| "items vs (Call f as) = Ident (syscall_name f) # Op Tleft_paren # arg_items vs as @ [Op Tright_paren]"
| "arg_items vs NoArgs = []"
| "arg_items vs (Arg e as) = items vs e @ (if as = NoArgs then [] else Op Tcomma # arg_items vs as)"

text \<open>
  An expression fits a binary level when its operator binds at least as tightly; it can be written
  without parentheses when all operands fit their places and every name means its symbol.
\<close>

fun fits :: "nat \<Rightarrow> exp \<Rightarrow> bool" where
  "fits l (Asgn p e) = False"
| "fits l (Bin b e f) = (l \<le> op_level b)"
| "fits l _ = True"

definition resolves :: "exports \<Rightarrow> finsh_var list \<Rightarrow> name \<Rightarrow> u8 \<Rightarrow> symbol \<Rightarrow> bool" where
  "resolves x vs nm idt sb \<longleftrightarrow> length nm \<le> FINSH_NAME_MAX \<and> find_symbol x nm vs = Ok (Some (idt, sb))"

primrec writable :: "exports \<Rightarrow> finsh_var list \<Rightarrow> exp \<Rightarrow> bool"
  and writable_args :: "exports \<Rightarrow> finsh_var list \<Rightarrow> args \<Rightarrow> bool" where
  "writable x vs (Lit v) = True"
| "writable x vs (Chr c) = True"
| "writable x vs (Var p) = resolves x vs (place_name vs p) (place_idtype p) (place_symbol p)"
| "writable x vs (Bin b e f) = (writable x vs e \<and> writable x vs f \<and> fits (op_level b) e \<and> fits (op_level b + 1) f)"
| "writable x vs (Inv e) = (writable x vs e \<and> fits 6 e)"
| "writable x vs (Asgn p e) = (writable x vs e \<and> resolves x vs (place_name vs p) (place_idtype p) (place_symbol p))"
| "writable x vs (Pre b i) = (b \<in> {Add, Sub} \<and> resolves x vs (var_name (vs ! i)) IDTYPE_VAR (IdVar i))"
| "writable x vs (Post b i) = (b \<in> {Add, Sub} \<and> resolves x vs (var_name (vs ! i)) IDTYPE_VAR (IdVar i))"
| "writable x vs (Call f as) = (writable_args x vs as \<and> resolves x vs (syscall_name f) IDTYPE_SYSCALL (IdSyscall f))"
| "writable_args x vs NoArgs = True"
| "writable_args x vs (Arg e as) = (writable x vs e \<and> writable_args x vs as)"

section \<open>What follows an expression\<close>

definition stops :: "nat \<Rightarrow> item \<Rightarrow> bool" where
  "stops l d \<longleftrightarrow> (\<forall>k \<ge> l. level_op k (item_token d) = None) \<and> item_token d \<notin> {Tinc, Tdec, Tleft_paren}"

lemma level_op_token: "level_op l (op_token b) = (if l = op_level b then Some b else None)"
  by (cases b) auto

lemma stops_op: "op_level b < l \<Longrightarrow> stops l (Op (op_token b))"
  by (cases b) (auto simp: stops_def)

lemma stops_mono: "stops l d \<Longrightarrow> l \<le> k \<Longrightarrow> stops k d"
  by (auto simp: stops_def)

text \<open>The state after an expression: the scanner elsewhere, its nodes taken from the table.\<close>

definition took :: "lex \<Rightarrow> nat \<Rightarrow> parser \<Rightarrow> parser" where
  "took t n s = s\<lparr>scanner := t, used := used s + n\<rparr>"

lemma took_simps [simp]:
  "scanner (took t n s) = t" "used (took t n s) = used s + n" "vars (took t n s) = vars s"
  "took t n (took t' m s) = took t (m + n) s" "took t 0 s = s\<lparr>scanner := t\<rparr>"
  "took t n (s\<lparr>scanner := t'\<rparr>) = took t n s" "(took t n s)\<lparr>scanner := t'\<rparr> = took t' n s"
  by (simp_all add: took_def add.assoc)

definition expr_at :: "exports \<Rightarrow> nat \<Rightarrow> finsh_var list \<Rightarrow> exp \<Rightarrow> bool" where
  "expr_at x l vs e \<longleftrightarrow> (\<forall>s d ds. vars s = vs \<longrightarrow> reads (scanner s) (items vs e @ d # ds) \<longrightarrow>
     used s + nodes (tree e Null) \<le> FINSH_NODE_MAX \<longrightarrow> stops l d \<longrightarrow>
     (\<exists>t. reads t (d # ds) \<and> errno t = errno (scanner s) \<and>
        parses x (Binary_expr l) s (tree e Null, took t (nodes (tree e Null)) s)))"

definition loop_at :: "exports \<Rightarrow> nat \<Rightarrow> finsh_var list \<Rightarrow> exp \<Rightarrow> bool" where
  "loop_at x l vs e \<longleftrightarrow> (\<forall>s d ds. vars s = vs \<longrightarrow> reads (scanner s) (items vs e @ d # ds) \<longrightarrow>
     used s + nodes (tree e Null) \<le> FINSH_NODE_MAX \<longrightarrow> stops (l + 1) d \<longrightarrow>
     (\<exists>t. reads t (d # ds) \<and> errno t = errno (scanner s) \<and>
        (\<forall>r. parses x (Binary_loop l (tree e Null)) (took t (nodes (tree e Null)) s) r \<longrightarrow> parses x (Binary_expr l) s r)))"

definition assign_at :: "exports \<Rightarrow> finsh_var list \<Rightarrow> exp \<Rightarrow> bool" where
  "assign_at x vs e \<longleftrightarrow> (\<forall>s d ds. vars s = vs \<longrightarrow> reads (scanner s) (items vs e @ d # ds) \<longrightarrow>
     used s + nodes (tree e Null) \<le> FINSH_NODE_MAX \<longrightarrow> stops 0 d \<longrightarrow> item_token d \<noteq> Tassign \<longrightarrow>
     (\<exists>t. reads t (d # ds) \<and> errno t = errno (scanner s) \<and>
        parses x Assign_expr s (tree e Null, took t (nodes (tree e Null)) s)))"

section \<open>Binary levels\<close>

lemma loop_of_expr:
  assumes "expr_at x (l + 1) vs e" and "l \<le> 5"
  shows "loop_at x l vs e"
  unfolding loop_at_def
proof (intro allI impI)
  fix s :: parser and d ds
  assume "vars s = vs" "reads (scanner s) (items vs e @ d # ds)" "used s + nodes (tree e Null) \<le> FINSH_NODE_MAX" "stops (l + 1) d"
  then obtain t where t: "reads t (d # ds)" "errno t = errno (scanner s)"
      "parses x (Binary_expr (l + 1)) s (tree e Null, took t (nodes (tree e Null)) s)"
    using assms(1) unfolding expr_at_def by blast
  have "parses x (Binary_expr l) s r"
    if "parses x (Binary_loop l (tree e Null)) (took t (nodes (tree e Null)) s) r" for r
    using assms(2) by (intro parses_via2 [OF t(3) that]) (simp add: proc_call_def proc_binary_expr_def)
  with t(1,2) show "\<exists>t. reads t (d # ds) \<and> errno t = errno (scanner s) \<and>
      (\<forall>r. parses x (Binary_loop l (tree e Null)) (took t (nodes (tree e Null)) s) r \<longrightarrow> parses x (Binary_expr l) s r)"
    by blast
qed

lemma expr_of_loop:
  assumes "loop_at x l vs e"
  shows "expr_at x l vs e"
  unfolding expr_at_def
proof (intro allI impI)
  fix s :: parser and d ds
  let ?n = "nodes (tree e Null)"
  assume a: "vars s = vs" "reads (scanner s) (items vs e @ d # ds)" "used s + ?n \<le> FINSH_NODE_MAX" "stops l d"
  then obtain t where t: "reads t (d # ds)" "errno t = errno (scanner s)"
      "\<And>r. parses x (Binary_loop l (tree e Null)) (took t ?n s) r \<Longrightarrow> parses x (Binary_expr l) s r"
    using assms stops_mono [OF a(4), of "l + 1"] unfolding loop_at_def by (metis le_add1)
  obtain t' where t': "next_token (took t ?n s) = Ok (item_token d, took t' ?n s)" "reads (finsh_token_replay t') (d # ds)" "errno t' = errno t"
    using next_read [of "took t ?n s" d ds] t(1) by (metis took_simps(1,7))
  have "level_op l (item_token d) = None"
    using a(4) by (simp add: stops_def)
  then have "parses x (Binary_loop l (tree e Null)) (took t ?n s) (tree e Null, took (finsh_token_replay t') ?n s)"
    by (intro parses_now) (simp add: proc_call_def binary_loop_def t'(1) replay_token_def)
  from t(3) [OF this] t'(2,3) t(2)
  show "\<exists>t. reads t (d # ds) \<and> errno t = errno (scanner s) \<and> parses x (Binary_expr l) s (tree e Null, took t ?n s)"
    by (intro exI [of _ "finsh_token_replay t'"]) simp
qed

lemma set_sibling_tree [simp]: "set_sibling (tree e s) s' = tree e s'"
  by (cases e) (simp_all add: id_node_def)

lemma make_bin:
  assumes "used s < FINSH_NODE_MAX"
  shows "make_sys_node (SYS b) (tree e Null) (tree f Null) s = (tree (Bin b e f) Null, s\<lparr>used := used s + 1\<rparr>)"
  using assms by (simp add: make_sys_node_def new_node_def finsh_node_allocate_def Let_def)

lemma loop_bin:
  assumes "loop_at x l vs e" and "expr_at x (l + 1) vs f" and "op_level b = l" and "l \<le> 5"
  shows "loop_at x l vs (Bin b e f)"
  unfolding loop_at_def
proof (intro allI impI)
  fix s :: parser and d ds
  let ?e = "nodes (tree e Null)" and ?f = "nodes (tree f Null)"
  assume a: "vars s = vs" "reads (scanner s) (items vs (Bin b e f) @ d # ds)"
    "used s + nodes (tree (Bin b e f) Null) \<le> FINSH_NODE_MAX" "stops (l + 1) d"
  have n: "nodes (tree (Bin b e f) Null) = ?e + ?f + 1"
    using nodes_tree [of e "tree f Null"] by simp
  have "reads (scanner s) (items vs e @ Op (op_token b) # items vs f @ d # ds)"
    using a(2) by simp
  then obtain t where t: "reads t (Op (op_token b) # items vs f @ d # ds)" "errno t = errno (scanner s)"
      "\<And>r. parses x (Binary_loop l (tree e Null)) (took t ?e s) r \<Longrightarrow> parses x (Binary_expr l) s r"
    using assms(1,3) a(1,3) n stops_op [of b "l + 1"] unfolding loop_at_def by (metis add_leD1 add.assoc less_add_one)
  obtain t1 where t1: "next_token (took t ?e s) = Ok (op_token b, took t1 ?e s)" "reads t1 (items vs f @ d # ds)" "errno t1 = errno t"
    using next_read [of "took t ?e s"] t(1) by (metis item_token.simps(1) took_simps(1,7))
  have "vars (took t1 ?e s) = vs" "used (took t1 ?e s) + ?f \<le> FINSH_NODE_MAX"
    using a(1,3) n by simp_all
  then obtain t2 where t2: "reads t2 (d # ds)" "errno t2 = errno t1"
      "parses x (Binary_expr (l + 1)) (took t1 ?e s) (tree f Null, took t2 (?e + ?f) s)"
    using assms(2) t1(2) a(4) unfolding expr_at_def by (metis took_simps(1,4))
  have m: "make_sys_node (SYS b) (tree e Null) (tree f Null) (took t2 (?e + ?f) s)
      = (tree (Bin b e f) Null, took t2 (?e + ?f + 1) s)"
    using a(3) n by (subst make_bin) (simp_all add: took_def)
  have "parses x (Binary_loop l (tree e Null)) (took t ?e s) r"
    if "parses x (Binary_loop l (tree (Bin b e f) Null)) (took t2 (?e + ?f + 1) s) r" for r
    using assms(3) by (intro parses_via2 [OF t2(3) that]) (simp add: proc_call_def binary_loop_def t1(1) level_op_token m del: tree.simps)
  with t(2,3) t1(3) t2(1,2) n
  show "\<exists>t. reads t (d # ds) \<and> errno t = errno (scanner s) \<and>
      (\<forall>r. parses x (Binary_loop l (tree (Bin b e f) Null)) (took t (nodes (tree (Bin b e f) Null)) s) r \<longrightarrow> parses x (Binary_expr l) s r)"
    by (intro exI [of _ t2]) auto
qed

section \<open>Unary, postfix and primary expressions\<close>

text \<open>Where a token decides between a routine and the next one, the token is put back.\<close>

lemma via_unary:
  assumes "reads (scanner s) (d # ds)" and "item_token d \<noteq> Tleft_paren"
    and "\<And>t. reads t (d # ds) \<Longrightarrow> errno t = errno (scanner s) \<Longrightarrow> \<exists>t'. Q t' \<and> parses x Unary_expr (s\<lparr>scanner := t\<rparr>) (R t')"
  shows "\<exists>t'. Q t' \<and> parses x (Binary_expr 6) s (R t')"
proof -
  obtain t where t: "next_token s = Ok (item_token d, s\<lparr>scanner := t\<rparr>)"
      "reads (finsh_token_replay t) (d # ds)" "errno t = errno (scanner s)"
    using next_read [OF assms(1)] by metis
  then obtain t' where t': "Q t'" "parses x Unary_expr (s\<lparr>scanner := finsh_token_replay t\<rparr>) (R t')"
    using assms(3) by (metis errno_replay)
  have "parses x Cast_expr s (R t')"
    using assms(2) by (intro parses_via [OF t'(2)]) (simp add: proc_call_def proc_cast_expr_def t(1) replay_token_def)
  then have "parses x (Binary_expr 6) s (R t')"
    by (rule parses_via) (simp add: proc_call_def proc_binary_expr_def)
  with t'(1) show ?thesis by blast
qed

lemma via_postfix:
  assumes "reads (scanner s) (d # ds)" and "item_token d \<notin> {Tleft_paren, Tadd, Tinc, Tsub, Tdec, Tbitwise, Tmul, Tand}"
    and "\<And>t. reads t (d # ds) \<Longrightarrow> errno t = errno (scanner s) \<Longrightarrow> \<exists>t'. Q t' \<and> parses x Postfix_expr (s\<lparr>scanner := t\<rparr>) (R t')"
  shows "\<exists>t'. Q t' \<and> parses x (Binary_expr 6) s (R t')"
proof (rule via_unary [OF assms(1)])
  show "item_token d \<noteq> Tleft_paren" using assms(2) by simp
  fix u assume u: "reads u (d # ds)" "errno u = errno (scanner s)"
  let ?s = "s\<lparr>scanner := u\<rparr>"
  have "reads (scanner ?s) (d # ds)" using u(1) by simp
  then obtain t where t: "next_token ?s = Ok (item_token d, ?s\<lparr>scanner := t\<rparr>)"
      "reads (finsh_token_replay t) (d # ds)" "errno t = errno (scanner ?s)"
    using next_read by metis
  then obtain t' where t': "Q t'" "parses x Postfix_expr (s\<lparr>scanner := finsh_token_replay t\<rparr>) (R t')"
    using assms(3) [OF t(2)] u(2) by auto
  have "parses x Unary_expr ?s (R t')"
    using assms(2) by (intro parses_via [OF t'(2)]) (simp add: proc_call_def proc_unary_expr_def t(1) replay_token_def)
  with t'(1) show "\<exists>t'. Q t' \<and> parses x Unary_expr ?s (R t')" by blast
qed

lemma new_value_took:
  "used s < FINSH_NODE_MAX \<Longrightarrow> new_value k v (s\<lparr>scanner := t\<rparr>) = (Node k 0 0 v None Null Null, took t 1 s)"
  by (simp add: new_value_def new_node_def finsh_node_allocate_def or_full_def Let_def took_def)

lemma make_unary:
  "used s + n < FINSH_NODE_MAX \<Longrightarrow> make_sys_node k (Node k' d i v sb c s') Null (took t n s) =
     (Node k 0 0 0 None (Node k' d i v sb c Null) Null, took t (n + 1) s)"
  by (simp add: make_sys_node_def new_node_def finsh_node_allocate_def Let_def took_def)

text \<open>A primary expression of one item.\<close>

fun item_node :: "exports \<Rightarrow> finsh_var list \<Rightarrow> item \<Rightarrow> finsh_node \<Rightarrow> bool" where
  "item_node x vs (Num v) n = (n = tree (Lit v) Null)"
| "item_node x vs (Chr_lit c) n = (n = tree (Chr c) Null)"
| "item_node x vs (Ident nm) n = (\<exists>idt sb. resolves x vs nm idt sb \<and> n = id_node 0 idt sb Null)"
| "item_node x vs (Op k) n = False"

lemma primary_item:
  assumes "reads (scanner s) (d # ds)" and "item_node x (vars s) d n" and "used s < FINSH_NODE_MAX"
  shows "\<exists>t. reads t ds \<and> errno t = errno (scanner s) \<and> parses x Primary_expr s (n, took t 1 s)"
proof -
  obtain t where t: "next_token s = Ok (item_token d, s\<lparr>scanner := t\<rparr>)" "item_ok d t" "reads t ds" "errno t = errno (scanner s)"
      "next_token (s\<lparr>scanner := finsh_token_replay t\<rparr>) = Ok (item_token d, s\<lparr>scanner := t\<rparr>)"
    using next_read [OF assms(1)] by metis
  have "proc_call x rec Primary_expr s = Ok (n, took t 1 s)" for rec
  proof (cases d)
    case (Ident nm)
    then obtain idt sb where r: "resolves x (vars s) nm idt sb" "n = id_node 0 idt sb Null"
      using assms(2) by auto
    have "proc_identifier (replay_token (s\<lparr>scanner := t\<rparr>)) = Ok (nm, s\<lparr>scanner := t\<rparr>)"
      using t(2,5) Ident r(1)
      by (simp add: proc_identifier_def match_token_def replay_token_def check_token_def resolves_def)
    moreover have "finsh_node_new_id x nm (s\<lparr>scanner := t\<rparr>) = Ok (n, took t 1 s)"
      using r assms(3) by (simp add: finsh_node_new_id_def resolves_def new_node_def finsh_node_allocate_def or_full_def
          Let_def took_def id_node_def)
    ultimately show ?thesis
      using t(1) Ident by (simp add: proc_call_def proc_primary_expr_def)
  qed (use t assms in \<open>auto simp: proc_call_def proc_primary_expr_def finsh_node_new_int_def finsh_node_new_char_def new_value_took\<close>)
  with t(3,4) show ?thesis
    by (intro exI [of _ t]) (simp add: parses_now)
qed

lemma postfix_end:
  assumes "reads (scanner s) (d # ds)" and "stops 6 d"
  shows "\<exists>t. reads t (d # ds) \<and> errno t = errno (scanner s) \<and> parses x (Postfix_loop e) s (e, s\<lparr>scanner := t\<rparr>)"
proof -
  obtain t where t: "next_token s = Ok (item_token d, s\<lparr>scanner := t\<rparr>)" "reads (finsh_token_replay t) (d # ds)"
      "errno t = errno (scanner s)"
    using next_read [OF assms(1)] by metis
  have "parses x (Postfix_loop e) s (e, s\<lparr>scanner := finsh_token_replay t\<rparr>)"
    using assms(2) by (intro parses_now) (simp add: proc_call_def postfix_loop_def t(1) stops_def replay_token_def)
  with t(2,3) show ?thesis
    by (intro exI [of _ "finsh_token_replay t"]) simp
qed

lemma postfix_item:
  assumes "reads (scanner s) (d # ds)" and "item_node x (vars s) d n" and "used s < FINSH_NODE_MAX"
    and "\<And>t. reads t ds \<Longrightarrow> errno t = errno (scanner s) \<Longrightarrow> \<exists>t'. Q t' \<and> parses x (Postfix_loop n) (took t 1 s) (R t')"
  shows "\<exists>t'. Q t' \<and> parses x (Binary_expr 6) s (R t')"
proof (rule via_postfix [OF assms(1)])
  show "item_token d \<notin> {Tleft_paren, Tadd, Tinc, Tsub, Tdec, Tbitwise, Tmul, Tand}"
    using assms(2) by (cases d) auto
  fix u assume u: "reads u (d # ds)" "errno u = errno (scanner s)"
  let ?s = "s\<lparr>scanner := u\<rparr>"
  obtain t where t: "reads t ds" "errno t = errno u" "parses x Primary_expr ?s (n, took t 1 s)"
    using primary_item [of ?s d ds x n] u(1) assms(2,3) by auto
  then obtain t' where t': "Q t'" "parses x (Postfix_loop n) (took t 1 s) (R t')"
    using assms(4) u(2) by metis
  have "parses x Postfix_expr ?s (R t')"
    by (intro parses_via2 [OF t(3) t'(2)]) (simp add: proc_call_def proc_postfix_expr_def)
  with t'(1) show "\<exists>t'. Q t' \<and> parses x Postfix_expr ?s (R t')" by blast
qed

lemma expr6_item:
  assumes "items vs e = [d]" and "item_node x vs d (tree e Null)" and "nodes (tree e Null) = 1"
  shows "expr_at x 6 vs e"
  unfolding expr_at_def
proof (intro allI impI)
  fix s :: parser and d' ds
  assume a: "vars s = vs" "reads (scanner s) (items vs e @ d' # ds)" "used s + nodes (tree e Null) \<le> FINSH_NODE_MAX" "stops 6 d'"
  have "\<exists>t. (reads t (d' # ds) \<and> errno t = errno (scanner s)) \<and>
      parses x (Binary_expr 6) s (tree e Null, took t (nodes (tree e Null)) s)"
  proof (rule postfix_item)
    show "reads (scanner s) (d # d' # ds)" "item_node x (vars s) d (tree e Null)" "used s < FINSH_NODE_MAX"
      using a assms by simp_all
    fix t assume t: "reads t (d' # ds)" "errno t = errno (scanner s)"
    show "\<exists>t'. (reads t' (d' # ds) \<and> errno t' = errno (scanner s)) \<and>
        parses x (Postfix_loop (tree e Null)) (took t 1 s) (tree e Null, took t' (nodes (tree e Null)) s)"
      using postfix_end [of "took t 1 s" d' ds x "tree e Null"] t a(4) assms(3) by auto
  qed
  then show "\<exists>t. reads t (d' # ds) \<and> errno t = errno (scanner s) \<and>
      parses x (Binary_expr 6) s (tree e Null, took t (nodes (tree e Null)) s)" by blast
qed

section \<open>Prefix operators\<close>

lemma parses_cast: "parses x (Binary_expr 6) s r \<longleftrightarrow> parses x Cast_expr s r"
  unfolding parses_step [of x "Binary_expr 6"] parses_def [of x Cast_expr]
  by (simp add: proc_call_def proc_binary_expr_def)

lemma tree_node: "\<exists>k d i v sb c. tree e Null = Node k d i v sb c Null"
  by (cases e) (simp_all add: id_node_def)

lemma make_unary_tree:
  "used s + n < FINSH_NODE_MAX \<Longrightarrow> make_sys_node k (tree e Null) Null (took t n s) =
     (Node k 0 0 0 None (tree e Null) Null, took t (n + 1) s)"
  using tree_node [of e] by (auto simp: make_unary)

lemma prefix_expr:
  assumes "expr_at x 6 vs e" and "(k, nt) \<in> {(Tinc, SYS_PREINC), (Tdec, SYS_PREDEC), (Tbitwise, SYS_BITWISE)}"
    and "vars s = vs" and "reads (scanner s) (Op k # items vs e @ d # ds)"
    and "used s + nodes (tree e Null) < FINSH_NODE_MAX" and "stops 6 d"
  shows "\<exists>t. (reads t (d # ds) \<and> errno t = errno (scanner s)) \<and>
    parses x (Binary_expr 6) s (Node nt 0 0 0 None (tree e Null) Null, took t (nodes (tree e Null) + 1) s)"
proof (rule via_unary [OF assms(4)])
  show "item_token (Op k) \<noteq> Tleft_paren" using assms(2) by auto
  fix u assume u: "reads u (Op k # items vs e @ d # ds)" "errno u = errno (scanner s)"
  let ?s = "s\<lparr>scanner := u\<rparr>"
  have "reads (scanner ?s) (Op k # items vs e @ d # ds)" using u(1) by simp
  then obtain t where t: "next_token ?s = Ok (k, ?s\<lparr>scanner := t\<rparr>)" "reads t (items vs e @ d # ds)" "errno t = errno (scanner ?s)"
    using next_read by (metis item_token.simps(1))
  have "vars (?s\<lparr>scanner := t\<rparr>) = vs" "used (?s\<lparr>scanner := t\<rparr>) + nodes (tree e Null) \<le> FINSH_NODE_MAX"
    "reads (scanner (?s\<lparr>scanner := t\<rparr>)) (items vs e @ d # ds)"
    using assms(3,5) t(2) by simp_all
  then obtain t' where t': "reads t' (d # ds)" "errno t' = errno (scanner (?s\<lparr>scanner := t\<rparr>))"
      "parses x Cast_expr (?s\<lparr>scanner := t\<rparr>) (tree e Null, took t' (nodes (tree e Null)) (?s\<lparr>scanner := t\<rparr>))"
    using assms(1,6) unfolding expr_at_def parses_cast by blast
  have "parses x Unary_expr ?s (Node nt 0 0 0 None (tree e Null) Null, took t' (nodes (tree e Null) + 1) s)"
    using assms(2,5)
    by (intro parses_via [OF t'(3)]) (auto simp: proc_call_def proc_unary_expr_def t(1) unary_node_def make_unary_tree)
  with t'(1,2) t(3) u(2) show "\<exists>t. (reads t (d # ds) \<and> errno t = errno (scanner s)) \<and>
      parses x Unary_expr ?s (Node nt 0 0 0 None (tree e Null) Null, took t (nodes (tree e Null) + 1) s)"
    by (intro exI [of _ t']) simp
qed

section \<open>Postfix steps and calls\<close>

lemma postfix_step_expr:
  assumes "resolves x vs nm idt sb" and "(k, nt) \<in> {(Tinc, SYS_INC), (Tdec, SYS_DEC)}"
    and "vars s = vs" and "reads (scanner s) (Ident nm # Op k # d # ds)"
    and "used s + 1 < FINSH_NODE_MAX" and "stops 6 d"
  shows "\<exists>t. (reads t (d # ds) \<and> errno t = errno (scanner s)) \<and>
    parses x (Binary_expr 6) s (Node nt 0 0 0 None (id_node 0 idt sb Null) Null, took t 2 s)"
proof (rule postfix_item [OF assms(4)])
  let ?n = "id_node 0 idt sb Null"
  show "item_node x (vars s) (Ident nm) ?n" "used s < FINSH_NODE_MAX"
    using assms(1,3,5) by auto
  fix u assume u: "reads u (Op k # d # ds)" "errno u = errno (scanner s)"
  have "reads (scanner (took u 1 s)) (Op k # d # ds)" using u(1) by simp
  then obtain t where t: "next_token (took u 1 s) = Ok (k, took t 1 s)" "reads t (d # ds)" "errno t = errno u"
    using next_read by (metis item_token.simps(1) took_simps(1,7))
  let ?m = "Node nt 0 0 0 None ?n Null"
  have m: "make_sys_node nt ?n Null (took t 1 s) = (?m, took t 2 s)"
    using assms(5) by (simp add: id_node_def make_unary numeral_2_eq_2)
  obtain t' where t': "reads t' (d # ds)" "errno t' = errno t" "parses x (Postfix_loop ?m) (took t 2 s) (?m, took t' 2 s)"
    using postfix_end [of "took t 2 s" d ds x ?m] t(2) assms(6) by auto
  have "parses x (Postfix_loop ?n) (took u 1 s) (?m, took t' 2 s)"
    using assms(2) m by (intro parses_via [OF t'(3)]) (auto simp: proc_call_def postfix_loop_def t(1) simp del: One_nat_def)
  with t'(1,2) t(3) u(2) show "\<exists>t'. (reads t' (d # ds) \<and> errno t' = errno (scanner s)) \<and>
      parses x (Postfix_loop ?n) (took u 1 s) (?m, took t' 2 s)"
    by (intro exI [of _ t']) simp
qed

fun arg_exps :: "args \<Rightarrow> exp list" where
  "arg_exps NoArgs = []"
| "arg_exps (Arg e as) = e # arg_exps as"

lemma chain_args: "chain (map (\<lambda>e. tree e Null) (arg_exps as)) = arg_trees as"
  by (induction as rule: arg_exps.induct) simp_all

lemma follow_args: "stops 0 (Op Tcomma)" "stops 0 (Op Tright_paren)"
  by (simp_all add: stops_def)

lemma param_loop_args:
  assumes "\<forall>e \<in> set (arg_exps as). assign_at x vs e" and "vars s = vs"
    and "reads (scanner s) ((if as = NoArgs then [] else Op Tcomma # arg_items vs as) @ Op Tright_paren # ds)"
    and "used s + nodes (arg_trees as) \<le> FINSH_NODE_MAX"
  shows "\<exists>t. reads t (Op Tright_paren # ds) \<and> errno t = errno (scanner s) \<and>
    parses x (Param_loop ps) s (chain (ps @ map (\<lambda>e. tree e Null) (arg_exps as)), took t (nodes (arg_trees as)) s)"
  using assms
proof (induction as arbitrary: ps s rule: arg_exps.induct)
  case 1
  then have "reads (scanner s) (Op Tright_paren # ds)" by simp
  then obtain t where t: "next_token s = Ok (Tright_paren, s\<lparr>scanner := t\<rparr>)" "reads (finsh_token_replay t) (Op Tright_paren # ds)"
      "errno t = errno (scanner s)"
    using next_read by (metis item_token.simps(1))
  have "parses x (Param_loop ps) s (chain ps, s\<lparr>scanner := finsh_token_replay t\<rparr>)"
    by (intro parses_now) (simp add: proc_call_def param_loop_def t(1) replay_token_def)
  with t(2,3) show ?case by (intro exI [of _ "finsh_token_replay t"]) simp
next
  case (2 e as)
  let ?rest = "(if as = NoArgs then [] else Op Tcomma # arg_items vs as) @ Op Tright_paren # ds"
  let ?e = "nodes (tree e Null)"
  have n: "nodes (arg_trees (Arg e as)) = ?e + nodes (arg_trees as)"
    using nodes_tree [of e "arg_trees as"] by simp
  have "reads (scanner s) (Op Tcomma # items vs e @ ?rest)"
    using 2(4) by simp
  then obtain t where t: "next_token s = Ok (Tcomma, s\<lparr>scanner := t\<rparr>)" "reads t (items vs e @ ?rest)" "errno t = errno (scanner s)"
    using next_read by (metis item_token.simps(1))
  let ?s = "s\<lparr>scanner := t\<rparr>"
  obtain d ds' where d: "?rest = d # ds'" "stops 0 d" "item_token d \<noteq> Tassign"
    using follow_args by (cases as) auto
  have "assign_at x vs e" using 2(2) by simp
  moreover have "vars ?s = vs" "reads (scanner ?s) (items vs e @ d # ds')" "used ?s + ?e \<le> FINSH_NODE_MAX"
    using t(2) d(1) 2(3,5) n by simp_all
  ultimately obtain t1 where t1: "reads t1 (d # ds')" "errno t1 = errno (scanner ?s)"
      "parses x Assign_expr ?s (tree e Null, took t1 ?e ?s)"
    using d(2,3) unfolding assign_at_def by blast
  have "reads (scanner (took t1 ?e s)) ?rest" "used (took t1 ?e s) + nodes (arg_trees as) \<le> FINSH_NODE_MAX" "vars (took t1 ?e s) = vs"
    using t1(1) d(1) 2(3,5) n by simp_all
  then obtain t2 where t2: "reads t2 (Op Tright_paren # ds)" "errno t2 = errno t1"
      "parses x (Param_loop (ps @ [tree e Null])) (took t1 ?e s)
        (chain ((ps @ [tree e Null]) @ map (\<lambda>e. tree e Null) (arg_exps as)), took t2 (?e + nodes (arg_trees as)) s)"
    using 2(1) [of "took t1 ?e s" "ps @ [tree e Null]"] 2(2) by auto
  have "parses x (Param_loop ps) s (chain ((ps @ [tree e Null]) @ map (\<lambda>e. tree e Null) (arg_exps as)), took t2 (?e + nodes (arg_trees as)) s)"
    using t1(3) by (intro parses_via2 [OF t1(3) t2(3)]) (simp add: proc_call_def param_loop_def t(1))
  with t2(1,2) t1(2) t(3) n show ?case
    by (intro exI [of _ t2]) simp
qed

lemma first_item: "\<exists>d ds. items vs e = d # ds \<and> item_token d \<noteq> Tright_paren \<and> item_token d \<noteq> Tsemicolon \<and>
    item_token d \<noteq> Teof \<and> item_token d \<noteq> Tbad \<and> \<not> is_type_token (item_token d)"
proof (induction e rule: exp.induct [where ?P2.0 = "\<lambda>_. True"])
  case (Pre b i)
  then show ?case by (cases b) (simp_all add: is_type_token_def)
qed (auto simp: is_type_token_def)

lemma call_expr:
  assumes "\<forall>e \<in> set (arg_exps as). assign_at x vs e" and "resolves x vs (syscall_name f) IDTYPE_SYSCALL (IdSyscall f)"
  shows "expr_at x 6 vs (Call f as)"
  unfolding expr_at_def
proof (intro allI impI)
  fix s :: parser and d ds
  let ?id = "id_node 0 IDTYPE_SYSCALL (IdSyscall f) Null" and ?a = "nodes (arg_trees as)"
  let ?c = "tree (Call f as) Null"
  assume a: "vars s = vs" "reads (scanner s) (items vs (Call f as) @ d # ds)" "used s + nodes ?c \<le> FINSH_NODE_MAX" "stops 6 d"
  have n: "nodes ?c = ?a + 2" by (simp add: id_node_def)
  have r: "reads (scanner s) (Ident (syscall_name f) # Op Tleft_paren # arg_items vs as @ Op Tright_paren # d # ds)"
    using a(2) by simp
  have "\<exists>t. (reads t (d # ds) \<and> errno t = errno (scanner s)) \<and> parses x (Binary_expr 6) s (?c, took t (nodes ?c) s)"
  proof (rule postfix_item [OF r])
    show "item_node x (vars s) (Ident (syscall_name f)) ?id" "used s < FINSH_NODE_MAX"
      using a(1,3) assms(2) n by auto
    fix u assume u: "reads u (Op Tleft_paren # arg_items vs as @ Op Tright_paren # d # ds)" "errno u = errno (scanner s)"
    have "reads (scanner (took u 1 s)) (Op Tleft_paren # arg_items vs as @ Op Tright_paren # d # ds)" using u(1) by simp
    then obtain t where t: "next_token (took u 1 s) = Ok (Tleft_paren, took t 1 s)"
        "reads t (arg_items vs as @ Op Tright_paren # d # ds)" "errno t = errno u"
      using next_read by (metis item_token.simps(1) took_simps(1,7))
    have fin: "\<exists>t'. (reads t' (d # ds) \<and> errno t' = errno (scanner s)) \<and> parses x (Postfix_loop ?id) (took u 1 s) (?c, took t' (nodes ?c) s)"
      if args: "reads v (d # ds)" "errno v = errno t"
        and step: "\<And>rec r. rec (Postfix_loop ?c) (took v (nodes ?c) s) = Ok r \<Longrightarrow> P rec \<Longrightarrow> proc_call x rec (Postfix_loop ?id) (took u 1 s) = Ok r"
        and ev: "\<forall>\<^sub>F m in sequentially. P (proc x m)" for v P
    proof -
      obtain t' where t': "reads t' (d # ds)" "errno t' = errno v" "parses x (Postfix_loop ?c) (took v (nodes ?c) s) (?c, took t' (nodes ?c) s)"
        using postfix_end [of "took v (nodes ?c) s" d ds x ?c] args(1) a(4) by auto
      have "parses x (Postfix_loop ?id) (took u 1 s) (?c, took t' (nodes ?c) s)"
        using eventually_conj [OF t'(3) [unfolded parses_def] ev] unfolding parses_step [of x "Postfix_loop ?id"]
        by (rule eventually_mono) (use step in blast)
      with t'(1,2) args(2) t(3) u(2) show ?thesis by (intro exI [of _ t']) simp
    qed
    have m: "make_sys_node SYS_FUNC ?id (arg_trees as) (took v (Suc ?a) s) = (?c, took v (nodes ?c) s)" for v
      using a(3) n by (simp add: id_node_def make_sys_node_def new_node_def finsh_node_allocate_def Let_def took_def)
    show "\<exists>t'. (reads t' (d # ds) \<and> errno t' = errno (scanner s)) \<and> parses x (Postfix_loop ?id) (took u 1 s) (?c, took t' (nodes ?c) s)"
    proof (cases as)
      case NoArgs
      have "reads (scanner (took t 1 s)) (Op Tright_paren # d # ds)" using t(2) NoArgs by simp
      then obtain v where v: "next_token (took t 1 s) = Ok (Tright_paren, took v 1 s)" "reads v (d # ds)" "errno v = errno t"
        using next_read by (metis item_token.simps(1) took_simps(1,7))
      have m': "make_sys_node SYS_FUNC ?id Null (took v 1 s) = (?c, took v (nodes ?c) s)"
        using m [of v] NoArgs by simp
      show ?thesis
        by (rule fin [OF v(2,3), of "\<lambda>_. True"])
          (simp_all add: proc_call_def postfix_loop_def t(1) v(1) m' del: tree.simps nodes.simps One_nat_def)
    next
      case (Arg e as')
      let ?e = "nodes (tree e Null)" and ?rest = "(if as' = NoArgs then [] else Op Tcomma # arg_items vs as') @ Op Tright_paren # d # ds"
      have n': "?a = ?e + nodes (arg_trees as')"
        using nodes_tree [of e "arg_trees as'"] Arg by simp
      obtain d' ds' where d': "items vs e = d' # ds'" "item_token d' \<noteq> Tright_paren"
        using first_item by blast
      have "reads (scanner (took t 1 s)) (d' # ds' @ ?rest)" using t(2) Arg d'(1) by simp
      then obtain v where v: "next_token (took t 1 s) = Ok (item_token d', took v 1 s)"
          "reads (finsh_token_replay v) (d' # ds' @ ?rest)" "errno v = errno t"
        using next_read by (metis took_simps(1,7))
      let ?s = "took (finsh_token_replay v) 1 s"
      obtain b bs where b: "?rest = b # bs" "stops 0 b" "item_token b \<noteq> Tassign"
        using follow_args by (cases as') auto
      have "assign_at x vs e" using assms(1) Arg by simp
      moreover have "vars ?s = vs" "reads (scanner ?s) (items vs e @ b # bs)" "used ?s + ?e \<le> FINSH_NODE_MAX"
        using a(1,3) n n' v(2) d'(1) b(1) by simp_all
      ultimately obtain t1 where t1: "reads t1 (b # bs)" "errno t1 = errno (scanner ?s)" "parses x Assign_expr ?s (tree e Null, took t1 ?e ?s)"
        using b(2,3) unfolding assign_at_def by blast
      have "reads (scanner (took t1 (1 + ?e) s)) ?rest" "vars (took t1 (1 + ?e) s) = vs"
          "used (took t1 (1 + ?e) s) + nodes (arg_trees as') \<le> FINSH_NODE_MAX"
        using t1(1) b(1) a(1,3) n n' by simp_all
      then obtain t2 where t2: "reads t2 (Op Tright_paren # d # ds)" "errno t2 = errno t1"
          "parses x (Param_loop [tree e Null]) (took t1 (1 + ?e) s)
            (chain ([tree e Null] @ map (\<lambda>e. tree e Null) (arg_exps as')), took t2 (1 + ?a) s)"
        using param_loop_args [of as' x vs "took t1 (1 + ?e) s" "d # ds" "[tree e Null]"] assms(1) Arg n' by auto
      have c: "chain ([tree e Null] @ map (\<lambda>e. tree e Null) (arg_exps as')) = arg_trees as"
        using chain_args [of as] Arg by simp
      have p: "parses x Param_list ?s (arg_trees as, took t2 (Suc ?a) s)"
        using t1(3) by (intro parses_via2 [OF t1(3) t2(3)]) (simp add: proc_call_def proc_param_list_def c [simplified] add.commute)
      have "reads (scanner (took t2 (Suc ?a) s)) (Op Tright_paren # d # ds)" using t2(1) by simp
      then obtain w where w: "next_token (took t2 (Suc ?a) s) = Ok (Tright_paren, took w (Suc ?a) s)" "reads w (d # ds)" "errno w = errno t2"
        using next_read by (metis item_token.simps(1) took_simps(1,7))
      have mt: "match_token Tright_paren (took t2 (Suc ?a) s) = Ok (took w (Suc ?a) s)"
        by (simp add: match_token_def w(1) check_token_def)
      have e: "errno w = errno t"
        using w(3) t2(2) t1(2) v(3) by simp
      have rp: "replay_token (took v 1 s) = ?s"
        by (simp add: replay_token_def)
      show ?thesis
      proof (rule fin [OF w(2) e _ p [unfolded parses_def]])
        fix rec :: calls and r
        assume "rec (Postfix_loop ?c) (took w (nodes ?c) s) = Ok r" "rec Param_list ?s = Ok (arg_trees as, took t2 (Suc ?a) s)"
        then show "proc_call x rec (Postfix_loop ?id) (took u 1 s) = Ok r"
          using d'(2) by (simp add: proc_call_def postfix_loop_def t(1) v(1) rp mt m del: tree.simps nodes.simps One_nat_def)
      qed
    qed
  qed
  then show "\<exists>t. reads t (d # ds) \<and> errno t = errno (scanner s) \<and> parses x (Binary_expr 6) s (?c, took t (nodes ?c) s)"
    by blast
qed

section \<open>Assignments\<close>

lemma assign_of_expr:
  assumes "expr_at x 0 vs e"
  shows "assign_at x vs e"
  unfolding assign_at_def
proof (intro allI impI)
  fix s :: parser and d ds
  let ?n = "nodes (tree e Null)"
  assume a: "vars s = vs" "reads (scanner s) (items vs e @ d # ds)" "used s + ?n \<le> FINSH_NODE_MAX" "stops 0 d" "item_token d \<noteq> Tassign"
  then obtain t where t: "reads t (d # ds)" "errno t = errno (scanner s)" "parses x (Binary_expr 0) s (tree e Null, took t ?n s)"
    using assms unfolding expr_at_def by blast
  have "reads (scanner (took t ?n s)) (d # ds)" using t(1) by simp
  then obtain t' where t': "next_token (took t ?n s) = Ok (item_token d, took t' ?n s)" "reads (finsh_token_replay t') (d # ds)" "errno t' = errno t"
    using next_read by (metis took_simps(1,7))
  have "parses x Assign_expr s (tree e Null, took (finsh_token_replay t') ?n s)"
    using a(5) by (intro parses_via [OF t(3)]) (simp add: proc_call_def proc_assign_expr_def t'(1) replay_token_def)
  with t'(2,3) t(2) show "\<exists>t. reads t (d # ds) \<and> errno t = errno (scanner s) \<and> parses x Assign_expr s (tree e Null, took t ?n s)"
    by (intro exI [of _ "finsh_token_replay t'"]) simp
qed

lemma expr_lower:
  assumes "expr_at x (l + k) vs e" and "l + k \<le> 6"
  shows "expr_at x l vs e"
  using assms
proof (induction k)
  case 0
  then show ?case by simp
next
  case (Suc k)
  then have "expr_at x (l + k) vs e"
    using expr_of_loop [OF loop_of_expr [of x "l + k" vs e]] by simp
  then show ?case using Suc by simp
qed

lemma assign_asgn:
  assumes "assign_at x vs e" and "expr_at x 0 vs (Var p)"
  shows "assign_at x vs (Asgn p e)"
  unfolding assign_at_def
proof (intro allI impI)
  fix s :: parser and d ds
  let ?e = "nodes (tree e Null)" and ?a = "tree (Asgn p e) Null"
  assume a: "vars s = vs" "reads (scanner s) (items vs (Asgn p e) @ d # ds)" "used s + nodes ?a \<le> FINSH_NODE_MAX" "stops 0 d" "item_token d \<noteq> Tassign"
  have n: "nodes ?a = ?e + 2" "nodes (tree (Var p) Null) = 1" by (simp_all add: id_node_def)
  have "reads (scanner s) (items vs (Var p) @ Op Tassign # items vs e @ d # ds)" using a(2) by simp
  moreover have "stops 0 (Op Tassign)" by (simp add: stops_def)
  ultimately obtain t where t: "reads t (Op Tassign # items vs e @ d # ds)" "errno t = errno (scanner s)"
      "parses x (Binary_expr 0) s (tree (Var p) Null, took t 1 s)"
    using assms(2) a(1,3) n unfolding expr_at_def by (metis add_leD1 add_le_cancel_left le_add2 le_trans one_le_numeral)
  have "reads (scanner (took t 1 s)) (Op Tassign # items vs e @ d # ds)" using t(1) by simp
  then obtain u where u: "next_token (took t 1 s) = Ok (Tassign, took u 1 s)" "reads u (items vs e @ d # ds)" "errno u = errno t"
    using next_read by (metis item_token.simps(1) took_simps(1,7))
  have "vars (took u 1 s) = vs" "reads (scanner (took u 1 s)) (items vs e @ d # ds)" "used (took u 1 s) + ?e \<le> FINSH_NODE_MAX"
    using a(1,3) u(2) n by simp_all
  then obtain v where v: "reads v (d # ds)" "errno v = errno (scanner (took u 1 s))"
      "parses x Assign_expr (took u 1 s) (tree e Null, took v ?e (took u 1 s))"
    using assms(1) a(4,5) unfolding assign_at_def by blast
  have m: "make_sys_node SYS_ASSIGN (tree (Var p) Null) (tree e Null) (took v ?e (took u 1 s)) = (?a, took v (nodes ?a) s)"
    using a(3) n(1) by (simp add: id_node_def make_sys_node_def new_node_def finsh_node_allocate_def Let_def took_def)
  have "parses x Assign_expr s (?a, took v (nodes ?a) s)"
    using m by (intro parses_via2 [OF t(3) v(3)])
      (simp add: proc_call_def proc_assign_expr_def u(1) del: tree.simps nodes.simps One_nat_def took_simps)
  with v(1,2) u(3) t(2) show "\<exists>t. reads t (d # ds) \<and> errno t = errno (scanner s) \<and> parses x Assign_expr s (?a, took t (nodes ?a) s)"
    by (intro exI [of _ v]) simp
qed

section \<open>All expressions\<close>

lemma prefix_expr_at:
  assumes "expr_at x 6 vs e" and "(k, nt) \<in> {(Tinc, SYS_PREINC), (Tdec, SYS_PREDEC), (Tbitwise, SYS_BITWISE)}"
    and "items vs f = Op k # items vs e" and "tree f Null = Node nt 0 0 0 None (tree e Null) Null"
  shows "expr_at x 6 vs f"
  unfolding expr_at_def
proof (intro allI impI)
  fix s :: parser and d ds
  assume a: "vars s = vs" "reads (scanner s) (items vs f @ d # ds)" "used s + nodes (tree f Null) \<le> FINSH_NODE_MAX" "stops 6 d"
  have "reads (scanner s) (Op k # items vs e @ d # ds)" "used s + nodes (tree e Null) < FINSH_NODE_MAX"
    using a(2,3) assms(3,4) by simp_all
  from prefix_expr [OF assms(1,2) a(1) this a(4)] assms(4)
  show "\<exists>t. reads t (d # ds) \<and> errno t = errno (scanner s) \<and> parses x (Binary_expr 6) s (tree f Null, took t (nodes (tree f Null)) s)"
    by (auto simp del: reads.simps)
qed

lemma postfix_expr_at:
  assumes "resolves x vs (var_name (vs ! i)) IDTYPE_VAR (IdVar i)" and "b \<in> {Add, Sub}"
  shows "expr_at x 6 vs (Post b i)"
  unfolding expr_at_def
proof (intro allI impI)
  fix s :: parser and d ds
  let ?nt = "if b = Add then SYS_INC else SYS_DEC"
  assume a: "vars s = vs" "reads (scanner s) (items vs (Post b i) @ d # ds)" "used s + nodes (tree (Post b i) Null) \<le> FINSH_NODE_MAX" "stops 6 d"
  have k: "(step_token b, ?nt) \<in> {(Tinc, SYS_INC), (Tdec, SYS_DEC)}" using assms(2) by auto
  have "reads (scanner s) (Ident (var_name (vs ! i)) # Op (step_token b) # d # ds)" "used s + 1 < FINSH_NODE_MAX"
    using a(2,3) by (simp_all add: id_node_def)
  from postfix_step_expr [OF assms(1) k a(1) this a(4)]
  show "\<exists>t. reads t (d # ds) \<and> errno t = errno (scanner s) \<and>
      parses x (Binary_expr 6) s (tree (Post b i) Null, took t (nodes (tree (Post b i) Null)) s)"
    by (auto simp: id_node_def numeral_2_eq_2 simp del: reads.simps)
qed

lemma var_expr_at:
  assumes "resolves x vs (place_name vs p) (place_idtype p) (place_symbol p)"
  shows "expr_at x 6 vs (Var p)"
  by (rule expr6_item [of _ _ "Ident (place_name vs p)"]) (use assms in \<open>auto simp: id_node_def\<close>)

text \<open>Every writable expression is read at every level it fits, and as an assignment expression.\<close>

lemma expr_all:
  assumes "expr_at x 6 vs e"
  shows "(\<forall>l \<le> 6. expr_at x l vs e) \<and> (\<forall>l \<le> 5. loop_at x l vs e) \<and> assign_at x vs e"
proof -
  have l: "expr_at x l vs e" if "l \<le> 6" for l
    using expr_lower [of x l "6 - l" vs e] assms that by simp
  moreover have "loop_at x l vs e" if "l \<le> 5" for l
    using loop_of_expr [OF l [of "l + 1"]] that by simp
  ultimately show ?thesis using assign_of_expr by blast
qed

lemma parse_exp:
  "writable x vs e \<Longrightarrow> (\<forall>l \<le> 6. fits l e \<longrightarrow> expr_at x l vs e) \<and> (\<forall>l \<le> 5. fits l e \<longrightarrow> loop_at x l vs e) \<and>
     assign_at x vs e"
  "writable_args x vs as \<Longrightarrow> \<forall>e \<in> set (arg_exps as). assign_at x vs e"
proof (induction e and as rule: exp.induct args.induct)
  case (Lit v)
  have "expr_at x 6 vs (Lit v)" by (rule expr6_item [of _ _ "Num v"]) simp_all
  then show ?case using expr_all by blast
next
  case (Chr c)
  have "expr_at x 6 vs (Chr c)" by (rule expr6_item [of _ _ "Chr_lit c"]) simp_all
  then show ?case using expr_all by blast
next
  case (Var p)
  then show ?case using expr_all [OF var_expr_at] by simp
next
  case (Bin b e f)
  have b: "op_level b \<le> 5" by (cases b) simp_all
  have "loop_at x (op_level b) vs e" "expr_at x (op_level b + 1) vs f"
    using Bin b by simp_all
  then have loop: "loop_at x (op_level b) vs (Bin b e f)"
    using b by (intro loop_bin) simp_all
  have expr: "expr_at x l vs (Bin b e f)" if "l \<le> op_level b" for l
    using expr_lower [of x l "op_level b - l" vs "Bin b e f"] expr_of_loop [OF loop] b that by simp
  have loops: "loop_at x l vs (Bin b e f)" if "l \<le> op_level b" for l
    using loop loop_of_expr [OF expr [of "l + 1"]] b that by (cases "l = op_level b") simp_all
  show ?case
  proof (intro conjI allI impI)
    show "assign_at x vs (Bin b e f)" by (rule assign_of_expr [OF expr]) simp
  qed (use expr loops in \<open>simp_all only: fits.simps\<close>)
next
  case (Inv e)
  then have "expr_at x 6 vs e" by simp
  then have "expr_at x 6 vs (Inv e)"
    by (rule prefix_expr_at [of x vs e Tbitwise SYS_BITWISE]) simp_all
  then show ?case using expr_all by blast
next
  case (Asgn p e)
  then show ?case
    using assign_asgn [of x vs e p] expr_all [OF var_expr_at [of x vs p]] by simp
next
  case (Pre b i)
  have "expr_at x 6 vs (Pre b i)"
  proof (rule prefix_expr_at)
    show "expr_at x 6 vs (Var (Shell i))" using Pre by (intro var_expr_at) simp
    show "(step_token b, if b = Add then SYS_PREINC else SYS_PREDEC) \<in> {(Tinc, SYS_PREINC), (Tdec, SYS_PREDEC), (Tbitwise, SYS_BITWISE)}"
      using Pre by auto
  qed simp_all
  then show ?case using expr_all by blast
next
  case (Post b i)
  then show ?case using expr_all [OF postfix_expr_at] by simp
next
  case (Call f as)
  then show ?case using expr_all [OF call_expr] by simp
qed simp_all

section \<open>Lines\<close>

primrec exps_tree :: "exp list \<Rightarrow> finsh_node" where
  "exps_tree [] = Null"
| "exps_tree (e # es) = tree e (exps_tree es)"

fun line_items :: "finsh_var list \<Rightarrow> exp list \<Rightarrow> item list" where
  "line_items vs [] = [Op Teof]"
| "line_items vs (e # es) = items vs e @ Op Tsemicolon # line_items vs es"

lemma line_items_start: "\<exists>c cs. line_items vs es = c # cs"
proof (cases es)
  case (Cons e es')
  moreover obtain d ds where "items vs e = d # ds" using first_item by blast
  ultimately show ?thesis by simp
qed simp

lemma nodes_exps: "nodes (exps_tree (es @ fs)) = nodes (exps_tree es) + nodes (exps_tree fs)"
proof (induction es)
  case (Cons e es)
  then show ?case using nodes_tree [of e "exps_tree (es @ fs)"] nodes_tree [of e "exps_tree es"] by simp
qed simp

lemma attach_exps: "es \<noteq> [] \<Longrightarrow> attach (length es - 1) n (exps_tree es) = foldr tree es n"
proof (induction es)
  case (Cons e es)
  show ?case
  proof (cases es)
    case Nil
    then show ?thesis by (cases e) (simp_all add: id_node_def)
  next
    case (Cons f fs)
    then have "attach (length fs) n (exps_tree es) = foldr tree es n"
      using Cons.IH by simp
    with Cons show ?thesis by (cases e) (simp_all add: id_node_def)
  qed
qed simp

lemma exps_tree_foldr: "exps_tree (es @ [e]) = foldr tree es (tree e Null)"
  by (induction es) simp_all

lemma exps_tree_null [simp]: "exps_tree es = Null \<longleftrightarrow> es = []"
  by (cases es) simp_all

definition runs :: "exports \<Rightarrow> token \<Rightarrow> finsh_node \<times> nat \<Rightarrow> parser \<Rightarrow> finsh_node \<times> parser \<Rightarrow> bool" where
  "runs x k r s res \<longleftrightarrow> (\<forall>\<^sub>F n in sequentially. run_loop x n k r s = Ok res)"

lemma runs_step: "runs x k r s res \<longleftrightarrow> (\<forall>\<^sub>F n in sequentially. run_loop x (Suc n) k r s = Ok res)"
  unfolding runs_def by (rule eventually_sequentially_Suc [symmetric])

lemma add_statement_exps:
  "add_statement (tree e Null) (exps_tree ds, length ds - 1) = (exps_tree (ds @ [e]), length (ds @ [e]) - 1)"
  using attach_exps [of ds "tree e Null"] exps_tree_foldr [of ds e]
  by (cases "ds = []") (simp_all add: add_statement_def)

text \<open>One statement of the loop: the expression, the semicolon, and the token behind it.\<close>

lemma run_statement:
  assumes "writable x vs e" and "vars s = vs" and "reads (scanner s) (items vs e @ Op Tsemicolon # ds)"
    and "used s + nodes (tree e Null) \<le> FINSH_NODE_MAX" and "next_token s = Ok (k, s')"
  obtains t where "errno t = errno (scanner s)" and "reads t ds"
    and "\<And>r res k2 s2. next_token (took t (nodes (tree e Null)) s) = Ok (k2, s2) \<Longrightarrow>
      runs x k2 (add_statement (tree e Null) r) s2 res \<Longrightarrow> runs x k r s' res"
proof -
  let ?n = "nodes (tree e Null)"
  obtain d ds' where d: "items vs e = d # ds'" "item_token d \<noteq> Tsemicolon" "item_token d \<noteq> Teof" "item_token d \<noteq> Tbad"
      "\<not> is_type_token (item_token d)"
    using first_item by blast
  have "reads (scanner s) (d # ds' @ Op Tsemicolon # ds)" using assms(3) d(1) by simp
  then obtain t where t: "next_token s = Ok (item_token d, s\<lparr>scanner := t\<rparr>)" "errno t = errno (scanner s)"
      "reads (finsh_token_replay t) (d # ds' @ Op Tsemicolon # ds)"
      "next_token (s\<lparr>scanner := finsh_token_replay t\<rparr>) = Ok (item_token d, s\<lparr>scanner := t\<rparr>)"
    using next_read by metis
  let ?s = "s\<lparr>scanner := finsh_token_replay t\<rparr>"
  have k: "k = item_token d" "replay_token s' = ?s" "replay_token (s\<lparr>scanner := t\<rparr>) = ?s"
    using assms(5) t(1) by (auto simp: replay_token_def)
  have "assign_at x vs e" using parse_exp(1) [OF assms(1)] by blast
  moreover have "vars ?s = vs" "reads (scanner ?s) (items vs e @ Op Tsemicolon # ds)" "used ?s + ?n \<le> FINSH_NODE_MAX"
    using assms(2,4) t(3) d(1) by simp_all
  moreover have "stops 0 (Op Tsemicolon)" "item_token (Op Tsemicolon) \<noteq> Tassign" by (simp_all add: stops_def)
  ultimately obtain u where u: "reads u (Op Tsemicolon # ds)" "errno u = errno (scanner ?s)"
      "parses x Assign_expr ?s (tree e Null, took u ?n ?s)"
    unfolding assign_at_def by blast
  have "reads (scanner (took u ?n s)) (Op Tsemicolon # ds)" using u(1) by simp
  then obtain v where v: "next_token (took u ?n s) = Ok (Tsemicolon, took v ?n s)" "reads v ds" "errno v = errno u"
    using next_read by (metis item_token.simps(1) took_simps(1,7))
  have m: "match_token Tsemicolon (took u ?n ?s) = Ok (took v ?n s)"
    by (simp add: match_token_def v(1) check_token_def)
  show ?thesis
  proof (rule that)
    show "errno v = errno (scanner s)" "reads v ds" using v u(2) t(2) by simp_all
    fix r res k2 s2
    assume a: "next_token (took v ?n s) = Ok (k2, s2)" "runs x k2 (add_statement (tree e Null) r) s2 res"
    have step: "run_loop x (Suc n) k r s' = Ok res"
      if "proc x n Assign_expr ?s = Ok (tree e Null, took u ?n ?s)" "run_loop x n k2 (add_statement (tree e Null) r) s2 = Ok res" for n
    proof -
      have "proc_expr_statement x n ?s = Ok (tree e Null, took v ?n s)"
        using that(1) d(2) by (simp add: proc_expr_statement_def t(4) k(3) proc_expr_def m del: took_simps)
      then show ?thesis
        using that(2) d k a(1) by simp
    qed
    show "runs x k r s' res"
      using eventually_conj [OF u(3) [unfolded parses_def] a(2) [unfolded runs_def]] unfolding runs_step
      by (rule eventually_mono) (use step in blast)
  qed
qed

lemma run_exps:
  assumes "\<forall>e \<in> set es. writable x vs e" and "vars s = vs"
    and "reads (scanner s) (line_items vs es)" and "used s + nodes (exps_tree es) \<le> FINSH_NODE_MAX"
    and "next_token s = Ok (k, s')"
  shows "\<exists>t. errno t = errno (scanner s) \<and>
    runs x k (exps_tree ds, length ds - 1) s' (exps_tree (ds @ es), took t (nodes (exps_tree es)) s)"
  using assms
proof (induction es arbitrary: ds s s' k)
  case Nil
  then have "reads (scanner s) (Op Teof # [])" by simp
  then obtain t where t: "next_token s = Ok (Teof, s\<lparr>scanner := t\<rparr>)" "errno t = errno (scanner s)"
    using next_read by (metis item_token.simps(1))
  then have "k = Teof" "s' = s\<lparr>scanner := t\<rparr>" using Nil(5) by auto
  then show ?case
    using t(2) by (intro exI [of _ t]) (simp add: runs_step)
next
  case (Cons e es)
  let ?n = "nodes (tree e Null)"
  have n: "nodes (exps_tree (e # es)) = ?n + nodes (exps_tree es)"
    using nodes_tree [of e "exps_tree es"] by simp
  have "writable x vs e" "reads (scanner s) (items vs e @ Op Tsemicolon # line_items vs es)" "used s + ?n \<le> FINSH_NODE_MAX"
    using Cons.prems n by simp_all
  from run_statement [OF this(1) Cons.prems(2) this(2,3) Cons.prems(5)]
  obtain t where t: "errno t = errno (scanner s)" "reads t (line_items vs es)"
    "\<And>r res k2 s2. next_token (took t ?n s) = Ok (k2, s2) \<Longrightarrow>
      runs x k2 (add_statement (tree e Null) r) s2 res \<Longrightarrow> runs x k r s' res" by metis
  obtain k2 s2 where k2: "next_token (took t ?n s) = Ok (k2, s2)"
    using next_read [of "took t ?n s"] t(2) line_items_start [of vs es] by (metis took_simps(1))
  have "\<forall>e \<in> set es. writable x vs e" "vars (took t ?n s) = vs" "reads (scanner (took t ?n s)) (line_items vs es)"
    "used (took t ?n s) + nodes (exps_tree es) \<le> FINSH_NODE_MAX"
    using Cons.prems n t(2) by simp_all
  from Cons.IH [OF this k2, of "ds @ [e]"] obtain t' where t': "errno t' = errno t"
    "runs x k2 (exps_tree (ds @ [e]), length (ds @ [e]) - 1) s2 (exps_tree ((ds @ [e]) @ es), took t' (nodes (exps_tree es)) (took t ?n s))"
    by (metis took_simps(1))
  have "runs x k (exps_tree ds, length ds - 1) s' (exps_tree (ds @ e # es), took t' (nodes (exps_tree (e # es))) s)"
    using t(3) [OF k2, of "(exps_tree ds, length ds - 1)", unfolded add_statement_exps, OF t'(2)] n
    by (simp del: exps_tree.simps)
  with t'(1) t(1) show ?case by auto
qed

lemma parser_reads:
  assumes "\<forall>e \<in> set es. writable x (vars s) e" and "reads (finsh_token_init l (errno (scanner s))) (line_items (vars s) es)"
    and "used s + nodes (exps_tree es) \<le> FINSH_NODE_MAX"
  shows "\<exists>t. errno t = errno (scanner s) \<and> (\<exists>N. \<forall>n \<ge> N.
    finsh_parser_run x n l s = Ok (exps_tree es, s\<lparr>scanner := t, used := used s + nodes (exps_tree es)\<rparr>))"
proof -
  let ?s = "s\<lparr>scanner := finsh_token_init l (errno (scanner s))\<rparr>"
  obtain k s' where k: "next_token ?s = Ok (k, s')"
    using next_read [of ?s] assms(2) line_items_start [of "vars s" es] by (metis parser.select_convs(1) parser.surjective parser.update_convs(1))
  obtain t where t: "errno t = errno (scanner ?s)" "runs x k (exps_tree [], length ([] :: exp list) - 1) s'
      (exps_tree ([] @ es), took t (nodes (exps_tree es)) ?s)"
    using run_exps [OF assms(1), of ?s k s' "[]"] assms(2,3) k by auto
  then have "\<exists>N. \<forall>n \<ge> N. run_loop x n k (Null, 0) s' = Ok (exps_tree es, took t (nodes (exps_tree es)) s)"
    by (simp add: runs_def eventually_sequentially)
  with t(1) k show ?thesis
    by (intro exI [of _ t]) (simp add: finsh_parser_run_def took_def finsh_token_init_def)
qed

end
