(* ===== verification/Finsh_Text.thy ===== *)
theory Finsh_Text
  imports Finsh_Round
begin

text \<open>
  The scanner of the command shell reads back the text of its tokens, so that a line of
  expressions is followed from its characters to the value that the shell shows.
\<close>

unbundle bit_operations_syntax

section \<open>Where the scanner stands\<close>

definition ahead :: "lex \<Rightarrow> u8 list \<Rightarrow> bool" where
  "ahead t rest \<longleftrightarrow> \<not> eof t \<and> \<not> replay t \<and> position t \<le> length (tline t) \<and> drop (position t) (tline t) = rest \<and>
     0 \<notin> set (tline t) \<and> 10 \<notin> set (tline t) \<and> length (tstring t) = FINSH_STRING_MAX"

definition adv :: "nat \<Rightarrow> lex \<Rightarrow> lex" where
  "adv n t = t\<lparr>position := position t + n\<rparr>"

lemma adv_simps [simp]: "adv 0 t = t" "adv m (adv n t) = adv (n + m) t" "errno (adv n t) = errno t"
  by (simp_all add: adv_def add.assoc)

lemma adv_fields [simp]:
  "eof (adv n t) = eof t" "replay (adv n t) = replay t" "tstring (adv n t) = tstring t" "tline (adv n t) = tline t"
  by (simp_all add: adv_def)

lemma not_eof: "\<not> eof t \<Longrightarrow> t\<lparr>eof := False\<rparr> = t"
  by (cases t) simp

lemma ahead_adv: "ahead t (cs @ rest) \<Longrightarrow> ahead (adv (length cs) t) rest"
proof -
  assume a: "ahead t (cs @ rest)"
  then have d: "drop (position t) (tline t) = cs @ rest" by (simp add: ahead_def)
  have "drop (position t + length cs) (tline t) = drop (length cs) (cs @ rest)"
    unfolding d [symmetric] by (simp add: add.commute)
  moreover have "length cs \<le> length (tline t) - position t"
    using arg_cong [OF d, of length] by simp
  ultimately have "drop (position t + length cs) (tline t) = rest" "length cs \<le> length (tline t) - position t" by simp_all
  with a show ?thesis
    by (auto simp: ahead_def adv_def add.commute)
qed

lemma ahead_next:
  assumes "ahead t (c # rest)"
  shows "token_next_char t = (c, adv 1 t)" "ahead (adv 1 t) rest" "c \<noteq> 0" "c \<noteq> 10"
proof -
  have d: "position t < length (tline t)" "tline t ! position t = c"
    using assms unfolding ahead_def
    by (metis drop_eq_Nil linorder_not_less list.distinct(1)) (metis assms ahead_def hd_drop_conv_nth drop_eq_Nil linorder_not_less list.distinct(1) list.sel(1))
  then have "c \<in> set (tline t)" by auto
  then show nz: "c \<noteq> 0" "c \<noteq> 10" using assms by (auto simp: ahead_def)
  show "token_next_char t = (c, adv 1 t)"
    using assms d nz by (auto simp: token_next_char_def ahead_def adv_def)
  show "ahead (adv 1 t) rest"
    using ahead_adv [of t "[c]" rest] assms by simp
qed

lemma prev_adv: "\<not> eof t \<Longrightarrow> token_prev_char (adv (Suc n) t) = adv n t"
  by (simp add: token_prev_char_def adv_def)

lemma ahead_eof:
  "ahead t rest \<Longrightarrow> \<not> eof t" "ahead t rest \<Longrightarrow> \<not> replay t" "ahead t rest \<Longrightarrow> length (tstring t) = FINSH_STRING_MAX"
  unfolding ahead_def by blast+

text \<open>A run of characters that pass a test, ended by one that does not.\<close>

lemma scan_run:
  assumes "ahead t (cs @ d # rest)" and "\<forall>c \<in> set cs. P c" and "\<not> P d"
  shows "scan P (hd (cs @ [d])) (adv 1 t) = (cs, d, adv (Suc (length cs)) t)"
  using assms
proof (induction cs arbitrary: t)
  case Nil
  then show ?case by (simp add: scan.simps)
next
  case (Cons c cs)
  have n: "c \<noteq> 0" "ahead (adv 1 t) (cs @ d # rest)"
    using ahead_next(2,3) [of t c "cs @ d # rest"] Cons.prems(1) by simp_all
  obtain e es where e: "cs @ d # rest = e # es" "e = hd (cs @ [d])" by (cases cs) auto
  have "token_next_char (adv 1 t) = (e, adv 2 t)" "e \<noteq> 0"
    using ahead_next(1,3) [of "adv 1 t" e es] n(2) e(1) by (simp_all add: numeral_2_eq_2)
  then show ?case
    using Cons.IH [OF n(2)] Cons.prems(2,3) e(2) n(1) by (subst scan.simps) (simp add: numeral_2_eq_2)
qed

lemma scan_next:
  assumes "ahead t (cs @ d # rest)" and "\<forall>c \<in> set cs. P c" and "\<not> P d"
  shows "\<exists>c. token_next_char t = (c, adv 1 t) \<and> scan P c (adv 1 t) = (cs, d, adv (Suc (length cs)) t) \<and> c = hd (cs @ [d])"
  using scan_run [OF assms] ahead_next(1) assms(1) by (cases cs) auto

section \<open>White space and names\<close>

text \<open>Tokens are written with a blank behind each; the scanner has read none or one of them.\<close>

lemma trim_space:
  assumes "ahead t (sp @ d # rest)" and "sp = [] \<or> sp = [32]" and "d \<noteq> 32" and "d \<noteq> 9"
  shows "token_trim_space t = adv (length sp) t"
proof -
  have "\<exists>c. token_next_char t = (c, adv 1 t) \<and> scan (\<lambda>c. c = 32 \<or> c = 9) c (adv 1 t) = (sp, d, adv (Suc (length sp)) t) \<and>
      c = hd (sp @ [d])"
    using assms by (intro scan_next) auto
  then show ?thesis
    using ahead_eof(1) [OF assms(1)] by (auto simp: token_trim_space_def prev_adv)
qed

definition name_char :: "u8 \<Rightarrow> bool" where
  "name_char c = (\<not> is_separator c)"

lemma blank [simp]: "is_separator 32" "\<not> is_digit 32" "\<not> isalpha 32"
  by (simp_all add: is_separator_def isalpha_def is_digit_def)

lemma get_name:
  assumes "ahead t (nm @ 32 # rest)" and "nm \<noteq> []" and "\<forall>c \<in> set nm. name_char c" and "\<not> is_digit (hd nm)"
    and "length nm < FINSH_STRING_MAX"
  shows "token_get_string t = Ok ((adv (length nm) t)\<lparr>tstring := nm @ 0 # drop (Suc (length nm)) (tstring t)\<rparr>)"
proof -
  have "\<exists>c. token_next_char t = (c, adv 1 t) \<and> scan (\<lambda>c. \<not> is_separator c) c (adv 1 t) = (nm, 32, adv (Suc (length nm)) t) \<and>
      c = hd (nm @ [32])"
    using assms(3) by (intro scan_next [OF assms(1)]) (simp_all add: name_char_def)
  then have n: "token_next_char t = (hd nm, adv 1 t)"
    "scan (\<lambda>c. \<not> is_separator c) (hd nm) (adv 1 t) = (nm, 32, adv (Suc (length nm)) t)"
    using assms(2) by (auto simp: hd_append)
  have e: "\<not> eof t" "(adv n t)\<lparr>eof := False\<rparr> = adv n t" for n
    using ahead_eof(1) [OF assms(1)] by (simp_all add: not_eof)
  show ?thesis
    using assms(4,5) prev_adv [OF ahead_eof(1) [OF assms(1)]]
    by (simp add: token_get_string_def n e put_string_def del: One_nat_def)
qed

text \<open>An operator, a quote or a digit leaves the name empty and the scanner in place.\<close>

lemma get_nothing:
  assumes "ahead t (c # rest)" and "is_separator c \<or> is_digit c"
  shows "token_get_string t = Ok (t\<lparr>tstring := (tstring t)[0 := 0]\<rparr>)"
proof -
  have n: "token_next_char t = (c, adv 1 t)" "\<not> eof (adv 1 t)"
    using ahead_next(1) [OF assms(1)] ahead_eof(1) [OF assms(1)] by simp_all
  have l: "0 # drop (Suc 0) (tstring t) = (tstring t)[0 := 0]"
    using ahead_eof(3) [OF assms(1)] by (cases "tstring t") (simp_all add: FINSH_STRING_MAX_def)
  have p: "token_prev_char (adv 1 t) = t" "token_prev_char ((adv 1 t)\<lparr>tstring := v\<rparr>) = t\<lparr>tstring := v\<rparr>" for v
    using ahead_eof(1) [OF assms(1)] by (cases t; simp add: token_prev_char_def adv_def)+
  have e: "(adv 1 t)\<lparr>eof := False\<rparr> = adv 1 t" "eof t = False"
    using ahead_eof(1) [OF assms(1)] by (simp_all add: not_eof)
  show ?thesis
  proof (cases "is_digit c")
    case True
    then show ?thesis using n p by (simp add: token_get_string_def)
  next
    case False
    then have "scan (\<lambda>c. \<not> is_separator c) c (adv 1 t) = ([], c, adv 1 t)"
      using assms(2) by (simp add: scan.simps)
    with False show ?thesis
      using n p(1) l by (simp add: token_get_string_def put_string_def FINSH_STRING_MAX_def e(1) del: One_nat_def)
  qed
qed

section \<open>Reading one token\<close>

text \<open>The text of a token is read: the scanner stands at the blank behind it.\<close>

definition token_read :: "lex \<Rightarrow> item \<Rightarrow> u8 list \<Rightarrow> bool" where
  "token_read t d rest \<longleftrightarrow> (\<exists>t'. scans t d t' \<and> ahead t' (32 # rest))"

lemma ahead_fields:
  "ahead t rest \<Longrightarrow> length v = FINSH_STRING_MAX \<Longrightarrow> ahead (t\<lparr>tstring := v\<rparr>) rest"
  "ahead t rest \<Longrightarrow> ahead (t\<lparr>current_token := k\<rparr>) rest"
  "ahead t rest \<Longrightarrow> ahead (t\<lparr>tvalue := u\<rparr>) rest"
  by (simp_all add: ahead_def)

lemma read_name:
  assumes "ahead t (sp @ nm @ 32 # rest)" and "sp = [] \<or> sp = [32]" and "nm \<noteq> []" and "\<forall>c \<in> set nm. name_char c"
    and "\<not> is_digit (hd nm)" and "length nm < FINSH_STRING_MAX" and "map_of finsh_name_table nm = None"
  shows "token_read t (Ident nm) rest"
proof -
  obtain c cs where c: "nm = c # cs" using assms(3) by (cases nm) auto
  have sep: "\<not> is_separator c" using assms(4) c by (simp add: name_char_def)
  have nz: "0 \<notin> set nm" "c \<noteq> 32" "c \<noteq> 9"
    using assms(4) sep by (auto simp: name_char_def is_separator_def isalpha_def is_digit_def)
  let ?t = "adv (length sp) t"
  have a: "ahead ?t (nm @ 32 # rest)" using ahead_adv [OF assms(1)] .
  have trim: "token_trim_space t = ?t"
    using trim_space [of t sp c "cs @ 32 # rest"] assms(1,2) nz c by simp
  let ?u = "(adv (length nm) ?t)\<lparr>tstring := nm @ 0 # drop (Suc (length nm)) (tstring ?t)\<rparr>"
  have g: "token_get_string ?t = Ok ?u"
    by (rule get_name [OF a assms(3-6)])
  have u: "ahead ?u (32 # rest)"
    using ahead_fields(1) [OF ahead_adv [OF a], of "nm @ 0 # drop (Suc (length nm)) (tstring ?t)"] ahead_eof(3) [OF a] assms(6) by simp
  have str: "c_text (tstring ?u) = nm" "tstring ?u ! 0 \<noteq> 0"
    using c_text_line [OF nz(1)] nz(1) c by auto
  have "token_run t = Ok (set_token Tidentifier ?u)"
    using ahead_eof(1) [OF u] str assms(7) unfolding token_run_def trim g
    by (simp add: token_match_name_def)
  moreover have "\<not> replay t" "\<not> replay (set_token Tidentifier ?u)" "ahead (set_token Tidentifier ?u) (32 # rest)"
    using ahead_eof(2) [OF assms(1)] ahead_eof(2) [OF u] ahead_fields(2) [OF u] by (simp_all add: set_token_def)
  ultimately show ?thesis
    using str(1) unfolding token_read_def
    by (intro exI [of _ "set_token Tidentifier ?u"]) (simp add: scans_def finsh_token_token_def set_token_def)
qed

text \<open>Tokens that do not begin a name: what \<open>operator_token\<close> does decides.\<close>

lemma read_operator_to:
  assumes "ahead t (sp @ c # rest')" and "sp = [] \<or> sp = [32]" and "is_separator c \<or> is_digit c" and "c \<noteq> 32" and "c \<noteq> 9"
    and "\<And>u. ahead u (c # rest') \<Longrightarrow> \<exists>t'. operator_token u = Ok t' \<and> item_ok d t' \<and> current_token t' = item_token d \<and>
      errno t' = errno u \<and> ahead t' after"
  shows "\<exists>t'. scans t d t' \<and> ahead t' after"
proof -
  let ?t = "adv (length sp) t" and ?u = "(adv (length sp) t)\<lparr>tstring := (tstring (adv (length sp) t))[0 := 0]\<rparr>"
  have a: "ahead ?t (c # rest')" using ahead_adv [OF assms(1)] .
  have trim: "token_trim_space t = ?t"
    by (rule trim_space [OF assms(1,2,4,5)])
  have g: "token_get_string ?t = Ok ?u"
    by (rule get_nothing [OF a assms(3)])
  have u: "ahead ?u (c # rest')" "tstring ?u ! 0 = 0"
    using ahead_fields(1) [OF a, of "(tstring ?t)[0 := 0]"] ahead_eof(3) [OF a] by (simp_all add: FINSH_STRING_MAX_def)
  obtain t' where t': "operator_token ?u = Ok t'" "item_ok d t'" "current_token t' = item_token d" "errno t' = errno ?u" "ahead t' after"
    using assms(6) [OF u(1)] by blast
  have "token_run t = Ok t'"
    using ahead_eof(1) [OF u(1)] u(2) t'(1) unfolding token_run_def trim g by simp
  then show ?thesis
    using t' ahead_eof(2) [OF assms(1)] ahead_eof(2) [OF t'(5)]
    by (intro exI [of _ t']) (simp add: scans_def finsh_token_token_def)
qed

lemmas read_operator = read_operator_to [where after = "32 # rest" for rest, folded token_read_def]

text \<open>Operators of one and of two characters.\<close>

lemma read_single:
  assumes "ahead t (sp @ c # 32 # rest)" and "sp = [] \<or> sp = [32]" and "single_token c = Some k"
  shows "token_read t (Op k) rest"
proof (rule read_operator [OF assms(1,2)])
  have "c \<in> {40, 41, 44, 59, 38, 42, 47, 124, 37, 126, 94, 61}"
    using assms(3) by (auto simp: single_token_def split: if_splits)
  then show "is_separator c \<or> is_digit c" "c \<noteq> 32" "c \<noteq> 9"
    by (auto simp: is_separator_def is_digit_def isalpha_def)
  fix u assume u: "ahead u (c # 32 # rest)"
  show "\<exists>t'. operator_token u = Ok t' \<and> item_ok (Op k) t' \<and> current_token t' = item_token (Op k) \<and> errno t' = errno u \<and> ahead t' (32 # rest)"
    using ahead_next(1) [OF u] ahead_fields(2) [OF ahead_next(2) [OF u]] assms(3)
    by (intro exI [of _ "set_token k (adv 1 u)"]) (simp add: operator_token_def set_token_def)
qed

definition double_token :: "u8 \<Rightarrow> (token \<times> token) option" where
  "double_token c = map_of [(43, Tinc, Tadd), (45, Tdec, Tsub), (60, Tshl, Tbad), (62, Tshr, Tbad)] c"

lemma double_char:
  assumes "double_token c = Some (two, one)"
  shows "is_separator c" "c \<noteq> 32" "c \<noteq> 9" "operator_token t = (case token_next_char t of (c', s) \<Rightarrow>
    if c' = c then Ok (twice c two one s) else operator_token t)"
proof -
  have c: "(c = 43 \<and> two = Tinc \<and> one = Tadd) \<or> (c = 45 \<and> two = Tdec \<and> one = Tsub) \<or>
      (c = 60 \<and> two = Tshl \<and> one = Tbad) \<or> (c = 62 \<and> two = Tshr \<and> one = Tbad)"
    using assms by (auto simp: double_token_def split: if_splits)
  then show "is_separator c" "c \<noteq> 32" "c \<noteq> 9"
    by (auto simp: is_separator_def is_digit_def isalpha_def)
  show "operator_token t = (case token_next_char t of (c', s) \<Rightarrow> if c' = c then Ok (twice c two one s) else operator_token t)"
    using c by (auto simp: operator_token_def single_token_def split: prod.splits)
qed

lemma read_double:
  assumes "ahead t (sp @ c # c # 32 # rest)" and "sp = [] \<or> sp = [32]" and "double_token c = Some (two, one)"
  shows "token_read t (Op two) rest"
proof (rule read_operator [OF assms(1,2)])
  show "is_separator c \<or> is_digit c" "c \<noteq> 32" "c \<noteq> 9" using double_char(1-3) [OF assms(3)] by simp_all
  fix u assume u: "ahead u (c # c # 32 # rest)"
  note n = ahead_next [OF u] and n2 = ahead_next [OF ahead_next(2) [OF u]]
  show "\<exists>t'. operator_token u = Ok t' \<and> item_ok (Op two) t' \<and> current_token t' = item_token (Op two) \<and> errno t' = errno u \<and> ahead t' (32 # rest)"
    using n(1) n2(1) ahead_fields(2) [OF n2(2)]
    by (intro exI [of _ "set_token two (adv 1 (adv 1 u))"])
      (subst double_char(4) [OF assms(3)], simp add: twice_def set_token_def del: One_nat_def)
qed

lemma read_first_of_two:
  assumes "ahead t (sp @ c # 32 # rest)" and "sp = [] \<or> sp = [32]" and "double_token c = Some (two, one)"
  shows "token_read t (Op one) rest"
proof (rule read_operator [OF assms(1,2)])
  show "is_separator c \<or> is_digit c" "c \<noteq> 32" "c \<noteq> 9" using double_char(1-3) [OF assms(3)] by simp_all
  fix u assume u: "ahead u (c # 32 # rest)"
  note n = ahead_next [OF u] and n2 = ahead_next [OF ahead_next(2) [OF u]]
  have p: "token_prev_char (adv 1 (adv 1 u)) = adv 1 u"
    using prev_adv [OF ahead_eof(1) [OF u], of 1] by (simp add: numeral_2_eq_2)
  show "\<exists>t'. operator_token u = Ok t' \<and> item_ok (Op one) t' \<and> current_token t' = item_token (Op one) \<and> errno t' = errno u \<and> ahead t' (32 # rest)"
    using n(1) n2(1) ahead_fields(2) [OF n(2)] double_char(2) [OF assms(3)] p
    by (intro exI [of _ "set_token one (adv 1 u)"])
      (subst double_char(4) [OF assms(3)], simp add: twice_def set_token_def del: One_nat_def adv_simps(2))
qed

section \<open>Literals\<close>

text \<open>The decimal digits of a number.\<close>

function decimal :: "nat \<Rightarrow> u8 list" where
  "decimal n = (if n < 10 then [48 + of_nat n] else decimal (n div 10) @ [48 + of_nat (n mod 10)])"
  by auto
termination by (relation "measure id") auto

declare decimal.simps [simp del]

lemma digit_char:
  assumes "k < 10"
  shows "is_digit (48 + of_nat k)" "ucast (48 + of_nat k :: u8) - 48 = (of_nat k :: u32)"
    "k \<noteq> 0 \<Longrightarrow> of_nat k \<noteq> (0 :: u8)"
proof -
  have k: "k \<in> {0, 1, 2, 3, 4, 5, 6, 7, 8, 9}" using assms by auto
  then show "is_digit (48 + of_nat k)" "ucast (48 + of_nat k :: u8) - 48 = (of_nat k :: u32)"
    by (auto simp: is_digit_def)
  show "k \<noteq> 0 \<Longrightarrow> of_nat k \<noteq> (0 :: u8)"
    using k by auto
qed

lemma digits_value_snoc: "digits_value b (cs @ [c]) = digits_value b cs * b + (ucast c - 48)"
  by (simp add: digits_value_def)

lemma decimal_value: "digits_value 10 (decimal n) = of_nat n"
proof (induction n rule: decimal.induct)
  case (1 n)
  show ?case
  proof (cases "n < 10")
    case True
    then show ?thesis by (subst decimal.simps) (simp add: digits_value_def digit_char(2))
  next
    case False
    have "(of_nat n :: u32) = of_nat (n div 10 * 10 + n mod 10)" by simp
    also have "\<dots> = of_nat (n div 10) * 10 + of_nat (n mod 10)" by (simp only: of_nat_add of_nat_mult of_nat_numeral)
    finally show ?thesis
      using 1 False by (subst decimal.simps) (simp add: digits_value_snoc digit_char(2))
  qed
qed

lemma decimal_chars: "decimal n \<noteq> [] \<and> (\<forall>c \<in> set (decimal n). is_digit c) \<and> (n \<noteq> 0 \<longrightarrow> hd (decimal n) \<noteq> 48)"
proof (induction n rule: decimal.induct)
  case (1 n)
  show ?case
  proof (cases "n < 10")
    case True
    then have "decimal n = [48 + of_nat n]" by (simp add: decimal.simps)
    then show ?thesis using True by (simp add: digit_char)
  next
    case False
    then have "decimal n = decimal (n div 10) @ [48 + of_nat (n mod 10)]" by (simp add: decimal.simps)
    then show ?thesis
      using 1 False digit_char(1) [of "n mod 10"] by simp
  qed
qed

lemma digit_not: "is_digit c \<Longrightarrow> c \<noteq> 0 \<and> c \<noteq> 32 \<and> c \<noteq> 9 \<and> c \<noteq> 43 \<and> c \<noteq> 45 \<and> c \<noteq> 60 \<and> c \<noteq> 62 \<and> c \<noteq> 39 \<and> c \<noteq> 34 \<and>
    single_token c = None"
  by (auto simp: is_digit_def single_token_def)

lemma number_token:
  assumes "ahead u (decimal n @ 32 # rest)"
  shows "\<exists>t'. token_proc_number u = Ok t' \<and> tvalue t' = of_nat n \<and> current_token t' = Tvalue_int \<and> errno t' = errno u \<and>
    ahead t' (32 # rest)"
proof -
  let ?l = "length (decimal n)"
  let ?t = "(adv ?l u)\<lparr>tvalue := of_nat n, current_token := Tvalue_int\<rparr>"
  have step_back: "token_prev_char ((adv (Suc k) u)\<lparr>tvalue := v, current_token := Tvalue_int\<rparr>) = (adv k u)\<lparr>tvalue := v, current_token := Tvalue_int\<rparr>" for k v
    using ahead_eof(1) [OF assms] by (cases u) (simp add: token_prev_char_def adv_def)
  have a: "ahead ?t (32 # rest)"
    using ahead_adv [OF assms] by (intro ahead_fields)
  have "token_proc_number u = Ok ?t"
  proof (cases "n = 0")
    case True
    then have d: "decimal n = [48]" by (simp add: decimal.simps)
    then have u: "ahead u (48 # 32 # rest)" using assms by simp
    note n = ahead_next [OF u] and n2 = ahead_next [OF ahead_next(2) [OF u]]
    have "spec_digits is_digit 8 32 (adv 1 (adv 1 u)) = Ok (0, 32, adv 1 (adv 1 u))"
      by (simp add: spec_digits_def scan.simps token_spec_number_def FINSH_STRING_MAX_def)
    moreover have "token_prev_char ((adv 1 (adv 1 u))\<lparr>tvalue := 0, current_token := Tvalue_int\<rparr>) =
        (adv 1 u)\<lparr>tvalue := 0, current_token := Tvalue_int\<rparr>"
      using step_back [where k = 1 and v = 0] by (simp add: numeral_2_eq_2)
    ultimately show ?thesis
      using n(1) n2(1) True d by (simp add: token_proc_number_def One_nat_def [symmetric] del: One_nat_def adv_simps(2))
  next
    case False
    have "\<exists>c. token_next_char u = (c, adv 1 u) \<and> scan is_digit c (adv 1 u) = (decimal n, 32, adv (Suc ?l) u) \<and> c = hd (decimal n @ [32])"
      using decimal_chars [of n] by (intro scan_next [OF assms]) simp_all
    then have "token_next_char u = (hd (decimal n), adv 1 u)" "scan is_digit (hd (decimal n)) (adv 1 u) = (decimal n, 32, adv (Suc ?l) u)"
      using decimal_chars [of n] by auto
    then show ?thesis
      using False decimal_chars [of n] step_back [where k = ?l and v = "of_nat n"]
      by (simp add: token_proc_number_def decimal_value del: One_nat_def)
  qed
  with a show ?thesis by (intro exI [of _ ?t]) simp
qed

lemma read_number:
  assumes "ahead t (sp @ decimal n @ 32 # rest)" and "sp = [] \<or> sp = [32]" and "n < 2 ^ 32"
  shows "token_read t (Num (of_nat n)) rest"
proof -
  obtain c cs where c: "decimal n = c # cs" "is_digit c" using decimal_chars [of n] by (cases "decimal n") auto
  have "ahead t (sp @ c # cs @ 32 # rest)" using assms(1) c by simp
  then show ?thesis
  proof (rule read_operator [OF _ assms(2)])
    show "is_separator c \<or> is_digit c" "c \<noteq> 32" "c \<noteq> 9" using c(2) digit_not by auto
    fix u assume u: "ahead u (c # cs @ 32 # rest)"
    have "operator_token u = token_proc_number (token_prev_char (adv 1 u))"
      using ahead_next(1) [OF u] digit_not [OF c(2)] c(2) by (simp add: operator_token_def)
    also have "token_prev_char (adv 1 u) = u"
      using prev_adv [OF ahead_eof(1) [OF u], of 0] by simp
    finally show "\<exists>t'. operator_token u = Ok t' \<and> item_ok (Num (of_nat n)) t' \<and> current_token t' = item_token (Num (of_nat n)) \<and>
        errno t' = errno u \<and> ahead t' (32 # rest)"
      using number_token [of u n rest] u c(1) by auto
  qed
qed

text \<open>A character between quotes.\<close>

lemma read_char:
  assumes "ahead t (sp @ 39 # c # 39 # 32 # rest)" and "sp = [] \<or> sp = [32]" and "c \<noteq> 92"
  shows "token_read t (Chr_lit c) rest"
proof (rule read_operator [OF assms(1,2)])
  show "is_separator 39 \<or> is_digit 39" by (simp add: is_separator_def isalpha_def is_digit_def)
  fix u assume u: "ahead u (39 # c # 39 # 32 # rest)"
  note n = ahead_next [OF u] and n2 = ahead_next [OF ahead_next(2) [OF u]]
    and n3 = ahead_next [OF ahead_next(2) [OF ahead_next(2) [OF u]]]
  have p: "token_proc_char (adv 1 u) = Ok (c, adv 1 (adv 1 (adv 1 u)))"
    using n2(1) n3(1) assms(3) by (simp add: token_proc_char_def del: One_nat_def adv_simps)
  let ?t = "set_token Tvalue_char ((adv 1 (adv 1 (adv 1 u)))\<lparr>tvalue := set_member Byte (uint c) (tvalue (adv 1 (adv 1 (adv 1 u))))\<rparr>)"
  have "operator_token u = Ok ?t"
    using n(1) p by (simp add: operator_token_def single_token_def del: One_nat_def adv_simps)
  moreover have "ahead ?t (32 # rest)"
    using ahead_fields(2,3) n3(2) unfolding set_token_def by blast
  ultimately show "\<exists>t'. operator_token u = Ok t' \<and> item_ok (Chr_lit c) t' \<and> current_token t' = item_token (Chr_lit c) \<and>
      errno t' = errno u \<and> ahead t' (32 # rest)"
    by (intro exI [of _ ?t]) (simp add: set_token_def ucast_low)
qed simp_all

section \<open>The text of a line\<close>

fun op_text :: "token \<Rightarrow> u8 list" where
  "op_text Tleft_paren = bytes ''(''"
| "op_text Tright_paren = bytes '')''"
| "op_text Tcomma = bytes '',''"
| "op_text Tsemicolon = bytes '';''"
| "op_text Tmul = bytes ''*''"
| "op_text Tadd = bytes ''+''"
| "op_text Tinc = bytes ''++''"
| "op_text Tsub = bytes ''-''"
| "op_text Tdec = bytes ''--''"
| "op_text Tdiv = bytes ''/''"
| "op_text Tmod = bytes ''%''"
| "op_text Tassign = bytes ''=''"
| "op_text Tand = bytes ''&''"
| "op_text Tor = bytes ''|''"
| "op_text Txor = bytes ''^''"
| "op_text Tbitwise = bytes ''~''"
| "op_text Tshl = bytes ''<<''"
| "op_text Tshr = bytes ''>>''"
| "op_text _ = []"

fun item_text :: "item \<Rightarrow> u8 list" where
  "item_text (Op k) = op_text k"
| "item_text (Num v) = decimal (unat v)"
| "item_text (Chr_lit c) = [39, c, 39]"
| "item_text (Ident nm) = nm"

definition plain_name :: "name \<Rightarrow> bool" where
  "plain_name nm \<longleftrightarrow> nm \<noteq> [] \<and> (\<forall>c \<in> set nm. name_char c) \<and> \<not> is_digit (hd nm) \<and> length nm < FINSH_STRING_MAX \<and>
     map_of finsh_name_table nm = None"

fun item_fine :: "item \<Rightarrow> bool" where
  "item_fine (Op k) = (op_text k \<noteq> [])"
| "item_fine (Num v) = True"
| "item_fine (Chr_lit c) = (c \<notin> {0, 10, 92})"
| "item_fine (Ident nm) = plain_name nm"

fun items_text :: "item list \<Rightarrow> u8 list" where
  "items_text [] = []"
| "items_text (d # ds) = item_text d @ 32 # items_text ds"

lemma op_text_forms:
  assumes "op_text k \<noteq> []"
  shows "(\<exists>c. op_text k = [c] \<and> single_token c = Some k) \<or> (\<exists>c one. op_text k = [c, c] \<and> double_token c = Some (k, one)) \<or>
    (\<exists>c two. op_text k = [c] \<and> double_token c = Some (two, k))"
  using assms by (cases k) (simp_all add: single_token_def double_token_def)

lemma read_item:
  assumes "ahead t (sp @ item_text d @ 32 # rest)" and "sp = [] \<or> sp = [32]" and "item_fine d"
  shows "token_read t d rest"
proof (cases d)
  case (Op k)
  then have "op_text k \<noteq> []" using assms(3) by simp
  from op_text_forms [OF this] show ?thesis
  proof (elim disjE exE conjE)
    fix c assume c: "op_text k = [c]" "single_token c = Some k"
    with assms Op show ?thesis using read_single [of t sp c rest k] by simp
  next
    fix c one assume c: "op_text k = [c, c]" "double_token c = Some (k, one)"
    with assms Op show ?thesis using read_double [of t sp c rest k one] by simp
  next
    fix c two assume c: "op_text k = [c]" "double_token c = Some (two, k)"
    with assms Op show ?thesis using read_first_of_two [of t sp c rest two k] by simp
  qed
next
  case (Num v)
  then show ?thesis
    using read_number [of t sp "unat v" rest] assms unsigned_less [of v] by simp
next
  case (Chr_lit c)
  then show ?thesis
    using read_char [of t sp c rest] assms by simp
next
  case (Ident nm)
  then show ?thesis
    using read_name [of t sp nm rest] assms by (simp add: plain_name_def)
qed

lemma read_end:
  assumes "ahead t sp" and "sp = [] \<or> sp = [32]"
  shows "\<exists>t'. scans t (Op Teof) t'"
proof -
  have stop: "token_next_char u = (0, u\<lparr>eof := True, position := 0\<rparr>)" if "ahead u []" for u
    using that by (auto simp: token_next_char_def ahead_def)
  have trim: "\<exists>u. token_trim_space t = u\<lparr>eof := True, position := 0\<rparr> \<and> \<not> replay u \<and> errno u = errno t"
  proof (cases "sp = []")
    case True
    then show ?thesis
      using stop [of t] assms(1) ahead_eof(2) [OF assms(1)]
      by (intro exI [of _ t]) (simp add: token_trim_space_def scan.simps token_prev_char_def)
  next
    case False
    then have a: "ahead t [32]" using assms by simp
    note n = ahead_next [OF a]
    show ?thesis
      using n(1) stop [OF n(2)] ahead_eof(2) [OF a]
      by (intro exI [of _ "adv 1 t"]) (simp add: token_trim_space_def scan.simps token_prev_char_def del: One_nat_def)
  qed
  then obtain u where u: "token_trim_space t = u\<lparr>eof := True, position := 0\<rparr>" "\<not> replay u" "errno u = errno t" by blast
  have "token_run t = Ok (set_token Teof (u\<lparr>eof := True, position := 0\<rparr>))"
    by (simp add: token_run_def u(1) token_get_string_def token_next_char_def)
  then show ?thesis
    using u(2,3) ahead_eof(2) [OF assms(1)]
    by (intro exI [of _ "set_token Teof (u\<lparr>eof := True, position := 0\<rparr>)"])
      (simp add: scans_def finsh_token_token_def set_token_def)
qed

lemma reads_items:
  assumes "ahead t (sp @ items_text ds @ tl')" and "sp = [] \<or> sp = [32]" and "\<forall>d \<in> set ds. item_fine d"
    and "\<And>t sp. ahead t (sp @ tl') \<Longrightarrow> sp = [] \<or> sp = [32] \<Longrightarrow> reads t ds'"
  shows "reads t (ds @ ds')"
  using assms(1-3)
proof (induction ds arbitrary: t sp)
  case Nil
  then show ?case using assms(4) [of t sp] by auto
next
  case (Cons d ds)
  then obtain t' where t': "scans t d t'" "ahead t' (32 # items_text ds @ tl')"
    using read_item [of t sp d "items_text ds @ tl'"] unfolding token_read_def by auto
  have "reads t' (ds @ ds')"
    using Cons.IH [of t' "[32]"] Cons.prems(3) t'(2) by simp
  with t'(1) show ?case by auto
qed

text \<open>The shell ends a line with a \<open>;\<close> that no blank follows.\<close>

lemma read_semicolon:
  assumes "ahead t (sp @ [59])" and "sp = [] \<or> sp = [32]"
  shows "reads t [Op Tsemicolon, Op Teof]"
proof -
  have "\<exists>t'. scans t (Op Tsemicolon) t' \<and> ahead t' []"
  proof (rule read_operator_to [OF assms])
    show "is_separator 59 \<or> is_digit 59" by (simp add: is_separator_def is_digit_def isalpha_def)
    fix u assume u: "ahead u [59]"
    show "\<exists>t'. operator_token u = Ok t' \<and> item_ok (Op Tsemicolon) t' \<and> current_token t' = item_token (Op Tsemicolon) \<and>
        errno t' = errno u \<and> ahead t' []"
      using ahead_next(1) [OF u] ahead_fields(2) [OF ahead_next(2) [OF u]]
      by (intro exI [of _ "set_token Tsemicolon (adv 1 u)"]) (simp add: operator_token_def set_token_def single_token_def)
  qed simp_all
  then obtain t' where t': "scans t (Op Tsemicolon) t'" "ahead t' []" by blast
  with read_end [of t' "[]"] show ?thesis by auto
qed

lemma decimal_clean: "c \<in> set (decimal n) \<Longrightarrow> c \<noteq> 0 \<and> c \<noteq> 10"
  using decimal_chars [of n] by (auto simp: is_digit_def)

lemma name_clean: "name_char c \<Longrightarrow> c \<noteq> 0 \<and> c \<noteq> 10"
  by (auto simp: name_char_def is_separator_def isalpha_def is_digit_def)

lemma item_clean: "item_fine d \<Longrightarrow> 0 \<notin> set (item_text d) \<and> 10 \<notin> set (item_text d)"
proof (cases d)
  case (Op k)
  then show ?thesis by (cases k) simp_all
next
  case (Num v)
  then show ?thesis using decimal_clean by auto
next
  case (Ident nm)
  then show "item_fine d \<Longrightarrow> ?thesis" using name_clean by (auto simp: plain_name_def)
qed auto

lemma items_clean: "\<forall>d \<in> set ds. item_fine d \<Longrightarrow> 0 \<notin> set (items_text ds) \<and> 10 \<notin> set (items_text ds)"
proof (induction ds)
  case (Cons d ds)
  then show ?case using item_clean [of d] by simp
qed simp

lemma scanner_reads:
  assumes "\<forall>d \<in> set ds. item_fine d"
  shows "reads (finsh_token_init (items_text ds) err) (ds @ [Op Teof])"
    and "reads (finsh_token_init (items_text ds @ [59]) err) (ds @ [Op Tsemicolon, Op Teof])"
proof -
  have a: "ahead (finsh_token_init (items_text ds @ tl') err) ([] @ items_text ds @ tl')" if "tl' = [] \<or> tl' = [59]" for tl'
    using items_clean [OF assms] that by (auto simp: ahead_def finsh_token_init_def)
  show "reads (finsh_token_init (items_text ds) err) (ds @ [Op Teof])"
    using reads_items [OF a [of "[]"]] read_end assms by fastforce
  show "reads (finsh_token_init (items_text ds @ [59]) err) (ds @ [Op Tsemicolon, Op Teof])"
    using reads_items [OF a [of "[59]"]] read_semicolon assms by fastforce
qed

end
