(* ===== verification/Finsh_Line.thy ===== *)
theory Finsh_Line
  imports Finsh_Text
begin

text \<open>
  A command line from its characters to the value that the shell shows: scanner, parser, compiler
  and machine composed as \<open>finsh_run_line\<close> composes them.
\<close>

unbundle bit_operations_syntax

section \<open>The text of a line of expressions\<close>

fun statement_items :: "finsh_var list \<Rightarrow> exp list \<Rightarrow> item list" where
  "statement_items vs [] = []"
| "statement_items vs (e # es) = items vs e @ Op Tsemicolon # statement_items vs es"

definition line_text :: "finsh_var list \<Rightarrow> exp list \<Rightarrow> u8 list" where
  "line_text vs es = items_text (statement_items vs es)"

lemma line_items_end: "line_items vs es = statement_items vs es @ [Op Teof]"
  by (induction es) simp_all

lemma line_tree_exps: "exps_tree (map snd l) = line_tree l"
  by (induction l rule: line_tree.induct) simp_all

lemma line_scanned:
  assumes "\<forall>d \<in> set (statement_items vs es). item_fine d"
  shows "reads (finsh_token_init (line_text vs es) err) (line_items vs es)"
  unfolding line_text_def line_items_end using scanner_reads(1) [OF assms] .

lemmas plain_names = plain_name_def name_char_def is_separator_def isalpha_def is_digit_def FINSH_STRING_MAX_def finsh_name_table_def

text \<open>The variables \<open>n\<close> and \<open>c\<close>, and the line \<open>n = 6 ; n * 7 ;\<close>.\<close>

definition demo_shell :: shell where
  "demo_shell = \<lparr>sh_vars = demo_vars, sh_heap = finsh_heap_init, sh_vm = demo_vm\<rparr>"

definition demo_line :: line where
  "demo_line = [(Dword, Asgn (Shell 0) (Lit 6)), (Dword, Bin Mul (Var (Shell 0)) (Lit 7))]"

lemma demo_resolves: "find_symbol demo_exports [110] demo_vars = Ok (Some (IDTYPE_VAR, IdVar 0))"
  by code_simp

lemma demo_name: "var_name (demo_vars ! 0) = [110]"
  by (simp add: demo_vars_def finsh_var_init_def FINSH_VARIABLE_MAX_def)

lemma demo_writable: "\<forall>e \<in> set (map snd demo_line). writable demo_exports demo_vars e"
  by (simp add: demo_line_def resolves_def demo_resolves demo_name FINSH_NAME_MAX_def)

lemma demo_fine: "\<forall>d \<in> set (statement_items demo_vars (map snd demo_line)). item_fine d"
  by (simp add: demo_line_def plain_names demo_vars_def finsh_var_init_def FINSH_VARIABLE_MAX_def)

lemma demo_text: "line_text demo_vars (map snd demo_line) = bytes ''n = 6 ; n * 7 ; ''"
  by (simp add: demo_line_def line_text_def demo_vars_def finsh_var_init_def FINSH_VARIABLE_MAX_def decimal.simps [of 6] decimal.simps [of 7])

lemma demo_wt: "wt_line demo_vars demo_line"
  by (simp add: demo_line_def demo_vars_def finsh_var_init_def FINSH_VARIABLE_MAX_def)

lemma demo_eval: "\<exists>m. eval_line (\<lambda>f as m. None) demo_exports demo_line (mem demo_vm) = Some (Dword, 42, m)"
  by (simp add: demo_line_def demo_exports_def demo_vm_def var_value_at_def put_byte_def trunc_def)

lemma demo_nodes: "nodes (line_tree demo_line) = 6"
  by (simp add: demo_line_def id_node_def)

lemma demo_fits: "nodes (line_tree demo_line) \<le> FINSH_NODE_MAX" "length (line_code demo_exports demo_line) \<le> FINSH_TEXT_MAX"
  by (simp_all add: demo_line_def id_node_def FINSH_NODE_MAX_def FINSH_TEXT_MAX_def code_dword_def)

text \<open>
  C31. The scanner returns the tokens of a text of names, decimal numbers, quoted characters and
  operators, with the values and names they stand for, and then the end of the line.
\<close>

theorem scanner_reads_text:
  assumes "\<forall>d \<in> set ds. item_fine d"
  shows "reads (finsh_token_init (items_text ds) err) (ds @ [Op Teof])"
  using scanner_reads(1) [OF assms] .

theorem scanner_reads_text_witness:
  "reads (finsh_token_init (bytes ''n = 6 + c ; '') ERROR_OK)
     [Ident (bytes ''n''), Op Tassign, Num 6, Op Tadd, Ident (bytes ''c''), Op Tsemicolon, Op Teof]"
  using scanner_reads_text [of "[Ident (bytes ''n''), Op Tassign, Num 6, Op Tadd, Ident (bytes ''c''), Op Tsemicolon]" ERROR_OK]
  by (simp add: plain_names decimal.simps [of 6] del: reads.simps)

text \<open>
  C5. A line of expressions that can be written without parentheses is parsed to the trees of
  the expressions, one after the other, whenever the scanner delivers its tokens; no error is
  set, and no more than the nodes of the trees are taken from the table.
\<close>

theorem parser_reads_line:
  assumes "\<forall>e \<in> set es. writable x (vars s) e" and "reads (finsh_token_init l (errno (scanner s))) (line_items (vars s) es)"
    and "used s + nodes (exps_tree es) \<le> FINSH_NODE_MAX"
  shows "\<exists>t. errno t = errno (scanner s) \<and> (\<exists>N. \<forall>n \<ge> N.
    finsh_parser_run x n l s = Ok (exps_tree es, s\<lparr>scanner := t, used := used s + nodes (exps_tree es)\<rparr>))"
  using parser_reads [OF assms] .

theorem parser_reads_line_witness:
  "\<exists>t. errno t = ERROR_OK \<and> (\<exists>N. \<forall>n \<ge> N. finsh_parser_run demo_exports n (bytes ''n = 6 ; n * 7 ; '') (line_parser demo_shell) =
     Ok (line_tree demo_line, (line_parser demo_shell)\<lparr>scanner := t, used := 6\<rparr>))"
  using parser_reads_line [of "map snd demo_line" demo_exports "line_parser demo_shell" "bytes ''n = 6 ; n * 7 ; ''"]
    demo_writable demo_fits(1) line_scanned [OF demo_fine] demo_text
    demo_nodes
  by (simp add: line_parser_def demo_shell_def line_tree_exps finsh_token_init_def)

text \<open>A text that the scanner reads as the tokens of a line shows the value of the line.\<close>

lemma line_shown:
  assumes "wt_line (sh_vars sh) l" and "\<forall>e \<in> set (map snd l). writable x (sh_vars sh) e"
    and "reads (finsh_token_init l' ERROR_OK) (line_items (sh_vars sh) (map snd l))"
    and "eval_line sys x l (mem (sh_vm sh)) = Some (w, v, m)"
    and "nodes (line_tree l) \<le> FINSH_NODE_MAX" and "length (line_code x l) \<le> FINSH_TEXT_MAX"
    and "length (finsh_vm_stack (sh_vm sh)) = FINSH_STACK_MAX"
  shows "\<exists>N c u vm. (\<forall>n \<ge> N. finsh_run_line x sys n l' sh = Ok (Some (Shown_value c u), sh\<lparr>sh_vm := vm\<rparr>)) \<and>
    member w u = v \<and> mem vm = m"
proof -
  let ?p = "line_parser sh"
  have "\<forall>e \<in> set (map snd l). writable x (vars ?p) e"
    "reads (finsh_token_init l' (errno (scanner ?p))) (line_items (vars ?p) (map snd l))"
    "used ?p + nodes (exps_tree (map snd l)) \<le> FINSH_NODE_MAX"
    using assms(2,3,5) by (simp_all add: line_parser_def line_tree_exps finsh_token_init_def)
  from parser_reads [OF this] obtain t N where N: "errno t = ERROR_OK"
    "\<And>n. n \<ge> N \<Longrightarrow> finsh_parser_run x n l' ?p =
       Ok (line_tree l, ?p\<lparr>scanner := t, used := used ?p + nodes (line_tree l)\<rparr>)"
    by (auto simp: line_tree_exps line_parser_def finsh_token_init_def)
  obtain s1 s2 where s: "finsh_compiler_run x (sh_vars sh) (line_tree l) ERROR_OK (sh_vm sh) = Ok (s1, ERROR_OK)"
    "finsh_vm_run sys s1 = Ok s2" "mem s2 = m" "member w (finsh_stack_bottom s2) = v"
    using line_runs [OF assms(1,4,5,6,7)] by blast
  have "sh\<lparr>sh_vm := a\<rparr> = \<lparr>sh_vars = sh_vars sh, sh_heap = sh_heap sh, sh_vm = a\<rparr>" for a
    by (cases sh) simp
  then have "finsh_run_line x sys n l' sh = Ok (Some (finsh_stack_value s2), sh\<lparr>sh_vm := s2\<rparr>)" if "n \<ge> N" for n
    using N s that by (simp add: finsh_run_line_def line_parser_def)
  then show ?thesis
    using s(3,4) by (fastforce simp: finsh_stack_value_def Let_def)
qed

text \<open>The text as it is typed: the shell puts the last \<open>;\<close> itself.\<close>

definition typed_text :: "finsh_var list \<Rightarrow> exp list \<Rightarrow> u8 list" where
  "typed_text vs es = items_text (butlast (statement_items vs es))"

lemma statement_items_end: "es \<noteq> [] \<Longrightarrow> statement_items vs es = butlast (statement_items vs es) @ [Op Tsemicolon]"
proof (induction es)
  case (Cons e es)
  then show ?case by (cases "es = []") (auto simp: butlast_append)
qed simp

lemma typed_scanned:
  assumes "es \<noteq> []" and "\<forall>d \<in> set (statement_items vs es). item_fine d"
  shows "reads (finsh_token_init (typed_text vs es @ [59]) err) (line_items vs es)"
proof -
  let ?ds = "butlast (statement_items vs es)"
  have "\<forall>d \<in> set ?ds. item_fine d" using assms(2) by (auto dest: in_set_butlastD)
  then have "reads (finsh_token_init (typed_text vs es @ [59]) err) (?ds @ [Op Tsemicolon, Op Teof])"
    unfolding typed_text_def by (rule scanner_reads(2))
  moreover have "line_items vs es = ?ds @ [Op Tsemicolon, Op Teof]"
    using statement_items_end [OF assms(1), of vs] by (simp add: line_items_end)
  ultimately show ?thesis by simp
qed

lemma typed_not_empty:
  assumes "es \<noteq> []"
  shows "typed_text vs es \<noteq> []"
proof -
  obtain e es' where "es = e # es'" using assms by (cases es) auto
  moreover obtain d ds where "items vs e = d # ds" using first_item by blast
  ultimately show ?thesis by (simp add: typed_text_def)
qed

lemma demo_typed: "typed_text demo_vars (map snd demo_line) = bytes ''n = 6 ; n * 7 ''"
  by (simp add: demo_line_def typed_text_def butlast_append demo_vars_def finsh_var_init_def FINSH_VARIABLE_MAX_def
      decimal.simps [of 6] decimal.simps [of 7])

end
