(* ===== verification/Finsh_Keys.thy ===== *)
theory Finsh_Keys
  imports Finsh_Edit Finsh_Line
begin

text \<open>
  What the line editor of the command shell does with the keys: the line that a reference editor
  would hold is run and remembered, the arrow keys bring back the newest five lines, and lines of
  79 and more characters run beyond the array.
\<close>

section \<open>The reference editor\<close>

definition plain :: "u8 \<Rightarrow> bool" where
  "plain c \<longleftrightarrow> c \<notin> {0, 8, 9, 10, 13, 0x1b, 0x7f}"

definition completed :: "exports \<Rightarrow> u8 list \<Rightarrow> u8 list" where
  "completed x b = (case matching b x of [nm] \<Rightarrow> nm | _ \<Rightarrow> b)"

definition key :: "exports \<Rightarrow> u8 \<Rightarrow> u8 list \<Rightarrow> u8 list" where
  "key x c b = (if c = 9 then completed x b else if c = 8 \<or> c = 0x7f then butlast b else b @ [c])"

definition edited :: "exports \<Rightarrow> u8 list \<Rightarrow> u8 list \<Rightarrow> u8 list" where
  "edited x cs b = fold (key x) cs b"

lemma edited_simps [simp]: "edited x [] b = b" "edited x (c # cs) b = edited x cs (key x c b)"
  by (simp_all add: edited_def)

text \<open>The keys of a line, and a line that never leaves the array.\<close>

definition line_key :: "u8 \<Rightarrow> bool" where
  "line_key c \<longleftrightarrow> plain c \<or> c \<in> {8, 9, 0x7f}"

definition fits_line :: "u8 list \<Rightarrow> bool" where
  "fits_line b \<longleftrightarrow> length b < FINSH_CMD_SIZE \<and> 0 \<notin> set b"

fun stays :: "exports \<Rightarrow> u8 list \<Rightarrow> u8 list \<Rightarrow> bool" where
  "stays x [] b = True"
| "stays x (c # cs) b = (fits_line (key x c b) \<and> stays x cs (key x c b))"

section \<open>The array\<close>

definition line_of :: "u8 list \<Rightarrow> u8 list" where
  "line_of b = b @ replicate (FINSH_CMD_SIZE - length b) 0"

definition holds :: "u8 list \<Rightarrow> editor \<Rightarrow> bool" where
  "holds b s \<longleftrightarrow> stat s = WAIT_NORMAL \<and> cmd_line s = line_of b \<and> line_position s = length b \<and> fits_line b"

lemma line_of_split: "fits_line b \<Longrightarrow> line_of b = b @ 0 # replicate (FINSH_CMD_SIZE - Suc (length b)) 0"
  by (simp add: line_of_def fits_line_def replicate_Suc [symmetric] Suc_diff_Suc del: replicate_Suc)

lemma line_of_string [simp]: "fits_line b \<Longrightarrow> line_string (line_of b) = Ok b"
  by (simp add: line_of_split line_string_def fits_line_def)

lemma c_text_line_of [simp]: "fits_line b \<Longrightarrow> c_text (line_of b) = b"
  by (simp add: line_of_split fits_line_def)

lemma length_line_of [simp]: "fits_line b \<Longrightarrow> length (line_of b) = FINSH_CMD_SIZE"
  by (simp add: line_of_def fits_line_def)

lemma line_of_put: "fits_line b \<Longrightarrow> (line_of b)[length b := c] = b @ c # replicate (FINSH_CMD_SIZE - Suc (length b)) 0"
  by (simp add: line_of_split list_update_append)

lemma line_of_snoc: "fits_line b \<Longrightarrow> (line_of b)[length b := c] = line_of (b @ [c])"
  by (simp add: line_of_put) (simp add: line_of_def)

lemma fits_butlast: "fits_line b \<Longrightarrow> fits_line (butlast b)"
  by (auto simp: fits_line_def dest: in_set_butlastD)

lemma line_of_back: "fits_line b \<Longrightarrow> (line_of b)[length b - 1 := 0] = line_of (butlast b)"
proof (cases b rule: rev_cases)
  case Nil
  then show ?thesis by (simp add: line_of_def FINSH_CMD_SIZE_def list_update_same_conv)
next
  case (snoc c d)
  moreover assume "fits_line b"
  ultimately show ?thesis
    by (simp add: line_of_def fits_line_def list_update_append replicate_Suc [symmetric] Suc_diff_Suc del: replicate_Suc)
qed

lemma blank_line_of: "blank_line = line_of []" "fits_line []"
  by (simp_all add: blank_line_def line_of_def fits_line_def FINSH_CMD_SIZE_def)

section \<open>Typing\<close>

text \<open>The history is not touched while a line is typed.\<close>

definition kept :: "editor \<Rightarrow> editor \<Rightarrow> bool" where
  "kept s s' \<longleftrightarrow> cmd_history s' = cmd_history s \<and> history_count s' = history_count s \<and> current_history s' = current_history s"

lemma kept_trans: "kept s t \<Longrightarrow> kept t u \<Longrightarrow> kept s u"
  by (simp add: kept_def)

lemma printed_printed [simp]: "printed o1 (printed o2 r) = printed (o1 @ o2) r"
  by (cases r) (auto simp: printed_def)

lemma printed_Nil [simp]: "printed [] r = r"
  by (cases r) (auto simp: printed_def)

lemma printed_Ok [simp]: "printed out (Ok (out', e, rest, s)) = Ok (out @ out', e, rest, s)"
  "printed out Fault = Fault"
  by (simp_all add: printed_def)

lemma normal_key: "stat s = WAIT_NORMAL \<Longrightarrow> ch \<noteq> 0x1b \<Longrightarrow> finsh_handle_history ch s = Ok (False, [], s)"
  by (simp add: finsh_handle_history_def)

lemma read_plain:
  assumes "stat s = WAIT_NORMAL" and "plain c"
  shows "read_loop x (c # inp) s = (case put_char c s of (out, s) \<Rightarrow> printed out (read_loop x inp s))"
  using assms by (simp add: read_loop.simps(2) normal_key plain_def)

lemma put_char_holds:
  assumes "holds b s" and "plain c" and "fits_line (b @ [c])"
  shows "holds (b @ [c]) (snd (put_char c s))" "kept s (snd (put_char c s))" "\<not> use_history (snd (put_char c s))"
  using assms line_of_snoc [of b c] by (auto simp: holds_def put_char_def Let_def kept_def fits_line_def)

lemma backspace_holds:
  assumes "holds b s"
  shows "holds (butlast b) (snd (backspace c s))" "kept s (snd (backspace c s))" "use_history (snd (backspace c s)) = use_history s"
  using assms line_of_back [of b] fits_butlast [of b] by (auto simp: holds_def backspace_def Let_def kept_def)

lemma matching_prefix: "nm \<in> set (matching p x) \<Longrightarrow> take (length p) nm = p"
  by (auto simp: matching_def)

lemma complete_line:
  assumes "fits_line b" and "matching b x = [nm]" and "fits_line nm"
  shows "nm @ drop (length nm) (line_of b) = line_of nm"
proof -
  have "length b \<le> length nm"
    using matching_prefix [of nm b x] assms(2) by (metis length_take list.set_intros(1) min.cobounded1)
  then show ?thesis
    using assms(1,3) by (simp add: line_of_def fits_line_def)
qed

lemma tab_holds:
  assumes "holds b s" and "fits_line (completed x b)"
  shows "\<exists>out s'. finsh_auto_complete x s = Ok (out, s') \<and> holds (completed x b) s' \<and> kept s s' \<and> use_history s' = use_history s"
proof -
  have b: "fits_line b" "cmd_line s = line_of b" "stat s = WAIT_NORMAL" using assms(1) by (simp_all add: holds_def)
  have "\<exists>nms. list_prefix x (line_of b) = Ok (nms, line_of (completed x b))"
  proof (cases "\<exists>nm. matching b x = [nm]")
    case True
    then obtain nm where nm: "matching b x = [nm]" ..
    then have "fits_line nm" using assms(2) by (simp add: completed_def)
    then show ?thesis
      using b(1) nm complete_line [OF b(1) nm]
      by (simp add: list_prefix_def completed_def) (simp add: fits_line_def)
  next
    case False
    then show ?thesis
      using b(1) by (auto simp: list_prefix_def completed_def split: list.splits)
  qed
  then show ?thesis
    using b assms(2) by (auto simp: finsh_auto_complete_def holds_def kept_def)
qed

lemma read_key:
  assumes "holds b s" and "line_key c" and "fits_line (key x c b)"
  shows "\<exists>out s'. (\<forall>rest. read_loop x (c # rest) s = printed out (read_loop x rest s')) \<and> holds (key x c b) s' \<and> kept s s' \<and>
    use_history s' = (use_history s \<and> \<not> plain c)"
proof -
  have st: "stat s = WAIT_NORMAL" using assms(1) by (simp add: holds_def)
  consider "plain c" | "c = 9" | "c = 0x7f \<or> c = 8" using assms(2) by (auto simp: line_key_def)
  then show ?thesis
  proof cases
    case 1
    then have "key x c b = b @ [c]" by (auto simp: key_def plain_def)
    then show ?thesis
      using put_char_holds [OF assms(1) 1] assms(3) read_plain [OF st 1] 1
      by (cases "put_char c s") auto
  next
    case 2
    then obtain out s' where t: "finsh_auto_complete x s = Ok (out, s')" "holds (completed x b) s'" "kept s s'" "use_history s' = use_history s"
      using tab_holds [OF assms(1), of x] assms(3) by (auto simp: key_def)
    then show ?thesis
      using 2 st by (intro exI [of _ out] exI [of _ s']) (simp add: key_def read_loop.simps(2) normal_key plain_def)
  next
    case 3
    then have "\<not> plain c" "key x c b = butlast b" "c \<noteq> 0x1b" "c \<noteq> 9" by (auto simp: key_def plain_def)
    then have "read_loop x (c # rest) s = printed (fst (backspace c s)) (read_loop x rest (snd (backspace c s)))" for rest
      using 3 st by (simp add: read_loop.simps(2) normal_key case_prod_beta)
    then show ?thesis
      using backspace_holds [OF assms(1), of c] \<open>\<not> plain c\<close> \<open>key x c b = butlast b\<close> by auto
  qed
qed

lemma read_keys:
  assumes "holds b s" and "\<forall>c \<in> set cs. line_key c" and "stays x cs b"
  shows "\<exists>out s'. (\<forall>rest. read_loop x (cs @ rest) s = printed out (read_loop x rest s')) \<and> holds (edited x cs b) s' \<and> kept s s' \<and>
    use_history s' = (use_history s \<and> (\<forall>c \<in> set cs. \<not> plain c))"
  using assms
proof (induction cs arbitrary: b s)
  case Nil
  then show ?case by (intro exI [of _ "[]"] exI [of _ s]) (simp add: kept_def)
next
  case (Cons c cs)
  then obtain out s1 where s1: "\<And>rest. read_loop x (c # rest) s = printed out (read_loop x rest s1)" "holds (key x c b) s1"
      "kept s s1" "use_history s1 = (use_history s \<and> \<not> plain c)"
    using read_key [of b s c x] by auto
  then obtain out' s2 where s2: "\<And>rest. read_loop x (cs @ rest) s1 = printed out' (read_loop x rest s2)"
      "holds (edited x cs (key x c b)) s2" "kept s1 s2" "use_history s2 = (use_history s1 \<and> (\<forall>c \<in> set cs. \<not> plain c))"
    using Cons.IH [OF s1(2)] Cons.prems by auto
  then show ?case
    using s1 kept_trans [OF s1(3) s2(3)] by (intro exI [of _ "out @ out'"] exI [of _ s2]) auto
qed

section \<open>Entering a line\<close>

text \<open>The lines remembered, the oldest first.\<close>

definition remembered :: "editor \<Rightarrow> u8 list list" where
  "remembered s = map c_text (take (history_count s) (cmd_history s))"

definition runnable :: "u8 list \<Rightarrow> bool" where
  "runnable b \<longleftrightarrow> b \<noteq> [] \<and> length b + 1 < FINSH_CMD_SIZE"

definition history_ok :: "editor \<Rightarrow> bool" where
  "history_ok s \<longleftrightarrow> length (cmd_history s) = FINSH_HISTORY_LINES \<and> history_count s \<le> FINSH_HISTORY_LINES \<and>
     (\<forall>e \<in> set (cmd_history s). \<exists>t. fits_line t \<and> e = line_of t) \<and> (\<forall>t \<in> set (remembered s). runnable t)"

lemma remembered_length: "history_ok s \<Longrightarrow> length (remembered s) = history_count s"
  by (simp add: remembered_def history_ok_def)

lemma remembered_nth:
  assumes "history_ok s" and "i < history_count s"
  shows "cmd_history s ! i = line_of (remembered s ! i) \<and> fits_line (remembered s ! i)"
proof -
  have "cmd_history s ! i \<in> set (cmd_history s)" using assms by (simp add: history_ok_def)
  then obtain t where "fits_line t" "cmd_history s ! i = line_of t" using assms(1) by (auto simp: history_ok_def)
  then show ?thesis using assms by (simp add: remembered_def history_ok_def)
qed

definition push_line :: "u8 list \<Rightarrow> editor \<Rightarrow> u8 list list \<times> nat" where
  "push_line b s = (if FINSH_HISTORY_LINES \<le> history_count s then (tl (cmd_history s) @ [line_of b], FINSH_HISTORY_LINES)
     else ((cmd_history s)[history_count s := line_of b], history_count s + 1))"

lemma push_line_ok:
  assumes "history_ok s" and "fits_line b" and "runnable b" and "(cmd_history s', history_count s') = push_line b s"
  shows "history_ok s' \<and> remembered s' = newest FINSH_HISTORY_LINES (remembered s @ [b])"
proof (cases "history_count s < FINSH_HISTORY_LINES")
  case True
  then have s': "cmd_history s' = (cmd_history s)[history_count s := line_of b]" "history_count s' = history_count s + 1"
    using assms(4) by (simp_all add: push_line_def)
  have l: "history_count s < length (cmd_history s)" using True assms(1) by (simp add: history_ok_def)
  then have r: "remembered s' = remembered s @ [b]"
    using assms(2) by (simp add: remembered_def s' take_Suc_conv_app_nth)
  then have "\<forall>t \<in> set (remembered s'). runnable t" using assms(1,3) by (auto simp: history_ok_def)
  then have "history_ok s'"
    using True assms(1,2) by (auto simp: history_ok_def s' dest: set_update_subset_insert [THEN subsetD])
  with r show ?thesis
    using True remembered_length [OF assms(1)] by (simp add: newest_def)
next
  case False
  then have s': "cmd_history s' = tl (cmd_history s) @ [line_of b]" "history_count s' = FINSH_HISTORY_LINES"
    using assms(4) by (simp_all add: push_line_def)
  have l: "length (cmd_history s) = FINSH_HISTORY_LINES" "history_count s = FINSH_HISTORY_LINES"
    using False assms(1) by (simp_all add: history_ok_def)
  have r: "remembered s' = tl (remembered s) @ [b]"
    using l assms(2) by (simp add: remembered_def s' map_tl FINSH_HISTORY_LINES_def)
  then have "\<forall>t \<in> set (remembered s'). runnable t"
    using assms(1,3) by (cases "remembered s") (auto simp: history_ok_def)
  then have "history_ok s'"
    using l assms(1,2) by (auto simp: history_ok_def s' FINSH_HISTORY_LINES_def dest: list.set_sel(2) [rotated])
  moreover have "length (remembered s) = FINSH_HISTORY_LINES"
    using l remembered_length [OF assms(1)] by simp
  ultimately show ?thesis
    using r by (simp add: newest_def FINSH_HISTORY_LINES_def drop_Suc)
qed

lemma enter_line:
  assumes "holds b s" and "history_ok s" and "length b + 1 < FINSH_CMD_SIZE"
  shows "\<exists>s'. enter s = Ok (if b = [] then Empty_line else Command (b @ [59]), s') \<and> holds [] s' \<and> history_ok s' \<and>
    remembered s' = (if b = [] \<or> use_history s then remembered s else newest FINSH_HISTORY_LINES (remembered s @ [b])) \<and>
    current_history s' = length (remembered s')"
proof -
  have b: "fits_line b" "cmd_line s = line_of b" "line_position s = length b" "stat s = WAIT_NORMAL"
    using assms(1) by (simp_all add: holds_def)
  let ?l = "b @ 59 # replicate (FINSH_CMD_SIZE - Suc (length b)) 0"
  let ?s = "s\<lparr>cmd_line := ?l\<rparr>"
  have l: "line_string ?l = Ok (b @ [59])"
  proof -
    have "?l = (b @ [59]) @ 0 # replicate (FINSH_CMD_SIZE - Suc (Suc (length b))) 0"
      using assms(3) by (simp add: replicate_Suc [symmetric] Suc_diff_Suc del: replicate_Suc)
    moreover have "0 \<notin> set (b @ [59])" using b(1) by (simp add: fits_line_def)
    ultimately show ?thesis
      using c_text_line [of "b @ [59]" "replicate (FINSH_CMD_SIZE - Suc (Suc (length b))) 0"] by (simp add: line_string_def)
  qed
  have e: "history_entry ?s = line_of b"
    using b by (simp add: history_entry_def blank_line_def line_of_def)
  let ?t = "(finsh_push_history ?s)\<lparr>cmd_line := blank_line, line_position := 0\<rparr>"
  have enter: "enter s = Ok (if b = [] then Empty_line else Command (b @ [59]), ?t)"
    using b l assms(3) by (simp add: enter_def line_of_put finsh_push_history_def Let_def)
  have h: "holds [] ?t"
    using b(4) blank_line_of by (simp add: holds_def finsh_push_history_def Let_def)
  have c: "current_history ?t = history_count ?t"
    by (simp add: finsh_push_history_def Let_def)
  show ?thesis
  proof (cases "b = [] \<or> use_history s")
    case True
    then have "cmd_history ?t = cmd_history s" "history_count ?t = history_count s"
      using b(3) by (auto simp: finsh_push_history_def Let_def)
    then have "remembered ?t = remembered s" "history_ok ?t"
      using assms(2) by (simp_all add: remembered_def history_ok_def)
    with True enter h c remembered_length [of ?t] show ?thesis by auto
  next
    case False
    then have "(cmd_history ?t, history_count ?t) = push_line b s"
      using b(3) e by (simp add: finsh_push_history_def Let_def push_line_def)
    moreover have "runnable b" using False assms(3) by (simp add: runnable_def)
    ultimately have "history_ok ?t \<and> remembered ?t = newest FINSH_HISTORY_LINES (remembered s @ [b])"
      using push_line_ok [OF assms(2) b(1)] by blast
    with False enter h c remembered_length [of ?t] show ?thesis by auto
  qed
qed

text \<open>The ways to end a line; a carriage return alone needs that nothing follows it yet.\<close>

definition line_end :: "u8 list \<Rightarrow> u8 list \<Rightarrow> bool" where
  "line_end nl rest \<longleftrightarrow> nl \<in> {[10], [13, 10], [13, 13]} \<or> nl = [13] \<and> rest = []"

lemma read_end_of_line:
  assumes "stat s = WAIT_NORMAL" and "line_end nl rest"
  shows "read_loop x (nl @ rest) s = rbind (enter s) (\<lambda>(e, s). Ok ([], e, rest, s))"
  using assms by (auto simp: line_end_def read_loop.simps(2) normal_key)

lemma typed_line:
  assumes "holds [] s" and "history_ok s" and "\<forall>c \<in> set cs. line_key c" and "stays x cs []"
    and "length (edited x cs []) + 1 < FINSH_CMD_SIZE" and "line_end nl rest"
  shows "\<exists>out s'. read_loop x (cs @ nl @ rest) s =
      Ok (out, if edited x cs [] = [] then Empty_line else Command (edited x cs [] @ [59]), rest, s') \<and>
    holds [] s' \<and> history_ok s' \<and> current_history s' = length (remembered s') \<and>
    remembered s' = (if edited x cs [] = [] \<or> use_history s \<and> (\<forall>c \<in> set cs. \<not> plain c) then remembered s
      else newest FINSH_HISTORY_LINES (remembered s @ [edited x cs []]))"
proof -
  let ?b = "edited x cs []"
  obtain out s1 where s1: "\<And>rest. read_loop x (cs @ rest) s = printed out (read_loop x rest s1)" "holds ?b s1" "kept s s1"
      "use_history s1 = (use_history s \<and> (\<forall>c \<in> set cs. \<not> plain c))"
    using read_keys [OF assms(1,3,4)] by blast
  have k: "history_ok s1" "remembered s1 = remembered s"
    using s1(3) assms(2) by (simp_all add: kept_def history_ok_def remembered_def)
  obtain s' where s': "enter s1 = Ok (if ?b = [] then Empty_line else Command (?b @ [59]), s')" "holds [] s'" "history_ok s'"
      "remembered s' = (if ?b = [] \<or> use_history s1 then remembered s1 else newest FINSH_HISTORY_LINES (remembered s1 @ [?b]))"
      "current_history s' = length (remembered s')"
    using enter_line [OF s1(2) k(1) assms(5)] by blast
  have "stat s1 = WAIT_NORMAL" using s1(2) by (simp add: holds_def)
  then have "read_loop x (cs @ nl @ rest) s = Ok (out, if ?b = [] then Empty_line else Command (?b @ [59]), rest, s')"
    using s1(1) read_end_of_line [OF _ assms(6)] s'(1) by simp
  then show ?thesis
    using s' s1(4) k(2) by auto
qed

lemma start_holds: "holds [] (thread_start finsh_system_init)"
  using blank_line_of by (simp add: holds_def thread_start_def finsh_system_init_def)

lemma start_empty: "remembered (thread_start finsh_system_init) = []"
  by (simp add: remembered_def thread_start_def finsh_system_init_def)

lemma start_history: "history_ok (thread_start finsh_system_init)"
  using blank_line_of by (auto simp: history_ok_def start_empty) (auto simp: thread_start_def finsh_system_init_def)

text \<open>
  C32. Keys that edit a line within the array, completion and deletion included, and a line end run
  the line of the reference editor with a \<open>;\<close> behind it, remember it among the newest five, and
  leave an empty line.
\<close>

theorem keys_enter_line:
  assumes "holds [] s" and "history_ok s" and "\<forall>c \<in> set cs. line_key c" and "stays x cs []"
    and "length (edited x cs []) + 1 < FINSH_CMD_SIZE" and "line_end nl rest"
  shows "\<exists>out s'. read_loop x (cs @ nl @ rest) s =
      Ok (out, if edited x cs [] = [] then Empty_line else Command (edited x cs [] @ [59]), rest, s') \<and>
    holds [] s' \<and> history_ok s' \<and> current_history s' = length (remembered s') \<and>
    remembered s' = (if edited x cs [] = [] \<or> use_history s \<and> (\<forall>c \<in> set cs. \<not> plain c) then remembered s
      else newest FINSH_HISTORY_LINES (remembered s @ [edited x cs []]))"
  using typed_line [OF assms] .

theorem keys_enter_line_witness:
  "\<exists>out s'. read_loop demo_exports (bytes ''nx'' @ [8] @ bytes ''=1'' @ [13, 10]) (thread_start finsh_system_init) =
     Ok (out, Command (bytes ''n=1;''), [], s') \<and> remembered s' = [bytes ''n=1'']"
  using keys_enter_line [of "thread_start finsh_system_init" "bytes ''nx'' @ [8] @ bytes ''=1''" demo_exports "[13, 10]" "[]"]
    start_holds start_history
  by (simp add: line_key_def plain_def key_def fits_line_def FINSH_CMD_SIZE_def line_end_def start_empty newest_def FINSH_HISTORY_LINES_def)
    blast

section \<open>The history\<close>

text \<open>The keys of the up arrow.\<close>

definition up :: "u8 list" where
  "up = [0x1b, 0x5b, 0x41]"

lemma read_up:
  assumes "stat s = WAIT_NORMAL" and "history_ok s" and "current_history s = Suc i" and "i < history_count s"
  shows "\<exists>out s'. (\<forall>rest. read_loop x (up @ rest) s = printed out (read_loop x rest s')) \<and> holds (remembered s ! i) s' \<and>
    use_history s' \<and> current_history s' = i \<and> cmd_history s' = cmd_history s \<and> history_count s' = history_count s"
proof -
  have h: "cmd_history s ! i = line_of (remembered s ! i)" "fits_line (remembered s ! i)"
    using remembered_nth [OF assms(2,4)] by simp_all
  let ?b = "remembered s ! i"
  let ?s = "s\<lparr>stat := WAIT_NORMAL, current_history := i, cmd_line := line_of ?b, line_position := length ?b, use_history := True\<rparr>"
  have "read_loop x (up @ rest) s = printed [Redraw ?b] (read_loop x rest ?s)" for rest
    using assms(1,3) h by (simp add: up_def read_loop.simps(2) finsh_handle_history_def recall_def redraw_def Let_def)
  then show ?thesis
    using h(2) by (intro exI [of _ "[Redraw ?b]"] exI [of _ ?s]) (simp add: holds_def)
qed

lemma concat_copies: "u @ concat (replicate n u) @ r = concat (replicate n u) @ u @ r"
  by (induction n) simp_all

lemma read_ups:
  assumes "holds [] s" and "history_ok s" and "current_history s = length (remembered s)" and "k < length (remembered s)"
  shows "\<exists>out s'. (\<forall>rest. read_loop x (concat (replicate (Suc k) up) @ rest) s = printed out (read_loop x rest s')) \<and>
    holds (remembered s ! (length (remembered s) - Suc k)) s' \<and> use_history s' \<and>
    current_history s' = length (remembered s) - Suc k \<and> cmd_history s' = cmd_history s \<and> history_count s' = history_count s"
  using assms(4)
proof (induction k)
  case 0
  have "stat s = WAIT_NORMAL" using assms(1) by (simp add: holds_def)
  then show ?case
    using read_up [OF _ assms(2), of "length (remembered s) - 1"] 0 assms(3) remembered_length [OF assms(2)] by simp
next
  case (Suc k)
  let ?n = "length (remembered s)"
  obtain out s1 where s1: "\<And>rest. read_loop x (concat (replicate (Suc k) up) @ rest) s = printed out (read_loop x rest s1)"
    "holds (remembered s ! (?n - Suc k)) s1" "current_history s1 = ?n - Suc k"
    "cmd_history s1 = cmd_history s" "history_count s1 = history_count s"
    using Suc by fastforce
  have r: "remembered s1 = remembered s" "history_ok s1"
    using s1(4,5) assms(2) by (simp_all add: remembered_def history_ok_def)
  have c: "current_history s1 = Suc (?n - Suc (Suc k))" "?n - Suc (Suc k) < history_count s1" "stat s1 = WAIT_NORMAL"
    using s1(2,3,5) Suc.prems remembered_length [OF assms(2)] by (simp_all add: holds_def)
  obtain out' s2 where s2: "\<And>rest. read_loop x (up @ rest) s1 = printed out' (read_loop x rest s2)"
    "holds (remembered s1 ! (?n - Suc (Suc k))) s2" "use_history s2" "current_history s2 = ?n - Suc (Suc k)"
    "cmd_history s2 = cmd_history s1" "history_count s2 = history_count s1"
    using read_up [OF c(3) r(2) c(1,2)] by blast
  have "concat (replicate (Suc (Suc k)) up) @ rest = concat (replicate (Suc k) up) @ up @ rest" for rest
    by (simp add: concat_copies)
  then have "read_loop x (concat (replicate (Suc (Suc k)) up) @ rest) s = printed (out @ out') (read_loop x rest s2)" for rest
    using s1(1) [of "up @ rest"] s2(1) by (simp only: printed_printed)
  with s2 s1(4,5) r(1) show ?case
    by (intro exI [of _ "out @ out'"] exI [of _ s2]) simp
qed

text \<open>
  After lines have been entered, the up arrow pressed k times and a line end run the k-th newest
  of the remembered lines again; the memory of lines stays as it is.
\<close>

lemma arrow_runs_old_line:
  assumes "holds [] s" and "history_ok s" and "current_history s = length (remembered s)"
    and "0 < k" and "k \<le> length (remembered s)" and "line_end nl rest"
  shows "\<exists>out s'. read_loop x (concat (replicate k up) @ nl @ rest) s =
      Ok (out, Command (remembered s ! (length (remembered s) - k) @ [59]), rest, s') \<and>
    holds [] s' \<and> history_ok s' \<and> remembered s' = remembered s \<and> current_history s' = length (remembered s')"
proof -
  obtain j where k: "k = Suc j" using assms(4) by (cases k) auto
  let ?b = "remembered s ! (length (remembered s) - k)"
  obtain out s1 where s1: "\<And>rest. read_loop x (concat (replicate k up) @ rest) s = printed out (read_loop x rest s1)"
    "holds ?b s1" "use_history s1" "cmd_history s1 = cmd_history s" "history_count s1 = history_count s"
    using read_ups [OF assms(1-3), of j x] assms(5) unfolding k by auto
  have r: "remembered s1 = remembered s" "history_ok s1"
    using s1(4,5) assms(2) by (simp_all add: remembered_def history_ok_def)
  have b: "?b \<noteq> []" "length ?b + 1 < FINSH_CMD_SIZE"
    using assms(2,4,5) by (auto simp: history_ok_def runnable_def)
  obtain s' where s': "enter s1 = Ok (Command (?b @ [59]), s')" "holds [] s'" "history_ok s'" "remembered s' = remembered s1"
      "current_history s' = length (remembered s')"
    using enter_line [OF s1(2) r(2) b(2)] b(1) s1(3) by auto
  have "stat s1 = WAIT_NORMAL" using s1(2) by (simp add: holds_def)
  then have "read_loop x (concat (replicate k up) @ nl @ rest) s = Ok (out, Command (?b @ [59]), rest, s')"
    using s1(1) read_end_of_line [OF _ assms(6)] s'(1) by simp
  then show ?thesis
    using s' r(1) by auto
qed

text \<open>Two lines, the older one again.\<close>

lemma arrow_runs_old_line_witness:
  "\<exists>s. remembered s = [bytes ''a'', bytes ''b''] \<and>
    (\<exists>out s'. read_loop demo_exports (up @ up @ [10]) s = Ok (out, Command (bytes ''a;''), [], s'))"
proof -
  let ?s = "(thread_start finsh_system_init)\<lparr>cmd_history := [line_of [97], line_of [98], line_of [], line_of [], line_of []],
    history_count := 2, current_history := 2\<rparr>"
  have fits: "fits_line [97]" "fits_line [98]" "fits_line []"
    by (simp_all add: fits_line_def FINSH_CMD_SIZE_def)
  have r: "remembered ?s = [[97], [98]]"
    using fits by (simp add: remembered_def numeral_2_eq_2)
  have "history_ok ?s"
    unfolding history_ok_def r using fits by (auto simp: FINSH_HISTORY_LINES_def runnable_def FINSH_CMD_SIZE_def)
  moreover have "holds [] ?s" using start_holds by (simp add: holds_def)
  ultimately show ?thesis
    using arrow_runs_old_line [of ?s 2 "[10]" "[]" demo_exports] r
    by (intro exI [of _ ?s]) (simp add: numeral_2_eq_2 line_end_def, blast)
qed

section \<open>Long lines\<close>

text \<open>An array without a zero.\<close>

definition full :: "editor \<Rightarrow> bool" where
  "full s \<longleftrightarrow> stat s = WAIT_NORMAL \<and> length (cmd_line s) = FINSH_CMD_SIZE \<and> 0 \<notin> set (cmd_line s) \<and> 0 < line_position s \<and>
     line_position s \<le> FINSH_CMD_SIZE"

lemma put_full: "full s \<Longrightarrow> c \<noteq> 0 \<Longrightarrow> full (snd (put_char c s))"
  by (auto simp: full_def put_char_def Let_def FINSH_CMD_SIZE_def dest: set_update_subset_insert [THEN subsetD])

lemma enter_full: "full s \<Longrightarrow> enter s = Fault"
  using set_update_subset_insert [of "cmd_line s" "line_position s" 59]
  by (auto simp: full_def enter_def line_string_def finsh_push_history_def Let_def)

lemma type_full:
  "full s \<Longrightarrow> \<forall>c \<in> set cs. plain c \<Longrightarrow> read_loop x (cs @ 10 # rest) s = Fault"
proof (induction cs arbitrary: s)
  case Nil
  then show ?case
    using read_end_of_line [of s "[10]" rest x] enter_full [OF Nil(1)] by (simp add: full_def line_end_def)
next
  case (Cons c cs)
  then have "plain c" "stat s = WAIT_NORMAL" by (simp_all add: full_def)
  moreover have "full (snd (put_char c s))" using Cons.prems put_full [of s c] by (simp add: plain_def)
  ultimately show ?case
    using Cons.IH [of "snd (put_char c s)"] Cons.prems by (simp add: read_plain case_prod_beta)
qed

lemma edited_plain: "\<forall>c \<in> set cs. plain c \<Longrightarrow> edited x cs b = b @ cs"
  by (induction cs arbitrary: b) (auto simp: key_def plain_def)

lemma stays_plain: "\<forall>c \<in> set cs. plain c \<Longrightarrow> 0 \<notin> set b \<Longrightarrow> length b + length cs < FINSH_CMD_SIZE \<Longrightarrow> stays x cs b"
  by (induction cs arbitrary: b) (auto simp: key_def plain_def fits_line_def)

text \<open>
  A line of 79 and more characters typed without a correction leaves the array when it is
  entered: with 79 characters no room is left for the zero behind the \<open>;\<close>, with 80 the \<open>;\<close> itself
  is written behind the array, and longer lines start again over the old characters.
\<close>

lemma long_line_overruns:
  assumes "holds [] s" and "\<forall>c \<in> set cs. plain c" and "FINSH_CMD_SIZE \<le> length cs + 1"
  shows "read_loop x (cs @ 10 # rest) s = Fault"
proof -
  let ?a = "take 79 cs" and ?d = "drop 79 cs"
  have a: "length ?a = 79" "\<forall>c \<in> set ?a. plain c"
    using assms(2,3) by (auto simp: FINSH_CMD_SIZE_def dest: in_set_takeD)
  then have "\<forall>c \<in> set ?a. line_key c" "stays x ?a []" "edited x ?a [] = ?a"
    using stays_plain [OF a(2), of "[]" x] edited_plain [OF a(2), of x "[]"] by (simp_all add: line_key_def FINSH_CMD_SIZE_def)
  then obtain out s1 where s1: "\<And>rest. read_loop x (?a @ rest) s = printed out (read_loop x rest s1)" "holds ?a s1"
    using read_keys [OF assms(1), of ?a x] by auto
  have n: "stat s1 = WAIT_NORMAL" "line_position s1 = 79" "cmd_line s1 = ?a @ [0]" "0 \<notin> set ?a"
    using s1(2) a(1) by (simp_all add: holds_def line_of_def FINSH_CMD_SIZE_def fits_line_def)
  have u: "(?a @ [0])[79 := c] = ?a @ [c]" for c
    using a(1) by (simp add: list_update_append)
  have "read_loop x (?d @ 10 # rest) s1 = Fault"
  proof (cases ?d)
    case Nil
    have "enter s1 = Fault"
      using n u a(1) by (simp add: enter_def line_string_def finsh_push_history_def Let_def FINSH_CMD_SIZE_def)
    then show ?thesis
      using Nil read_end_of_line [of s1 "[10]" rest x] n(1) by (simp add: line_end_def)
  next
    case (Cons c d)
    then have c: "plain c" "\<forall>c \<in> set d. plain c" using assms(2) set_drop_subset [of 79 cs] by auto
    then have "full (snd (put_char c s1))"
      using n u a(1) by (simp add: full_def put_char_def Let_def FINSH_CMD_SIZE_def plain_def)
    from type_full [OF this c(2)] show ?thesis
      using Cons read_plain [OF n(1) c(1)] by (simp add: case_prod_beta)
  qed
  then show ?thesis
    using s1(1) [of "?d @ 10 # rest"] by (metis append.assoc append_take_drop_id printed_Ok(2))
qed

lemma long_line_overruns_witness:
  "read_loop demo_exports (replicate 80 65 @ [10]) (thread_start finsh_system_init) = Fault"
  using long_line_overruns [OF start_holds, of "replicate 80 65" demo_exports "[]"]
  by (simp add: plain_def FINSH_CMD_SIZE_def)

section \<open>From the keys to the value\<close>

text \<open>
  C3. A line of expressions typed with corrections and entered is run: the value of its last
  expression is shown, the memory is that of the reference evaluation, the line is remembered, and
  the shell waits for the next one.
\<close>

theorem typed_keys_show_value:
  assumes "wt_line (sh_vars sh) l" and "\<forall>e \<in> set (map snd l). writable x (sh_vars sh) e" and "l \<noteq> []"
    and "\<forall>d \<in> set (statement_items (sh_vars sh) (map snd l)). item_fine d"
    and "eval_line sys x l (mem (sh_vm sh)) = Some (w, v, m)"
    and "nodes (line_tree l) \<le> FINSH_NODE_MAX" and "length (line_code x l) \<le> FINSH_TEXT_MAX"
    and "length (finsh_vm_stack (sh_vm sh)) = FINSH_STACK_MAX"
    and "holds [] ed" and "history_ok ed" and "\<not> use_history ed" and "\<forall>c \<in> set cs. line_key c" and "stays x cs []"
    and "edited x cs [] = typed_text (sh_vars sh) (map snd l)" and "length (edited x cs []) + 1 < FINSH_CMD_SIZE" and "line_end nl rest"
  shows "\<exists>N out c u ed' vm. (\<forall>n \<ge> N. finsh_thread_pass x sys n (cs @ nl @ rest) (ed, sh) =
      Ok (out @ [Newline, Result (Some (Shown_value c u)), Prompt], rest, ed', sh\<lparr>sh_vm := vm\<rparr>)) \<and>
    member w u = v \<and> mem vm = m \<and> holds [] ed' \<and>
    remembered ed' = newest FINSH_HISTORY_LINES (remembered ed @ [typed_text (sh_vars sh) (map snd l)])"
proof -
  let ?t = "typed_text (sh_vars sh) (map snd l)"
  have t: "?t \<noteq> []" using typed_not_empty assms(3) by simp
  obtain out ed' where ed': "read_loop x (cs @ nl @ rest) ed = Ok (out, Command (?t @ [59]), rest, ed')" "holds [] ed'"
      "remembered ed' = newest FINSH_HISTORY_LINES (remembered ed @ [?t])"
    using typed_line [OF assms(9,10,12,13,15,16)] t assms(11,14) by auto
  have "reads (finsh_token_init (?t @ [59]) ERROR_OK) (line_items (sh_vars sh) (map snd l))"
    using typed_scanned [OF _ assms(4)] assms(3) by simp
  from line_shown [OF assms(1,2) this assms(5-8)] obtain N c u vm where
    r: "\<And>n. n \<ge> N \<Longrightarrow> finsh_run_line x sys n (?t @ [59]) sh = Ok (Some (Shown_value c u), sh\<lparr>sh_vm := vm\<rparr>)"
      "member w u = v" "mem vm = m" by blast
  have "finsh_thread_pass x sys n (cs @ nl @ rest) (ed, sh) =
      Ok (out @ [Newline, Result (Some (Shown_value c u)), Prompt], rest, ed', sh\<lparr>sh_vm := vm\<rparr>)" if "n \<ge> N" for n
    using ed'(1) r(1) [OF that] by (simp add: finsh_thread_pass_def)
  with ed'(2,3) r(2,3) show ?thesis by blast
qed

text \<open>The keys \<open>n = 66\<close>, a deletion, and \<open> ; n * 7 \<close>.\<close>

definition demo_keys :: "u8 list" where
  "demo_keys = bytes ''n = 66'' @ [8] @ bytes '' ; n * 7 ''"

lemma demo_keys_ok:
  "\<forall>c \<in> set demo_keys. line_key c" "stays demo_exports demo_keys []"
  "edited demo_exports demo_keys [] = bytes ''n = 6 ; n * 7 ''"
  by (simp_all add: demo_keys_def line_key_def plain_def key_def fits_line_def FINSH_CMD_SIZE_def)

theorem typed_keys_show_value_witness:
  "\<exists>N out c u ed' vm. (\<forall>n \<ge> N. finsh_thread_pass demo_exports (\<lambda>f as m. None) n (demo_keys @ [13, 10]) (thread_start finsh_system_init, demo_shell) =
      Ok (out @ [Newline, Result (Some (Shown_value c u)), Prompt], [], ed', demo_shell\<lparr>sh_vm := vm\<rparr>)) \<and> sint u = 42"
proof -
  obtain m where m: "eval_line (\<lambda>f as m. None) demo_exports demo_line (mem (sh_vm demo_shell)) = Some (Dword, 42, m)"
    using demo_eval by (auto simp: demo_shell_def)
  have "\<not> use_history (thread_start finsh_system_init)" "demo_line \<noteq> []" "line_end [13, 10] []"
    by (simp_all add: thread_start_def finsh_system_init_def demo_line_def line_end_def)
  moreover have "edited demo_exports demo_keys [] = typed_text (sh_vars demo_shell) (map snd demo_line)"
    using demo_keys_ok(3) demo_typed by (simp add: demo_shell_def)
  moreover have "length (edited demo_exports demo_keys []) + 1 < FINSH_CMD_SIZE"
    unfolding demo_keys_ok(3) by (simp add: FINSH_CMD_SIZE_def)
  ultimately show ?thesis
    using typed_keys_show_value [OF _ _ _ _ m _ _ _ start_holds start_history _ demo_keys_ok(1,2), where nl = "[13, 10]" and rest = "[]"]
      demo_wt demo_writable demo_fine demo_fits
    by (simp add: demo_shell_def) blast
qed

end
