(* ===== verification/Dfs_Path.thy ===== *)
theory Dfs_Path
  imports Base
begin

text \<open>
  Path names of the device file system (\<open>RTT/components/dfs/src/dfs.c\<close>): normalisation in place and
  the part of a path below a mount point. The configuration has no working directory. Strings are
  byte lists without the zero; allocations succeed.
\<close>

section \<open>Normalisation\<close>

text \<open>
  \<open>src\<close> is what follows the read pointer, \<open>dst\<close> what was written before the write pointer, which
  never overtakes the read pointer in their common buffer. 46 is the dot, 47 the slash.
\<close>

definition skip_slashes :: "u8 list \<Rightarrow> u8 list" where
  "skip_slashes s = dropWhile (\<lambda>c. c = 47) s"

text \<open>\<open>up_one\<close>: the write pointer goes back over one character, and on to behind the next slash.\<close>

definition back_to_slash :: "u8 list \<Rightarrow> u8 list" where
  "back_to_slash dst = rev (dropWhile (\<lambda>c. c \<noteq> 47) (rev dst))"

text \<open>The end: with nothing written the last character is looked for before the buffer.\<close>

definition finish_path :: "u8 list \<Rightarrow> u8 list option res" where
  "finish_path dst = (if dst = [] then Fault
     else Ok (Some (if 1 < length dst \<and> last dst = 47 then butlast dst else dst)))"

text \<open>What a name is: itself (with the rest behind it), or one of the two directory names.\<close>

datatype piece = Here "u8 list" | Up "u8 list" | Last_here | Plain

definition piece :: "u8 list \<Rightarrow> piece" where
  "piece src =
    (if src = [] \<or> hd src \<noteq> 46 then Plain
     else if length src = 1 then Last_here
     else if src ! 1 = 47 then Here (skip_slashes (drop 2 src))
     else if src ! 1 = 46 then
       (if length src = 2 then Up [] else if src ! 2 = 47 then Up (skip_slashes (drop 3 src)) else Plain)
     else Plain)"

lemma skip_slashes_length: "length (skip_slashes s) \<le> length s"
  by (simp add: skip_slashes_def length_dropWhile_le)

lemma piece_length:
  "piece src = Here s \<Longrightarrow> length s < length src" "piece src = Up s \<Longrightarrow> length s < length src"
  using skip_slashes_length [of "drop 2 src"] skip_slashes_length [of "drop 3 src"]
  by (cases src; auto simp: piece_def split: if_splits)+

lemma rest_length: "dropWhile P s \<noteq> [] \<Longrightarrow> P 47 = False \<Longrightarrow> hd (dropWhile P s) = 47 \<Longrightarrow>
    length (skip_slashes (dropWhile P s)) < length s"
  using length_dropWhile_le [of P s] skip_slashes_length [of "tl (dropWhile P s)"]
  by (cases "dropWhile P s") (auto simp: skip_slashes_def)

lemma hd_rest: "dropWhile (\<lambda>c. c \<noteq> 47) s \<noteq> [] \<Longrightarrow> hd (dropWhile (\<lambda>c. c \<noteq> 47) s) = 47"
  using hd_dropWhile [of "\<lambda>c. c \<noteq> 47" s] by simp

text \<open>
  A lone dot at the end is skipped; any other name is copied with the slash behind it, and the
  slashes that follow are skipped.
\<close>

function norm_loop :: "u8 list \<Rightarrow> u8 list \<Rightarrow> u8 list option res" where
  "norm_loop src dst = (case piece src of
     Here s \<Rightarrow> norm_loop s dst
   | Up s \<Rightarrow> if dst = [] then Ok None else norm_loop s (back_to_slash (butlast dst))
   | Last_here \<Rightarrow> finish_path dst
   | Plain \<Rightarrow> (let nm = takeWhile (\<lambda>c. c \<noteq> 47) src; rest = dropWhile (\<lambda>c. c \<noteq> 47) src in
       if rest = [] then finish_path (dst @ nm) else norm_loop (skip_slashes rest) (dst @ nm @ [47])))"
  by pat_completeness auto

termination
  by (relation "measure (\<lambda>(src, dst). length src)") (auto simp: piece_length rest_length hd_rest)

declare norm_loop.simps [simp del]

definition dfs_normalize_path :: "u8 list option \<Rightarrow> u8 list \<Rightarrow> u8 list option res" where
  "dfs_normalize_path directory filename =
    (if filename \<noteq> [] \<and> hd filename = 47 then norm_loop filename []
     else case directory of None \<Rightarrow> Ok None | Some d \<Rightarrow> norm_loop (d @ 47 # filename) [])"

text \<open>
  The part of \<open>filename\<close> below \<open>directory\<close>, a prefix of it: nothing when they are equal.
\<close>

definition dfs_subdir :: "u8 list \<Rightarrow> u8 list \<Rightarrow> u8 list option res" where
  "dfs_subdir directory filename =
    (if length directory = length filename then Ok None
     else if length filename < length directory then Fault
     else Ok (Some (if filename ! length directory \<noteq> 47 \<and> directory \<noteq> []
       then drop (length directory - 1) filename else drop (length directory) filename)))"

section \<open>The names of a path\<close>

lemma names_shorter: "skip_slashes p \<noteq> [] \<Longrightarrow> length (dropWhile (\<lambda>c. c \<noteq> 47) (skip_slashes p)) < length p"
proof -
  assume "skip_slashes p \<noteq> []"
  moreover then have "hd (skip_slashes p) \<noteq> 47" using hd_dropWhile [of "\<lambda>c. c = 47" p] by (simp add: skip_slashes_def)
  ultimately obtain c q where "skip_slashes p = c # q" "c \<noteq> 47" by (cases "skip_slashes p") auto
  then show ?thesis
    using skip_slashes_length [of p] length_dropWhile_le [of "\<lambda>c. c \<noteq> 47" q] by simp
qed

text \<open>A reference: the names between slashes, and the stack of names they stand for.\<close>

function names :: "u8 list \<Rightarrow> u8 list list" where
  "names p = (let p = skip_slashes p in
     if p = [] then [] else takeWhile (\<lambda>c. c \<noteq> 47) p # names (dropWhile (\<lambda>c. c \<noteq> 47) p))"
  by pat_completeness auto

termination
  by (relation "measure length") (auto simp: names_shorter)

declare names.simps [simp del]

fun resolve :: "u8 list list \<Rightarrow> u8 list list \<Rightarrow> u8 list list option" where
  "resolve acc [] = Some acc"
| "resolve acc (c # cs) =
    (if c = [46] then resolve acc cs
     else if c = [46, 46] then (if acc = [] then None else resolve (butlast acc) cs)
     else resolve (acc @ [c]) cs)"

definition render :: "u8 list list \<Rightarrow> u8 list" where
  "render cs = (if cs = [] then [47] else concat (map (\<lambda>c. 47 # c) cs))"

section \<open>Normalisation resolves the names\<close>

text \<open>What is written while the names \<open>acc\<close> stand.\<close>

definition written :: "u8 list list \<Rightarrow> u8 list" where
  "written acc = 47 # concat (map (\<lambda>c. c @ [47]) acc)"

definition proper :: "u8 list \<Rightarrow> bool" where
  "proper c \<longleftrightarrow> c \<noteq> [] \<and> 47 \<notin> set c"

lemma written_snoc: "written (acc @ [c]) = written acc @ c @ [47]"
  by (simp add: written_def)

lemma written_shift: "concat (map (\<lambda>c. c @ [47]) acc) @ r = (case acc of [] \<Rightarrow> r | _ \<Rightarrow> tl (concat (map (\<lambda>c. 47 # c) acc)) @ 47 # r)"
  by (induction acc) (auto split: list.splits)

lemma slashes: "47 # concat (map (\<lambda>c. c @ [47]) acc) = concat (map (\<lambda>c. 47 # c) acc) @ [47]"
  by (induction acc) auto

lemma finish_written: "finish_path (written acc) = Ok (Some (render acc))"
  by (cases acc rule: rev_cases) (auto simp: finish_path_def written_def slashes render_def butlast_append)

lemma finish_name: "proper c \<Longrightarrow> finish_path (written acc @ c) = Ok (Some (render (acc @ [c])))"
proof -
  assume c: "proper c"
  then have "last (written acc @ c) \<noteq> 47"
    using last_in_set [of c] unfolding proper_def by (metis last_append)
  then show ?thesis
    using c by (simp add: finish_path_def written_def proper_def slashes render_def)
qed

lemma back_written: "acc \<noteq> [] \<Longrightarrow> \<forall>c \<in> set acc. proper c \<Longrightarrow> back_to_slash (butlast (written acc)) = written (butlast acc)"
proof (cases acc rule: rev_cases)
  case (snoc as c)
  moreover assume "\<forall>c \<in> set acc. proper c"
  ultimately have c: "proper c" by simp
  have b: "butlast (written (as @ [c])) = written as @ c"
    by (simp add: written_snoc butlast_append)
  have "dropWhile (\<lambda>c. c \<noteq> 47) (rev (written as @ c)) = rev (written as)"
  proof -
    have "dropWhile (\<lambda>c. c \<noteq> 47) (rev c @ rev (written as)) = dropWhile (\<lambda>c. c \<noteq> 47) (rev (written as))"
      using c by (intro dropWhile_append2) (auto simp: proper_def)
    also have "\<dots> = rev (written as)"
      by (simp add: written_def slashes)
    finally show ?thesis by simp
  qed
  then show ?thesis by (simp add: snoc b back_to_slash_def)
qed simp

text \<open>The first name of a path that starts with no slash, and what is behind it.\<close>

lemma skip_id: "s = [] \<or> hd s \<noteq> 47 \<Longrightarrow> skip_slashes s = s"
  by (cases s) (auto simp: skip_slashes_def)

lemma skip_hd: "skip_slashes s = [] \<or> hd (skip_slashes s) \<noteq> 47"
  using hd_dropWhile [of "\<lambda>c. c = 47" s] by (auto simp: skip_slashes_def)

lemma skip_twice [simp]: "skip_slashes (skip_slashes s) = skip_slashes s"
  using skip_id [OF skip_hd] .

lemma names_skip [simp]: "names (skip_slashes s) = names s"
  by (simp add: names.simps [of "skip_slashes s"] names.simps [of s])

lemma names_Nil [simp]: "names [] = []"
  by (simp add: names.simps skip_slashes_def)

lemma names_slash [simp]: "names (47 # s) = names s"
  by (simp add: names.simps [of "47 # s"] names.simps [of s] skip_slashes_def)

lemma names_first:
  assumes "s \<noteq> []" and "hd s \<noteq> 47"
  shows "names s = takeWhile (\<lambda>c. c \<noteq> 47) s # names (dropWhile (\<lambda>c. c \<noteq> 47) s)" "proper (takeWhile (\<lambda>c. c \<noteq> 47) s)"
proof -
  show "names s = takeWhile (\<lambda>c. c \<noteq> 47) s # names (dropWhile (\<lambda>c. c \<noteq> 47) s)"
    using assms by (subst names.simps) (simp add: skip_id)
  show "proper (takeWhile (\<lambda>c. c \<noteq> 47) s)"
    using assms by (cases s) (auto simp: proper_def dest: set_takeWhileD)
qed

lemma piece_names:
  assumes "s \<noteq> []" and "hd s \<noteq> 47"
  shows "case piece s of
      Here r \<Rightarrow> names s = [46] # names r \<and> (r = [] \<or> hd r \<noteq> 47)
    | Up r \<Rightarrow> names s = [46, 46] # names r \<and> (r = [] \<or> hd r \<noteq> 47)
    | Last_here \<Rightarrow> names s = [[46]]
    | Plain \<Rightarrow> takeWhile (\<lambda>c. c \<noteq> 47) s \<notin> {[46], [46, 46]}"
proof -
  obtain c t where s: "s = c # t" "c \<noteq> 47" using assms by (cases s) auto
  note f = names_first [OF assms]
  show ?thesis
  proof (cases "c = 46")
    case False
    then show ?thesis using s by (simp add: piece_def)
  next
    case True
    note c = this
    show ?thesis
    proof (cases t)
      case Nil
      then show ?thesis using s c f by (simp add: piece_def)
    next
      case (Cons d u)
      note t = this
      show ?thesis
      proof (cases "d = 46")
        case False
        then show ?thesis
          using s c t f skip_hd [of u] by (cases "d = 47") (auto simp: piece_def)
      next
        case True
        then show ?thesis
          using s c t f skip_hd [of "tl u"] by (cases u) (auto simp: piece_def numeral_3_eq_3)
      qed
    qed
  qed
qed

lemma norm_resolves:
  assumes "src = [] \<or> hd src \<noteq> 47" and "\<forall>c \<in> set acc. proper c" and "resolve acc (names src) = Some cs"
  shows "norm_loop src (written acc) = Ok (Some (render cs))"
  using assms
proof (induction "length src" arbitrary: src acc rule: less_induct)
  case less
  show ?case
  proof (cases "src = []")
    case True
    with less.prems(3) show ?thesis
      by (subst norm_loop.simps) (simp add: piece_def finish_written)
  next
    case False
    then have hd: "hd src \<noteq> 47" using less.prems(1) by simp
    note p = piece_names [OF False hd] and f = names_first [OF False hd]
    show ?thesis
    proof (cases "piece src")
      case (Here r)
      with p less.prems(3) have "resolve acc (names r) = Some cs" by simp
      with p Here less.hyps [of r acc] less.prems(2) piece_length(1) [OF Here] show ?thesis
        by (subst norm_loop.simps) simp
    next
      case (Up r)
      with p less.prems(3) have r: "acc \<noteq> []" "resolve (butlast acc) (names r) = Some cs"
        by (auto split: if_splits)
      have "\<forall>c \<in> set (butlast acc). proper c" using less.prems(2) by (auto dest: in_set_butlastD)
      with p Up less.hyps [of r "butlast acc"] r piece_length(2) [OF Up] show ?thesis
        by (subst norm_loop.simps) (simp add: back_written [OF r(1) less.prems(2)], simp add: written_def)
    next
      case Last_here
      with p less.prems(3) show ?thesis
        by (subst norm_loop.simps) (simp add: finish_written)
    next
      case Plain
      let ?nm = "takeWhile (\<lambda>c. c \<noteq> 47) src" and ?rest = "dropWhile (\<lambda>c. c \<noteq> 47) src"
      have r: "resolve (acc @ [?nm]) (names ?rest) = Some cs"
        using p Plain less.prems(3) f(1) by simp
      show ?thesis
      proof (cases "?rest = []")
        case True
        have "cs = acc @ [?nm]" using r unfolding True by simp
        then show ?thesis
          using Plain True finish_name [OF f(2), of acc] by (subst norm_loop.simps) simp
      next
        case False
        have "length (skip_slashes ?rest) < length src"
          by (rule rest_length [OF False _ hd_rest [OF False]]) simp
        then have "norm_loop (skip_slashes ?rest) (written (acc @ [?nm])) = Ok (Some (render cs))"
          using less.hyps [of "skip_slashes ?rest" "acc @ [?nm]"] skip_hd less.prems(2) f(2) r by simp
        then show ?thesis
          using Plain False by (subst norm_loop.simps) (auto simp: written_snoc Let_def)
      qed
    qed
  qed
qed

lemma norm_absolute:
  assumes "resolve [] (names p) = Some cs"
  shows "norm_loop (47 # p) [] = Ok (Some (render cs))"
proof -
  have "piece (47 # p) = Plain" by (simp add: piece_def)
  then have "norm_loop (47 # p) [] = norm_loop (skip_slashes p) (written [])"
    by (subst norm_loop.simps) (simp add: written_def, simp add: skip_slashes_def)
  also have "\<dots> = Ok (Some (render cs))"
    using norm_resolves [OF skip_hd, of "[]" p cs] assms by simp
  finally show ?thesis .
qed

text \<open>
  C25. An absolute path, or a name taken in an absolute directory, is normalised to the path of the
  names that remain when dots are dropped and double dots take back a name, as long as no double
  dot leaves the root.
\<close>

theorem normalize_resolves_names:
  assumes "resolve [] (names p) = Some cs"
    and "filename = 47 # p \<or> (filename = [] \<or> hd filename \<noteq> 47) \<and> directory = Some (47 # d) \<and> p = d @ 47 # filename"
  shows "dfs_normalize_path directory filename = Ok (Some (render cs))"
  using norm_absolute [OF assms(1)] assms(2) by (auto simp: dfs_normalize_path_def)

theorem normalize_resolves_names_witness:
  "dfs_normalize_path (Some (bytes ''/sd'')) (bytes ''./pic//../log/a.txt'') = Ok (Some (bytes ''/sd/log/a.txt''))"
proof -
  have "resolve [] (names (bytes ''sd/./pic//../log/a.txt'')) = Some [bytes ''sd'', bytes ''log'', bytes ''a.txt'']"
    by code_simp
  from normalize_resolves_names [OF this, of "bytes ''./pic//../log/a.txt''" "Some (bytes ''/sd'')" "bytes ''sd''"]
  show ?thesis by (simp add: render_def)
qed

text \<open>Above the root the leading slash is lost, and the root's parent itself reads before the buffer.\<close>

lemma parent_of_root:
  "dfs_normalize_path None (bytes ''/../a'') = Ok (Some (bytes ''a''))"
  "dfs_normalize_path None (bytes ''/..'') = Fault"
  by code_simp+

end
