(* ===== verification/Dfs_Fs.thy ===== *)
theory Dfs_Fs
  imports Dfs_Path "HOL-Library.Sublist"
begin

text \<open>
  The tables of the device file system (\<open>RTT/components/dfs/src/dfs.c\<close>, \<open>dfs_fs.c\<close>): registered file
  system types, mounted file systems, and the search for the file system of a path. A type is a
  record of operations, each possibly missing; they work on the state \<open>'d\<close> of the drivers and on
  private data \<open>'a\<close> of a mounted file system and of an open file. The lock of the file system is taken
  around each of these routines, so that they are single steps here.
\<close>

section \<open>Types\<close>

definition ENOENT :: int where "ENOENT = 2"
definition EIO :: int where "EIO = 5"
definition EBADF :: int where "EBADF = 9"
definition ENOMEM :: int where "ENOMEM = 12"
definition EBUSY :: int where "EBUSY = 16"
definition EXDEV :: int where "EXDEV = 18"
definition ENODEV :: int where "ENODEV = 19"
definition ENOTDIR :: int where "ENOTDIR = 20"
definition EINVAL :: int where "EINVAL = 22"
definition ENOSPC :: int where "ENOSPC = 28"
definition ENOSYS :: int where "ENOSYS = 38"

lemmas dfs_status = ENOENT_def EIO_def EBADF_def ENOMEM_def EBUSY_def EXDEV_def ENODEV_def ENOTDIR_def EINVAL_def
  ENOSPC_def ENOSYS_def

definition O_CREAT :: u32 where "O_CREAT = 0x100"
definition O_DIRECTORY :: u32 where "O_DIRECTORY = 0x200000"
definition F_OPEN :: u32 where "F_OPEN = 0x1000000"
definition F_DIRECTORY :: u32 where "F_DIRECTORY = 0x2000000"
definition F_EOF :: u32 where "F_EOF = 0x4000000"

definition FT_REGULAR :: nat where "FT_REGULAR = 0"
definition FT_DIRECTORY :: nat where "FT_DIRECTORY = 2"

definition DFS_FILESYSTEM_TYPES_MAX :: nat where "DFS_FILESYSTEM_TYPES_MAX = 4"
definition DFS_FILESYSTEMS_MAX :: nat where "DFS_FILESYSTEMS_MAX = 2"
definition DFS_FD_MAX :: nat where "DFS_FD_MAX = 4"

record file_stat =
  st_mode :: u16
  st_size :: u32
  st_mtime :: u32
  st_blksize :: u32

record statfs_data =
  f_bsize :: u32
  f_blocks :: u32
  f_bfree :: u32

text \<open>Every entry has the size of the structure, 260 bytes.\<close>

record dirent =
  d_type :: u8
  d_namlen :: u8
  d_reclen :: u16
  d_name :: "u8 list"

text \<open>A file descriptor; \<open>fd_fs\<close> is the place in the table of mounted file systems.\<close>

record 'a dfs_fd =
  fd_path :: "u8 list option"
  fd_type :: nat
  ref_count :: int
  fd_fs :: "nat option"
  fd_flags :: u32
  fd_size :: u32
  fd_pos :: u32
  fd_data :: "'a option"

record 'a dfs_filesystem =
  dev_id :: "string option"
  fs_path :: "u8 list option"
  fs_data :: "'a option"

record ('a, 'd) dfs_filesystem_operation =
  op_name :: "u8 list"
  op_mount :: "('a dfs_filesystem \<Rightarrow> u32 \<Rightarrow> 'a option \<Rightarrow> 'd \<Rightarrow> (int \<times> 'a dfs_filesystem \<times> 'd) res) option"
  op_unmount :: "('a dfs_filesystem \<Rightarrow> 'd \<Rightarrow> (int \<times> 'a dfs_filesystem \<times> 'd) res) option"
  op_mkfs :: "(string \<Rightarrow> 'd \<Rightarrow> (int \<times> 'd) res) option"
  op_statfs :: "('a dfs_filesystem \<Rightarrow> 'd \<Rightarrow> (int \<times> statfs_data \<times> 'd) res) option"
  op_open :: "('a dfs_filesystem \<Rightarrow> 'a dfs_fd \<Rightarrow> 'd \<Rightarrow> (int \<times> 'a dfs_fd \<times> 'd) res) option"
  op_close :: "('a dfs_filesystem \<Rightarrow> 'a dfs_fd \<Rightarrow> 'd \<Rightarrow> (int \<times> 'a dfs_fd \<times> 'd) res) option"
  op_ioctl :: "('a dfs_filesystem \<Rightarrow> int \<Rightarrow> u32 \<Rightarrow> 'a dfs_fd \<Rightarrow> 'd \<Rightarrow> (int \<times> 'a dfs_fd \<times> 'd) res) option"
  op_read :: "('a dfs_filesystem \<Rightarrow> u32 \<Rightarrow> 'a dfs_fd \<Rightarrow> 'd \<Rightarrow> ((int \<times> u8 list) \<times> 'a dfs_fd \<times> 'd) res) option"
  op_write :: "('a dfs_filesystem \<Rightarrow> u8 list \<Rightarrow> 'a dfs_fd \<Rightarrow> 'd \<Rightarrow> (int \<times> 'a dfs_fd \<times> 'd) res) option"
  op_flush :: "('a dfs_filesystem \<Rightarrow> 'a dfs_fd \<Rightarrow> 'd \<Rightarrow> (int \<times> 'a dfs_fd \<times> 'd) res) option"
  op_lseek :: "('a dfs_filesystem \<Rightarrow> u32 \<Rightarrow> 'a dfs_fd \<Rightarrow> 'd \<Rightarrow> (int \<times> 'a dfs_fd \<times> 'd) res) option"
  op_getdents :: "('a dfs_filesystem \<Rightarrow> u32 \<Rightarrow> 'a dfs_fd \<Rightarrow> 'd \<Rightarrow> ((int \<times> dirent list) \<times> 'a dfs_fd \<times> 'd) res) option"
  op_unlink :: "('a dfs_filesystem \<Rightarrow> u8 list \<Rightarrow> 'd \<Rightarrow> (int \<times> 'd) res) option"
  op_stat :: "('a dfs_filesystem \<Rightarrow> u8 list \<Rightarrow> 'd \<Rightarrow> (int \<times> file_stat \<times> 'd) res) option"
  op_rename :: "('a dfs_filesystem \<Rightarrow> u8 list option \<Rightarrow> u8 list option \<Rightarrow> 'd \<Rightarrow> (int \<times> 'd) res) option"

text \<open>
  A mounted file system with its operations. \<open>devices\<close> are the names that \<open>rt_device_find\<close> knows,
  \<open>dev_calls\<close> the calls made to them.
\<close>

record ('a, 'd) dfs =
  filesystem_operation_table :: "('a, 'd) dfs_filesystem_operation option list"
  filesystem_table :: "(('a, 'd) dfs_filesystem_operation option \<times> 'a dfs_filesystem) list"
  fd_table :: "'a dfs_fd list"
  rt_errno :: int
  drivers :: 'd
  devices :: "string list"
  dev_calls :: "call list"

definition no_fd :: "'a dfs_fd" where
  "no_fd = \<lparr>fd_path = None, fd_type = 0, ref_count = 0, fd_fs = None, fd_flags = 0, fd_size = 0, fd_pos = 0, fd_data = None\<rparr>"

definition no_fs :: "('a, 'd) dfs_filesystem_operation option \<times> 'a dfs_filesystem" where
  "no_fs = (None, \<lparr>dev_id = None, fs_path = None, fs_data = None\<rparr>)"

definition dfs_init :: "('a, 'd) dfs \<Rightarrow> ('a, 'd) dfs" where
  "dfs_init s = s\<lparr>filesystem_operation_table := replicate DFS_FILESYSTEM_TYPES_MAX None,
     filesystem_table := replicate DFS_FILESYSTEMS_MAX no_fs, fd_table := replicate DFS_FD_MAX no_fd\<rparr>"

section \<open>Registration\<close>

fun first_empty :: "'b option list \<Rightarrow> nat" where
  "first_empty [] = 0"
| "first_empty (x # xs) = (if Option.is_none x then 0 else Suc (first_empty xs))"

definition dfs_register :: "('a, 'd) dfs_filesystem_operation \<Rightarrow> ('a, 'd) dfs \<Rightarrow> int \<times> ('a, 'd) dfs" where
  "dfs_register ops s = (let t = filesystem_operation_table s; i = first_empty t in
     if \<exists>o' \<in> set t. case o' of Some o' \<Rightarrow> op_name o' = op_name ops | None \<Rightarrow> False then (- 1, s)
     else if i = length t then (- 1, s)
     else (0, s\<lparr>filesystem_operation_table := t[i := Some ops]\<rparr>))"

section \<open>The file system of a path\<close>

text \<open>Whether a mounted path is above a path: equal over its length, and a slash behind it.\<close>

definition above :: "u8 list \<Rightarrow> u8 list \<Rightarrow> bool" where
  "above mp p \<longleftrightarrow> take (length mp) p = mp \<and> \<not> (1 < length mp \<and> length mp < length p \<and> p ! length mp \<noteq> 47)"

fun lookup_loop :: "u8 list \<Rightarrow> nat \<Rightarrow> (('a, 'd) dfs_filesystem_operation option \<times> 'a dfs_filesystem) list \<Rightarrow> nat option \<Rightarrow> nat \<Rightarrow> nat option" where
  "lookup_loop p i [] fs prefixlen = fs"
| "lookup_loop p i ((ops, f) # t) fs prefixlen =
    (case fs_path f of
       None \<Rightarrow> lookup_loop p (i + 1) t fs prefixlen
     | Some mp \<Rightarrow>
         if length mp < prefixlen then lookup_loop p (i + 1) t fs prefixlen
         else if \<not> Option.is_none ops \<and> above mp p then lookup_loop p (i + 1) t (Some i) (length mp)
         else lookup_loop p (i + 1) t fs prefixlen)"

definition dfs_filesystem_lookup :: "u8 list \<Rightarrow> ('a, 'd) dfs \<Rightarrow> nat option" where
  "dfs_filesystem_lookup p s = lookup_loop p 0 (filesystem_table s) None 0"

definition dfs_mkfs :: "u8 list \<Rightarrow> string \<Rightarrow> ('a, 'd) dfs \<Rightarrow> (int \<times> ('a, 'd) dfs) res" where
  "dfs_mkfs nm device s =
    (case find (\<lambda>o'. case o' of Some ops \<Rightarrow> op_name ops = nm | None \<Rightarrow> False) (filesystem_operation_table s) of
       Some (Some ops) \<Rightarrow> (case op_mkfs ops of
           Some f \<Rightarrow> rbind (f device (drivers s)) (\<lambda>(r, d). Ok (r, s\<lparr>drivers := d\<rparr>))
         | None \<Rightarrow> Ok (- 1, s))
     | _ \<Rightarrow> Ok (- 1, s))"

definition dfs_statfs :: "u8 list \<Rightarrow> ('a, 'd) dfs \<Rightarrow> (int \<times> statfs_data option \<times> ('a, 'd) dfs) res" where
  "dfs_statfs p s =
    (case dfs_filesystem_lookup p s of
       None \<Rightarrow> Ok (- 1, None, s)
     | Some i \<Rightarrow> (case filesystem_table s ! i of
         (None, f) \<Rightarrow> Fault
       | (Some ops, f) \<Rightarrow> (case op_statfs ops of
           Some g \<Rightarrow> rbind (g f (drivers s)) (\<lambda>(r, b, d). Ok (r, Some b, s\<lparr>drivers := d\<rparr>))
         | None \<Rightarrow> Ok (- 1, None, s))))"

section \<open>The lookup finds the deepest mount point\<close>

definition mounted :: "('a, 'd) dfs_filesystem_operation option \<times> 'a dfs_filesystem \<Rightarrow> u8 list \<Rightarrow> bool" where
  "mounted e mp \<longleftrightarrow> fst e \<noteq> None \<and> fs_path (snd e) = Some mp"

text \<open>What the loop knows after the entries \<open>t\<close>.\<close>

definition best :: "(('a, 'd) dfs_filesystem_operation option \<times> 'a dfs_filesystem) list \<Rightarrow> u8 list \<Rightarrow> nat option \<Rightarrow> nat \<Rightarrow> bool" where
  "best t p fs n \<longleftrightarrow> (\<forall>e \<in> set t. \<forall>mq. mounted e mq \<longrightarrow> above mq p \<longrightarrow> fs \<noteq> None \<and> length mq \<le> n) \<and>
     (case fs of None \<Rightarrow> n = 0 | Some k \<Rightarrow> k < length t \<and> (\<exists>mp. mounted (t ! k) mp \<and> above mp p \<and> n = length mp))"

lemma best_skip:
  assumes "best t p fs n" and "\<And>mp. mounted e mp \<Longrightarrow> above mp p \<Longrightarrow> length mp < n"
  shows "best (t @ [e]) p fs n"
  using assms unfolding best_def
  by (cases fs) (auto simp: nth_append less_imp_le)

lemma best_take:
  assumes "best t p fs n" and "mounted e mp" and "above mp p" and "n \<le> length mp"
  shows "best (t @ [e]) p (Some (length t)) (length mp)"
  using assms unfolding best_def by (fastforce simp: mounted_def)

lemma best_loop: "best t0 p fs n \<Longrightarrow> \<exists>n'. best (t0 @ t) p (lookup_loop p (length t0) t fs n) n'"
proof (induction t arbitrary: t0 fs n)
  case Nil
  then show ?case by auto
next
  case (Cons e t)
  obtain ops f where e: "e = (ops, f)" by (cases e)
  show ?case
  proof (cases "\<exists>mp. mounted e mp \<and> above mp p \<and> n \<le> length mp")
    case True
    then obtain mp where mp: "mounted e mp" "above mp p" "n \<le> length mp" by blast
    then have "lookup_loop p (length t0) (e # t) fs n = lookup_loop p (length (t0 @ [e])) t (Some (length t0)) (length mp)"
      by (auto simp: e mounted_def Option.is_none_def)
    then show ?thesis
      using Cons.IH [OF best_take [OF Cons.prems mp]] by simp
  next
    case False
    then have "lookup_loop p (length t0) (e # t) fs n = lookup_loop p (length (t0 @ [e])) t fs n"
      by (auto simp: e mounted_def Option.is_none_def split: option.splits)
    moreover have "best (t0 @ [e]) p fs n"
      using False by (intro best_skip [OF Cons.prems]) (meson linorder_not_less)
    ultimately show ?thesis
      using Cons.IH by fastforce
  qed
qed

lemma lookup_best: "\<exists>n. best (filesystem_table s) p (dfs_filesystem_lookup p s) n"
  using best_loop [of "[]" p None 0 "filesystem_table s"] by (simp add: dfs_filesystem_lookup_def best_def)

text \<open>
  The reference speaks of names, not of characters: a file system mounted at the names \<open>ms\<close> holds the
  path of the names \<open>cs\<close> when \<open>ms\<close> is a prefix of \<open>cs\<close>; the one with the most names is the one meant.
\<close>

definition holds :: "('a, 'd) dfs_filesystem_operation option \<times> 'a dfs_filesystem \<Rightarrow> u8 list list \<Rightarrow> u8 list list \<Rightarrow> bool" where
  "holds e cs ms \<longleftrightarrow> fst e \<noteq> None \<and> fs_path (snd e) = Some (render ms) \<and> list_all proper ms \<and> prefix ms cs"

definition deepest :: "(('a, 'd) dfs_filesystem_operation option \<times> 'a dfs_filesystem) list \<Rightarrow> u8 list list \<Rightarrow> nat \<Rightarrow> bool" where
  "deepest t cs i \<longleftrightarrow> i < length t \<and> (\<exists>ms. holds (t ! i) cs ms \<and> (\<forall>e \<in> set t. \<forall>mq. holds e cs mq \<longrightarrow> length mq \<le> length ms))"

definition slashed :: "u8 list list \<Rightarrow> u8 list" where
  "slashed cs = concat (map (\<lambda>c. 47 # c) cs)"

lemma slashed_simps [simp]: "slashed [] = []" "slashed (c # cs) = 47 # c @ slashed cs" "slashed (cs @ ds) = slashed cs @ slashed ds"
  by (simp_all add: slashed_def)

lemma render_slashed: "render cs = (if cs = [] then [47] else slashed cs)"
  by (simp add: render_def slashed_def)

lemma slashed_length: "list_all proper cs \<Longrightarrow> 2 * length cs \<le> length (slashed cs)"
proof (induction cs)
  case (Cons c cs)
  then show ?case by (cases c) (auto simp: proper_def)
qed simp

lemma slashed_hd: "slashed cs = [] \<or> hd (slashed cs) = 47"
  by (cases cs) simp_all

lemma name_split:
  assumes "c @ u = d @ v" and "47 \<notin> set c" and "47 \<notin> set d" and "u = [] \<or> hd u = 47" and "v = [] \<or> hd v = 47"
  shows "c = d \<and> u = v"
  using assms
proof (induction c arbitrary: d)
  case Nil
  then show ?case by (cases d) auto
next
  case (Cons x c)
  then show ?case by (cases d) auto
qed

lemma slashed_prefix:
  "list_all proper ms \<Longrightarrow> list_all proper cs \<Longrightarrow> slashed cs = slashed ms @ w \<Longrightarrow> w = [] \<or> hd w = 47 \<Longrightarrow> prefix ms cs"
proof (induction ms arbitrary: cs)
  case (Cons c ms)
  then obtain d cs' where cs: "cs = d # cs'" by (cases cs) auto
  have "d @ slashed cs' = c @ (slashed ms @ w)" using Cons.prems(3) by (simp add: cs)
  moreover have "slashed ms @ w = [] \<or> hd (slashed ms @ w) = 47"
    using slashed_hd [of ms] Cons.prems(4) by (cases "slashed ms") auto
  ultimately have "d = c \<and> slashed cs' = slashed ms @ w"
    using name_split [of d "slashed cs'" c "slashed ms @ w"] slashed_hd [of cs'] Cons.prems(1,2) by (auto simp: cs proper_def)
  then show ?case using Cons.IH [of cs'] Cons.prems by (simp add: cs)
qed simp

text \<open>The test of the code, on characters, is the one on names.\<close>

lemma above_prefix:
  assumes "list_all proper ms" and "list_all proper cs"
  shows "above (render ms) (render cs) \<longleftrightarrow> prefix ms cs"
proof (cases "ms = []")
  case True
  then show ?thesis using slashed_hd [of cs] by (cases cs) (auto simp: above_def render_slashed)
next
  case ms: False
  then have two: "1 < length (slashed ms)" using slashed_length [OF assms(1)] by (cases ms) auto
  show ?thesis
  proof
    assume a: "above (render ms) (render cs)"
    moreover have "[47] \<noteq> slashed ms" using two by (cases "slashed ms") auto
    ultimately have "cs \<noteq> []" using ms two by (auto simp: above_def render_slashed)
    then have t: "take (length (slashed ms)) (slashed cs) = slashed ms"
      and n: "length (slashed ms) < length (slashed cs) \<Longrightarrow> slashed cs ! length (slashed ms) = 47"
      using a ms two by (auto simp: above_def render_slashed)
    define w where "w = drop (length (slashed ms)) (slashed cs)"
    have "slashed cs = slashed ms @ w" using t append_take_drop_id [of "length (slashed ms)" "slashed cs"] by (simp add: w_def)
    moreover have "w = [] \<or> hd w = 47" using n hd_drop_conv_nth [of "length (slashed ms)" "slashed cs"]
      by (cases "length (slashed ms) < length (slashed cs)") (auto simp: w_def)
    ultimately show "prefix ms cs" using slashed_prefix assms by blast
  next
    assume "prefix ms cs"
    then obtain zs where cs: "cs = ms @ zs" by (auto simp: prefix_def)
    with ms show "above (render ms) (render cs)"
      using slashed_hd [of zs] by (cases zs) (auto simp: above_def render_slashed)
  qed
qed

lemma render_longer:
  assumes "prefix ms cs" and "prefix mq cs" and "list_all proper mq" and "length (render mq) \<le> length (render ms)"
  shows "length mq \<le> length ms"
proof (rule ccontr)
  assume l: "\<not> length mq \<le> length ms"
  then obtain c zs where mq: "mq = ms @ c # zs"
    using prefix_same_cases [OF assms(1,2)] by (auto simp: prefix_def neq_Nil_conv)
  have "c \<noteq> []" using assms(3) by (simp add: mq proper_def)
  then have "length (render ms) < length (render mq)" by (cases ms) (auto simp: mq render_slashed)
  with assms(4) show False by simp
qed

text \<open>
  C26. Where every file system is mounted at a normalised path, the one found for a normalised path is mounted
  at names that begin the path's own, and no other begins it with more; there is none only when no
  mounted one begins it. A mount point whose last name only begins a longer name of the path does not count.
\<close>

theorem lookup_finds_deepest:
  assumes "\<forall>e \<in> set (filesystem_table s). \<forall>mp. mounted e mp \<longrightarrow> (\<exists>ms. list_all proper ms \<and> mp = render ms)"
    and "list_all proper cs"
  shows "case dfs_filesystem_lookup (render cs) s of
     None \<Rightarrow> \<not> (\<exists>e \<in> set (filesystem_table s). \<exists>ms. holds e cs ms)
   | Some i \<Rightarrow> deepest (filesystem_table s) cs i"
proof -
  obtain n where n: "best (filesystem_table s) (render cs) (dfs_filesystem_lookup (render cs) s) n" using lookup_best by blast
  have up: "mounted e (render ms) \<and> above (render ms) (render cs)" if "holds e cs ms" for e :: "('a, 'b) dfs_filesystem_operation option \<times> 'a dfs_filesystem" and ms
    using that above_prefix [OF _ assms(2), of ms] by (simp add: holds_def mounted_def)
  show ?thesis
  proof (cases "dfs_filesystem_lookup (render cs) s")
    case None
    then show ?thesis using n up by (fastforce simp: best_def)
  next
    case (Some i)
    then obtain mp where mp: "i < length (filesystem_table s)" "mounted (filesystem_table s ! i) mp" "above mp (render cs)" "n = length mp"
      using n by (auto simp: best_def)
    obtain ms where ms: "list_all proper ms" "mp = render ms" using assms(1) mp(1,2) nth_mem by blast
    then have pre: "prefix ms cs" using above_prefix [OF ms(1) assms(2)] mp(3) by simp
    have "length mq \<le> length ms" if "e \<in> set (filesystem_table s)" "holds e cs mq" for e mq
    proof (rule render_longer [OF pre])
      show "prefix mq cs" "list_all proper mq" using that(2) by (simp_all add: holds_def)
      show "length (render mq) \<le> length (render ms)" using n up [OF that(2)] that(1) mp(4) ms(2) unfolding best_def by blast
    qed
    then show ?thesis using Some mp(1,2) ms pre by (auto simp: deepest_def holds_def mounted_def)
  qed
qed

text \<open>A table with the root and \<open>/sd\<close>: a file below \<open>/sd\<close>, and one whose name only begins so.\<close>

definition two_mounts :: "(unit, unit) dfs" where
  "two_mounts = \<lparr>filesystem_operation_table = [],
     filesystem_table = map (\<lambda>p. (Some \<lparr>op_name = [], op_mount = None, op_unmount = None, op_mkfs = None, op_statfs = None,
       op_open = None, op_close = None, op_ioctl = None, op_read = None, op_write = None, op_flush = None, op_lseek = None,
       op_getdents = None, op_unlink = None, op_stat = None, op_rename = None\<rparr>,
       \<lparr>dev_id = None, fs_path = Some p, fs_data = None\<rparr>)) [bytes ''/'', bytes ''/sd''],
     fd_table = [], rt_errno = 0, drivers = (), devices = [], dev_calls = []\<rparr>"

lemma two_mounts_at:
  "\<forall>e \<in> set (filesystem_table two_mounts). \<forall>mp. mounted e mp \<longrightarrow> (\<exists>ms. list_all proper ms \<and> mp = render ms)"
proof -
  have "bytes ''/'' = render []" "bytes ''/sd'' = render [bytes ''sd'']" "list_all proper [bytes ''sd'']"
    by (simp_all add: render_def proper_def)
  then have "\<exists>ms. list_all proper ms \<and> mp = render ms" if "mp = bytes ''/'' \<or> mp = bytes ''/sd''" for mp
    using that by (elim disjE) (rule exI [of _ "[]"], simp, rule exI [of _ "[bytes ''sd'']"], simp)
  moreover have "mp = bytes ''/'' \<or> mp = bytes ''/sd''" if "e \<in> set (filesystem_table two_mounts)" "mounted e mp" for e mp
    using that by (auto simp: two_mounts_def mounted_def)
  ultimately show ?thesis by blast
qed

theorem lookup_finds_deepest_witness:
  "deepest (filesystem_table two_mounts) [bytes ''sd'', bytes ''a.txt''] 1 \<and> deepest (filesystem_table two_mounts) [bytes ''sdcard''] 0"
proof -
  have p: "list_all proper [bytes ''sd'', bytes ''a.txt'']" "list_all proper [bytes ''sdcard'']" by (simp_all add: proper_def)
  have l: "dfs_filesystem_lookup (render [bytes ''sd'', bytes ''a.txt'']) two_mounts = Some 1"
    "dfs_filesystem_lookup (render [bytes ''sdcard'']) two_mounts = Some 0" by code_simp+
  show ?thesis
    using lookup_finds_deepest [OF two_mounts_at p(1), unfolded l option.case] lookup_finds_deepest [OF two_mounts_at p(2), unfolded l option.case] by blast
qed

end
