(* ===== verification/Dfs_File.thy ===== *)
theory Dfs_File
  imports Dfs_Fs
begin

text \<open>
  File descriptors and files of the device file system (\<open>RTT/components/dfs/src/dfs.c\<close>,
  \<open>dfs_file.c\<close>) and mounting (\<open>dfs_fs.c\<close>).
\<close>

unbundle bit_operations_syntax

section \<open>The table of descriptors\<close>

fun first_free :: "'a dfs_fd list \<Rightarrow> nat" where
  "first_free [] = 0"
| "first_free (d # ds) = (if ref_count d \<le> 0 then 0 else Suc (first_free ds))"

definition set_fd :: "nat \<Rightarrow> 'a dfs_fd \<Rightarrow> ('a, 'd) dfs \<Rightarrow> ('a, 'd) dfs" where
  "set_fd i d s = s\<lparr>fd_table := (fd_table s)[i := d]\<rparr>"

definition fd_new :: "('a, 'd) dfs \<Rightarrow> int \<times> ('a, 'd) dfs" where
  "fd_new s = (let i = first_free (fd_table s) in
     if i = length (fd_table s) then (- 1, s)
     else (int i, set_fd i ((fd_table s ! i)\<lparr>ref_count := 1\<rparr>) s))"

text \<open>\<open>fd_get\<close> takes every number within the table, whether it is open or not.\<close>

definition fd_get :: "int \<Rightarrow> ('a, 'd) dfs \<Rightarrow> nat option \<times> ('a, 'd) dfs" where
  "fd_get fd s = (if fd < 0 \<or> int DFS_FD_MAX \<le> fd then (None, s)
     else (let i = nat fd; d = fd_table s ! i in (Some i, set_fd i (d\<lparr>ref_count := ref_count d + 1\<rparr>) s)))"

definition fd_put :: "nat \<Rightarrow> ('a, 'd) dfs \<Rightarrow> ('a, 'd) dfs" where
  "fd_put i s = (let d = fd_table s ! i; n = ref_count d - 1 in
     set_fd i (if n = 0 then no_fd else d\<lparr>ref_count := n\<rparr>) s)"

definition fd_is_open :: "u8 list \<Rightarrow> ('a, 'd) dfs \<Rightarrow> int res" where
  "fd_is_open pathname s = rbind (dfs_normalize_path None pathname) (\<lambda>p. case p of
     None \<Rightarrow> Ok (- 1)
   | Some full \<Rightarrow> (case dfs_filesystem_lookup full s of
       None \<Rightarrow> Ok (- 1)
     | Some i \<Rightarrow> (case fs_path (snd (filesystem_table s ! i)) of
         None \<Rightarrow> Fault
       | Some mp \<Rightarrow> (let mountpath = (if mp = [47] then full else drop (length mp) full) in
           Ok (if \<exists>d \<in> set (fd_table s). fd_fs d = Some i \<and> fd_path d = Some mountpath then 0 else - 1)))))"

section \<open>Files\<close>

text \<open>The file system behind a descriptor: \<open>fd->fs->ops\<close> goes through null pointers.\<close>

definition fd_ops :: "'a dfs_fd \<Rightarrow> ('a, 'd) dfs \<Rightarrow> (('a, 'd) dfs_filesystem_operation \<times> 'a dfs_filesystem) res" where
  "fd_ops d s = (case fd_fs d of None \<Rightarrow> Fault
     | Some i \<Rightarrow> (case filesystem_table s ! i of (None, f) \<Rightarrow> Fault | (Some ops, f) \<Rightarrow> Ok (ops, f)))"

definition sub_path :: "u8 list \<Rightarrow> nat \<Rightarrow> ('a, 'd) dfs \<Rightarrow> u8 list option res" where
  "sub_path full i s = (case fs_path (snd (filesystem_table s ! i)) of
     None \<Rightarrow> Fault | Some mp \<Rightarrow> dfs_subdir mp full)"

definition or_root :: "u8 list option \<Rightarrow> u8 list" where
  "or_root p = (case p of None \<Rightarrow> [47] | Some q \<Rightarrow> q)"

definition opened :: "u32 \<Rightarrow> 'a dfs_fd \<Rightarrow> 'a dfs_fd" where
  "opened flags d = (let d = d\<lparr>fd_flags := fd_flags d OR F_OPEN\<rparr> in
     if flags AND O_DIRECTORY \<noteq> 0 then d\<lparr>fd_type := FT_DIRECTORY, fd_flags := fd_flags d OR F_DIRECTORY\<rparr> else d)"

definition dfs_file_open :: "'a dfs_fd \<Rightarrow> u8 list \<Rightarrow> u32 \<Rightarrow> ('a, 'd) dfs \<Rightarrow> (int \<times> 'a dfs_fd \<times> ('a, 'd) dfs) res" where
  "dfs_file_open d p flags s = rbind (dfs_normalize_path None p) (\<lambda>full. case full of
     None \<Rightarrow> Ok (- 1, d, s)
   | Some full \<Rightarrow> (case dfs_filesystem_lookup full s of
       None \<Rightarrow> Ok (- ENOENT, d, s)
     | Some i \<Rightarrow> rbind (sub_path full i s) (\<lambda>sub.
         let d = d\<lparr>fd_fs := Some i, fd_type := FT_REGULAR, fd_flags := flags, fd_size := 0, fd_pos := 0, fd_path := Some (or_root sub)\<rparr> in
         rbind (fd_ops d s) (\<lambda>(ops, f). case op_open ops of
           None \<Rightarrow> Ok (- ENOSYS, no_fd, s)
         | Some op \<Rightarrow> rbind (op f d (drivers s)) (\<lambda>(r, d, dr).
             Ok (if r < 0 then (r, no_fd, s\<lparr>drivers := dr\<rparr>) else (0, opened flags d, s\<lparr>drivers := dr\<rparr>)))))))"

text \<open>A closed descriptor is cleared, its reference count with it.\<close>

definition dfs_file_close :: "'a dfs_fd \<Rightarrow> ('a, 'd) dfs \<Rightarrow> (int \<times> 'a dfs_fd \<times> ('a, 'd) dfs) res" where
  "dfs_file_close d s = rbind (fd_ops d s) (\<lambda>(ops, f). case op_close ops of
     None \<Rightarrow> Ok (0, no_fd, s)
   | Some op \<Rightarrow> rbind (op f d (drivers s)) (\<lambda>(r, d, dr).
       Ok (r, if r < 0 then d else no_fd, s\<lparr>drivers := dr\<rparr>)))"

definition dfs_file_ioctl :: "'a dfs_fd \<Rightarrow> int \<Rightarrow> u32 \<Rightarrow> ('a, 'd) dfs \<Rightarrow> (int \<times> 'a dfs_fd \<times> ('a, 'd) dfs) res" where
  "dfs_file_ioctl d cmd args s = (if fd_type d \<noteq> FT_REGULAR then Ok (- EINVAL, d, s)
     else rbind (fd_ops d s) (\<lambda>(ops, f). case op_ioctl ops of
       None \<Rightarrow> Ok (- ENOSYS, d, s)
     | Some op \<Rightarrow> rbind (op f cmd args d (drivers s)) (\<lambda>(r, d, dr). Ok (r, d, s\<lparr>drivers := dr\<rparr>))))"

definition dfs_file_read :: "'a dfs_fd \<Rightarrow> u32 \<Rightarrow> ('a, 'd) dfs \<Rightarrow> (int \<times> u8 list \<times> 'a dfs_fd \<times> ('a, 'd) dfs) res" where
  "dfs_file_read d len s = rbind (fd_ops d s) (\<lambda>(ops, f). case op_read ops of
     None \<Rightarrow> Ok (- ENOSYS, [], d, s)
   | Some op \<Rightarrow> rbind (op f len d (drivers s)) (\<lambda>((r, bs), d, dr).
       Ok (r, bs, if r < 0 then d\<lparr>fd_flags := fd_flags d OR F_EOF\<rparr> else d, s\<lparr>drivers := dr\<rparr>)))"

definition dfs_file_getdents :: "'a dfs_fd \<Rightarrow> u32 \<Rightarrow> ('a, 'd) dfs \<Rightarrow> (int \<times> dirent list \<times> 'a dfs_fd \<times> ('a, 'd) dfs) res" where
  "dfs_file_getdents d nbytes s = (if fd_type d \<noteq> FT_DIRECTORY then Ok (- EINVAL, [], d, s)
     else rbind (fd_ops d s) (\<lambda>(ops, f). case op_getdents ops of
       None \<Rightarrow> Ok (- ENOSYS, [], d, s)
     | Some op \<Rightarrow> rbind (op f nbytes d (drivers s)) (\<lambda>((r, es), d, dr). Ok (r, es, d, s\<lparr>drivers := dr\<rparr>))))"

text \<open>A path with the place of its file system; the errors of a missing one differ.\<close>

definition dfs_file_unlink :: "u8 list \<Rightarrow> ('a, 'd) dfs \<Rightarrow> (int \<times> ('a, 'd) dfs) res" where
  "dfs_file_unlink p s = rbind (dfs_normalize_path None p) (\<lambda>full. case full of
     None \<Rightarrow> Ok (- EINVAL, s)
   | Some full \<Rightarrow> (case dfs_filesystem_lookup full s of
       None \<Rightarrow> Ok (- ENOENT, s)
     | Some i \<Rightarrow> rbind (fd_is_open full s) (\<lambda>busy.
         if busy = 0 then Ok (- EBUSY, s)
         else (case filesystem_table s ! i of (None, f) \<Rightarrow> Fault
           | (Some ops, f) \<Rightarrow> (case op_unlink ops of
               None \<Rightarrow> Ok (- ENOSYS, s)
             | Some op \<Rightarrow> rbind (sub_path full i s) (\<lambda>sub.
                 rbind (op f (or_root sub) (drivers s)) (\<lambda>(r, dr). Ok (r, s\<lparr>drivers := dr\<rparr>))))))))"

definition dfs_file_write :: "'a dfs_fd \<Rightarrow> u8 list \<Rightarrow> ('a, 'd) dfs \<Rightarrow> (int \<times> 'a dfs_fd \<times> ('a, 'd) dfs) res" where
  "dfs_file_write d bs s = rbind (fd_ops d s) (\<lambda>(ops, f). case op_write ops of
     None \<Rightarrow> Ok (- ENOSYS, d, s)
   | Some op \<Rightarrow> rbind (op f bs d (drivers s)) (\<lambda>(r, d, dr). Ok (r, d, s\<lparr>drivers := dr\<rparr>)))"

definition dfs_file_flush :: "'a dfs_fd \<Rightarrow> ('a, 'd) dfs \<Rightarrow> (int \<times> 'a dfs_fd \<times> ('a, 'd) dfs) res" where
  "dfs_file_flush d s = rbind (fd_ops d s) (\<lambda>(ops, f). case op_flush ops of
     None \<Rightarrow> Ok (- ENOSYS, d, s)
   | Some op \<Rightarrow> rbind (op f d (drivers s)) (\<lambda>(r, d, dr). Ok (r, d, s\<lparr>drivers := dr\<rparr>)))"

definition dfs_file_lseek :: "'a dfs_fd \<Rightarrow> u32 \<Rightarrow> ('a, 'd) dfs \<Rightarrow> (int \<times> 'a dfs_fd \<times> ('a, 'd) dfs) res" where
  "dfs_file_lseek d off s = rbind (fd_ops d s) (\<lambda>(ops, f). case op_lseek ops of
     None \<Rightarrow> Ok (- ENOSYS, d, s)
   | Some op \<Rightarrow> rbind (op f off d (drivers s)) (\<lambda>(r, d, dr).
       Ok (r, if 0 \<le> r then d\<lparr>fd_pos := word_of_int r\<rparr> else d, s\<lparr>drivers := dr\<rparr>)))"

text \<open>The mode bits: regular file 0100000, directory 0040000, all may read and write (0666), and execute (0111).\<close>

definition root_stat :: file_stat where
  "root_stat = \<lparr>st_mode = 0x41FF, st_size = 0, st_mtime = 0, st_blksize = 512\<rparr>"

definition dfs_file_stat :: "u8 list \<Rightarrow> ('a, 'd) dfs \<Rightarrow> (int \<times> file_stat option \<times> ('a, 'd) dfs) res" where
  "dfs_file_stat p s = rbind (dfs_normalize_path None p) (\<lambda>full. case full of
     None \<Rightarrow> Ok (- 1, None, s)
   | Some full \<Rightarrow> (case dfs_filesystem_lookup full s of
       None \<Rightarrow> Ok (- ENOENT, None, s)
     | Some i \<Rightarrow> rbind (if full = [47] then Ok None else sub_path full i s) (\<lambda>sub. case sub of
         None \<Rightarrow> Ok (0, Some root_stat, s)
       | Some q \<Rightarrow> (case filesystem_table s ! i of (None, f) \<Rightarrow> Fault
           | (Some ops, f) \<Rightarrow> (case op_stat ops of
               None \<Rightarrow> Ok (- ENOSYS, None, s)
             | Some op \<Rightarrow> rbind (op f q (drivers s)) (\<lambda>(r, st, dr). Ok (r, Some st, s\<lparr>drivers := dr\<rparr>)))))))"

text \<open>Two paths without a file system are taken for paths of the same one, a null pointer.\<close>

definition dfs_file_rename :: "u8 list \<Rightarrow> u8 list \<Rightarrow> ('a, 'd) dfs \<Rightarrow> (int \<times> ('a, 'd) dfs) res" where
  "dfs_file_rename old new s = rbind (dfs_normalize_path None old) (\<lambda>oldfull. case oldfull of
     None \<Rightarrow> Ok (- ENOENT, s)
   | Some oldfull \<Rightarrow> rbind (dfs_normalize_path None new) (\<lambda>newfull. case newfull of
       None \<Rightarrow> Ok (- ENOENT, s)
     | Some newfull \<Rightarrow>
         if dfs_filesystem_lookup oldfull s = dfs_filesystem_lookup newfull s then
           (case dfs_filesystem_lookup oldfull s of None \<Rightarrow> Fault
            | Some i \<Rightarrow> (case filesystem_table s ! i of (None, f) \<Rightarrow> Fault
               | (Some ops, f) \<Rightarrow> (case op_rename ops of
                   None \<Rightarrow> Ok (- ENOSYS, s)
                 | Some op \<Rightarrow> rbind (sub_path oldfull i s) (\<lambda>a. rbind (sub_path newfull i s) (\<lambda>b.
                     rbind (op f a b (drivers s)) (\<lambda>(r, dr). Ok (r, s\<lparr>drivers := dr\<rparr>)))))))
         else Ok (- EXDEV, s)))"

section \<open>Mounting\<close>

definition rt_set_errno :: "int \<Rightarrow> ('a, 'd) dfs \<Rightarrow> ('a, 'd) dfs" where
  "rt_set_errno e s = s\<lparr>rt_errno := e\<rparr>"

text \<open>
  The search for a type compares names until it is found, also the names of empty entries; a path
  other than \<open>/\<close> and \<open>/dev\<close> must be an existing directory.
\<close>

fun find_type :: "u8 list \<Rightarrow> ('a, 'd) dfs_filesystem_operation option list \<Rightarrow> ('a, 'd) dfs_filesystem_operation option res" where
  "find_type nm [] = Ok None"
| "find_type nm (None # t) = Fault"
| "find_type nm (Some ops # t) = (if op_name ops = nm then Ok (Some ops) else find_type nm t)"

definition directory_exists :: "u8 list \<Rightarrow> ('a, 'd) dfs \<Rightarrow> (bool \<times> ('a, 'd) dfs) res" where
  "directory_exists full s = (if full = [47] \<or> full = bytes ''/dev'' then Ok (True, s)
     else rbind (dfs_file_open no_fd full O_DIRECTORY s) (\<lambda>(r, d, s).
       if r < 0 then Ok (False, s) else rbind (dfs_file_close d s) (\<lambda>(r, d, s). Ok (True, s))))"

fun first_unmounted :: "(('a, 'd) dfs_filesystem_operation option \<times> 'a dfs_filesystem) list \<Rightarrow> nat" where
  "first_unmounted [] = 0"
| "first_unmounted ((ops, f) # t) = (if Option.is_none ops then 0 else Suc (first_unmounted t))"

definition set_fs :: "nat \<Rightarrow> ('a, 'd) dfs_filesystem_operation option \<times> 'a dfs_filesystem \<Rightarrow> ('a, 'd) dfs \<Rightarrow> ('a, 'd) dfs" where
  "set_fs i e s = s\<lparr>filesystem_table := (filesystem_table s)[i := e]\<rparr>"

definition call_dev :: "call list \<Rightarrow> ('a, 'd) dfs \<Rightarrow> ('a, 'd) dfs" where
  "call_dev cs s = s\<lparr>dev_calls := dev_calls s @ cs\<rparr>"

definition open_dev :: "string option \<Rightarrow> call list" where
  "open_dev d = (case d of None \<Rightarrow> [] | Some n \<Rightarrow> [DevOpen n 3])"

definition close_dev :: "string option \<Rightarrow> call list" where
  "close_dev d = (case d of None \<Rightarrow> [] | Some n \<Rightarrow> [DevClose n])"

definition mount_at :: "string option \<Rightarrow> u8 list \<Rightarrow> ('a, 'd) dfs_filesystem_operation \<Rightarrow> u32 \<Rightarrow> 'a option \<Rightarrow> nat \<Rightarrow> ('a, 'd) dfs \<Rightarrow>
    (int \<times> ('a, 'd) dfs) res" where
  "mount_at dev full ops rwflag data i s =
    (let f = (snd (filesystem_table s ! i))\<lparr>fs_path := Some full, dev_id := dev\<rparr>;
         s = call_dev (open_dev dev) (set_fs i (Some ops, f) s);
         failed = (\<lambda>s. set_fs i no_fs (call_dev (close_dev dev) s)) in
     case op_mount ops of
       None \<Rightarrow> Ok (- 1, rt_set_errno (- ENOSYS) (failed s))
     | Some op \<Rightarrow> rbind (op f rwflag data (drivers s)) (\<lambda>(r, f, dr). let s = s\<lparr>drivers := dr\<rparr> in
         Ok (if r < 0 then (- 1, failed s) else (0, set_fs i (Some ops, f) s))))"

definition dfs_mount :: "string option \<Rightarrow> u8 list \<Rightarrow> u8 list \<Rightarrow> u32 \<Rightarrow> 'a option \<Rightarrow> ('a, 'd) dfs \<Rightarrow> (int \<times> ('a, 'd) dfs) res" where
  "dfs_mount device_name p filesystemtype rwflag data s =
    (if (case device_name of None \<Rightarrow> False | Some n \<Rightarrow> n \<notin> set (devices s)) then Ok (- 1, rt_set_errno (- ENODEV) s)
     else rbind (find_type filesystemtype (filesystem_operation_table s)) (\<lambda>ops. case ops of
       None \<Rightarrow> Ok (- 1, rt_set_errno (- ENODEV) s)
     | Some ops \<Rightarrow> rbind (dfs_normalize_path None p) (\<lambda>full. case full of
         None \<Rightarrow> Ok (- 1, rt_set_errno (- ENOTDIR) s)
       | Some full \<Rightarrow> rbind (directory_exists full s) (\<lambda>(ok, s).
           if \<not> ok then Ok (- 1, rt_set_errno (- ENOTDIR) s)
           else if \<exists>e \<in> set (filesystem_table s). \<not> Option.is_none (fst e) \<and> fs_path (snd e) = Some p then Ok (- 1, rt_set_errno (- EINVAL) s)
           else (let i = first_unmounted (filesystem_table s) in
             if i = length (filesystem_table s) then Ok (- 1, rt_set_errno (- ENOSPC) s)
             else mount_at device_name full ops rwflag data i s)))))"

text \<open>Unmounting a path without a file system goes through a null pointer.\<close>

definition dfs_unmount :: "u8 list \<Rightarrow> ('a, 'd) dfs \<Rightarrow> (int \<times> ('a, 'd) dfs) res" where
  "dfs_unmount p s = rbind (dfs_normalize_path None p) (\<lambda>full. case full of
     None \<Rightarrow> Ok (- 1, rt_set_errno (- ENOTDIR) s)
   | Some full \<Rightarrow> (case dfs_filesystem_lookup full s of None \<Rightarrow> Fault
     | Some i \<Rightarrow> (case filesystem_table s ! i of (None, f) \<Rightarrow> Fault
       | (Some ops, f) \<Rightarrow> (let done = (\<lambda>s. (0, set_fs i no_fs (call_dev (close_dev (dev_id (snd (filesystem_table s ! i)))) s))) in
           case op_unmount ops of None \<Rightarrow> Ok (done s)
           | Some op \<Rightarrow> rbind (op f (drivers s)) (\<lambda>(r, f, dr).
               let s = set_fs i (Some ops, f) (s\<lparr>drivers := dr\<rparr>) in Ok (if r < 0 then (- 1, s) else done s))))))"

end
