(* ===== verification/Dfs_Posix.thy ===== *)
theory Dfs_Posix
  imports Dfs_File
begin

text \<open>
  The calls programs make to the device file system (\<open>RTT/components/dfs/src/dfs_posix.c\<close>): on file
  descriptors, on paths, and on directories.
\<close>

unbundle bit_operations_syntax

section \<open>Calls\<close>

text \<open>A call on a descriptor: \<open>fd_get\<close>, the routine of \<open>dfs_file.c\<close> on the structure, \<open>fd_put\<close>.\<close>

definition on_fd :: "int \<Rightarrow> ('a dfs_fd \<Rightarrow> ('a, 'd) dfs \<Rightarrow> (int \<times> 'b \<times> 'a dfs_fd \<times> ('a, 'd) dfs) res) \<Rightarrow> 'b \<Rightarrow> ('a, 'd) dfs \<Rightarrow>
    (int \<times> 'b \<times> ('a, 'd) dfs) res" where
  "on_fd fd f b s = (case fd_get fd s of
     (None, s) \<Rightarrow> Ok (- 1, b, rt_set_errno (- EBADF) s)
   | (Some i, s) \<Rightarrow> rbind (f (fd_table s ! i) s) (\<lambda>(r, x, d, s).
       let s = fd_put i (set_fd i d s) in Ok (if r < 0 then (- 1, x, rt_set_errno r s) else (r, x, s))))"

definition posix_open :: "u8 list \<Rightarrow> u32 \<Rightarrow> ('a, 'd) dfs \<Rightarrow> (int \<times> ('a, 'd) dfs) res" where
  "posix_open p flags s = (let (fd, s) = fd_new s in
     if fd < 0 then Ok (- 1, rt_set_errno (- ENOMEM) s)
     else (case fd_get fd s of
         (None, s) \<Rightarrow> Halt
       | (Some i, s) \<Rightarrow> rbind (dfs_file_open (fd_table s ! i) p flags s) (\<lambda>(r, d, s). let s = set_fd i d s in
           Ok (if r < 0 then (- 1, rt_set_errno r (fd_put i (fd_put i s))) else (fd, fd_put i s)))))"

definition posix_close :: "int \<Rightarrow> ('a, 'd) dfs \<Rightarrow> (int \<times> ('a, 'd) dfs) res" where
  "posix_close fd s = (case fd_get fd s of
     (None, s) \<Rightarrow> Ok (- 1, rt_set_errno (- EBADF) s)
   | (Some i, s) \<Rightarrow> rbind (dfs_file_close (fd_table s ! i) s) (\<lambda>(r, d, s). let s = fd_put i (set_fd i d s) in
       Ok (if r < 0 then (- 1, rt_set_errno r s) else (0, fd_put i s))))"

definition posix_read :: "int \<Rightarrow> u32 \<Rightarrow> ('a, 'd) dfs \<Rightarrow> (int \<times> u8 list \<times> ('a, 'd) dfs) res" where
  "posix_read fd len s = on_fd fd (\<lambda>d. dfs_file_read d len) [] s"

definition posix_write :: "int \<Rightarrow> u8 list \<Rightarrow> ('a, 'd) dfs \<Rightarrow> (int \<times> unit \<times> ('a, 'd) dfs) res" where
  "posix_write fd bs s = on_fd fd (\<lambda>d s. rbind (dfs_file_write d bs s) (\<lambda>(r, d, s). Ok (r, (), d, s))) () s"

text \<open>A refused offset leaves without \<open>fd_put\<close>: the reference taken by \<open>fd_get\<close> stays.\<close>

definition seek_to :: "u32 \<Rightarrow> int \<Rightarrow> 'a dfs_fd \<Rightarrow> u32 option" where
  "seek_to off whence d = (if whence = 0 then Some off else if whence = 1 then Some (off + fd_pos d)
     else if whence = 2 then Some (off + fd_size d) else None)"

definition posix_lseek :: "int \<Rightarrow> u32 \<Rightarrow> int \<Rightarrow> ('a, 'd) dfs \<Rightarrow> (int \<times> ('a, 'd) dfs) res" where
  "posix_lseek fd off whence s = (case fd_get fd s of
     (None, s) \<Rightarrow> Ok (- 1, rt_set_errno (- EBADF) s)
   | (Some i, s) \<Rightarrow> (case seek_to off whence (fd_table s ! i) of
         None \<Rightarrow> Ok (- 1, rt_set_errno (- EINVAL) s)
       | Some o' \<Rightarrow> if sint o' < 0 then Ok (- 1, rt_set_errno (- EINVAL) s)
           else rbind (dfs_file_lseek (fd_table s ! i) o' s) (\<lambda>(r, d, s). let s = fd_put i (set_fd i d s) in
             Ok (if r < 0 then (- 1, rt_set_errno r s) else (sint o', s)))))"

definition with_errno :: "(int \<times> ('a, 'd) dfs) res \<Rightarrow> (int \<times> ('a, 'd) dfs) res" where
  "with_errno m = rbind m (\<lambda>(r, s). Ok (if r < 0 then (- 1, rt_set_errno r s) else (0, s)))"

definition posix_rename :: "u8 list \<Rightarrow> u8 list \<Rightarrow> ('a, 'd) dfs \<Rightarrow> (int \<times> ('a, 'd) dfs) res" where
  "posix_rename old new s = with_errno (dfs_file_rename old new s)"

definition posix_unlink :: "u8 list \<Rightarrow> ('a, 'd) dfs \<Rightarrow> (int \<times> ('a, 'd) dfs) res" where
  "posix_unlink p s = with_errno (dfs_file_unlink p s)"

definition posix_rmdir :: "u8 list \<Rightarrow> ('a, 'd) dfs \<Rightarrow> (int \<times> ('a, 'd) dfs) res" where
  "posix_rmdir p s = with_errno (dfs_file_unlink p s)"

definition posix_stat :: "u8 list \<Rightarrow> ('a, 'd) dfs \<Rightarrow> (int \<times> file_stat option \<times> ('a, 'd) dfs) res" where
  "posix_stat p s = rbind (dfs_file_stat p s) (\<lambda>(r, st, s). Ok (if r < 0 then (- 1, st, rt_set_errno r s) else (r, st, s)))"

definition fd_stat :: "'a dfs_fd \<Rightarrow> file_stat" where
  "fd_stat d = \<lparr>st_mode = (if fd_type d = FT_DIRECTORY then 0x41FF else 0x81B6), st_size = fd_size d, st_mtime = 0, st_blksize = 512\<rparr>"

definition posix_fstat :: "int \<Rightarrow> ('a, 'd) dfs \<Rightarrow> (int \<times> file_stat option \<times> ('a, 'd) dfs) res" where
  "posix_fstat fd s = (case fd_get fd s of
     (None, s) \<Rightarrow> Ok (- 1, None, rt_set_errno (- EBADF) s)
   | (Some i, s) \<Rightarrow> Ok (0, Some (fd_stat (fd_table s ! i)), fd_put i s))"

definition posix_statfs :: "u8 list \<Rightarrow> ('a, 'd) dfs \<Rightarrow> (int \<times> statfs_data option \<times> ('a, 'd) dfs) res" where
  "posix_statfs p s = rbind (dfs_statfs p s) (\<lambda>(r, b, s). Ok (if r < 0 then (- 1, b, rt_set_errno r s) else (r, b, s)))"

text \<open>A directory that cannot be made leaves its descriptor with one reference too many.\<close>

definition posix_mkdir :: "u8 list \<Rightarrow> ('a, 'd) dfs \<Rightarrow> (int \<times> ('a, 'd) dfs) res" where
  "posix_mkdir p s = (let (fd, s) = fd_new s in
     if fd = - 1 then Ok (- 1, rt_set_errno (- ENOMEM) s)
     else (case fd_get fd s of
         (None, s) \<Rightarrow> Halt
       | (Some i, s) \<Rightarrow> rbind (dfs_file_open (fd_table s ! i) p (O_DIRECTORY OR O_CREAT) s) (\<lambda>(r, d, s). let s = set_fd i d s in
           if r < 0 then Ok (- 1, rt_set_errno r (fd_put i s))
           else rbind (dfs_file_close d s) (\<lambda>(r, d, s). Ok (0, fd_put i (set_fd i d s))))))"

section \<open>Directories\<close>

text \<open>\<open>dir_buf\<close> are the entries in the buffer of 512 bytes, each of the size of the structure.\<close>

record dir =
  dir_fd :: int
  dir_num :: int
  dir_cur :: int
  dir_buf :: "dirent list"

definition posix_opendir :: "bool \<Rightarrow> u8 list \<Rightarrow> ('a, 'd) dfs \<Rightarrow> (dir option \<times> ('a, 'd) dfs) res" where
  "posix_opendir allocated nm s = (let (fd, s) = fd_new s in
     if fd = - 1 then Ok (None, rt_set_errno (- ENOMEM) s)
     else (case fd_get fd s of
         (None, s) \<Rightarrow> Halt
       | (Some i, s) \<Rightarrow> rbind (dfs_file_open (fd_table s ! i) nm O_DIRECTORY s) (\<lambda>(r, d, s). let s = set_fd i d s in
           if 0 \<le> r then
             (if allocated then Ok (Some \<lparr>dir_fd = fd, dir_num = 0, dir_cur = 0, dir_buf = []\<rparr>, fd_put i s)
              else rbind (dfs_file_close d s) (\<lambda>(r, d, s). Ok (None, fd_put i (fd_put i (set_fd i d s)))))
           else Ok (None, rt_set_errno r (fd_put i (fd_put i s))))))"

text \<open>
  The structure at the current place of the buffer; behind the entries the buffer holds the zeros
  of \<open>opendir\<close>, and so does the record length read there.
\<close>

definition zero_entry :: dirent where
  "zero_entry = \<lparr>d_type = 0, d_namlen = 0, d_reclen = 0, d_name = []\<rparr>"

definition entry_at :: "dir \<Rightarrow> dirent res" where
  "entry_at d = (let k = nat (dir_cur d div 260) in
     if dir_cur d < 0 \<or> dir_cur d mod 260 \<noteq> 0 \<or> 512 < dir_cur d + 4 then Fault
     else if k < length (dir_buf d) then Ok (dir_buf d ! k) else Ok zero_entry)"

definition posix_readdir :: "dir \<Rightarrow> ('a, 'd) dfs \<Rightarrow> (dirent option \<times> dir \<times> ('a, 'd) dfs) res" where
  "posix_readdir d s = (case fd_get (dir_fd d) s of
     (None, s) \<Rightarrow> Ok (None, d, rt_set_errno (- EBADF) s)
   | (Some i, s) \<Rightarrow> rbind (if dir_num d = 0 then Ok d
         else rbind (entry_at d) (\<lambda>e. Ok (d\<lparr>dir_cur := dir_cur d + uint (d_reclen e)\<rparr>))) (\<lambda>d.
       rbind (if dir_num d = 0 \<or> dir_num d \<le> dir_cur d then dfs_file_getdents (fd_table s ! i) 511 s
         else Ok (1, [], fd_table s ! i, s)) (\<lambda>(r, es, f, s).
         let s = fd_put i (set_fd i f s) in
         if dir_num d = 0 \<or> dir_num d \<le> dir_cur d then
           (if r \<le> 0 then Ok (None, d, rt_set_errno r s)
            else (let d = d\<lparr>dir_num := r, dir_cur := 0, dir_buf := es\<rparr> in rbind (entry_at d) (\<lambda>e. Ok (Some e, d, s))))
         else rbind (entry_at d) (\<lambda>e. Ok (Some e, d, s)))))"

definition posix_telldir :: "dir \<Rightarrow> ('a, 'd) dfs \<Rightarrow> int \<times> ('a, 'd) dfs" where
  "posix_telldir d s = (case fd_get (dir_fd d) s of
     (None, s) \<Rightarrow> (0, rt_set_errno (- EBADF) s)
   | (Some i, s) \<Rightarrow> (sint (fd_pos (fd_table s ! i)) - dir_num d + dir_cur d, fd_put i s))"

definition posix_seekdir :: "dir \<Rightarrow> u32 \<Rightarrow> ('a, 'd) dfs \<Rightarrow> (dir \<times> ('a, 'd) dfs) res" where
  "posix_seekdir d off s = (case fd_get (dir_fd d) s of
     (None, s) \<Rightarrow> Ok (d, rt_set_errno (- EBADF) s)
   | (Some i, s) \<Rightarrow> rbind (dfs_file_lseek (fd_table s ! i) off s) (\<lambda>(r, f, s).
       Ok (if 0 \<le> r then d\<lparr>dir_num := 0, dir_cur := 0\<rparr> else d, fd_put i (set_fd i f s))))"

definition posix_rewinddir :: "dir \<Rightarrow> ('a, 'd) dfs \<Rightarrow> (dir \<times> ('a, 'd) dfs) res" where
  "posix_rewinddir d s = posix_seekdir d 0 s"

definition posix_closedir :: "dir \<Rightarrow> ('a, 'd) dfs \<Rightarrow> (int \<times> ('a, 'd) dfs) res" where
  "posix_closedir d s = (case fd_get (dir_fd d) s of
     (None, s) \<Rightarrow> Ok (- 1, rt_set_errno (- EBADF) s)
   | (Some i, s) \<Rightarrow> rbind (dfs_file_close (fd_table s ! i) s) (\<lambda>(r, f, s). let s = fd_put i (fd_put i (set_fd i f s)) in
       Ok (if r < 0 then (- 1, rt_set_errno r s) else (0, s))))"

end
