(* ===== verification/Dfs_Table.thy ===== *)
theory Dfs_Table
  imports Dfs_Posix
begin

text \<open>
  What the calls of \<open>dfs_posix.c\<close> do to the table of descriptors, for every file system type that
  keeps to its contract: every open file has a descriptor of its own, which is free again behind
  its close; and the calls that lose a descriptor or use one that is not open.
\<close>

section \<open>The contract of a file system type\<close>

text \<open>An operation may change its own part of a descriptor, not the count or the file system.\<close>

definition keeps :: "'a dfs_fd \<Rightarrow> 'a dfs_fd \<Rightarrow> bool" where
  "keeps d d' \<longleftrightarrow> ref_count d' = ref_count d \<and> fd_fs d' = fd_fs d"

lemma keepsD: "keeps d d' \<Longrightarrow> ref_count d' = ref_count d" "keeps d d' \<Longrightarrow> fd_fs d' = fd_fs d"
  by (simp_all add: keeps_def)

lemma keeps_refl [simp]: "keeps d d"
  by (simp add: keeps_def)

lemma keeps_opened [simp]: "keeps d (opened flags d') \<longleftrightarrow> keeps d d'"
  by (simp add: keeps_def opened_def Let_def)

lemma keeps_upd [simp]: "keeps d (d'\<lparr>fd_flags := x\<rparr>) \<longleftrightarrow> keeps d d'" "keeps d (d'\<lparr>fd_pos := y\<rparr>) \<longleftrightarrow> keeps d d'"
  by (simp_all add: keeps_def)

locale fs_type =
  fixes ops :: "('a, 'd) dfs_filesystem_operation"
  assumes open_keeps: "op_open ops = Some op \<Longrightarrow> op f d dr = Ok (r, d', dr') \<Longrightarrow> keeps d d'"
    and close_keeps: "op_close ops = Some op \<Longrightarrow> op f d dr = Ok (r, d', dr') \<Longrightarrow> keeps d d'"
    and read_keeps: "op_read ops = Some op3 \<Longrightarrow> op3 f n d dr = Ok (r3, d', dr') \<Longrightarrow> keeps d d'"
    and write_keeps: "op_write ops = Some op4 \<Longrightarrow> op4 f bs d dr = Ok (r, d', dr') \<Longrightarrow> keeps d d'"
    and lseek_keeps: "op_lseek ops = Some op5 \<Longrightarrow> op5 f off d dr = Ok (r, d', dr') \<Longrightarrow> keeps d d'"
    and getdents_keeps: "op_getdents ops = Some op6 \<Longrightarrow> op6 f n d dr = Ok (r6, d', dr') \<Longrightarrow> keeps d d'"

text \<open>The tables of mounted file systems and of types do not change under a call on a file.\<close>

definition same_tables :: "('a, 'd) dfs \<Rightarrow> ('a, 'd) dfs \<Rightarrow> bool" where
  "same_tables s s' \<longleftrightarrow> fd_table s' = fd_table s \<and> filesystem_table s' = filesystem_table s"

lemma same_refl [simp]: "same_tables s s" "same_tables s (s\<lparr>drivers := dr\<rparr>)"
  by (simp_all add: same_tables_def)

section \<open>The table of descriptors\<close>

text \<open>
  Between calls a descriptor without a reference belongs to no file system; one with references
  may belong to a mounted one, and every mounted file system keeps to the contract. A descriptor is
  \<open>used\<close> when it has references, \<open>live\<close> when it also has a file system, so that calls on it reach one.
\<close>

definition entry_ok :: "(('a, 'd) dfs_filesystem_operation option \<times> 'a dfs_filesystem) list \<Rightarrow> 'a dfs_fd \<Rightarrow> bool" where
  "entry_ok t d \<longleftrightarrow> (ref_count d \<le> 0 \<longrightarrow> fd_fs d = None) \<and>
     (\<forall>j. fd_fs d = Some j \<longrightarrow> j < length t \<and> (\<exists>ops. fst (t ! j) = Some ops))"

definition tidy :: "('a, 'd) dfs \<Rightarrow> bool" where
  "tidy s \<longleftrightarrow> length (fd_table s) = DFS_FD_MAX \<and> (\<forall>d \<in> set (fd_table s). entry_ok (filesystem_table s) d) \<and>
     (\<forall>e \<in> set (filesystem_table s). \<forall>ops. fst e = Some ops \<longrightarrow> fs_type ops)"

definition used :: "('a, 'd) dfs \<Rightarrow> nat set" where
  "used s = {i. i < length (fd_table s) \<and> 0 < ref_count (fd_table s ! i)}"

definition live :: "('a, 'd) dfs \<Rightarrow> nat set" where
  "live s = {i \<in> used s. fd_fs (fd_table s ! i) \<noteq> None}"

lemma used_set_fd: "i < length (fd_table s) \<Longrightarrow>
    used (set_fd i d s) = (if 0 < ref_count d then insert i (used s) else used s - {i})"
  by (auto simp: used_def set_fd_def nth_list_update split: if_splits)

lemma live_set_fd: "i < length (fd_table s) \<Longrightarrow>
    live (set_fd i d s) = (if 0 < ref_count d \<and> fd_fs d \<noteq> None then insert i (live s) else live s - {i})"
  by (auto simp: live_def used_def set_fd_def nth_list_update split: if_splits)

lemma tidy_set_fd: "tidy s \<Longrightarrow> entry_ok (filesystem_table s) d \<Longrightarrow> tidy (set_fd i d s)"
  unfolding tidy_def set_fd_def by (auto dest!: set_update_subset_insert [THEN subsetD])

lemma used_errno [simp]: "used (rt_set_errno e s) = used s" "live (rt_set_errno e s) = live s" "tidy (rt_set_errno e s) = tidy s"
  "fd_table (rt_set_errno e s) = fd_table s" "filesystem_table (rt_set_errno e s) = filesystem_table s"
  by (simp_all add: used_def live_def tidy_def rt_set_errno_def)

lemma set_fd_simps [simp]: "fd_table (set_fd i d s) = (fd_table s)[i := d]" "filesystem_table (set_fd i d s) = filesystem_table s"
  "set_fd i d (set_fd i e s) = set_fd i d s" "drivers (set_fd i d s) = drivers s"
  by (simp_all add: set_fd_def)

text \<open>The first free place.\<close>

lemma first_free: "first_free ds \<le> length ds \<and> (first_free ds < length ds \<longrightarrow> ref_count (ds ! first_free ds) \<le> 0) \<and>
    (\<forall>i < first_free ds. 0 < ref_count (ds ! i))"
proof (induction ds)
  case (Cons d ds)
  then show ?case by (auto simp: nth_Cons split: nat.split)
qed simp

lemma tidy_length: "tidy s \<Longrightarrow> length (fd_table s) = DFS_FD_MAX"
  by (simp add: tidy_def)

lemma entry_of: "tidy s \<Longrightarrow> i < DFS_FD_MAX \<Longrightarrow> entry_ok (filesystem_table s) (fd_table s ! i) \<and> i < length (fd_table s)"
  by (simp add: tidy_def)

text \<open>A call that reaches a file system has a live descriptor.\<close>

lemma ops_live:
  assumes "tidy s" and "i < DFS_FD_MAX" and "fd_fs d = fd_fs (fd_table s ! i)" and "filesystem_table s0 = filesystem_table s"
    and "fd_ops d s0 = Ok (ops, f)"
  shows "fs_type ops \<and> i \<in> live s"
proof -
  have e: "entry_ok (filesystem_table s) (fd_table s ! i)" "i < length (fd_table s)" using entry_of [OF assms(1,2)] by auto
  obtain j where j: "fd_fs (fd_table s ! i) = Some j" "filesystem_table s ! j = (Some ops, f)"
    using assms(3-5) by (auto simp: fd_ops_def split: option.splits prod.splits)
  then have "j < length (filesystem_table s)" using e(1) by (simp add: entry_ok_def)
  then have "fs_type ops" using assms(1) j(2) nth_mem unfolding tidy_def by (metis fst_conv)
  moreover have "0 < ref_count (fd_table s ! i)" using e(1) j(1) by (auto simp: entry_ok_def not_less [symmetric])
  ultimately show ?thesis using e(2) j(1) by (simp add: live_def used_def)
qed

lemma ops_free: "tidy s \<Longrightarrow> i < DFS_FD_MAX \<Longrightarrow> i \<notin> used s \<Longrightarrow> fd_fs (fd_table s ! i) = None \<and> ref_count (fd_table s ! i) \<le> 0"
  using entry_of [of s i] by (auto simp: used_def entry_ok_def)

section \<open>Calls on files\<close>

lemma lookup_mounted:
  "dfs_filesystem_lookup p s = Some i \<Longrightarrow> i < length (filesystem_table s) \<and> (\<exists>ops. fst (filesystem_table s ! i) = Some ops)"
  using lookup_best [of s p] by (auto simp: best_def mounted_def)

context fs_type
begin

lemma close_file: "fd_ops d s = Ok (ops, f) \<Longrightarrow> dfs_file_close d s = Ok (r, d', s') \<Longrightarrow>
    same_tables s s' \<and> (if r < 0 then keeps d d' else d' = no_fd)"
  by (auto simp: dfs_file_close_def rbind_Ok_iff dest: close_keeps split: option.splits)

lemma read_file: "fd_ops d s = Ok (ops, f) \<Longrightarrow> dfs_file_read d n s = Ok (r, bs, d', s') \<Longrightarrow> same_tables s s' \<and> keeps d d'"
  by (auto simp: dfs_file_read_def rbind_Ok_iff dest: read_keeps split: option.splits)

lemma write_file: "fd_ops d s = Ok (ops, f) \<Longrightarrow> dfs_file_write d bs s = Ok (r, d', s') \<Longrightarrow> same_tables s s' \<and> keeps d d'"
  by (auto simp: dfs_file_write_def rbind_Ok_iff dest: write_keeps split: option.splits)

lemma lseek_file: "fd_ops d s = Ok (ops, f) \<Longrightarrow> dfs_file_lseek d off s = Ok (r, d', s') \<Longrightarrow> same_tables s s' \<and> keeps d d'"
  by (auto simp: dfs_file_lseek_def rbind_Ok_iff dest: lseek_keeps split: option.splits)

end

lemma open_file:
  assumes "dfs_file_open d p flags s = Ok (r, d', s')" and "\<forall>e \<in> set (filesystem_table s). \<forall>ops. fst e = Some ops \<longrightarrow> fs_type ops"
  shows "same_tables s s' \<and> (if r < 0 then d' = d \<or> d' = no_fd
    else r = 0 \<and> ref_count d' = ref_count d \<and>
      (\<exists>j ops. fd_fs d' = Some j \<and> j < length (filesystem_table s) \<and> fst (filesystem_table s ! j) = Some ops))"
proof -
  obtain full where "dfs_normalize_path None p = Ok full" using assms(1) by (auto simp: dfs_file_open_def rbind_Ok_iff)
  note o = assms(1) [unfolded dfs_file_open_def this rbind_simps]
  show ?thesis
  proof (cases "full = None \<or> dfs_filesystem_lookup (the full) s = None")
    case True
    with o show ?thesis by (auto simp: dfs_status split: option.splits)
  next
    case False
    then obtain q i where q: "full = Some q" "dfs_filesystem_lookup q s = Some i" by auto
    from lookup_mounted [OF q(2)] obtain ops f where i: "i < length (filesystem_table s)" "filesystem_table s ! i = (Some ops, f)"
      by (metis prod.collapse)
    then have t: "fs_type ops" using assms(2) nth_mem [OF i(1)] by fastforce
    obtain sub where sub: "sub_path q i s = Ok sub" using o q by (auto simp: rbind_Ok_iff)
    let ?d = "d\<lparr>fd_fs := Some i, fd_type := FT_REGULAR, fd_flags := flags, fd_size := 0, fd_pos := 0, fd_path := Some (or_root sub)\<rparr>"
    show ?thesis
    proof (cases "op_open ops")
      case None
      then show ?thesis using o q i sub by (auto simp: fd_ops_def Let_def dfs_status)
    next
      case (Some op)
      then obtain r0 d0 dr where op: "op f ?d (drivers s) = Ok (r0, d0, dr)"
        using o q i sub by (auto simp: fd_ops_def Let_def rbind_Ok_iff)
      have "keeps ?d d0" by (rule fs_type.open_keeps [OF t Some op])
      then have "ref_count d0 = ref_count d" "fd_fs d0 = Some i" by (simp_all add: keeps_def)
      then show ?thesis
        using o q i sub Some op by (auto simp: fd_ops_def Let_def opened_def split: if_splits)
    qed
  qed
qed

section \<open>Calls on descriptors\<close>

lemma fd_get_in: "i < DFS_FD_MAX \<Longrightarrow> fd_get (int i) s = (Some i, set_fd i ((fd_table s ! i)\<lparr>ref_count := ref_count (fd_table s ! i) + 1\<rparr>) s)"
  by (simp add: fd_get_def Let_def)

lemma fd_put_at: "i < length (fd_table s) \<Longrightarrow>
    fd_put i (set_fd i d s) = set_fd i (if ref_count d = 1 then no_fd else d\<lparr>ref_count := ref_count d - 1\<rparr>) s"
  by (simp add: fd_put_def Let_def)

text \<open>A call that changed one entry: the table afterwards.\<close>

definition one_entry :: "nat \<Rightarrow> 'a dfs_fd \<Rightarrow> ('a, 'd) dfs \<Rightarrow> ('a, 'd) dfs \<Rightarrow> bool" where
  "one_entry i d s s' \<longleftrightarrow> fd_table s' = (fd_table s)[i := d] \<and> filesystem_table s' = filesystem_table s"

lemma one_entryD:
  assumes "one_entry i d s s'" and "tidy s" and "i < DFS_FD_MAX" and "entry_ok (filesystem_table s) d"
  shows "tidy s'" "used s' = (if 0 < ref_count d then insert i (used s) else used s - {i})"
    "live s' = (if 0 < ref_count d \<and> fd_fs d \<noteq> None then insert i (live s) else live s - {i})"
proof -
  have i: "i < length (fd_table s)" using assms(2,3) by (simp add: tidy_def)
  have "used s' = used (set_fd i d s)" "live s' = live (set_fd i d s)" using assms(1) by (simp_all add: one_entry_def used_def live_def)
  then show "used s' = (if 0 < ref_count d then insert i (used s) else used s - {i})"
    "live s' = (if 0 < ref_count d \<and> fd_fs d \<noteq> None then insert i (live s) else live s - {i})"
    using used_set_fd [OF i] live_set_fd [OF i] by simp_all
  have "tidy (set_fd i d s) = tidy s'" using assms(1) by (simp add: one_entry_def tidy_def)
  then show "tidy s'" using tidy_set_fd [OF assms(2,4)] by simp
qed

lemma one_put:
  assumes "same_tables (set_fd i d s) s'" and "i < length (fd_table s)"
  shows "one_entry i (if ref_count e = 1 then no_fd else e\<lparr>ref_count := ref_count e - 1\<rparr>) s (fd_put i (set_fd i e s'))"
  using assms by (simp add: same_tables_def one_entry_def fd_put_at)

text \<open>The calls that leave every descriptor as used and as live as it was.\<close>

definition same_use :: "('a, 'd) dfs \<Rightarrow> ('a, 'd) dfs \<Rightarrow> bool" where
  "same_use s s' \<longleftrightarrow> tidy s' \<and> used s' = used s \<and> live s' = live s"

lemma same_use_errno [simp]: "same_use s (rt_set_errno e s') \<longleftrightarrow> same_use s s'" "same_use s s \<longleftrightarrow> tidy s"
  by (simp_all add: same_use_def)

lemma live_used: "i \<in> live s \<Longrightarrow> i \<in> used s" "i \<in> live s \<Longrightarrow> fd_fs (fd_table s ! i) \<noteq> None" "i \<in> live s \<Longrightarrow> 0 < ref_count (fd_table s ! i)"
  by (simp_all add: live_def used_def)

text \<open>An operation on the structure between \<open>fd_get\<close> and \<open>fd_put\<close>.\<close>

lemma put_back:
  assumes "tidy s" and "i < DFS_FD_MAX" and "i \<in> live s" and "same_tables (set_fd i x s) s1"
    and "keeps ((fd_table s ! i)\<lparr>ref_count := ref_count (fd_table s ! i) + 1\<rparr>) d"
  shows "same_use s (fd_put i (set_fd i d s1))"
proof -
  have i: "i < length (fd_table s)" and ok: "entry_ok (filesystem_table s) (fd_table s ! i)" using entry_of [OF assms(1,2)] by auto
  let ?e = "d\<lparr>ref_count := ref_count (fd_table s ! i)\<rparr>"
  have d: "ref_count d = ref_count (fd_table s ! i) + 1" "fd_fs d = fd_fs (fd_table s ! i)" using keepsD [OF assms(5)] by simp_all
  have one: "one_entry i ?e s (fd_put i (set_fd i d s1))"
    using one_put [OF assms(4) i, of d] live_used(3) [OF assms(3)] by (simp add: d)
  have "entry_ok (filesystem_table s) ?e" using ok by (simp add: entry_ok_def d)
  from one_entryD [OF one assms(1,2) this] show ?thesis
    using live_used [OF assms(3)] assms(3) by (auto simp: same_use_def d insert_absorb)
qed

text \<open>A routine of \<open>dfs_file.c\<close> that reaches the file system and keeps to the contract.\<close>

definition good_call :: "('a dfs_fd \<Rightarrow> ('a, 'd) dfs \<Rightarrow> (int \<times> 'b \<times> 'a dfs_fd \<times> ('a, 'd) dfs) res) \<Rightarrow> bool" where
  "good_call f \<longleftrightarrow> (\<forall>d s r x d' s'. f d s = Ok (r, x, d', s') \<longrightarrow>
     (\<exists>ops fs. fd_ops d s = Ok (ops, fs) \<and> (fs_type ops \<longrightarrow> same_tables s s' \<and> keeps d d')))"

lemma good_callD:
  assumes "good_call f" and "f d s0 = Ok (r, x, d', s')" and "tidy s" and "i < DFS_FD_MAX"
    and "fd_fs d = fd_fs (fd_table s ! i)" and "filesystem_table s0 = filesystem_table s"
  shows "i \<in> live s \<and> same_tables s0 s' \<and> keeps d d'"
  using assms(1,2) ops_live [OF assms(3-6)] unfolding good_call_def by metis

lemma on_fd_table:
  assumes "on_fd (int i) f b s = Ok (r, x, s')" and "tidy s" and "i < DFS_FD_MAX" and "good_call f"
  shows "same_use s s'"
proof -
  have i: "i < length (fd_table s)" using entry_of [OF assms(2,3)] by auto
  let ?d = "(fd_table s ! i)\<lparr>ref_count := ref_count (fd_table s ! i) + 1\<rparr>"
  obtain r0 d' s1 where f1: "f ?d (set_fd i ?d s) = Ok (r0, x, d', s1)"
    and s': "s' = fd_put i (set_fd i d' s1) \<or> s' = rt_set_errno r0 (fd_put i (set_fd i d' s1))"
    using assms(1,3) i by (auto simp: on_fd_def fd_get_in rbind_Ok_iff Let_def split: if_splits)
  have t: "i \<in> live s" "same_tables (set_fd i ?d s) s1" "keeps ?d d'" using good_callD [OF assms(4) f1 assms(2,3)] by auto
  show ?thesis using put_back [OF assms(2,3) t] s' by auto
qed

lemma good_read: "good_call (\<lambda>d. dfs_file_read d n)"
  unfolding good_call_def using fs_type.read_file by (fastforce simp: dfs_file_read_def rbind_Ok_iff)

lemma good_write: "good_call (\<lambda>d s. rbind (dfs_file_write d bs s) (\<lambda>(r, d, s). Ok (r, (), d, s)))"
  unfolding good_call_def using fs_type.write_file by (fastforce simp: dfs_file_write_def rbind_Ok_iff)

lemma good_lseek: "good_call (\<lambda>d s. rbind (dfs_file_lseek d off s) (\<lambda>(r, d, s). Ok (r, (), d, s)))"
  unfolding good_call_def using fs_type.lseek_file by (fastforce simp: dfs_file_lseek_def rbind_Ok_iff)

text \<open>A number outside the table is refused.\<close>

lemma fd_cases:
  obtains "fd_get fd s = (None, s)" | i where "fd = int i" "i < DFS_FD_MAX"
proof (cases "fd < 0 \<or> int DFS_FD_MAX \<le> fd")
  case True
  then show thesis using that(1) by (simp add: fd_get_def)
next
  case False
  then show thesis using that(2) [of "nat fd"] by (simp add: nat_less_iff not_less not_le)
qed

lemma read_table: "posix_read fd n s = Ok (r, bs, s') \<Longrightarrow> tidy s \<Longrightarrow> same_use s s'"
  by (cases fd s rule: fd_cases) (auto simp: posix_read_def on_fd_def [of _ _ _ s] intro: on_fd_table [OF _ _ _ good_read, unfolded on_fd_def])

lemma write_table: "posix_write fd bs s = Ok (r, u, s') \<Longrightarrow> tidy s \<Longrightarrow> same_use s s'"
  by (cases fd s rule: fd_cases) (auto simp: posix_write_def on_fd_def [of _ _ _ s] intro: on_fd_table [OF _ _ _ good_write, unfolded on_fd_def])

text \<open>
  A refused offset leaves one reference more. On a descriptor that is used that changes nothing here,
  since a close clears the whole entry; one that is not used becomes used, and stays so.
\<close>

lemma one_more:
  assumes "tidy s" and "i < DFS_FD_MAX"
  shows "same_use s (set_fd i ((fd_table s ! i)\<lparr>ref_count := ref_count (fd_table s ! i) + 1\<rparr>) s) \<or>
    i \<notin> used s \<and> tidy (set_fd i ((fd_table s ! i)\<lparr>ref_count := ref_count (fd_table s ! i) + 1\<rparr>) s) \<and>
    used (set_fd i ((fd_table s ! i)\<lparr>ref_count := ref_count (fd_table s ! i) + 1\<rparr>) s) = insert i (used s) \<and>
    live (set_fd i ((fd_table s ! i)\<lparr>ref_count := ref_count (fd_table s ! i) + 1\<rparr>) s) = live s" (is "same_use s ?s \<or> _")
proof -
  have i: "i < length (fd_table s)" and ok: "entry_ok (filesystem_table s) (fd_table s ! i)" using entry_of [OF assms] by auto
  let ?e = "(fd_table s ! i)\<lparr>ref_count := ref_count (fd_table s ! i) + 1\<rparr>"
  have "one_entry i ?e s ?s" by (simp add: one_entry_def)
  moreover have "entry_ok (filesystem_table s) ?e" using ok by (auto simp: entry_ok_def)
  ultimately have t: "tidy ?s" "used ?s = (if 0 < ref_count ?e then insert i (used s) else used s - {i})"
    "live ?s = (if 0 < ref_count ?e \<and> fd_fs ?e \<noteq> None then insert i (live s) else live s - {i})"
    using one_entryD [OF _ assms] by blast+
  show ?thesis
  proof (cases "i \<in> used s")
    case True
    then have "0 < ref_count ?e" by (simp add: used_def)
    then have "used ?s = used s" "live ?s = live s" using t(2,3) True by (auto simp: live_def)
    then show ?thesis using t(1) by (simp add: same_use_def)
  next
    case False
    then have "fd_fs ?e = None" "i \<notin> live s" using ops_free [OF assms] by (simp_all add: live_def)
    then have "live ?s = live s" "used ?s = insert i (used s) \<or> used ?s = used s" using t(2,3) False by auto
    then show ?thesis using t(1) False by (auto simp: same_use_def)
  qed
qed

lemma lseek_table:
  assumes "posix_lseek fd off whence s = Ok (r, s')" and "tidy s"
  shows "same_use s s' \<or> (\<exists>i. fd = int i \<and> i < DFS_FD_MAX \<and> i \<notin> used s \<and> r = - 1 \<and>
    tidy s' \<and> used s' = insert i (used s) \<and> live s' = live s)"
proof (cases fd s rule: fd_cases)
  case 1
  then show ?thesis using assms by (auto simp: posix_lseek_def)
next
  case (2 i)
  let ?d = "(fd_table s ! i)\<lparr>ref_count := ref_count (fd_table s ! i) + 1\<rparr>"
  have i: "i < length (fd_table s)" using entry_of [OF assms(2) 2(2)] by auto
  note u = assms(1) [unfolded posix_lseek_def 2(1) fd_get_in [OF 2(2)] prod.case option.case]
  consider "r = - 1" "s' = rt_set_errno (- EINVAL) (set_fd i ?d s)"
    | o' where "seek_to off whence ?d = Some o'" "\<not> sint o' < 0"
    using u i by (cases "seek_to off whence ?d") (auto split: if_splits)
  then show ?thesis
  proof cases
    case 1
    then show ?thesis using one_more [OF assms(2) 2(2)] 2 by auto
  next
    case (2 o')
    obtain r0 d' s1 where f: "dfs_file_lseek ?d o' (set_fd i ?d s) = Ok (r0, d', s1)"
      and s': "s' = fd_put i (set_fd i d' s1) \<or> s' = rt_set_errno r0 (fd_put i (set_fd i d' s1))"
      using u i 2 by (auto simp: rbind_Ok_iff Let_def split: if_splits)
    have "rbind (dfs_file_lseek ?d o' (set_fd i ?d s)) (\<lambda>(r, d, s). Ok (r, (), d, s)) = Ok (r0, (), d', s1)" by (simp add: f)
    from good_callD [OF good_lseek this assms(2) \<open>i < DFS_FD_MAX\<close>]
    have t: "i \<in> live s" "same_tables (set_fd i ?d s) s1" "keeps ?d d'" by auto
    show ?thesis using put_back [OF assms(2) \<open>i < DFS_FD_MAX\<close> t] s' by auto
  qed
qed

lemma fstat_table:
  assumes "posix_fstat fd s = Ok (r, st, s')" and "tidy s"
  shows "same_use s s'"
proof (cases fd s rule: fd_cases)
  case 1
  then show ?thesis using assms by (auto simp: posix_fstat_def)
next
  case (2 i)
  have i: "i < length (fd_table s)" and ok: "entry_ok (filesystem_table s) (fd_table s ! i)" using entry_of [OF assms(2) 2(2)] by auto
  define e where "e = (if ref_count (fd_table s ! i) = 0 then no_fd else fd_table s ! i)"
  have "(fd_table s ! i)\<lparr>ref_count := ref_count (fd_table s ! i)\<rparr> = fd_table s ! i" by (cases "fd_table s ! i") simp
  then have "s' = set_fd i e s"
    using assms(1) i 2 by (auto simp: posix_fstat_def fd_get_in fd_put_at e_def)
  then have one: "one_entry i e s s'" by (simp add: one_entry_def)
  have "entry_ok (filesystem_table s) e" using ok by (simp add: e_def entry_ok_def no_fd_def)
  from one_entryD [OF one assms(2) 2(2) this] show ?thesis
    using i ok by (auto simp: same_use_def e_def no_fd_def used_def live_def entry_ok_def)
qed

lemma close_table:
  assumes "posix_close fd s = Ok (r, s')" and "tidy s"
  shows "r = - 1 \<and> same_use s s' \<or> (\<exists>i. fd = int i \<and> r = 0 \<and> i \<in> used s \<and> tidy s' \<and> used s' = used s - {i} \<and> live s' = live s - {i})"
proof (cases fd s rule: fd_cases)
  case 1
  then show ?thesis using assms by (auto simp: posix_close_def)
next
  case (2 i)
  let ?d = "(fd_table s ! i)\<lparr>ref_count := ref_count (fd_table s ! i) + 1\<rparr>"
  have i: "i < length (fd_table s)" using entry_of [OF assms(2) 2(2)] by auto
  note get = fd_get_in [OF 2(2), of s]
  obtain r0 d' s1 where c: "dfs_file_close ?d (set_fd i ?d s) = Ok (r0, d', s1)"
    and s': "if r0 < 0 then r = - 1 \<and> s' = rt_set_errno r0 (fd_put i (set_fd i d' s1))
      else r = 0 \<and> s' = fd_put i (fd_put i (set_fd i d' s1))"
    using assms(1) i by (auto simp: posix_close_def 2(1) get rbind_Ok_iff Let_def split: if_splits)
  then obtain ops f where ops: "fd_ops ?d (set_fd i ?d s) = Ok (ops, f)" by (auto simp: dfs_file_close_def rbind_Ok_iff)
  have l: "fs_type ops" "i \<in> live s" using ops_live [OF assms(2) 2(2) _ _ ops] by auto
  note t = fs_type.close_file [OF l(1) ops c]
  note tab = t [THEN conjunct1]
  show ?thesis
  proof (cases "r0 < 0")
    case True
    then have "keeps ?d d'" using t by simp
    from put_back [OF assms(2) 2(2) l(2) tab this] show ?thesis using s' True by simp
  next
    case False
    then have d': "d' = no_fd" using t by simp
    have len: "i < length (fd_table s1)" using tab i by (simp add: same_tables_def)
    have "fd_put i (fd_put i (set_fd i d' s1)) = set_fd i (no_fd\<lparr>ref_count := - 2\<rparr>) s1"
      using len by (simp add: d' fd_put_at no_fd_def)
    then have one: "one_entry i (no_fd\<lparr>ref_count := - 2\<rparr>) s s'"
      using s' False tab by (simp add: one_entry_def same_tables_def)
    have "entry_ok (filesystem_table s) (no_fd\<lparr>ref_count := - 2\<rparr>)" by (simp add: entry_ok_def no_fd_def)
    from one_entryD [OF one assms(2) 2(2) this] show ?thesis using s' False l(2) 2(1) by (auto simp: no_fd_def live_def)
  qed
qed

lemma free_place:
  assumes len: "length (fd_table s) = DFS_FD_MAX"
  shows "fd_new s = (if used s = {..<DFS_FD_MAX} then (- 1, s)
    else (int (first_free (fd_table s)), set_fd (first_free (fd_table s)) ((fd_table s ! first_free (fd_table s))\<lparr>ref_count := 1\<rparr>) s))"
    "used s \<noteq> {..<DFS_FD_MAX} \<Longrightarrow> first_free (fd_table s) < DFS_FD_MAX \<and> first_free (fd_table s) \<notin> used s \<and> {..<first_free (fd_table s)} \<subseteq> used s"
proof -
  let ?i = "first_free (fd_table s)"
  note f = first_free [of "fd_table s"]
  have full: "?i = DFS_FD_MAX \<longleftrightarrow> used s = {..<DFS_FD_MAX}"
  proof
    assume "?i = DFS_FD_MAX"
    then show "used s = {..<DFS_FD_MAX}" using f len by (auto simp: used_def)
  next
    assume u: "used s = {..<DFS_FD_MAX}"
    show "?i = DFS_FD_MAX"
    proof (rule ccontr)
      assume "?i \<noteq> DFS_FD_MAX"
      then have "?i \<in> used s" using f len u by auto
      then show False using f len \<open>?i \<noteq> DFS_FD_MAX\<close> by (auto simp: used_def)
    qed
  qed
  show "fd_new s = (if used s = {..<DFS_FD_MAX} then (- 1, s) else (int ?i, set_fd ?i ((fd_table s ! ?i)\<lparr>ref_count := 1\<rparr>) s))"
    using full len by (simp add: fd_new_def Let_def)
  assume "used s \<noteq> {..<DFS_FD_MAX}"
  then have "?i < DFS_FD_MAX" using full f len by linarith
  then show "?i < DFS_FD_MAX \<and> ?i \<notin> used s \<and> {..<?i} \<subseteq> used s"
    using f len by (auto simp: used_def)
qed

text \<open>A new descriptor behind \<open>fd_new\<close> and \<open>fd_get\<close>.\<close>

lemma new_and_get:
  assumes "length (fd_table s) = DFS_FD_MAX" and "used s \<noteq> {..<DFS_FD_MAX}" and "i = first_free (fd_table s)"
  shows "\<exists>s1. fd_new s = (int i, s1) \<and> fd_get (int i) s1 = (Some i, set_fd i ((fd_table s ! i)\<lparr>ref_count := 2\<rparr>) s)"
proof -
  have i: "i < DFS_FD_MAX" using free_place(2) [OF assms(1,2)] assms(3) by simp
  then have "i < length (fd_table s)" using assms(1) by simp
  then show ?thesis using free_place(1) [OF assms(1)] assms(2,3) i by (simp add: fd_get_in)
qed

lemma tidy_types: "tidy s \<Longrightarrow> \<forall>e \<in> set (filesystem_table (set_fd i d s)). \<forall>ops. fst e = Some ops \<longrightarrow> fs_type ops"
  by (simp add: tidy_def)

text \<open>Opening in a new descriptor leaves a failed one without a file system, with its references or cleared.\<close>

lemma new_open:
  assumes "dfs_file_open ((fd_table s ! i)\<lparr>ref_count := 2\<rparr>) p flags (set_fd i x s) = Ok (r, d, s1)" and "tidy s"
    and "i < DFS_FD_MAX" and "i \<notin> used s"
  shows "same_tables (set_fd i x s) s1 \<and> (if r < 0 then fd_fs d = None \<and> ref_count d \<in> {0, 2}
    else r = 0 \<and> ref_count d = 2 \<and> (\<exists>j ops. fd_fs d = Some j \<and> j < length (filesystem_table s) \<and> fst (filesystem_table s ! j) = Some ops))"
  using open_file [OF assms(1) tidy_types [OF assms(2)]] ops_free [OF assms(2-4)] by (auto simp: no_fd_def split: if_splits)

text \<open>The least free descriptor is taken into use, or nothing changes.\<close>

lemma open_table:
  assumes "posix_open p flags s = Ok (r, s')" and "tidy s"
  shows "r = - 1 \<and> same_use s s' \<or> (\<exists>i < DFS_FD_MAX. i \<notin> used s \<and> {..<i} \<subseteq> used s \<and> r = int i \<and>
    tidy s' \<and> used s' = insert i (used s) \<and> live s' = insert i (live s))"
proof (cases "used s = {..<DFS_FD_MAX}")
  case True
  then have "fd_new s = (- 1, s)" using free_place(1) [OF tidy_length [OF assms(2)]] by simp
  then show ?thesis using assms by (auto simp: posix_open_def)
next
  case False
  define i where "i = first_free (fd_table s)"
  have i: "i < DFS_FD_MAX" "i \<notin> used s" "{..<i} \<subseteq> used s" using free_place(2) [OF tidy_length [OF assms(2)] False] i_def by auto
  have len: "i < length (fd_table s)" using entry_of [OF assms(2) i(1)] by simp
  let ?d = "(fd_table s ! i)\<lparr>ref_count := 2\<rparr>"
  obtain s0 where get: "fd_new s = (int i, s0)" "fd_get (int i) s0 = (Some i, set_fd i ?d s)"
    using new_and_get [OF tidy_length [OF assms(2)] False i_def] by blast
  obtain r0 d' s1 where o: "dfs_file_open ?d p flags (set_fd i ?d s) = Ok (r0, d', s1)"
    and s': "if r0 < 0 then r = - 1 \<and> s' = rt_set_errno r0 (fd_put i (fd_put i (set_fd i d' s1)))
      else r = int i \<and> s' = fd_put i (set_fd i d' s1)"
    using assms(1) len by (auto simp: posix_open_def get rbind_Ok_iff Let_def split: if_splits)
  note t = new_open [OF o assms(2) i(1,2)]
  note tab = t [THEN conjunct1]
  have l1: "i < length (fd_table s1)" using tab len by (simp add: same_tables_def)
  have nl: "i \<notin> live s" using i(2) by (simp add: live_def)
  show ?thesis
  proof (cases "r0 < 0")
    case True
    define e where "e = (if ref_count d' = 2 then no_fd else d'\<lparr>ref_count := - 2\<rparr>)"
    have "fd_put i (fd_put i (set_fd i d' s1)) = set_fd i e s1"
      using l1 t True by (auto simp: e_def fd_put_at)
    then have one: "one_entry i e s s'" using s' True tab by (simp add: one_entry_def same_tables_def)
    have "entry_ok (filesystem_table s) e" using t True by (auto simp: e_def entry_ok_def no_fd_def)
    from one_entryD [OF one assms(2) i(1) this] show ?thesis
      using s' True i(2) nl by (simp add: e_def no_fd_def same_use_def)
  next
    case False
    then have one: "one_entry i (d'\<lparr>ref_count := 1\<rparr>) s s'" using one_put [OF tab len, of d'] t s' by simp
    have "entry_ok (filesystem_table s) (d'\<lparr>ref_count := 1\<rparr>)" using t False by (auto simp: entry_ok_def)
    from one_entryD [OF one assms(2) i(1) this] show ?thesis using s' False i t by auto
  qed
qed

text \<open>The least free descriptor is taken, and nothing else happens to the others.\<close>

definition loses :: "('a, 'd) dfs \<Rightarrow> ('a, 'd) dfs \<Rightarrow> bool" where
  "loses s s' \<longleftrightarrow> tidy s' \<and> live s \<subseteq> live s' \<and> (\<exists>k < DFS_FD_MAX. k \<notin> used s \<and> {..<k} \<subseteq> used s \<and> used s' = insert k (used s))"

lemma loses_errno [simp]: "loses s (rt_set_errno e s') \<longleftrightarrow> loses s s'"
  by (simp add: loses_def)

text \<open>
  Making a directory gives its descriptor back when the directory is made and closed, and when the
  file system refuses it; otherwise it loses it.
\<close>

lemma mkdir_table:
  assumes "posix_mkdir p s = Ok (r, s')" and "tidy s"
  shows "r \<in> {0, - 1} \<and> (same_use s s' \<or> loses s s')"
proof (cases "used s = {..<DFS_FD_MAX}")
  case True
  then have "fd_new s = (- 1, s)" using free_place(1) [OF tidy_length [OF assms(2)]] by simp
  then show ?thesis using assms by (auto simp: posix_mkdir_def)
next
  case False
  define i where "i = first_free (fd_table s)"
  have i: "i < DFS_FD_MAX" "i \<notin> used s" "{..<i} \<subseteq> used s" using free_place(2) [OF tidy_length [OF assms(2)] False] i_def by auto
  have len: "i < length (fd_table s)" using entry_of [OF assms(2) i(1)] by simp
  let ?d = "(fd_table s ! i)\<lparr>ref_count := 2\<rparr>"
  obtain s0 where get: "fd_new s = (int i, s0)" "fd_get (int i) s0 = (Some i, set_fd i ?d s)"
    using new_and_get [OF tidy_length [OF assms(2)] False i_def] by blast
  obtain r0 d1 s1 where o: "dfs_file_open ?d p (O_DIRECTORY OR O_CREAT) (set_fd i ?d s) = Ok (r0, d1, s1)"
    and s1: "if r0 < 0 then r = - 1 \<and> s' = rt_set_errno r0 (fd_put i (set_fd i d1 s1))
      else \<exists>r2 d2 s2. dfs_file_close d1 (set_fd i d1 s1) = Ok (r2, d2, s2) \<and> r = 0 \<and> s' = fd_put i (set_fd i d2 s2)"
    using assms(1) len by (auto simp: posix_mkdir_def get rbind_Ok_iff Let_def split: if_splits)
  note t = new_open [OF o assms(2) i(1,2)]
  note tab = t [THEN conjunct1]
  have nl: "i \<notin> live s" using i(2) by (simp add: live_def)
  have loss: "same_use s (fd_put i (set_fd i d s2)) \<or> loses s (fd_put i (set_fd i d s2))"
    if same: "same_tables (set_fd i ?d s) s2" and ref: "ref_count d = 0 \<and> fd_fs d = None \<or> ref_count d = 2"
      and fs: "\<forall>j. fd_fs d = Some j \<longrightarrow> j < length (filesystem_table s) \<and> (\<exists>ops. fst (filesystem_table s ! j) = Some ops)" for d s2
  proof -
    have one: "one_entry i (d\<lparr>ref_count := ref_count d - 1\<rparr>) s (fd_put i (set_fd i d s2))"
      using one_put [OF same len, of d] ref by auto
    have "entry_ok (filesystem_table s) (d\<lparr>ref_count := ref_count d - 1\<rparr>)" using ref fs by (auto simp: entry_ok_def)
    note e = one_entryD [OF one assms(2) i(1) this]
    from ref show ?thesis
    proof
      assume "ref_count d = 0 \<and> fd_fs d = None"
      then show ?thesis using e i(2) nl by (simp add: same_use_def)
    next
      assume "ref_count d = 2"
      then have "used (fd_put i (set_fd i d s2)) = insert i (used s)" "live s \<subseteq> live (fd_put i (set_fd i d s2))"
        using e(2,3) nl by auto
      then show ?thesis using e(1) i unfolding loses_def by blast
    qed
  qed
  show ?thesis
  proof (cases "r0 < 0")
    case True
    then show ?thesis using s1 loss [OF tab, of d1] t by auto
  next
    case False
    then obtain r2 d2 s2 where c: "dfs_file_close d1 (set_fd i d1 s1) = Ok (r2, d2, s2)" "r = 0" "s' = fd_put i (set_fd i d2 s2)"
      using s1 by auto
    obtain j ops f where j: "fd_fs d1 = Some j" "filesystem_table s ! j = (Some ops, f)" "j < length (filesystem_table s)" "ref_count d1 = 2"
      using t False by (metis prod.collapse)
    have ft: "filesystem_table s1 = filesystem_table s" using tab by (simp add: same_tables_def)
    have o1: "fd_ops d1 (set_fd i d1 s1) = Ok (ops, f)" using j ft by (simp add: fd_ops_def)
    have "fs_type ops" using assms(2) j(2,3) nth_mem unfolding tidy_def by (metis fst_conv)
    from fs_type.close_file [OF this o1 c(1)]
    have k: "same_tables (set_fd i d1 s1) s2" "if r2 < 0 then keeps d1 d2 else d2 = no_fd" by auto
    have "same_tables (set_fd i ?d s) (set_fd i ?d s2)" using k(1) tab len by (auto simp: same_tables_def)
    moreover have "fd_put i (set_fd i d2 (set_fd i ?d s2)) = fd_put i (set_fd i d2 s2)" by simp
    moreover have "ref_count d2 = 0 \<and> fd_fs d2 = None \<or> ref_count d2 = 2"
      "\<forall>j. fd_fs d2 = Some j \<longrightarrow> j < length (filesystem_table s) \<and> (\<exists>ops. fst (filesystem_table s ! j) = Some ops)"
      using k(2) j by (auto simp: keeps_def no_fd_def split: if_splits)
    ultimately show ?thesis using loss [of "set_fd i ?d s2" d2] c(2,3) by auto
  qed
qed

text \<open>The calls on paths do not touch the descriptors.\<close>

lemma unlink_same:
  assumes "dfs_file_unlink p s = Ok (r, s')"
  shows "same_tables s s'"
proof -
  obtain a where a: "dfs_normalize_path None p = Ok a" using assms by (auto simp: dfs_file_unlink_def rbind_Ok_iff)
  note u = assms [unfolded dfs_file_unlink_def a rbind_simps]
  show ?thesis
  proof (cases a)
    case (Some q)
    then show ?thesis using u
      by (cases "dfs_filesystem_lookup q s") (auto simp: rbind_Ok_iff split: if_split_asm option.split_asm prod.split_asm)
  qed (use u in simp)
qed

lemma stat_same:
  assumes "dfs_file_stat p s = Ok (r, st, s')"
  shows "same_tables s s'"
proof -
  obtain a where a: "dfs_normalize_path None p = Ok a" using assms by (auto simp: dfs_file_stat_def rbind_Ok_iff)
  note u = assms [unfolded dfs_file_stat_def a rbind_simps]
  show ?thesis
  proof (cases a)
    case (Some q)
    show ?thesis
    proof (cases "dfs_filesystem_lookup q s")
      case (Some i)
      then obtain x where x: "(if q = [47] then Ok None else sub_path q i s) = Ok x" using u \<open>a = Some q\<close> by (auto simp: rbind_Ok_iff)
      show ?thesis using u unfolding \<open>a = Some q\<close> option.case Some x rbind_simps
        by (auto simp: rbind_Ok_iff split: option.split_asm prod.split_asm)
    qed (use u Some in simp)
  qed (use u in simp)
qed

lemma rename_same:
  assumes "dfs_file_rename p q s = Ok (r, s')"
  shows "same_tables s s'"
proof -
  obtain a where a: "dfs_normalize_path None p = Ok a" using assms by (auto simp: dfs_file_rename_def rbind_Ok_iff)
  note u = assms [unfolded dfs_file_rename_def a rbind_simps]
  show ?thesis
  proof (cases a)
    case (Some a')
    obtain b where b: "dfs_normalize_path None q = Ok b" using u Some by (auto simp: rbind_Ok_iff)
    show ?thesis using u unfolding Some b option.case rbind_simps
      by (cases "dfs_filesystem_lookup a' s = dfs_filesystem_lookup (the b) s"; cases b; cases "dfs_filesystem_lookup a' s")
        (auto simp: rbind_Ok_iff split: option.split_asm prod.split_asm)
  qed (use u in simp)
qed

lemma same_tables_use: "same_tables s s' \<Longrightarrow> tidy s \<Longrightarrow> same_use s s'"
  by (simp add: same_tables_def same_use_def tidy_def used_def live_def)

lemma path_tables:
  "with_errno (dfs_file_unlink p s) = Ok (r, s') \<Longrightarrow> tidy s \<Longrightarrow> same_use s s'"
  "with_errno (dfs_file_rename p q s) = Ok (r, s') \<Longrightarrow> tidy s \<Longrightarrow> same_use s s'"
  "posix_stat p s = Ok (r, st, s') \<Longrightarrow> tidy s \<Longrightarrow> same_use s s'"
  by (auto simp: posix_stat_def with_errno_def rbind_Ok_iff split: if_splits dest!: unlink_same stat_same rename_same intro: same_tables_use)

section \<open>A program's calls\<close>

datatype file_call = Open "u8 list" u32 | Close int | Read int u32 | Write int "u8 list" | Seek int u32 int | Fstat int
  | Mkdir "u8 list" | Unlink "u8 list" | Rename "u8 list" "u8 list" | Stat "u8 list"

fun run_call :: "file_call \<Rightarrow> ('a, 'd) dfs \<Rightarrow> (int \<times> ('a, 'd) dfs) res" where
  "run_call (Open p flags) s = posix_open p flags s"
| "run_call (Close fd) s = posix_close fd s"
| "run_call (Read fd n) s = rbind (posix_read fd n s) (\<lambda>(r, bs, s). Ok (r, s))"
| "run_call (Write fd bs) s = rbind (posix_write fd bs s) (\<lambda>(r, u, s). Ok (r, s))"
| "run_call (Seek fd off whence) s = posix_lseek fd off whence s"
| "run_call (Fstat fd) s = rbind (posix_fstat fd s) (\<lambda>(r, st, s). Ok (r, s))"
| "run_call (Mkdir p) s = posix_mkdir p s"
| "run_call (Unlink p) s = posix_unlink p s"
| "run_call (Rename p q) s = posix_rename p q s"
| "run_call (Stat p) s = rbind (posix_stat p s) (\<lambda>(r, st, s). Ok (r, s))"

fun run_calls :: "file_call list \<Rightarrow> ('a, 'd) dfs \<Rightarrow> (int list \<times> ('a, 'd) dfs) res" where
  "run_calls [] s = Ok ([], s)"
| "run_calls (c # cs) s = rbind (run_call c s) (\<lambda>(r, s). rbind (run_calls cs s) (\<lambda>(rs, s). Ok (r # rs, s)))"

text \<open>
  The reference is two sets, the descriptors a program holds and those that are taken: an open takes
  the least one that is not taken, or fails; a close frees the one it names, or fails. A directory
  that is made may lose the least one that is not taken: it is taken, and held by nobody. So may a
  refused position on a descriptor that is not taken. The other calls change nothing.
\<close>

inductive held_step :: "nat set \<times> nat set \<Rightarrow> file_call \<times> int \<Rightarrow> nat set \<times> nat set \<Rightarrow> bool" where
  Opened: "i < DFS_FD_MAX \<Longrightarrow> i \<notin> T \<Longrightarrow> {..<i} \<subseteq> T \<Longrightarrow> held_step (H, T) (Open p flags, int i) (insert i H, insert i T)"
| Refused: "held_step (H, T) (Open p flags, - 1) (H, T)"
| Closed: "i \<in> T \<Longrightarrow> held_step (H, T) (Close (int i), 0) (H - {i}, T - {i})"
| Kept: "held_step (H, T) (Close fd, - 1) (H, T)"
| Made: "r \<in> {0, - 1} \<Longrightarrow> held_step (H, T) (Mkdir p, r) (H, T)"
| Lost: "r \<in> {0, - 1} \<Longrightarrow> i < DFS_FD_MAX \<Longrightarrow> i \<notin> T \<Longrightarrow> {..<i} \<subseteq> T \<Longrightarrow> held_step (H, T) (Mkdir p, r) (H, insert i T)"
| Misplaced: "i < DFS_FD_MAX \<Longrightarrow> i \<notin> T \<Longrightarrow> held_step (H, T) (Seek (int i) off whence, - 1) (H, insert i T)"
| Other: "c \<in> {Read fd n, Write fd bs, Seek fd off whence, Fstat fd, Unlink p, Rename p q, Stat p} \<Longrightarrow> held_step (H, T) (c, r) (H, T)"

inductive held_steps :: "nat set \<times> nat set \<Rightarrow> (file_call \<times> int) list \<Rightarrow> nat set \<times> nat set \<Rightarrow> bool" where
  None_left: "held_steps A [] A"
| Then: "held_step A e B \<Longrightarrow> held_steps B es C \<Longrightarrow> held_steps A (e # es) C"

lemma same_held:
  assumes "same_use s s'" and "c \<in> {Read fd n, Write fd bs, Seek fd off whence, Fstat fd, Unlink p, Rename p q, Stat p}" and "H \<subseteq> live s"
  shows "\<exists>H'. tidy s' \<and> H' \<subseteq> live s' \<and> held_step (H, used s) (c, r) (H', used s')"
  using assms held_step.Other [OF assms(2)] by (auto simp: same_use_def)

lemma call_step:
  assumes "run_call c s = Ok (r, s')" and "tidy s" and "H \<subseteq> live s"
  shows "\<exists>H'. tidy s' \<and> H' \<subseteq> live s' \<and> held_step (H, used s) (c, r) (H', used s')"
proof (cases c)
  case (Open p flags)
  from open_table [of p flags s r s'] assms Open
  consider "r = - 1" "same_use s s'" | i where "i < DFS_FD_MAX" "i \<notin> used s" "{..<i} \<subseteq> used s" "r = int i" "tidy s'"
    "used s' = insert i (used s)" "live s' = insert i (live s)"
    by auto
  then show ?thesis
  proof cases
    case 1
    then show ?thesis using assms(3) Open held_step.Refused by (auto simp: same_use_def)
  next
    case (2 i)
    then have "insert i H \<subseteq> live s'" using assms(3) by auto
    then show ?thesis using 2 Open held_step.Opened [OF 2(1-3), of H p flags] by auto
  qed
next
  case (Close fd)
  from close_table [of fd s r s'] assms Close
  consider "r = - 1" "same_use s s'" | i where "fd = int i" "r = 0" "i \<in> used s" "tidy s'" "used s' = used s - {i}" "live s' = live s - {i}"
    by auto
  then show ?thesis
  proof cases
    case 1
    then show ?thesis using assms(3) Close held_step.Kept by (auto simp: same_use_def)
  next
    case (2 i)
    then have "H - {i} \<subseteq> live s'" using assms(3) by auto
    then show ?thesis using 2 Close held_step.Closed [of i "used s" H] by auto
  qed
next
  case (Read fd n)
  show ?thesis
    by (rule same_held [OF _ _ assms(3), where c = c and r = r]) (use assms(1,2) Read in \<open>auto simp: rbind_Ok_iff dest: read_table\<close>)
next
  case (Write fd bs)
  show ?thesis
    by (rule same_held [OF _ _ assms(3), where c = c and r = r]) (use assms(1,2) Write in \<open>auto simp: rbind_Ok_iff dest: write_table\<close>)
next
  case (Seek fd off whence)
  then have "same_use s s' \<or> (\<exists>i. fd = int i \<and> i < DFS_FD_MAX \<and> i \<notin> used s \<and> r = - 1 \<and>
      tidy s' \<and> used s' = insert i (used s) \<and> live s' = live s)"
    using lseek_table [of fd off whence s r s'] assms by simp
  then show ?thesis
  proof
    assume "same_use s s'"
    from same_held [OF this _ assms(3)] Seek show ?thesis by blast
  next
    assume "\<exists>i. fd = int i \<and> i < DFS_FD_MAX \<and> i \<notin> used s \<and> r = - 1 \<and> tidy s' \<and> used s' = insert i (used s) \<and> live s' = live s"
    then obtain i where i: "fd = int i" "i < DFS_FD_MAX" "i \<notin> used s" "r = - 1" "tidy s'" "used s' = insert i (used s)" "live s' = live s"
      by blast
    show ?thesis using held_step.Misplaced [OF i(2,3), of H off whence] i assms(3) Seek by (intro exI [of _ H]) simp
  qed
next
  case (Fstat fd)
  show ?thesis
    by (rule same_held [OF _ _ assms(3), where c = c and r = r]) (use assms(1,2) Fstat in \<open>auto simp: rbind_Ok_iff dest: fstat_table\<close>)
next
  case (Mkdir p)
  from mkdir_table [of p s r s'] assms Mkdir have r: "r \<in> {0, - 1}"
    and "same_use s s' \<or> loses s s'"
    by auto
  from this(2) show ?thesis
  proof
    assume "same_use s s'"
    then show ?thesis using assms(3) Mkdir held_step.Made [OF r] by (auto simp: same_use_def)
  next
    assume "loses s s'"
    then obtain i where i: "i < DFS_FD_MAX" "i \<notin> used s" "{..<i} \<subseteq> used s" "tidy s'" "used s' = insert i (used s)" "live s \<subseteq> live s'"
      unfolding loses_def by blast
    then show ?thesis using assms(3) Mkdir held_step.Lost [OF r i(1-3), of H p] by (intro exI [of _ H]) auto
  qed
next
  case (Unlink p)
  show ?thesis by (rule same_held [OF _ _ assms(3), where c = c and r = r]) (use assms(1,2) Unlink in \<open>auto simp: posix_unlink_def dest: path_tables\<close>)
next
  case (Rename p q)
  show ?thesis by (rule same_held [OF _ _ assms(3), where c = c and r = r]) (use assms(1,2) Rename in \<open>auto simp: posix_rename_def dest: path_tables\<close>)
next
  case (Stat p)
  show ?thesis
    by (rule same_held [OF _ _ assms(3), where c = c and r = r]) (use assms(1,2) Stat in \<open>auto simp: rbind_Ok_iff dest: path_tables\<close>)
qed

lemma calls_steps:
  assumes "run_calls cs s = Ok (rs, s')" and "tidy s" and "H \<subseteq> live s"
  shows "\<exists>H'. tidy s' \<and> H' \<subseteq> live s' \<and> held_steps (H, used s) (zip cs rs) (H', used s')"
  using assms
proof (induction cs arbitrary: s rs H)
  case Nil
  then show ?case by (auto intro: held_steps.None_left)
next
  case (Cons c cs)
  then obtain r s1 rs' where r: "run_call c s = Ok (r, s1)" "run_calls cs s1 = Ok (rs', s')" "rs = r # rs'"
    by (auto simp: rbind_Ok_iff)
  obtain H1 where st: "tidy s1" "H1 \<subseteq> live s1" "held_step (H, used s) (c, r) (H1, used s1)"
    using call_step [OF r(1) Cons.prems(2,3)] by blast
  obtain H' where "tidy s'" "H' \<subseteq> live s'" "held_steps (H1, used s1) (zip cs rs') (H', used s')"
    using Cons.IH [OF r(2) st(1,2)] by blast
  then show ?case using held_steps.Then [OF st(3)] r(3) by auto
qed

section \<open>Descriptors that are not open\<close>

lemma ops_none: "tidy s \<Longrightarrow> i < DFS_FD_MAX \<Longrightarrow> i \<notin> used s \<Longrightarrow> fd_fs d = fd_fs (fd_table s ! i) \<Longrightarrow> fd_ops d s0 = Fault"
  using ops_free [of s i] by (simp add: fd_ops_def)

lemma unused_faults:
  assumes "tidy s" and "i < DFS_FD_MAX" and "i \<notin> used s"
  shows "posix_read (int i) n s = Fault" "posix_write (int i) bs s = Fault" "posix_close (int i) s = Fault"
    "0 \<le> sint off \<Longrightarrow> posix_lseek (int i) off 0 s = Fault"
proof -
  have i: "i < length (fd_table s)" using entry_of [OF assms(1,2)] by simp
  have none: "fd_ops ((fd_table s ! i)\<lparr>ref_count := n\<rparr>) (s0 :: ('a, 'b) dfs) = Fault" for n s0
    by (rule ops_none [OF assms]) simp
  show "posix_read (int i) n s = Fault" "posix_write (int i) bs s = Fault" "posix_close (int i) s = Fault"
    using none i by (simp_all add: posix_read_def posix_write_def posix_close_def on_fd_def fd_get_in [OF assms(2)]
      dfs_file_read_def dfs_file_write_def dfs_file_close_def)
  assume "0 \<le> sint off"
  then have off: "(sint off < 0) = False" by simp
  show "posix_lseek (int i) off 0 s = Fault"
    using none i by (simp add: posix_lseek_def fd_get_in [OF assms(2)] seek_to_def off dfs_file_lseek_def)
qed

text \<open>A relative name is refused before any file system is asked; \<open>mkdir\<close> then keeps its descriptor.\<close>

definition relative :: "u8 list \<Rightarrow> bool" where
  "relative p \<longleftrightarrow> p = [] \<or> hd p \<noteq> 47"

lemma relative_open: "relative p \<Longrightarrow> dfs_file_open d p flags s = Ok (- 1, d, s)"
  by (auto simp: relative_def dfs_file_open_def dfs_normalize_path_def)

lemma mkdir_leaks:
  assumes "length (fd_table s) = DFS_FD_MAX" and "relative p"
  shows "\<exists>s'. posix_mkdir p s = Ok (- 1, s') \<and> length (fd_table s') = DFS_FD_MAX \<and>
    (used s = {..<DFS_FD_MAX} \<and> used s' = used s \<or> card (used s') = Suc (card (used s)))"
proof (cases "used s = {..<DFS_FD_MAX}")
  case True
  then show ?thesis using free_place(1) [OF assms(1)] assms(1) by (simp add: posix_mkdir_def)
next
  case False
  let ?i = "first_free (fd_table s)"
  obtain s1 where n: "fd_new s = (int ?i, s1)" "fd_get (int ?i) s1 = (Some ?i, set_fd ?i ((fd_table s ! ?i)\<lparr>ref_count := 2\<rparr>) s)"
    using new_and_get [OF assms(1) False refl] by blast
  have i: "?i < length (fd_table s)" "?i \<notin> used s" using free_place(2) [OF assms(1) False] assms(1) by auto
  have m: "posix_mkdir p s = Ok (- 1, rt_set_errno (- 1) (set_fd ?i ((fd_table s ! ?i)\<lparr>ref_count := 1\<rparr>) s))"
    using i by (simp add: posix_mkdir_def n relative_open [OF assms(2)] fd_put_at)
  have "finite (used s)" by (simp add: used_def)
  then show ?thesis using m i assms(1) by (simp add: used_set_fd)
qed

fun mkdirs :: "u8 list list \<Rightarrow> ('a, 'd) dfs \<Rightarrow> ('a, 'd) dfs res" where
  "mkdirs [] s = Ok s"
| "mkdirs (p # ps) s = rbind (posix_mkdir p s) (\<lambda>(r, s). mkdirs ps s)"

lemma mkdirs_leak:
  assumes "\<forall>p \<in> set ps. relative p" and "length (fd_table s) = DFS_FD_MAX"
  shows "\<exists>s'. mkdirs ps s = Ok s' \<and> length (fd_table s') = DFS_FD_MAX \<and>
    (used s' = {..<DFS_FD_MAX} \<or> card (used s') = card (used s) + length ps)"
  using assms
proof (induction ps arbitrary: s)
  case (Cons p ps)
  obtain s1 where s1: "posix_mkdir p s = Ok (- 1, s1)" "length (fd_table s1) = DFS_FD_MAX"
    "used s = {..<DFS_FD_MAX} \<and> used s1 = used s \<or> card (used s1) = Suc (card (used s))"
    using mkdir_leaks [of s p] Cons.prems by (metis list.set_intros(1))
  obtain s' where s': "mkdirs ps s1 = Ok s'" "length (fd_table s') = DFS_FD_MAX"
    "used s' = {..<DFS_FD_MAX} \<or> card (used s') = card (used s1) + length ps"
    using Cons.IH [OF _ s1(2)] Cons.prems(1) by (meson list.set_intros(2))
  have u: "used s' \<subseteq> {..<DFS_FD_MAX}" using s'(2) by (auto simp: used_def)
  show ?case
  proof (cases "used s = {..<DFS_FD_MAX} \<and> used s1 = used s")
    case True
    then have "card {..<DFS_FD_MAX} \<le> card (used s')" using s'(3) by (metis le_add1 order_refl)
    then have "used s' = {..<DFS_FD_MAX}" using u by (intro card_seteq) auto
    then show ?thesis using s1(1) s'(1,2) by simp
  next
    case False
    then have "card (used s1) = Suc (card (used s))" using s1(3) by blast
    then show ?thesis using s1(1) s' by simp
  qed
qed simp

lemma full_open:
  assumes "length (fd_table s) = DFS_FD_MAX" and "DFS_FD_MAX \<le> card (used s)"
  shows "posix_open q flags s = Ok (- 1, rt_set_errno (- ENOMEM) s)"
proof -
  have "used s = {..<DFS_FD_MAX}" using assms by (intro card_seteq) (auto simp: used_def)
  then show ?thesis using free_place(1) [OF assms(1)] by (simp add: posix_open_def)
qed

lemma many_mkdirs:
  assumes "\<forall>p \<in> set ps. relative p" and "DFS_FD_MAX \<le> length ps" and "length (fd_table s) = DFS_FD_MAX"
  shows "\<exists>s'. mkdirs ps s = Ok s' \<and> (\<forall>q flags. posix_open q flags s' = Ok (- 1, rt_set_errno (- ENOMEM) s'))"
proof -
  obtain s' where s': "mkdirs ps s = Ok s'" "length (fd_table s') = DFS_FD_MAX"
    "used s' = {..<DFS_FD_MAX} \<or> card (used s') = card (used s) + length ps"
    using mkdirs_leak [OF assms(1,3)] by blast
  then have "DFS_FD_MAX \<le> card (used s')" using assms(2) by (elim disjE) simp_all
  then show ?thesis using full_open [OF s'(2)] s'(1) by blast
qed

end
