(* ===== verification/Elm.thy ===== *)
theory Elm
  imports Dfs_Table
begin

text \<open>
  The FAT file system as a type of the device file system
  (\<open>RTT/components/dfs/filesystems/elmfat/dfs_elm.c\<close>): the type of the SD card. The FatFs library behind
  it (\<open>ff.c\<close>, third-party) is a parameter: a record of its functions on its own state \<open>'v\<close>. A file object
  is a value with the two fields read here and a rest \<open>'f\<close>; a directory object is a value \<open>'g\<close>. The
  configuration has two volumes, long names and sectors of 512 bytes.
\<close>

unbundle bit_operations_syntax

section \<open>The library's interface\<close>

datatype FRESULT = FR_OK | FR_DISK_ERR | FR_INT_ERR | FR_NOT_READY | FR_NO_FILE | FR_NO_PATH | FR_INVALID_NAME | FR_DENIED
  | FR_EXIST | FR_INVALID_OBJECT | FR_WRITE_PROTECTED | FR_INVALID_DRIVE | FR_NOT_ENABLED | FR_NO_FILESYSTEM | FR_MKFS_ABORTED
  | FR_TIMEOUT | FR_LOCKED | FR_NOT_ENOUGH_CORE | FR_TOO_MANY_OPEN_FILES

record 'f fil =
  fptr :: u32
  fsize :: u32
  fil_rest :: 'f

record filinfo =
  fname :: "u8 list"
  lfname :: "u8 list"
  fattrib :: u8
  info_size :: u32
  ftime :: u16

text \<open>
  The functions used. A work area of a volume is named by a number; \<open>ff_vol\<close> is \<open>elm_get_vol\<close>, the
  volume a work area is registered for; \<open>ff_drv\<close> reads its drive field; \<open>ff_getfree\<close> returns the free
  clusters with the number of entries and the cluster size; \<open>ff_work\<close> is the next allocated area.
\<close>

record ('v, 'f, 'g) fatfs =
  ff_work :: "'v \<Rightarrow> nat"
  ff_mount :: "nat \<Rightarrow> nat option \<Rightarrow> 'v \<Rightarrow> FRESULT \<times> 'v"
  ff_vol :: "nat \<Rightarrow> 'v \<Rightarrow> int"
  ff_drv :: "nat \<Rightarrow> 'v \<Rightarrow> u8"
  ff_mkfs :: "nat \<Rightarrow> 'v \<Rightarrow> FRESULT \<times> 'v"
  ff_getfree :: "u8 list \<Rightarrow> 'v \<Rightarrow> FRESULT \<times> (u32 \<times> u32 \<times> u8) \<times> 'v"
  ff_mkdir :: "u8 list \<Rightarrow> 'v \<Rightarrow> FRESULT \<times> 'v"
  ff_opendir :: "u8 list \<Rightarrow> 'v \<Rightarrow> FRESULT \<times> 'g \<times> 'v"
  ff_open :: "u8 list \<Rightarrow> u8 \<Rightarrow> 'v \<Rightarrow> FRESULT \<times> 'f fil \<times> 'v"
  ff_close :: "'f fil \<Rightarrow> 'v \<Rightarrow> FRESULT \<times> 'v"
  ff_sync :: "'f fil \<Rightarrow> 'v \<Rightarrow> FRESULT \<times> 'f fil \<times> 'v"
  ff_read :: "'f fil \<Rightarrow> u32 \<Rightarrow> 'v \<Rightarrow> FRESULT \<times> u8 list \<times> 'f fil \<times> 'v"
  ff_write :: "'f fil \<Rightarrow> u8 list \<Rightarrow> 'v \<Rightarrow> FRESULT \<times> u32 \<times> 'f fil \<times> 'v"
  ff_lseek :: "'f fil \<Rightarrow> u32 \<Rightarrow> 'v \<Rightarrow> FRESULT \<times> 'f fil \<times> 'v"
  ff_seekdir :: "'g \<Rightarrow> u32 \<Rightarrow> 'v \<Rightarrow> FRESULT \<times> 'g \<times> 'v"
  ff_readdir :: "'g \<Rightarrow> 'v \<Rightarrow> FRESULT \<times> filinfo \<times> 'g \<times> 'v"
  ff_unlink :: "u8 list \<Rightarrow> 'v \<Rightarrow> FRESULT \<times> 'v"
  ff_rename :: "u8 list \<Rightarrow> u8 list \<Rightarrow> 'v \<Rightarrow> FRESULT \<times> 'v"
  ff_stat :: "u8 list \<Rightarrow> 'v \<Rightarrow> FRESULT \<times> filinfo \<times> 'v"

text \<open>What the data pointers of a mounted file system and of a descriptor point to.\<close>

datatype ('f, 'g) elm_data = Work nat | File "'f fil" | Directory 'g

text \<open>
  The state: the devices of the volumes, the library's state, the answers of the next allocations
  (\<open>True\<close> when there are no more), and the number of blocks that are allocated.
\<close>

record 'v elm =
  disk :: "string option list"
  vols :: 'v
  heap :: "bool list"
  blocks :: int

definition rt_malloc :: "'v elm \<Rightarrow> bool \<times> 'v elm" where
  "rt_malloc e = (if heap e = [] \<or> hd (heap e) then (True, e\<lparr>heap := tl (heap e), blocks := blocks e + 1\<rparr>)
     else (False, e\<lparr>heap := tl (heap e)\<rparr>))"

definition rt_free :: "'v elm \<Rightarrow> 'v elm" where
  "rt_free e = e\<lparr>blocks := blocks e - 1\<rparr>"

definition on_vols :: "('v \<Rightarrow> FRESULT \<times> 'b \<times> 'v) \<Rightarrow> 'v elm \<Rightarrow> FRESULT \<times> 'b \<times> 'v elm" where
  "on_vols f e = (case f (vols e) of (r, x, v) \<Rightarrow> (r, x, e\<lparr>vols := v\<rparr>))"

definition on_vols' :: "('v \<Rightarrow> FRESULT \<times> 'v) \<Rightarrow> 'v elm \<Rightarrow> FRESULT \<times> 'v elm" where
  "on_vols' f e = (case f (vols e) of (r, v) \<Rightarrow> (r, e\<lparr>vols := v\<rparr>))"

text \<open>The name of a file for the library: the volume's number, a colon, the path, in 256 bytes.\<close>

fun num_text :: "nat \<Rightarrow> u8 list" where
  "num_text n = (if n < 10 then [48 + of_nat n] else num_text (n div 10) @ [48 + of_nat (n mod 10)])"

declare num_text.simps [simp del]

definition vol_path :: "int \<Rightarrow> u8 list \<Rightarrow> u8 list" where
  "vol_path vol p = take 255 (num_text (nat vol) @ 58 # p)"

definition VOLUMES :: nat where "VOLUMES = 2"

definition EEXIST :: int where "EEXIST = 17"
definition EISDIR :: int where "EISDIR = 21"
definition EROFS :: int where "EROFS = 30"
definition O_WRONLY :: u32 where "O_WRONLY = 1"
definition O_RDWR :: u32 where "O_RDWR = 2"
definition O_ACCMODE :: u32 where "O_ACCMODE = 3"
definition O_EXCL :: u32 where "O_EXCL = 0x200"
definition O_TRUNC :: u32 where "O_TRUNC = 0x1000"
definition O_APPEND :: u32 where "O_APPEND = 0x2000"
definition FA_READ :: u8 where "FA_READ = 1"
definition FA_WRITE :: u8 where "FA_WRITE = 2"
definition FA_CREATE_NEW :: u8 where "FA_CREATE_NEW = 4"
definition FA_CREATE_ALWAYS :: u8 where "FA_CREATE_ALWAYS = 8"
definition FA_OPEN_ALWAYS :: u8 where "FA_OPEN_ALWAYS = 0x10"
definition AM_RDO :: u8 where "AM_RDO = 1"
definition AM_DIR :: u8 where "AM_DIR = 0x10"

section \<open>Results\<close>

fun elm_result_to_dfs :: "FRESULT \<Rightarrow> int" where
  "elm_result_to_dfs FR_OK = 0"
| "elm_result_to_dfs FR_NO_FILE = - ENOENT"
| "elm_result_to_dfs FR_NO_PATH = - ENOENT"
| "elm_result_to_dfs FR_NO_FILESYSTEM = - ENOENT"
| "elm_result_to_dfs FR_INVALID_NAME = - EINVAL"
| "elm_result_to_dfs FR_EXIST = - EEXIST"
| "elm_result_to_dfs FR_INVALID_OBJECT = - EEXIST"
| "elm_result_to_dfs FR_DISK_ERR = - EIO"
| "elm_result_to_dfs FR_NOT_READY = - EIO"
| "elm_result_to_dfs FR_INT_ERR = - EIO"
| "elm_result_to_dfs FR_WRITE_PROTECTED = - EROFS"
| "elm_result_to_dfs FR_DENIED = - EROFS"
| "elm_result_to_dfs FR_MKFS_ABORTED = - EINVAL"
| "elm_result_to_dfs r = - 1"

text \<open>The number of a result code.\<close>

fun fresult_code :: "FRESULT \<Rightarrow> u32" where
  "fresult_code FR_OK = 0" | "fresult_code FR_DISK_ERR = 1" | "fresult_code FR_INT_ERR = 2" | "fresult_code FR_NOT_READY = 3"
| "fresult_code FR_NO_FILE = 4" | "fresult_code FR_NO_PATH = 5" | "fresult_code FR_INVALID_NAME = 6" | "fresult_code FR_DENIED = 7"
| "fresult_code FR_EXIST = 8" | "fresult_code FR_INVALID_OBJECT = 9" | "fresult_code FR_WRITE_PROTECTED = 10"
| "fresult_code FR_INVALID_DRIVE = 11" | "fresult_code FR_NOT_ENABLED = 12" | "fresult_code FR_NO_FILESYSTEM = 13"
| "fresult_code FR_MKFS_ABORTED = 14" | "fresult_code FR_TIMEOUT = 15" | "fresult_code FR_LOCKED = 16"
| "fresult_code FR_NOT_ENOUGH_CORE = 17" | "fresult_code FR_TOO_MANY_OPEN_FILES = 18"

section \<open>Volumes\<close>

definition dfs_elm_mount :: "('v, 'f, 'g) fatfs \<Rightarrow> ('f, 'g) elm_data dfs_filesystem \<Rightarrow> u32 \<Rightarrow> ('f, 'g) elm_data option \<Rightarrow> 'v elm \<Rightarrow>
    (int \<times> ('f, 'g) elm_data dfs_filesystem \<times> 'v elm) res" where
  "dfs_elm_mount F fs rwflag data e = (let i = first_empty (disk e) in
     if i = length (disk e) then Ok (- ENOSPC, fs, e)
     else (case rt_malloc (e\<lparr>disk := (disk e)[i := dev_id fs]\<rparr>) of
         (False, e) \<Rightarrow> Ok (- 1, fs, e)
       | (True, e) \<Rightarrow> (let fat = ff_work F (vols e) in
           case on_vols' (ff_mount F i (Some fat)) e of (r, e) \<Rightarrow>
             Ok (if r = FR_OK then (0, fs\<lparr>fs_data := Some (Work fat)\<rparr>, e) else (elm_result_to_dfs r, fs, rt_free e)))))"

text \<open>A failed unmount of one volume goes on to the next one with the same device.\<close>

fun unmount_loop :: "('v, 'f, 'g) fatfs \<Rightarrow> string option \<Rightarrow> nat list \<Rightarrow> 'v elm \<Rightarrow> bool \<times> 'v elm" where
  "unmount_loop F dev [] e = (False, e)"
| "unmount_loop F dev (i # is) e =
    (if disk e ! i = dev then (case on_vols' (ff_mount F i None) e of (r, e) \<Rightarrow>
       if r = FR_OK then (True, rt_free (e\<lparr>disk := (disk e)[i := None]\<rparr>)) else unmount_loop F dev is e)
     else unmount_loop F dev is e)"

definition dfs_elm_unmount :: "('v, 'f, 'g) fatfs \<Rightarrow> ('f, 'g) elm_data dfs_filesystem \<Rightarrow> 'v elm \<Rightarrow>
    (int \<times> ('f, 'g) elm_data dfs_filesystem \<times> 'v elm) res" where
  "dfs_elm_unmount F fs e = (case fs_data fs of None \<Rightarrow> Halt
     | Some w \<Rightarrow> (case unmount_loop F (dev_id fs) [0..<VOLUMES] e of (done, e) \<Rightarrow>
         Ok (if done then (0, fs\<lparr>fs_data := None\<rparr>, e) else (- ENOENT, fs, e))))"

text \<open>The search goes through the device of every volume, also of one that has none. Names have at most 8 characters.\<close>

fun mkfs_loop :: "('v, 'f, 'g) fatfs \<Rightarrow> string \<Rightarrow> nat list \<Rightarrow> 'v elm \<Rightarrow> (int \<times> 'v elm) res" where
  "mkfs_loop F nm [] e = Ok (- EIO, e)"
| "mkfs_loop F nm (i # is) e = (case disk e ! i of None \<Rightarrow> Fault
     | Some d \<Rightarrow> if take 8 d = take 8 nm then (case on_vols' (ff_mkfs F i) e of (r, e) \<Rightarrow> Ok (elm_result_to_dfs r, e))
         else mkfs_loop F nm is e)"

definition dfs_elm_mkfs :: "('v, 'f, 'g) fatfs \<Rightarrow> string \<Rightarrow> 'v elm \<Rightarrow> (int \<times> 'v elm) res" where
  "dfs_elm_mkfs F nm e = mkfs_loop F nm [0..<VOLUMES] e"

definition dfs_elm_statfs :: "('v, 'f, 'g) fatfs \<Rightarrow> ('f, 'g) elm_data dfs_filesystem \<Rightarrow> 'v elm \<Rightarrow> (int \<times> statfs_data \<times> 'v elm) res" where
  "dfs_elm_statfs F fs e = (case fs_data fs of
     Some (Work w) \<Rightarrow> (case on_vols (ff_getfree F (take 3 (num_text (unat (ff_drv F w (vols e))) @ [58]))) e of (r, (free, n_fatent, csize), e) \<Rightarrow>
       let none = \<lparr>f_bsize = 0, f_blocks = 0, f_bfree = 0\<rparr> in
       Ok (if r \<noteq> FR_OK then (elm_result_to_dfs r, none, e)
         else (0, \<lparr>f_bsize = 512, f_blocks = (n_fatent - 2) * ucast csize, f_bfree = free * ucast csize\<rparr>, e)))
   | _ \<Rightarrow> Fault)"

section \<open>Files and directories\<close>

text \<open>A call by name: the volume is looked up, the name built in a block that is given back.\<close>

definition by_name :: "('v, 'f, 'g) fatfs \<Rightarrow> ('f, 'g) elm_data dfs_filesystem \<Rightarrow> u8 list \<Rightarrow>
    (u8 list \<Rightarrow> 'v elm \<Rightarrow> (int \<times> 'b \<times> 'v elm) res) \<Rightarrow> 'b \<Rightarrow> 'v elm \<Rightarrow> (int \<times> 'b \<times> 'v elm) res" where
  "by_name F fs p f b e = (case fs_data fs of
     Some (Work w) \<Rightarrow> (let vol = ff_vol F w (vols e) in
       if vol < 0 then Ok (- ENOENT, b, e)
       else (case rt_malloc e of (False, e) \<Rightarrow> Ok (- ENOMEM, b, e) | (True, e) \<Rightarrow> f (vol_path vol p) e))
   | _ \<Rightarrow> Fault)"

definition open_mode :: "u32 \<Rightarrow> u8" where
  "open_mode flags = FA_READ OR (if flags AND O_WRONLY \<noteq> 0 then FA_WRITE else 0)
     OR (if flags AND O_ACCMODE AND O_RDWR \<noteq> 0 then FA_WRITE else 0) OR (if flags AND O_CREAT \<noteq> 0 then FA_OPEN_ALWAYS else 0)
     OR (if flags AND O_TRUNC \<noteq> 0 then FA_CREATE_ALWAYS else 0) OR (if flags AND O_EXCL \<noteq> 0 then FA_CREATE_NEW else 0)"

definition open_dir :: "('v, 'f, 'g) fatfs \<Rightarrow> u8 list \<Rightarrow> ('f, 'g) elm_data dfs_fd \<Rightarrow> 'v elm \<Rightarrow> int \<times> ('f, 'g) elm_data dfs_fd \<times> 'v elm" where
  "open_dir F nm file e = (case rt_malloc e of
     (False, e) \<Rightarrow> (- ENOMEM, file, rt_free e)
   | (True, e) \<Rightarrow> (case on_vols (ff_opendir F nm) e of (r, d, e) \<Rightarrow> let e = rt_free e in
       if r \<noteq> FR_OK then (elm_result_to_dfs r, file, rt_free e) else (0, file\<lparr>fd_data := Some (Directory d)\<rparr>, e)))"

text \<open>The position of a file opened for appending is the result of the seek, not the place it went to.\<close>

definition open_regular :: "('v, 'f, 'g) fatfs \<Rightarrow> u8 list \<Rightarrow> ('f, 'g) elm_data dfs_fd \<Rightarrow> 'v elm \<Rightarrow> int \<times> ('f, 'g) elm_data dfs_fd \<times> 'v elm" where
  "open_regular F nm file e = (case rt_malloc e of
     (False, e) \<Rightarrow> (- ENOMEM, file, e)
   | (True, e) \<Rightarrow> (case on_vols (ff_open F nm (open_mode (fd_flags file))) e of (r, fd, e) \<Rightarrow> let e = rt_free e in
       if r \<noteq> FR_OK then (elm_result_to_dfs r, file, rt_free e)
       else if fd_flags file AND O_APPEND \<noteq> 0 then
         (case on_vols (ff_lseek F fd (fsize fd)) e of (r, fd', e) \<Rightarrow>
           (0, file\<lparr>fd_pos := fresult_code r, fd_size := fsize fd, fd_data := Some (File fd')\<rparr>, e))
       else (0, file\<lparr>fd_pos := fptr fd, fd_size := fsize fd, fd_data := Some (File fd)\<rparr>, e)))"

definition dfs_elm_open :: "('v, 'f, 'g) fatfs \<Rightarrow> ('f, 'g) elm_data dfs_filesystem \<Rightarrow> ('f, 'g) elm_data dfs_fd \<Rightarrow> 'v elm \<Rightarrow>
    (int \<times> ('f, 'g) elm_data dfs_fd \<times> 'v elm) res" where
  "dfs_elm_open F fs file e = (case fd_path file of None \<Rightarrow> Fault
     | Some p \<Rightarrow> by_name F fs p (\<lambda>nm e.
         if fd_flags file AND O_DIRECTORY \<noteq> 0 then
           (if fd_flags file AND O_CREAT \<noteq> 0 then (case on_vols' (ff_mkdir F nm) e of (r, e) \<Rightarrow>
              Ok (if r \<noteq> FR_OK then (elm_result_to_dfs r, file, rt_free e) else open_dir F nm file e))
            else Ok (open_dir F nm file e))
         else Ok (open_regular F nm file e)) file e)"

definition dfs_elm_close :: "('v, 'f, 'g) fatfs \<Rightarrow> ('f, 'g) elm_data dfs_filesystem \<Rightarrow> ('f, 'g) elm_data dfs_fd \<Rightarrow> 'v elm \<Rightarrow>
    (int \<times> ('f, 'g) elm_data dfs_fd \<times> 'v elm) res" where
  "dfs_elm_close F fs file e =
    (if fd_type file = FT_DIRECTORY then (case fd_data file of None \<Rightarrow> Halt | Some d \<Rightarrow> Ok (0, file, rt_free e))
     else if fd_type file = FT_REGULAR then (case fd_data file of
         None \<Rightarrow> Halt
       | Some (File fd) \<Rightarrow> (case on_vols' (ff_close F fd) e of (r, e) \<Rightarrow>
           Ok (elm_result_to_dfs r, file, if r = FR_OK then rt_free e else e))
       | _ \<Rightarrow> Fault)
     else Ok (0, file, e))"

definition dfs_elm_ioctl :: "('f, 'g) elm_data dfs_filesystem \<Rightarrow> int \<Rightarrow> u32 \<Rightarrow> ('f, 'g) elm_data dfs_fd \<Rightarrow> 'v elm \<Rightarrow>
    (int \<times> ('f, 'g) elm_data dfs_fd \<times> 'v elm) res" where
  "dfs_elm_ioctl fs cmd args file e = Ok (- ENOSYS, file, e)"

definition dfs_elm_read :: "('v, 'f, 'g) fatfs \<Rightarrow> ('f, 'g) elm_data dfs_filesystem \<Rightarrow> u32 \<Rightarrow> ('f, 'g) elm_data dfs_fd \<Rightarrow> 'v elm \<Rightarrow>
    ((int \<times> u8 list) \<times> ('f, 'g) elm_data dfs_fd \<times> 'v elm) res" where
  "dfs_elm_read F fs len file e = (if fd_type file = FT_DIRECTORY then Ok ((- EISDIR, []), file, e)
     else case fd_data file of None \<Rightarrow> Halt
       | Some (File fd) \<Rightarrow> (case ff_read F fd len (vols e) of (r, bs, fd, v) \<Rightarrow>
           Ok ((if r = FR_OK then int (length bs) else elm_result_to_dfs r, bs),
             file\<lparr>fd_pos := fptr fd, fd_data := Some (File fd)\<rparr>, e\<lparr>vols := v\<rparr>))
       | _ \<Rightarrow> Fault)"

definition dfs_elm_write :: "('v, 'f, 'g) fatfs \<Rightarrow> ('f, 'g) elm_data dfs_filesystem \<Rightarrow> u8 list \<Rightarrow> ('f, 'g) elm_data dfs_fd \<Rightarrow> 'v elm \<Rightarrow>
    (int \<times> ('f, 'g) elm_data dfs_fd \<times> 'v elm) res" where
  "dfs_elm_write F fs bs file e = (if fd_type file = FT_DIRECTORY then Ok (- EISDIR, file, e)
     else case fd_data file of None \<Rightarrow> Halt
       | Some (File fd) \<Rightarrow> (case ff_write F fd bs (vols e) of (r, n, fd, v) \<Rightarrow>
           Ok (if r = FR_OK then sint n else elm_result_to_dfs r,
             file\<lparr>fd_pos := fptr fd, fd_size := fsize fd, fd_data := Some (File fd)\<rparr>, e\<lparr>vols := v\<rparr>))
       | _ \<Rightarrow> Fault)"

definition dfs_elm_flush :: "('v, 'f, 'g) fatfs \<Rightarrow> ('f, 'g) elm_data dfs_filesystem \<Rightarrow> ('f, 'g) elm_data dfs_fd \<Rightarrow> 'v elm \<Rightarrow>
    (int \<times> ('f, 'g) elm_data dfs_fd \<times> 'v elm) res" where
  "dfs_elm_flush F fs file e = (case fd_data file of None \<Rightarrow> Halt
     | Some (File fd) \<Rightarrow> (case on_vols (ff_sync F fd) e of (r, fd, e) \<Rightarrow>
         Ok (elm_result_to_dfs r, file\<lparr>fd_data := Some (File fd)\<rparr>, e))
     | _ \<Rightarrow> Fault)"

definition dfs_elm_lseek :: "('v, 'f, 'g) fatfs \<Rightarrow> ('f, 'g) elm_data dfs_filesystem \<Rightarrow> u32 \<Rightarrow> ('f, 'g) elm_data dfs_fd \<Rightarrow> 'v elm \<Rightarrow>
    (int \<times> ('f, 'g) elm_data dfs_fd \<times> 'v elm) res" where
  "dfs_elm_lseek F fs offset file e =
    (if fd_type file = FT_REGULAR then (case fd_data file of None \<Rightarrow> Halt
       | Some (File fd) \<Rightarrow> (case on_vols (ff_lseek F fd offset) e of (r, fd, e) \<Rightarrow>
           Ok (if r = FR_OK then sint (fptr fd) else elm_result_to_dfs r, file\<lparr>fd_data := Some (File fd)\<rparr>, e))
       | _ \<Rightarrow> Fault)
     else if fd_type file = FT_DIRECTORY then (case fd_data file of None \<Rightarrow> Halt
       | Some (Directory d) \<Rightarrow> (case on_vols (ff_seekdir F d (offset div 260)) e of (r, d, e) \<Rightarrow>
           let file = file\<lparr>fd_data := Some (Directory d)\<rparr> in
           Ok (if r = FR_OK then (sint offset, file\<lparr>fd_pos := offset\<rparr>, e) else (elm_result_to_dfs r, file, e)))
       | _ \<Rightarrow> Fault)
     else Ok (0, file, e))"

text \<open>
  A listing of at most \<open>n\<close> entries; the block for the long name is not checked, an entry then reads
  through a null pointer.
\<close>

fun read_entries :: "('v, 'f, 'g) fatfs \<Rightarrow> bool \<Rightarrow> nat \<Rightarrow> 'g \<Rightarrow> 'v elm \<Rightarrow> (FRESULT \<times> dirent list \<times> 'g \<times> 'v elm) res" where
  "read_entries F lfn 0 d e = Ok (FR_OK, [], d, e)"
| "read_entries F lfn (Suc n) d e = (case ff_readdir F d (vols e) of (r, fi, d, v) \<Rightarrow> let e = e\<lparr>vols := v\<rparr> in
     if r \<noteq> FR_OK \<or> fname fi = [] then Ok (r, [], d, e)
     else if \<not> lfn then Fault
     else (let fn = (if lfname fi \<noteq> [] then lfname fi else fname fi) in
       if 255 < length fn then Fault
       else rbind (read_entries F lfn n d e) (\<lambda>(r, es, d, e).
         Ok (r, \<lparr>d_type = (if fattrib fi AND AM_DIR \<noteq> 0 then 2 else 1), d_namlen = of_nat (length fn), d_reclen = 260, d_name = fn\<rparr> # es, d, e))))"

definition dfs_elm_getdents :: "('v, 'f, 'g) fatfs \<Rightarrow> ('f, 'g) elm_data dfs_filesystem \<Rightarrow> u32 \<Rightarrow> ('f, 'g) elm_data dfs_fd \<Rightarrow> 'v elm \<Rightarrow>
    ((int \<times> dirent list) \<times> ('f, 'g) elm_data dfs_fd \<times> 'v elm) res" where
  "dfs_elm_getdents F fs count file e = (case fd_data file of None \<Rightarrow> Halt
     | Some (Directory d) \<Rightarrow>
         if count div 260 = 0 then Ok ((- EINVAL, []), file, e)
         else (case rt_malloc e of (lfn, e) \<Rightarrow>
           rbind (read_entries F lfn (unat (count div 260)) d e) (\<lambda>(r, es, d, e).
             let e = (if lfn then rt_free e else e); file = file\<lparr>fd_data := Some (Directory d)\<rparr> in
             Ok (if es = [] then ((elm_result_to_dfs r, []), file, e)
               else ((int (length es * 260), es), file\<lparr>fd_pos := fd_pos file + of_nat (length es * 260)\<rparr>, e))))
     | _ \<Rightarrow> Fault)"

definition dfs_elm_unlink :: "('v, 'f, 'g) fatfs \<Rightarrow> ('f, 'g) elm_data dfs_filesystem \<Rightarrow> u8 list \<Rightarrow> 'v elm \<Rightarrow> (int \<times> 'v elm) res" where
  "dfs_elm_unlink F fs p e = rbind (by_name F fs p (\<lambda>nm e. case on_vols' (ff_unlink F nm) e of (r, e) \<Rightarrow>
     Ok (elm_result_to_dfs r, (), rt_free e)) () e) (\<lambda>(r, u, e). Ok (r, e))"

text \<open>Only the old name is given its volume. Names that are missing are null pointers.\<close>

definition dfs_elm_rename :: "('v, 'f, 'g) fatfs \<Rightarrow> ('f, 'g) elm_data dfs_filesystem \<Rightarrow> u8 list option \<Rightarrow> u8 list option \<Rightarrow> 'v elm \<Rightarrow>
    (int \<times> 'v elm) res" where
  "dfs_elm_rename F fs oldpath newpath e = (case (oldpath, newpath) of
     (Some old, Some new) \<Rightarrow> rbind (by_name F fs old (\<lambda>nm e. case on_vols' (ff_rename F nm new) e of (r, e) \<Rightarrow>
       Ok (elm_result_to_dfs r, (), rt_free e)) () e) (\<lambda>(r, u, e). Ok (r, e))
   | _ \<Rightarrow> Fault)"

definition stat_of :: "filinfo \<Rightarrow> file_stat" where
  "stat_of fi = \<lparr>st_mode = (if fattrib fi AND AM_DIR \<noteq> 0 then 0x41FF else 0x81B6) AND (if fattrib fi AND AM_RDO \<noteq> 0 then NOT 0x92 else - 1),
     st_size = info_size fi, st_mtime = ucast (ftime fi), st_blksize = 512\<rparr>"

definition dfs_elm_stat :: "('v, 'f, 'g) fatfs \<Rightarrow> ('f, 'g) elm_data dfs_filesystem \<Rightarrow> u8 list \<Rightarrow> 'v elm \<Rightarrow> (int \<times> file_stat \<times> 'v elm) res" where
  "dfs_elm_stat F fs p e = by_name F fs p (\<lambda>nm e. case rt_malloc e of (lfn, e) \<Rightarrow>
     (case on_vols (ff_stat F nm) e of (r, fi, e) \<Rightarrow>
       Ok (elm_result_to_dfs r, if r = FR_OK then stat_of fi else root_stat, if lfn then rt_free (rt_free e) else rt_free e))) root_stat e"

definition dfs_elm :: "('v, 'f, 'g) fatfs \<Rightarrow> (('f, 'g) elm_data, 'v elm) dfs_filesystem_operation" where
  "dfs_elm F = \<lparr>op_name = bytes ''elm'', op_mount = Some (dfs_elm_mount F), op_unmount = Some (dfs_elm_unmount F),
     op_mkfs = Some (dfs_elm_mkfs F), op_statfs = Some (dfs_elm_statfs F), op_open = Some (dfs_elm_open F),
     op_close = Some (dfs_elm_close F), op_ioctl = Some dfs_elm_ioctl, op_read = Some (dfs_elm_read F),
     op_write = Some (dfs_elm_write F), op_flush = Some (dfs_elm_flush F), op_lseek = Some (dfs_elm_lseek F),
     op_getdents = Some (dfs_elm_getdents F), op_unlink = Some (dfs_elm_unlink F), op_stat = Some (dfs_elm_stat F),
     op_rename = Some (dfs_elm_rename F)\<rparr>"

definition elm_init :: "('v, 'f, 'g) fatfs \<Rightarrow> (('f, 'g) elm_data, 'v elm) dfs \<Rightarrow> int \<times> (('f, 'g) elm_data, 'v elm) dfs" where
  "elm_init F s = (0, snd (dfs_register (dfs_elm F) s))"

section \<open>The disk below the library\<close>

datatype DRESULT = RES_OK | RES_ERROR

text \<open>
  The kernel's read and write of a device are parameters: they take the device of the drive (\<open>None\<close>, the
  null pointer, for a drive without one) and return the number of sectors done; a write need not
  return. A drive that is no volume is outside the array.
\<close>

definition drive :: "'v elm \<Rightarrow> u8 \<Rightarrow> string option res" where
  "drive e drv = (if unat drv < length (disk e) then Ok (disk e ! unat drv) else Fault)"

definition disk_read :: "(string option \<Rightarrow> u32 \<Rightarrow> nat \<Rightarrow> 'l \<Rightarrow> nat \<times> u8 list \<times> 'l) \<Rightarrow> 'v elm \<Rightarrow> u8 \<Rightarrow> u32 \<Rightarrow> u8 \<Rightarrow> 'l \<Rightarrow>
    (DRESULT \<times> u8 list \<times> 'l) res" where
  "disk_read rd e drv sector count l = rbind (drive e drv) (\<lambda>device. case rd device sector (unat count) l of (n, bs, l) \<Rightarrow>
     Ok (if n = unat count then RES_OK else RES_ERROR, bs, l))"

definition disk_write :: "(string option \<Rightarrow> u32 \<Rightarrow> u8 list \<Rightarrow> nat \<Rightarrow> 'l \<Rightarrow> (nat \<times> 'l) option) \<Rightarrow> 'v elm \<Rightarrow> u8 \<Rightarrow> u8 list \<Rightarrow> u32 \<Rightarrow> u8 \<Rightarrow> 'l \<Rightarrow>
    (DRESULT \<times> 'l) option res" where
  "disk_write wr e drv buff sector count l = rbind (drive e drv) (\<lambda>device. Ok (case wr device sector buff (unat count) l of
     None \<Rightarrow> None | Some (n, l) \<Rightarrow> Some (if n = unat count then RES_OK else RES_ERROR, l)))"

definition disk_initialize :: "u8 \<Rightarrow> u8" where "disk_initialize drv = 0"

definition disk_status :: "u8 \<Rightarrow> u8" where "disk_status drv = 0"

text \<open>
  The geometry of each device, zeros when it does not answer: sectors, bytes of a sector, bytes of a
  block. The second part of the result is what is stored for the library.
\<close>

definition disk_ioctl :: "(string \<Rightarrow> u32 \<times> u32 \<times> u32) \<Rightarrow> 'v elm \<Rightarrow> u8 \<Rightarrow> u8 \<Rightarrow> (DRESULT \<times> u32 option) res" where
  "disk_ioctl geometry e drv ctrl = rbind (drive e drv) (\<lambda>device. case device of
     None \<Rightarrow> Ok (RES_ERROR, None)
   | Some d \<Rightarrow> (case geometry d of (sector_count, bytes_per_sector, block_size) \<Rightarrow>
       if ctrl = 1 then Ok (if sector_count = 0 then RES_ERROR else RES_OK, Some sector_count)
       else if ctrl = 2 then Ok (RES_OK, Some (bytes_per_sector AND 0xFFFF))
       else if ctrl = 3 then (if bytes_per_sector = 0 then Fault else Ok (RES_OK, Some (block_size div bytes_per_sector)))
       else Ok (RES_OK, None)))"

section \<open>It keeps to the contract\<close>

lemma result_sign [simp]: "elm_result_to_dfs r \<le> 0" "elm_result_to_dfs r = 0 \<longleftrightarrow> r = FR_OK" "elm_result_to_dfs r < 0 \<longleftrightarrow> r \<noteq> FR_OK"
  by (cases r; simp add: ENOENT_def EINVAL_def EEXIST_def EIO_def EROFS_def)+

lemma on_vols_blocks:
  "on_vols f e = (r, x, e') \<Longrightarrow> blocks e' = blocks e \<and> heap e' = heap e \<and> disk e' = disk e"
  "on_vols' g e = (r, e') \<Longrightarrow> blocks e' = blocks e \<and> heap e' = heap e \<and> disk e' = disk e"
  by (auto simp: on_vols_def on_vols'_def split: prod.splits)

lemma malloc_ok: "heap e = [] \<Longrightarrow> rt_malloc e = (True, e\<lparr>blocks := blocks e + 1\<rparr>)"
  by (cases e) (simp add: rt_malloc_def)

lemma free_fields [simp]: "blocks (rt_free e) = blocks e - 1" "heap (rt_free e) = heap e" "disk (rt_free e) = disk e"
  by (simp_all add: rt_free_def)

text \<open>What an allocation uses of the answers.\<close>

definition answered :: "bool \<Rightarrow> 'v elm \<Rightarrow> 'v elm \<Rightarrow> bool" where
  "answered ok e e' = (heap e = ok # heap e' \<or> ok \<and> heap e = [] \<and> heap e' = [])"

lemma malloc_any: "rt_malloc e = (ok, e') \<Longrightarrow> answered ok e e' \<and> blocks e' = blocks e + (if ok then 1 else 0)"
  by (cases "heap e") (auto simp: rt_malloc_def answered_def split: if_splits)

lemma by_name_Ok:
  assumes "by_name F fs p f b e = Ok (r, x, e')"
  shows "(r < 0 \<and> x = b \<and> blocks e' = blocks e \<and> (heap e' = heap e \<or> answered False e e')) \<or>
    (\<exists>nm e1. f nm e1 = Ok (r, x, e') \<and> blocks e1 = blocks e + 1 \<and> answered True e e1)"
  using assms
  by (auto simp: by_name_def Let_def ENOENT_def ENOMEM_def dest!: malloc_any split: option.splits elm_data.splits if_splits prod.splits bool.splits)

lemma by_name_any:
  assumes "by_name F fs p f b e = Ok (r, x, e')"
  shows "x = b \<or> (\<exists>nm e1. f nm e1 = Ok (r, x, e'))"
  using assms by (auto simp: by_name_def Let_def split: option.splits elm_data.splits if_splits prod.splits bool.splits)

lemma open_dir_keeps: "open_dir F nm d e = (r, d', e') \<Longrightarrow> keeps d d'"
  by (auto simp: open_dir_def keeps_def Let_def split: prod.splits bool.splits if_splits)

lemma open_file_keeps: "open_regular F nm d e = (r, d', e') \<Longrightarrow> keeps d d'"
  by (auto simp: open_regular_def keeps_def Let_def split: prod.splits bool.splits if_splits)

lemma elm_keeps:
  "dfs_elm_open F f d e = Ok (r, d', e') \<Longrightarrow> keeps d d'"
  "dfs_elm_close F f d e = Ok (r, d', e') \<Longrightarrow> keeps d d'"
  "dfs_elm_read F f n d e = Ok (x, d', e') \<Longrightarrow> keeps d d'"
  "dfs_elm_write F f bs d e = Ok (r, d', e') \<Longrightarrow> keeps d d'"
  "dfs_elm_lseek F f n d e = Ok (r, d', e') \<Longrightarrow> keeps d d'"
  "dfs_elm_getdents F f n d e = Ok (y, d', e') \<Longrightarrow> keeps d d'"
proof -
  assume "dfs_elm_open F f d e = Ok (r, d', e')"
  then show "keeps d d'"
    by (auto simp: dfs_elm_open_def dest!: by_name_any split: option.splits if_splits prod.splits intro: open_dir_keeps open_file_keeps)
next
  show "dfs_elm_close F f d e = Ok (r, d', e') \<Longrightarrow> keeps d d'"
    by (auto simp: dfs_elm_close_def split: if_splits option.splits elm_data.splits prod.splits)
next
  show "dfs_elm_read F f n d e = Ok (x, d', e') \<Longrightarrow> keeps d d'"
    by (auto simp: dfs_elm_read_def keeps_def split: if_splits option.splits elm_data.splits prod.splits)
next
  show "dfs_elm_write F f bs d e = Ok (r, d', e') \<Longrightarrow> keeps d d'"
    by (auto simp: dfs_elm_write_def keeps_def split: if_splits option.splits elm_data.splits prod.splits)
next
  show "dfs_elm_lseek F f n d e = Ok (r, d', e') \<Longrightarrow> keeps d d'"
    by (auto simp: dfs_elm_lseek_def keeps_def Let_def split: if_splits option.splits elm_data.splits prod.splits)
next
  show "dfs_elm_getdents F f n d e = Ok (y, d', e') \<Longrightarrow> keeps d d'"
    by (auto simp: dfs_elm_getdents_def keeps_def rbind_Ok_iff Let_def split: if_splits option.splits elm_data.splits prod.splits)
qed

interpretation elm: fs_type "dfs_elm F :: (('f, 'g) elm_data, 'v elm) dfs_filesystem_operation"
  by unfold_locales (auto simp: dfs_elm_def dest: elm_keeps)

section \<open>Blocks\<close>

text \<open>
  A failed open gives back what it took, but for the name of a file whose object could not be
  allocated; a successful one holds one block: the object behind the descriptor.
\<close>

lemma open_dir_blocks: "open_dir F nm d e = (r, d', e') \<Longrightarrow>
    if r < 0 then blocks e' = blocks e - 1 else r = 0 \<and> blocks e' = blocks e \<and> (\<exists>x. fd_data d' = Some (Directory x))"
  by (auto simp: open_dir_def Let_def ENOMEM_def dest!: malloc_any on_vols_blocks(1) split: prod.splits bool.splits if_splits)

lemma open_file_blocks: "open_regular F nm d e = (r, d', e') \<Longrightarrow>
    if r < 0 then blocks e' = blocks e - (if heap e = False # heap e' then 0 else 1)
    else r = 0 \<and> blocks e' = blocks e \<and> (\<exists>x. fd_data d' = Some (File x))"
  by (auto simp: open_regular_def answered_def Let_def ENOMEM_def dest!: malloc_any on_vols_blocks(1) split: prod.splits bool.splits if_splits)

text \<open>The open keeps the name's block: the second of its two allocations, the one for a file object, is refused.\<close>

definition name_lost :: "u32 \<Rightarrow> 'v elm \<Rightarrow> 'v elm \<Rightarrow> bool" where
  "name_lost flags e e' = (flags AND O_DIRECTORY = 0 \<and> heap e = True # False # heap e')"

lemma open_blocks:
  assumes "dfs_elm_open F fs d e = Ok (r, d', e')"
  shows "if r < 0 then blocks e' = blocks e + (if name_lost (fd_flags d) e e' then 1 else 0) else r = 0 \<and> blocks e' = blocks e + 1 \<and>
    (\<exists>x. fd_data d' = Some (if fd_flags d AND O_DIRECTORY \<noteq> 0 then Directory (fst x) else File (snd x)))"
proof -
  obtain p where p: "fd_path d = Some p" using assms(1) by (auto simp: dfs_elm_open_def split: option.splits)
  from assms(1) have "by_name F fs p (\<lambda>nm e.
         if fd_flags d AND O_DIRECTORY \<noteq> 0 then
           (if fd_flags d AND O_CREAT \<noteq> 0 then (case on_vols' (ff_mkdir F nm) e of (r, e) \<Rightarrow>
              Ok (if r \<noteq> FR_OK then (elm_result_to_dfs r, d, rt_free e) else open_dir F nm d e))
            else Ok (open_dir F nm d e))
         else Ok (open_regular F nm d e)) d e = Ok (r, d', e')" by (simp only: dfs_elm_open_def p option.case)
  from by_name_Ok [OF this]
  consider "r < 0" "blocks e' = blocks e" "heap e' = heap e \<or> answered False e e'"
    | nm e0 r1 e1 where "fd_flags d AND O_DIRECTORY \<noteq> 0" "blocks e0 = blocks e + 1" "on_vols' (ff_mkdir F nm) e0 = (r1, e1)"
        "(if r1 \<noteq> FR_OK then (elm_result_to_dfs r1, d, rt_free e1) else open_dir F nm d e1) = (r, d', e')"
    | nm e0 where "fd_flags d AND O_DIRECTORY \<noteq> 0" "blocks e0 = blocks e + 1" "open_dir F nm d e0 = (r, d', e')"
    | nm e0 where "fd_flags d AND O_DIRECTORY = 0" "blocks e0 = blocks e + 1" "answered True e e0" "open_regular F nm d e0 = (r, d', e')"
    by (elim disjE exE conjE) (simp_all split: if_split_asm prod.split_asm)
  then show ?thesis
  proof cases
    case 1
    then have "heap e \<noteq> True # False # heap e'" by (auto simp: answered_def)
    then show ?thesis using 1 by (simp add: name_lost_def)
  next
    case (2 nm e0 r1 e1)
    then have b: "blocks e1 = blocks e + 1" using on_vols_blocks(2) [OF 2(3)] by simp
    show ?thesis
    proof (cases "r1 = FR_OK")
      case True
      then have "open_dir F nm d e1 = (r, d', e')" using 2(4) by simp
      from open_dir_blocks [OF this] show ?thesis using b 2(1) by (auto simp: name_lost_def)
    qed (use 2(1,4) b in \<open>auto simp: name_lost_def\<close>)
  next
    case (3 nm e0)
    from open_dir_blocks [OF 3(3)] show ?thesis using 3(1,2) by (auto simp: name_lost_def)
  next
    case (4 nm e0)
    have h: "heap e0 = False # heap e' \<longleftrightarrow> heap e = True # False # heap e'" using 4(3) by (auto simp: answered_def)
    from open_file_blocks [OF 4(4)] show ?thesis using 4(1,2) by (auto simp: name_lost_def h split: if_splits)
  qed
qed

text \<open>
  C28. Whatever the allocations answer, an open of the FAT file system that fails keeps no memory, but for
  one case: the name of a file, when the allocation of its object is refused. Closing what a
  successful open opened gives back the one block it held, unless the library refuses to close it.
\<close>

theorem elm_open_close_balanced:
  assumes "dfs_elm_open F fs d e = Ok (r, d', e1)"
    and "fd_type d1 = (if fd_flags d AND O_DIRECTORY \<noteq> 0 then FT_DIRECTORY else FT_REGULAR)" and "fd_data d1 = fd_data d'"
  shows "if r < 0 then blocks e1 = blocks e + (if name_lost (fd_flags d) e e1 then 1 else 0)
    else \<exists>r2 d2 e2. dfs_elm_close F fs d1 e1 = Ok (r2, d2, e2) \<and> blocks e2 = (if r2 < 0 then blocks e + 1 else blocks e)"
proof (cases "r < 0")
  case True
  then show ?thesis using open_blocks [OF assms(1)] by simp
next
  case False
  then have b: "blocks e1 = blocks e + 1" and x: "\<exists>x. fd_data d1 = Some (if fd_flags d AND O_DIRECTORY \<noteq> 0 then Directory (fst x) else File (snd x))"
    using open_blocks [OF assms(1)] assms(3) by auto
  show ?thesis
  proof (cases "fd_flags d AND O_DIRECTORY \<noteq> 0")
    case True
    then show ?thesis using False x b assms(2) by (auto simp: dfs_elm_close_def)
  next
    case reg: False
    then obtain f where f: "fd_data d1 = Some (File f)" using x by auto
    obtain r3 e3 where c: "on_vols' (ff_close F f) e1 = (r3, e3)" by fastforce
    then have "blocks e3 = blocks e + 1" using on_vols_blocks(2) [OF c] b by simp
    then show ?thesis using False reg f c assms(2) by (auto simp: dfs_elm_close_def FT_REGULAR_def FT_DIRECTORY_def)
  qed
qed

text \<open>A library for which everything succeeds, on files of 100 bytes.\<close>

definition kind_fat :: "(unit, unit, unit) fatfs" where
  "kind_fat = \<lparr>ff_work = (\<lambda>v. 1), ff_mount = (\<lambda>i w v. (FR_OK, v)), ff_vol = (\<lambda>w v. 0), ff_drv = (\<lambda>w v. 0), ff_mkfs = (\<lambda>i v. (FR_OK, v)),
     ff_getfree = (\<lambda>p v. (FR_OK, (5, 10, 8), v)), ff_mkdir = (\<lambda>p v. (FR_OK, v)), ff_opendir = (\<lambda>p v. (FR_OK, (), v)),
     ff_open = (\<lambda>p m v. (FR_OK, \<lparr>fptr = 0, fsize = 100, fil_rest = ()\<rparr>, v)), ff_close = (\<lambda>f v. (FR_OK, v)), ff_sync = (\<lambda>f v. (FR_OK, f, v)),
     ff_read = (\<lambda>f n v. (FR_OK, [], f, v)), ff_write = (\<lambda>f bs v. (FR_OK, 0, f, v)), ff_lseek = (\<lambda>f n v. (FR_OK, f\<lparr>fptr := n\<rparr>, v)),
     ff_seekdir = (\<lambda>d n v. (FR_OK, d, v)), ff_readdir = (\<lambda>d v. (FR_OK, \<lparr>fname = [], lfname = [], fattrib = 0, info_size = 0, ftime = 0\<rparr>, d, v)),
     ff_unlink = (\<lambda>p v. (FR_OK, v)), ff_rename = (\<lambda>p q v. (FR_OK, v)),
     ff_stat = (\<lambda>p v. (FR_OK, \<lparr>fname = [97], lfname = [], fattrib = 0, info_size = 100, ftime = 0\<rparr>, v))\<rparr>"

definition kind_fs :: "(unit, unit) elm_data dfs_filesystem" where
  "kind_fs = \<lparr>dev_id = Some ''sd0'', fs_path = Some [47], fs_data = Some (Work 1)\<rparr>"

definition kind_elm :: "unit elm" where
  "kind_elm = \<lparr>disk = [Some ''sd0'', None], vols = (), heap = [], blocks = 1\<rparr>"

definition kind_fd :: "u32 \<Rightarrow> (unit, unit) elm_data dfs_fd" where
  "kind_fd flags = no_fd\<lparr>fd_flags := flags, fd_path := Some (bytes ''/a.txt''), fd_fs := Some 0\<rparr>"

theorem elm_open_close_balanced_witness:
  "(\<exists>d1 e1 r2 d2 e2. dfs_elm_open kind_fat kind_fs (kind_fd 0) kind_elm = Ok (0, d1, e1) \<and>
    dfs_elm_close kind_fat kind_fs d1 e1 = Ok (r2, d2, e2) \<and> blocks e2 = (if r2 < 0 then 2 else 1)) \<and>
   (\<exists>d1 e1. dfs_elm_open kind_fat kind_fs (kind_fd 0) (kind_elm\<lparr>heap := [True, False]\<rparr>) = Ok (- ENOMEM, d1, e1) \<and> blocks e1 = 2)"
proof
  have "(case dfs_elm_open kind_fat kind_fs (kind_fd 0) kind_elm of Ok (r, d, e) \<Rightarrow> r = 0 \<and> fd_type d = 0 | _ \<Rightarrow> False)" by code_simp
  then obtain d1 e1 where o: "dfs_elm_open kind_fat kind_fs (kind_fd 0) kind_elm = Ok (0, d1, e1)" "fd_type d1 = 0"
    by (auto split: res.splits)
  have h: "blocks kind_elm = 1" "fd_flags (kind_fd 0) AND O_DIRECTORY = 0" by (simp_all add: kind_elm_def kind_fd_def)
  have "fd_type d1 = (if fd_flags (kind_fd 0) AND O_DIRECTORY \<noteq> 0 then FT_DIRECTORY else FT_REGULAR)"
    using o(2) h(2) by (simp add: FT_REGULAR_def)
  from elm_open_close_balanced [OF o(1) this refl] o(1)
  show "\<exists>d1 e1 r2 d2 e2. dfs_elm_open kind_fat kind_fs (kind_fd 0) kind_elm = Ok (0, d1, e1) \<and>
      dfs_elm_close kind_fat kind_fs d1 e1 = Ok (r2, d2, e2) \<and> blocks e2 = (if r2 < 0 then 2 else 1)" unfolding h(1) by auto
next
  let ?e = "kind_elm\<lparr>heap := [True, False]\<rparr>"
  have "(case dfs_elm_open kind_fat kind_fs (kind_fd 0) ?e of Ok (r, d, e) \<Rightarrow> r = - ENOMEM \<and> heap e = [] | _ \<Rightarrow> False)" by code_simp
  then obtain d1 e1 where o: "dfs_elm_open kind_fat kind_fs (kind_fd 0) ?e = Ok (- ENOMEM, d1, e1)" "heap e1 = []"
    by (auto split: res.splits)
  have "name_lost (fd_flags (kind_fd 0)) ?e e1" by (simp add: name_lost_def kind_fd_def o(2))
  with elm_open_close_balanced [OF o(1), of "kind_fd 0\<lparr>fd_type := FT_REGULAR, fd_data := fd_data d1\<rparr>"]
  have "blocks e1 = 2" by (simp add: ENOMEM_def kind_elm_def kind_fd_def)
  then show "\<exists>d1 e1. dfs_elm_open kind_fat kind_fs (kind_fd 0) ?e = Ok (- ENOMEM, d1, e1) \<and> blocks e1 = 2" using o(1) by blast
qed

section \<open>Where it goes wrong\<close>

text \<open>A file opened for appending says its position is 0, while the library writes at its end.\<close>

lemma append_position:
  "(case dfs_elm_open kind_fat kind_fs (kind_fd O_APPEND) kind_elm of
     Ok (r, d, e) \<Rightarrow> r = 0 \<and> fd_pos d = 0 \<and> (case fd_data d of Some (File f) \<Rightarrow> fptr f = 100 | _ \<Rightarrow> False) | _ \<Rightarrow> False)"
  by code_simp

lemma append_result: "heap e = [] \<Longrightarrow> open_regular F nm d e = (0, d', e') \<Longrightarrow> fd_flags d AND O_APPEND \<noteq> 0 \<Longrightarrow> \<exists>r. fd_pos d' = fresult_code r"
  by (auto simp: open_regular_def malloc_ok Let_def split: prod.splits if_splits)

text \<open>The name block is not given back when there is no memory for the file object.\<close>

lemma open_leaks:
  "(case dfs_elm_open kind_fat kind_fs (kind_fd 0) (kind_elm\<lparr>heap := [True, False]\<rparr>) of
     Ok (r, d, e) \<Rightarrow> r = - ENOMEM \<and> blocks e = 2 | _ \<Rightarrow> False)"
  by code_simp

text \<open>Formatting looks at the name of a device that is not there.\<close>

lemma mkfs_null: "disk e ! 0 = None \<Longrightarrow> dfs_elm_mkfs F nm e = Fault"
  by (simp add: dfs_elm_mkfs_def VOLUMES_def upt_rec)

text \<open>A mount that fails keeps its volume; when both are kept there is no place for another one.\<close>

lemma failed_mount_keeps_volume:
  assumes "heap e = []" and "dev_id fs = Some n" and "first_empty (disk e) < length (disk e)"
    and "\<And>i w v. fst (ff_mount F i w v) \<noteq> FR_OK"
  shows "\<exists>r e'. dfs_elm_mount F fs rw data e = Ok (r, fs, e') \<and> r < 0 \<and> disk e' = (disk e)[first_empty (disk e) := Some n]"
proof -
  let ?e = "e\<lparr>disk := (disk e)[first_empty (disk e) := Some n]\<rparr>"
  have "heap ?e = []" using assms(1) by simp
  note m = malloc_ok [OF this]
  obtain r e' where o: "on_vols' (ff_mount F (first_empty (disk e)) (Some (ff_work F (vols e)))) (?e\<lparr>blocks := blocks ?e + 1\<rparr>) = (r, e')"
    by fastforce
  then have "r \<noteq> FR_OK" using assms(4) by (auto simp: on_vols'_def split: prod.splits) (metis fst_conv)
  moreover have "disk e' = (disk e)[first_empty (disk e) := Some n]" using on_vols_blocks(2) [OF o] by simp
  ultimately show ?thesis using assms(2,3) o m by (simp add: dfs_elm_mount_def Let_def)
qed

end
