(* ===== verification/Romfs.thy ===== *)
theory Romfs
  imports Dfs_Table
begin

text \<open>
  The file system in read-only memory (\<open>RTT/components/dfs/filesystems/romfs/dfs_romfs.c\<close>, its example
  image \<open>romfs.c\<close>), a type for the tables of \<open>Dfs_Fs\<close>. A mounted image and an open file keep a pointer to
  a directory entry; here the entry itself, since the image never changes. \<open>rt_strncmp\<close> compares
  as the C library's \<open>strncmp\<close> does.
\<close>

unbundle bit_operations_syntax

section \<open>Images\<close>

text \<open>The data pointer of an entry is null, or points to bytes or to an array of entries.\<close>

datatype romfs_dirent = Romfs_dirent (de_type: u32) (de_name: "u8 list") (de_data: romfs_data) (de_size: u32)
  and romfs_data = Null_data | Byte_data "u8 list" | Entry_data "romfs_dirent list"

definition ROMFS_DIRENT_FILE :: u32 where "ROMFS_DIRENT_FILE = 0"
definition ROMFS_DIRENT_DIR :: u32 where "ROMFS_DIRENT_DIR = 1"

definition this_is_a_file :: "u8 list" where
  "this_is_a_file = bytes ''this is a file!'' @ [0x0d, 0x0a]"

definition romfs_root :: romfs_dirent where
  "romfs_root = Romfs_dirent ROMFS_DIRENT_DIR (bytes ''/'') (Entry_data [
     Romfs_dirent ROMFS_DIRENT_DIR (bytes ''dummy'') (Entry_data [
       Romfs_dirent ROMFS_DIRENT_FILE (bytes ''dummy.txt'') (Byte_data this_is_a_file) 17]) 1,
     Romfs_dirent ROMFS_DIRENT_FILE (bytes ''dummy.txt'') (Byte_data this_is_a_file) 17]) 2"

section \<open>Operations\<close>

definition dfs_romfs_mount :: "romfs_dirent dfs_filesystem \<Rightarrow> u32 \<Rightarrow> romfs_dirent option \<Rightarrow> 'd \<Rightarrow>
    (int \<times> romfs_dirent dfs_filesystem \<times> 'd) res" where
  "dfs_romfs_mount fs rwflag data dr = Ok (case data of None \<Rightarrow> (- EIO, fs, dr) | Some r \<Rightarrow> (0, fs\<lparr>fs_data := Some r\<rparr>, dr))"

definition dfs_romfs_unmount :: "romfs_dirent dfs_filesystem \<Rightarrow> 'd \<Rightarrow> (int \<times> romfs_dirent dfs_filesystem \<times> 'd) res" where
  "dfs_romfs_unmount fs dr = Ok (0, fs, dr)"

definition dfs_romfs_ioctl :: "romfs_dirent dfs_filesystem \<Rightarrow> int \<Rightarrow> u32 \<Rightarrow> romfs_dirent dfs_fd \<Rightarrow> 'd \<Rightarrow>
    (int \<times> romfs_dirent dfs_fd \<times> 'd) res" where
  "dfs_romfs_ioctl fs cmd args file dr = Ok (- EIO, file, dr)"

text \<open>
  The search through one directory compares over the length of the name looked for, so an entry
  whose name only starts with it is taken as well.
\<close>

fun search :: "romfs_dirent list \<Rightarrow> nat \<Rightarrow> u8 list \<Rightarrow> romfs_dirent option res" where
  "search es 0 c = Ok None"
| "search [] (Suc n) c = Fault"
| "search (e # es) (Suc n) c = (if take (length c) (de_name e) = c then Ok (Some e) else search es n c)"

definition sub_name :: "u8 list \<Rightarrow> u8 list" where
  "sub_name p = takeWhile (\<lambda>c. c \<noteq> 47) (skip_slashes p)"

definition sub_rest :: "u8 list \<Rightarrow> u8 list" where
  "sub_rest p = dropWhile (\<lambda>c. c \<noteq> 47) (skip_slashes p)"

lemma sub_rest_shorter: "sub_name p \<noteq> [] \<Longrightarrow> length (sub_rest p) < length p"
  using names_shorter [of p] by (cases "skip_slashes p = []") (simp_all add: sub_name_def sub_rest_def)

lemma sub_name_Nil: "sub_name p = [] \<longleftrightarrow> skip_slashes p = []"
  using skip_hd [of p] by (cases "skip_slashes p") (simp_all add: sub_name_def)

lemma sub_name_empty: "sub_name p = [] \<Longrightarrow> sub_name (sub_rest p) = []"
  unfolding sub_name_Nil sub_rest_def by (simp add: skip_slashes_def del: dropWhile_eq_Nil_conv)

text \<open>\<open>p\<close> is the path from the name looked for on, \<open>d\<close> and \<open>n\<close> the directory's data and size.\<close>

function walk :: "romfs_data \<Rightarrow> u32 \<Rightarrow> u8 list \<Rightarrow> (romfs_dirent \<times> u32) option res" where
  "walk d n p = (case d of
     Null_data \<Rightarrow> Ok None
   | Byte_data bs \<Rightarrow> (if n = 0 then Ok None else Fault)
   | Entry_data es \<Rightarrow> rbind (search es (unat n) (sub_name p)) (\<lambda>m. case m of
       None \<Rightarrow> Ok None
     | Some e \<Rightarrow>
         if sub_name (sub_rest p) = [] then Ok (Some (e, de_size e))
         else if de_type e = ROMFS_DIRENT_DIR then walk (de_data e) (de_size e) (sub_rest p)
         else Ok None))"
  by pat_completeness auto

termination
proof (relation "measure (\<lambda>(d, n, p). length p)", goal_cases)
  case (2 d n p)
  then have "sub_name p \<noteq> []" using sub_name_empty by blast
  then show ?case using sub_rest_shorter by simp
qed simp

declare walk.simps [simp del]

definition dfs_romfs_lookup :: "romfs_dirent \<Rightarrow> u8 list \<Rightarrow> (romfs_dirent \<times> u32) option res" where
  "dfs_romfs_lookup root p = (if p = [47] then Ok (Some (root, de_size root)) else walk (de_data root) (de_size root) p)"

definition bytes_at :: "romfs_dirent \<Rightarrow> nat \<Rightarrow> nat \<Rightarrow> u8 list res" where
  "bytes_at e pos n = (case de_data e of
     Byte_data bs \<Rightarrow> if pos + n \<le> length bs then Ok (take n (drop pos bs)) else Fault
   | _ \<Rightarrow> Fault)"

definition dfs_romfs_read :: "romfs_dirent dfs_filesystem \<Rightarrow> u32 \<Rightarrow> romfs_dirent dfs_fd \<Rightarrow> 'd \<Rightarrow>
    ((int \<times> u8 list) \<times> romfs_dirent dfs_fd \<times> 'd) res" where
  "dfs_romfs_read fs count file dr = (case fd_data file of None \<Rightarrow> Halt
     | Some e \<Rightarrow> (let n = (if count < fd_size file - fd_pos file then count else fd_size file - fd_pos file) in
         rbind (if 0 < n then bytes_at e (unat (fd_pos file)) (unat n) else Ok []) (\<lambda>bs.
           Ok ((sint n, bs), file\<lparr>fd_pos := fd_pos file + n\<rparr>, dr))))"

definition dfs_romfs_lseek :: "romfs_dirent dfs_filesystem \<Rightarrow> u32 \<Rightarrow> romfs_dirent dfs_fd \<Rightarrow> 'd \<Rightarrow>
    (int \<times> romfs_dirent dfs_fd \<times> 'd) res" where
  "dfs_romfs_lseek fs offset file dr =
    Ok (if offset \<le> fd_size file then (sint offset, file\<lparr>fd_pos := offset\<rparr>, dr) else (- EIO, file, dr))"

definition dfs_romfs_close :: "romfs_dirent dfs_filesystem \<Rightarrow> romfs_dirent dfs_fd \<Rightarrow> 'd \<Rightarrow> (int \<times> romfs_dirent dfs_fd \<times> 'd) res" where
  "dfs_romfs_close fs file dr = Ok (0, file\<lparr>fd_data := None\<rparr>, dr)"

definition O_WRONLY :: u32 where "O_WRONLY = 1"
definition O_RDWR :: u32 where "O_RDWR = 2"
definition O_TRUNC :: u32 where "O_TRUNC = 0x1000"
definition O_APPEND :: u32 where "O_APPEND = 0x2000"

definition dfs_romfs_open :: "romfs_dirent dfs_filesystem \<Rightarrow> romfs_dirent dfs_fd \<Rightarrow> 'd \<Rightarrow> (int \<times> romfs_dirent dfs_fd \<times> 'd) res" where
  "dfs_romfs_open fs file dr =
    (if fd_flags file AND (O_CREAT OR O_WRONLY OR O_APPEND OR O_TRUNC OR O_RDWR) \<noteq> 0 then Ok (- EINVAL, file, dr)
     else case (fs_data fs, fd_path file) of
       (Some root, Some p) \<Rightarrow> rbind (dfs_romfs_lookup root p) (\<lambda>m. case m of
         None \<Rightarrow> Ok (- ENOENT, file, dr)
       | Some (e, n) \<Rightarrow>
           if (de_type e = ROMFS_DIRENT_DIR) \<noteq> (fd_flags file AND O_DIRECTORY \<noteq> 0) then Ok (- ENOENT, file, dr)
           else Ok (0, file\<lparr>fd_data := Some e, fd_size := n, fd_pos := 0\<rparr>, dr))
     | _ \<Rightarrow> Fault)"

definition dfs_romfs_stat :: "romfs_dirent dfs_filesystem \<Rightarrow> u8 list \<Rightarrow> 'd \<Rightarrow> (int \<times> file_stat \<times> 'd) res" where
  "dfs_romfs_stat fs p dr = (case fs_data fs of None \<Rightarrow> Fault
     | Some root \<Rightarrow> rbind (dfs_romfs_lookup root p) (\<lambda>m. case m of
         None \<Rightarrow> Ok (- ENOENT, root_stat, dr)
       | Some (e, n) \<Rightarrow> Ok (0, \<lparr>st_mode = (if de_type e = ROMFS_DIRENT_DIR then 0x41FF else 0x81B6), st_size = de_size e,
           st_mtime = 0, st_blksize = 512\<rparr>, dr)))"

text \<open>
  The listing fills as many structures of 260 bytes as fit the buffer; a name of more than 255
  characters would be copied over the structure behind.
\<close>

definition dirent_of :: "romfs_dirent \<Rightarrow> dirent" where
  "dirent_of e = \<lparr>d_type = (if de_type e = ROMFS_DIRENT_DIR then 2 else 1), d_namlen = of_nat (length (de_name e)),
     d_reclen = 260, d_name = de_name e\<rparr>"

fun list_entries :: "romfs_dirent list \<Rightarrow> nat \<Rightarrow> u32 \<Rightarrow> u32 \<Rightarrow> dirent list res" where
  "list_entries es 0 pos n = Ok []"
| "list_entries es (Suc k) pos n =
    (if n \<le> pos then Ok []
     else if length es \<le> unat pos \<or> 255 < length (de_name (es ! unat pos)) then Fault
     else rbind (list_entries es k (pos + 1) n) (\<lambda>ds. Ok (dirent_of (es ! unat pos) # ds)))"

definition dfs_romfs_getdents :: "romfs_dirent dfs_filesystem \<Rightarrow> u32 \<Rightarrow> romfs_dirent dfs_fd \<Rightarrow> 'd \<Rightarrow>
    ((int \<times> dirent list) \<times> romfs_dirent dfs_fd \<times> 'd) res" where
  "dfs_romfs_getdents fs count file dr = (case fd_data file of None \<Rightarrow> Fault
     | Some e \<Rightarrow>
         if de_type e \<noteq> ROMFS_DIRENT_DIR then Halt
         else if count div 260 = 0 then Ok ((- EINVAL, []), file, dr)
         else rbind (case de_data e of Entry_data es \<Rightarrow> list_entries es (unat (count div 260)) (fd_pos file) (fd_size file)
             | _ \<Rightarrow> if fd_size file \<le> fd_pos file then Ok [] else Fault) (\<lambda>ds.
           Ok ((int (length ds * 260), ds), file\<lparr>fd_pos := fd_pos file + of_nat (length ds)\<rparr>, dr)))"

definition romfs :: "(romfs_dirent, 'd) dfs_filesystem_operation" where
  "romfs = \<lparr>op_name = bytes ''rom'', op_mount = Some dfs_romfs_mount, op_unmount = Some dfs_romfs_unmount,
     op_mkfs = None, op_statfs = None, op_open = Some dfs_romfs_open, op_close = Some dfs_romfs_close,
     op_ioctl = Some dfs_romfs_ioctl, op_read = Some dfs_romfs_read, op_write = None, op_flush = None,
     op_lseek = Some dfs_romfs_lseek, op_getdents = Some dfs_romfs_getdents, op_unlink = None,
     op_stat = Some dfs_romfs_stat, op_rename = None\<rparr>"

definition dfs_romfs_init :: "(romfs_dirent, 'd) dfs \<Rightarrow> int \<times> (romfs_dirent, 'd) dfs" where
  "dfs_romfs_init s = (0, snd (dfs_register romfs s))"

section \<open>It keeps to the contract\<close>

lemma romfs_keeps:
  "dfs_romfs_open f d dr = Ok (r, d', dr') \<Longrightarrow> keeps d d'"
  "dfs_romfs_close f d dr = Ok (r, d', dr') \<Longrightarrow> keeps d d'"
  "dfs_romfs_read f n d dr = Ok (x, d', dr') \<Longrightarrow> keeps d d'"
  "dfs_romfs_lseek f n d dr = Ok (r, d', dr') \<Longrightarrow> keeps d d'"
  "dfs_romfs_getdents f n d dr = Ok (y, d', dr') \<Longrightarrow> keeps d d'"
proof -
  assume o: "dfs_romfs_open f d dr = Ok (r, d', dr')"
  obtain m where "dfs_romfs_lookup (the (fs_data f)) (the (fd_path d)) = Ok m \<or> d' = d"
    using o by (auto simp: dfs_romfs_open_def rbind_Ok_iff split: if_splits option.splits)
  with o show "keeps d d'"
    by (cases m) (auto simp: dfs_romfs_open_def keeps_def split: if_splits option.splits)
qed (auto simp: dfs_romfs_close_def dfs_romfs_read_def dfs_romfs_lseek_def dfs_romfs_getdents_def keeps_def rbind_Ok_iff Let_def
  split: if_splits option.splits)

interpretation rom: fs_type "romfs :: (romfs_dirent, 'd) dfs_filesystem_operation"
  by unfold_locales (auto simp: romfs_def dest: romfs_keeps)

end
