(* ===== verification/Dfs_Rom.thy ===== *)
theory Dfs_Rom
  imports Romfs
begin

text \<open>
  The device file system with an image mounted: the paths of an image lead to their entries, a file
  is read in pieces, a directory is listed; and the properties of the table of descriptors, shown on
  this file system.
\<close>

unbundle bit_operations_syntax

section \<open>Entries of an image\<close>

text \<open>A reference: the entry that a list of names leads to, with exact comparison of names.\<close>

fun tree_at :: "romfs_dirent \<Rightarrow> u8 list list \<Rightarrow> romfs_dirent option" where
  "tree_at e [] = Some e"
| "tree_at e (c # cs) = (case de_data e of
     Entry_data es \<Rightarrow> if de_type e = ROMFS_DIRENT_DIR
       then (case find (\<lambda>x. de_name x = c) es of None \<Rightarrow> None | Some x \<Rightarrow> tree_at x cs) else None
   | _ \<Rightarrow> None)"

text \<open>An image as the tool writes it; no name in a directory begins with the name of a later entry.\<close>

definition no_shadow :: "romfs_dirent list \<Rightarrow> bool" where
  "no_shadow es \<longleftrightarrow> sorted_wrt (\<lambda>a b. take (length (de_name b)) (de_name a) \<noteq> de_name b) es"

fun image_ok :: "romfs_dirent \<Rightarrow> bool" where
  "image_ok (Romfs_dirent t nm (Entry_data es) n) \<longleftrightarrow> t = ROMFS_DIRENT_DIR \<and> length es = unat n \<and> n < 0x800000 \<and>
     (\<forall>e \<in> set es. image_ok e \<and> length (de_name e) \<le> 255) \<and> no_shadow es"
| "image_ok (Romfs_dirent t nm (Byte_data bs) n) \<longleftrightarrow> t = ROMFS_DIRENT_FILE \<and> length bs = unat n \<and> n < 0x80000000"
| "image_ok (Romfs_dirent t nm Null_data n) \<longleftrightarrow> n = 0"

lemma search_exact: "no_shadow es \<Longrightarrow> find (\<lambda>x. de_name x = c) es = Some x \<Longrightarrow> search es (length es) c = Ok (Some x)"
proof (induction es)
  case (Cons e es)
  show ?case
  proof (cases "de_name e = c")
    case False
    then have "find (\<lambda>x. de_name x = c) es = Some x" using Cons.prems(2) by simp
    moreover from this have "x \<in> set es" "de_name x = c" by (auto simp: find_Some_iff)
    ultimately show ?thesis using Cons by (auto simp: no_shadow_def)
  qed (use Cons.prems(2) in simp)
qed simp

lemma sub_first:
  assumes "proper c" and "r = [] \<or> hd r = 47"
  shows "sub_name (47 # c @ r) = c" "sub_rest (47 # c @ r) = r"
proof -
  have s: "skip_slashes (47 # c @ r) = c @ r"
    using assms(1) skip_id [of "c @ r"] by (cases c) (auto simp: proper_def skip_slashes_def)
  have "takeWhile (\<lambda>c. c \<noteq> 47) (c @ r) = c \<and> dropWhile (\<lambda>c. c \<noteq> 47) (c @ r) = r"
    using assms by (cases r) (auto simp: proper_def takeWhile_append dropWhile_append)
  then show "sub_name (47 # c @ r) = c" "sub_rest (47 # c @ r) = r"
    by (simp_all add: sub_name_def sub_rest_def s)
qed

lemma walk_exact:
  assumes "image_ok e0" and "\<forall>c \<in> set (c # cs). proper c" and "tree_at e0 (c # cs) = Some e"
  shows "walk (de_data e0) (de_size e0) (concat (map (\<lambda>c. 47 # c) (c # cs))) = Ok (Some (e, de_size e))"
  using assms
proof (induction cs arbitrary: e0 c)
  case Nil
  then obtain nm es n where e0: "e0 = Romfs_dirent ROMFS_DIRENT_DIR nm (Entry_data es) n" "find (\<lambda>x. de_name x = c) es = Some e"
    by (cases e0; cases "de_data e0") (auto split: if_splits option.splits)
  then have "search es (unat n) c = Ok (Some e)" using Nil.prems(1) search_exact by fastforce
  then show ?case
    using Nil.prems(2) sub_first [of c "[]"] e0 by (subst walk.simps) (simp add: sub_name_def skip_slashes_def)
next
  case (Cons c' cs)
  then obtain nm es n x where e0: "e0 = Romfs_dirent ROMFS_DIRENT_DIR nm (Entry_data es) n" "find (\<lambda>x. de_name x = c) es = Some x"
    and x: "tree_at x (c' # cs) = Some e"
    by (cases e0; cases "de_data e0") (auto split: if_splits option.splits)
  have ok: "image_ok x" using e0 Cons.prems(1) by (auto simp: find_Some_iff)
  have s: "search es (unat n) c = Ok (Some x)" using Cons.prems(1) e0 search_exact by fastforce
  let ?r = "concat (map (\<lambda>c. 47 # c) (c' # cs))"
  have f: "sub_name (47 # c @ ?r) = c" "sub_rest (47 # c @ ?r) = ?r"
    using sub_first [of c ?r] Cons.prems(2) by simp_all
  have "sub_name ?r = c'"
    using sub_first [of c' "concat (map (\<lambda>c. 47 # c) cs)"] Cons.prems(2) by (cases cs) simp_all
  moreover have "c' \<noteq> []" using Cons.prems(2) by (simp add: proper_def)
  moreover have "de_type x = ROMFS_DIRENT_DIR" using x by (auto split: romfs_data.splits if_splits)
  moreover have "walk (de_data x) (de_size x) ?r = Ok (Some (e, de_size e))"
    using Cons.IH [OF ok _ x] Cons.prems(2) by simp
  ultimately have "walk (de_data e0) (de_size e0) (47 # c @ ?r) = Ok (Some (e, de_size e))"
    using e0 s f by (subst walk.simps) simp
  then show ?case by simp
qed

text \<open>
  In an image no name of which begins with the name of a later entry beside it, the lookup of a path
  finds the entry that exact comparison of names leads to.
\<close>

lemma lookup_exact:
  assumes "image_ok root" and "\<forall>c \<in> set cs. proper c" and "tree_at root cs = Some e"
  shows "dfs_romfs_lookup root (render cs) = Ok (Some (e, de_size e))"
proof (cases cs)
  case Nil
  then show ?thesis using assms(3) by (simp add: dfs_romfs_lookup_def render_def)
next
  case (Cons c cs')
  then have "c \<noteq> []" using assms(2) by (simp add: proper_def)
  then show ?thesis
    using walk_exact [of root c cs' e] assms Cons by (simp add: dfs_romfs_lookup_def render_def)
qed

text \<open>The lookup takes a name for every entry that begins with it: \<open>/d\<close> finds \<open>/dummy\<close>.\<close>

lemma prefix_found:
  "tree_at romfs_root [bytes ''d''] = None"
  "dfs_romfs_lookup romfs_root (bytes ''/d'') = dfs_romfs_lookup romfs_root (bytes ''/dummy'')"
  by code_simp+

section \<open>A mounted image\<close>

definition rom_mounted :: "romfs_dirent \<Rightarrow> (romfs_dirent, 'd) dfs \<Rightarrow> bool" where
  "rom_mounted root s \<longleftrightarrow> filesystem_table s = [(Some romfs, \<lparr>dev_id = None, fs_path = Some [47], fs_data = Some root\<rparr>), no_fs]"

definition boot_rom :: "romfs_dirent \<Rightarrow> (romfs_dirent, 'd) dfs \<Rightarrow> (int \<times> (romfs_dirent, 'd) dfs) res" where
  "boot_rom root s = dfs_mount None [47] (bytes ''rom'') 0 (Some root) (snd (dfs_romfs_init (dfs_init s)))"

lemma boot_mounts: "\<exists>s'. boot_rom root s = Ok (0, s') \<and> rom_mounted root s' \<and> fd_table s' = replicate DFS_FD_MAX no_fd"
proof -
  have "dfs_normalize_path None [47] = Ok (Some [47])" by code_simp
  then show ?thesis
    by (simp add: boot_rom_def dfs_mount_def dfs_romfs_init_def dfs_register_def dfs_init_def DFS_FILESYSTEM_TYPES_MAX_def
      DFS_FILESYSTEMS_MAX_def numeral_nat romfs_def directory_exists_def no_fs_def mount_at_def dfs_romfs_mount_def call_dev_def
      open_dev_def set_fs_def rom_mounted_def Let_def)
qed

lemma boot_tidy: "rom_mounted root s \<Longrightarrow> fd_table s = replicate DFS_FD_MAX no_fd \<Longrightarrow> tidy s \<and> used s = {}"
  using rom.fs_type_axioms
  by (auto simp: tidy_def used_def rom_mounted_def entry_ok_def no_fs_def no_fd_def)

lemma empty_not_full: "used s = {} \<Longrightarrow> used s \<noteq> {..<DFS_FD_MAX}"
  by (metis DFS_FD_MAX_def empty_iff lessThan_iff zero_less_numeral)

lemma render_slash: "\<exists>r. render cs = 47 # r"
  by (cases cs) (auto simp: render_def)

lemma rom_lookup: "rom_mounted root s \<Longrightarrow> dfs_filesystem_lookup (render cs) s = Some 0"
  using render_slash [of cs] by (auto simp: rom_mounted_def dfs_filesystem_lookup_def above_def no_fs_def)

lemma rom_sub: "rom_mounted root s \<Longrightarrow> \<forall>c \<in> set cs. proper c \<Longrightarrow> \<exists>sub. sub_path (render cs) 0 s = Ok sub \<and> or_root sub = render cs"
proof (cases cs)
  case (Cons c cs')
  moreover assume "rom_mounted root s" "\<forall>c \<in> set cs. proper c"
  ultimately show ?thesis
    by (cases c) (auto simp: rom_mounted_def sub_path_def dfs_subdir_def render_def or_root_def proper_def)
qed (auto simp: rom_mounted_def sub_path_def dfs_subdir_def render_def or_root_def)

lemma names_proper: "c \<in> set (names p) \<Longrightarrow> proper c"
proof (induction p rule: names.induct)
  case (1 p)
  show ?case
  proof (cases "skip_slashes p = []")
    case False
    then have n: "names p = takeWhile (\<lambda>c. c \<noteq> 47) (skip_slashes p) # names (dropWhile (\<lambda>c. c \<noteq> 47) (skip_slashes p))"
      by (subst names.simps) (simp add: Let_def)
    have "proper (takeWhile (\<lambda>c. c \<noteq> 47) (skip_slashes p))"
      using names_first(2) [OF False] skip_hd [of p] False by simp
    then show ?thesis using 1 n False by (auto simp: Let_def)
  qed (use 1 in \<open>subst (asm) names.simps, simp\<close>)
qed

lemma resolve_proper: "resolve acc ns = Some cs \<Longrightarrow> \<forall>c \<in> set acc. proper c \<Longrightarrow> \<forall>c \<in> set ns. proper c \<Longrightarrow> \<forall>c \<in> set cs. proper c"
  by (induction acc ns rule: resolve.induct) (auto split: if_splits dest: in_set_butlastD)

lemma path_proper: "resolve [] (names p) = Some cs \<Longrightarrow> \<forall>c \<in> set cs. proper c"
  by (rule resolve_proper [of "[]" "names p"]) (auto intro: names_proper)

text \<open>An open descriptor on an entry.\<close>

definition on_entry :: "romfs_dirent \<Rightarrow> nat \<Rightarrow> nat \<Rightarrow> (romfs_dirent, 'd) dfs \<Rightarrow> bool" where
  "on_entry e pos i s \<longleftrightarrow> i < length (fd_table s) \<and> i < DFS_FD_MAX \<and> (let d = fd_table s ! i in
     fd_data d = Some e \<and> fd_size d = de_size e \<and> pos \<le> unat (de_size e) \<and> fd_pos d = of_nat pos \<and> fd_fs d = Some 0 \<and> ref_count d = 1 \<and>
     fd_type d = (if de_type e = ROMFS_DIRENT_DIR then FT_DIRECTORY else FT_REGULAR))"

lemma open_entry:
  assumes "rom_mounted root s" and "image_ok root" and "resolve [] (names p) = Some cs" and "tree_at root cs = Some e"
    and "flags = (if de_type e = ROMFS_DIRENT_DIR then O_DIRECTORY else 0)"
  shows "\<exists>d. dfs_file_open d0 (47 # p) flags s = Ok (0, d, s) \<and>
    fd_data d = Some e \<and> fd_size d = de_size e \<and> fd_pos d = 0 \<and> fd_fs d = Some 0 \<and> ref_count d = ref_count d0 \<and>
    fd_type d = (if de_type e = ROMFS_DIRENT_DIR then FT_DIRECTORY else FT_REGULAR)"
proof -
  note pr = path_proper [OF assms(3)]
  obtain sub where sub: "sub_path (render cs) 0 s = Ok sub" "or_root sub = render cs" using rom_sub [OF assms(1) pr] by blast
  have n: "dfs_normalize_path None (47 # p) = Ok (Some (render cs))"
    using norm_absolute [OF assms(3)] by (simp add: dfs_normalize_path_def)
  have l: "dfs_romfs_lookup root (render cs) = Ok (Some (e, de_size e))" by (rule lookup_exact [OF assms(2) pr assms(4)])
  have fl: "flags AND (O_CREAT OR O_WRONLY OR O_APPEND OR O_TRUNC OR O_RDWR) = 0"
    "(flags AND O_DIRECTORY \<noteq> 0) = (de_type e = ROMFS_DIRENT_DIR)"
    by (simp_all add: assms(5) O_CREAT_def O_WRONLY_def O_APPEND_def O_TRUNC_def O_RDWR_def O_DIRECTORY_def)
  let ?f = "\<lparr>dev_id = None, fs_path = Some [47], fs_data = Some root\<rparr>"
  let ?d = "d0\<lparr>fd_fs := Some 0, fd_type := FT_REGULAR, fd_flags := flags, fd_size := 0, fd_pos := 0,
    fd_path := Some (render cs)\<rparr>"
  let ?d' = "?d\<lparr>fd_data := Some e, fd_size := de_size e, fd_pos := 0\<rparr>"
  have ops: "fd_ops d s = Ok (romfs, ?f)" if "fd_fs d = Some 0" for d :: "romfs_dirent dfs_fd"
    using assms(1) that by (simp add: fd_ops_def rom_mounted_def)
  have o: "op_open romfs = Some dfs_romfs_open" by (simp add: romfs_def)
  have r: "dfs_romfs_open ?f ?d (drivers s) = Ok (0, ?d', drivers s)"
    using fl by (simp add: dfs_romfs_open_def l)
  have "dfs_file_open d0 (47 # p) flags s = Ok (0, opened flags ?d', s\<lparr>drivers := drivers s\<rparr>)"
    unfolding dfs_file_open_def n rbind_simps option.case rom_lookup [OF assms(1)] sub Let_def
    by (simp add: ops o r sub(2))
  moreover have "s\<lparr>drivers := drivers s\<rparr> = s" by simp
  ultimately show ?thesis
    using fl(2) by (simp add: opened_def Let_def)
qed

lemma open_posix:
  assumes "rom_mounted root s" and "tidy s" and "used s \<noteq> {..<DFS_FD_MAX}"
    and "image_ok root" and "resolve [] (names p) = Some cs" and "tree_at root cs = Some e" and "de_type e \<noteq> ROMFS_DIRENT_DIR"
    and i: "i = first_free (fd_table s)"
  shows "\<exists>s'. posix_open (47 # p) 0 s = Ok (int i, s') \<and> on_entry e 0 i s' \<and> rom_mounted root s'"
proof -
  have flags: "0 = (if de_type e = ROMFS_DIRENT_DIR then O_DIRECTORY else 0)" using assms(7) by simp
  obtain s1 where n: "fd_new s = (int i, s1)" "fd_get (int i) s1 = (Some i, set_fd i ((fd_table s ! i)\<lparr>ref_count := 2\<rparr>) s)"
    using new_and_get [OF tidy_length [OF assms(2)] assms(3) i] by blast
  have il: "i < DFS_FD_MAX" "i < length (fd_table s)"
    using free_place(2) [OF tidy_length [OF assms(2)] assms(3)] i tidy_length [OF assms(2)] by auto
  let ?d = "(fd_table s ! i)\<lparr>ref_count := 2\<rparr>" 
  let ?s = "set_fd i ?d s"
  have "rom_mounted root ?s" using assms(1) by (simp add: rom_mounted_def)
  from open_entry [OF this assms(4-6) flags, of ?d]
  obtain d where d: "dfs_file_open ?d (47 # p) 0 ?s = Ok (0, d, ?s)"
    "fd_data d = Some e" "fd_size d = de_size e" "fd_pos d = 0" "fd_fs d = Some 0" "ref_count d = 2" "fd_type d = FT_REGULAR"
    using assms(7) by auto
  then show ?thesis
    using il assms(1,7) by (simp add: posix_open_def n fd_put_at on_entry_def rom_mounted_def)
qed

section \<open>Reading a file\<close>

lemma sint_small:
  fixes n :: u32
  assumes "unat n < 2 ^ 31"
  shows "sint n = int (unat n)"
proof -
  have "int (unat n) < int (2 ^ 31)" using assms by (simp only: of_nat_less_iff)
  then have "uint n < 2 ^ 31" by simp
  then have "signed_take_bit 31 (uint n) = uint n" using uint_ge_0 [of n] by (intro signed_take_bit_int_eq_self) linarith+
  then show ?thesis by (simp add: sint_uint)
qed

lemma read_size:
  fixes n size pos :: u32
  assumes "pos \<le> size" and "n' = (if n < size - pos then n else size - pos)"
  shows "unat n' = min (unat n) (unat size - unat pos)"
  using assms by (simp add: word_less_nat_alt unat_sub)

lemma rom_read:
  fixes d :: "romfs_dirent dfs_fd"
  assumes "rom_mounted root s" and "de_data e = Byte_data bs" and "length bs = unat (de_size e)" and "unat (de_size e) < 2 ^ 31"
    and pos: "pos \<le> unat (de_size e)" "fd_pos d = of_nat pos"
    and d: "fd_data d = Some e" "fd_size d = de_size e" "fd_fs d = Some 0"
  shows "dfs_file_read d n s = Ok (int (length (take (unat n) (drop pos bs))), take (unat n) (drop pos bs),
    d\<lparr>fd_pos := of_nat (pos + length (take (unat n) (drop pos bs)))\<rparr>, s)"
proof -
  let ?k = "length (take (unat n) (drop pos bs))"
  let ?f = "\<lparr>dev_id = None, fs_path = Some [47], fs_data = Some root\<rparr>"
  let ?n = "if n < de_size e - of_nat pos then n else de_size e - of_nat pos"
  have up: "unat (of_nat pos :: u32) = pos" using pos(1) assms(4)  by (intro unat_of_nat_lt) simp
  have "(of_nat pos :: u32) \<le> de_size e" using up pos(1) by (simp add: word_le_nat_alt)
  from read_size [OF this refl, of n] have un: "unat ?n = ?k" using up assms(3) by simp
  have k: "?k < 2 ^ 31" "pos + ?k \<le> length bs" using assms(3,4) pos(1) by auto
  have dr: "bytes_at e pos ?k = Ok (take (unat n) (drop pos bs))"
    using k(2) assms(2) by (simp add: bytes_at_def min_def)
  have z: "?n = 0 \<longleftrightarrow> ?k = 0" by (simp only: un [symmetric] unat_eq_0)
  have sn: "?n = of_nat ?k" using arg_cong [OF un, of "of_nat :: nat \<Rightarrow> u32"] by simp
  have r: "dfs_romfs_read ?f n d (drivers s) = Ok ((int ?k, take (unat n) (drop pos bs)), d\<lparr>fd_pos := of_nat (pos + ?k)\<rparr>, drivers s)"
  proof -
    have "of_nat pos + ?n = (of_nat (pos + ?k) :: u32)" unfolding sn by simp
    moreover have "sint ?n = int ?k" using sint_small [of ?n] un k(1) by simp
    moreover have "(if 0 < ?n then bytes_at e pos ?k else Ok []) = Ok (take (unat n) (drop pos bs))"
    proof (cases "?k = 0")
      case True
      then have "?n = 0" "take (unat n) (drop pos bs) = []" using z by (blast, metis length_0_conv)
      then show ?thesis by simp
    next
      case False
      then have "0 < ?n" unfolding word_gt_0 using z by argo
      then show ?thesis using dr by simp
    qed
    ultimately show ?thesis
      unfolding dfs_romfs_read_def d option.case pos(2) Let_def up un by simp
  qed
  show ?thesis
    using assms(1) r by (simp add: dfs_file_read_def fd_ops_def d rom_mounted_def romfs_def del: of_nat_add)
qed

lemma read_piece:
  assumes "rom_mounted root s" and "on_entry e pos i s" and "de_data e = Byte_data bs" and "length bs = unat (de_size e)"
    and "unat (de_size e) < 2 ^ 31"
  shows "\<exists>s'. posix_read (int i) n s = Ok (int (length (take (unat n) (drop pos bs))), take (unat n) (drop pos bs), s') \<and>
    on_entry e (pos + length (take (unat n) (drop pos bs))) i s' \<and> rom_mounted root s'"
proof -
  let ?d = "(fd_table s ! i)\<lparr>ref_count := 2\<rparr>" and ?k = "length (take (unat n) (drop pos bs))"
  have il: "i < DFS_FD_MAX" "i < length (fd_table s)" and pos: "pos \<le> unat (de_size e)" "fd_pos ?d = of_nat pos"
    and d: "fd_data ?d = Some e" "fd_size ?d = de_size e" "fd_fs ?d = Some 0" "ref_count (fd_table s ! i) = 1"
      "fd_type ?d = (if de_type e = ROMFS_DIRENT_DIR then FT_DIRECTORY else FT_REGULAR)"
    using assms(2) by (simp_all add: on_entry_def Let_def)
  have rm: "rom_mounted root (set_fd i ?d s)" using assms(1) by (simp add: rom_mounted_def)
  have f: "dfs_file_read ?d n (set_fd i ?d s) = Ok (int ?k, take (unat n) (drop pos bs), ?d\<lparr>fd_pos := of_nat (pos + ?k)\<rparr>, set_fd i ?d s)"
    by (rule rom_read [OF rm assms(3-5) pos d(1-3)])
  have k: "pos + ?k \<le> length bs" using assms(4) pos(1) by auto
  have "posix_read (int i) n s = Ok (int ?k, take (unat n) (drop pos bs), set_fd i (?d\<lparr>fd_pos := of_nat (pos + ?k), ref_count := 1\<rparr>) s)"
    using il d(4) f by (simp add: posix_read_def on_fd_def fd_get_in fd_put_at del: of_nat_add)
  then show ?thesis
    using il d assms(1) k assms(4) by (simp add: on_entry_def rom_mounted_def Let_def del: of_nat_add)
qed

text \<open>A file is read in pieces.\<close>

fun reads :: "int \<Rightarrow> u32 list \<Rightarrow> ('a, 'd) dfs \<Rightarrow> ((int \<times> u8 list) list \<times> ('a, 'd) dfs) res" where
  "reads fd [] s = Ok ([], s)"
| "reads fd (n # ns) s = rbind (posix_read fd n s) (\<lambda>(r, bs, s). rbind (reads fd ns s) (\<lambda>(rs, s). Ok ((r, bs) # rs, s)))"

fun pieces :: "u8 list \<Rightarrow> nat list \<Rightarrow> u8 list list" where
  "pieces bs [] = []"
| "pieces bs (n # ns) = take n bs # pieces (drop n bs) ns"

lemma concat_pieces: "concat (pieces bs ns) = take (sum_list ns) bs"
  by (induction bs ns rule: pieces.induct) (auto simp: take_add)

lemma read_pieces:
  assumes "rom_mounted root s" and "on_entry e pos i s" and "de_data e = Byte_data bs" and "length bs = unat (de_size e)"
    and "unat (de_size e) < 2 ^ 31"
  shows "\<exists>s'. reads (int i) ns s = Ok (map (\<lambda>b. (int (length b), b)) (pieces (drop pos bs) (map unat ns)), s') \<and>
    rom_mounted root s' \<and> on_entry e (min (length bs) (pos + sum_list (map unat ns))) i s'"
  using assms(1,2)
proof (induction ns arbitrary: s pos)
  case Nil
  then have "pos \<le> length bs" using assms(4) by (simp add: on_entry_def Let_def)
  then show ?case using Nil by simp
next
  case (Cons n ns)
  let ?b = "take (unat n) (drop pos bs)"
  obtain s1 where s1: "posix_read (int i) n s = Ok (int (length ?b), ?b, s1)" "on_entry e (pos + length ?b) i s1" "rom_mounted root s1"
    using read_piece [OF Cons.prems assms(3-5)] by blast
  have "pos \<le> length bs" using Cons.prems(2) assms(4) by (simp add: on_entry_def Let_def)
  then have q: "drop (pos + length ?b) bs = drop (unat n) (drop pos bs)"
    "min (length bs) (pos + length ?b + k) = min (length bs) (pos + (unat n + k))" for k
    by (auto simp: min_def add.commute)
  then show ?case using Cons.IH [OF s1(3,2)] s1(1) by auto
qed

text \<open>
  C10. On a mounted image whose path leads to a file, however the absolute path is spelled, opening
  for reading takes the least free descriptor, and reading with any list of buffer sizes returns the
  file's bytes piece by piece, then nothing.
\<close>

theorem rom_file_read_in_pieces:
  assumes "rom_mounted root s" and "tidy s" and "used s \<noteq> {..<DFS_FD_MAX}" and "image_ok root"
    and "resolve [] (names p) = Some cs" and "tree_at root cs = Some (Romfs_dirent ROMFS_DIRENT_FILE nm (Byte_data bs) n)"
    and "length bs = unat n" and "unat n < 2 ^ 31"
  shows "\<exists>s1 s2. posix_open (47 # p) 0 s = Ok (int (first_free (fd_table s)), s1) \<and>
    reads (int (first_free (fd_table s))) ns s1 = Ok (map (\<lambda>b. (int (length b), b)) (pieces bs (map unat ns)), s2)"
proof -
  let ?i = "first_free (fd_table s)"
  obtain s1 where s1: "posix_open (47 # p) 0 s = Ok (int ?i, s1)" "on_entry (Romfs_dirent ROMFS_DIRENT_FILE nm (Byte_data bs) n) 0 ?i s1"
    "rom_mounted root s1"
    using open_posix [OF assms(1-6) _ refl] by (auto simp: ROMFS_DIRENT_FILE_def ROMFS_DIRENT_DIR_def)
  then show ?thesis using read_pieces [OF s1(3,2), of bs ns] assms(7,8) by fastforce
qed

theorem rom_file_read_in_pieces_witness:
  "\<exists>s s1 s2 :: (romfs_dirent, unit) dfs. posix_open (bytes ''//dummy/../dummy/dummy.txt'') 0 s = Ok (0, s1) \<and>
    reads 0 [5, 100, 7] s1 = Ok ([(5, bytes ''this ''), (12, bytes ''is a file!'' @ [13, 10]), (0, [])], s2)"
proof -
  obtain s :: "(romfs_dirent, unit) dfs" where s: "rom_mounted romfs_root s" "fd_table s = replicate DFS_FD_MAX no_fd"
    using boot_mounts by blast
  have t: "tidy s" "used s \<noteq> {..<DFS_FD_MAX}" using boot_tidy [OF s] empty_not_full by blast+
  have ok: "image_ok romfs_root" by code_simp
  have r: "resolve [] (names (bytes ''/dummy/../dummy/dummy.txt'')) = Some [bytes ''dummy'', bytes ''dummy.txt'']" by code_simp
  have e: "tree_at romfs_root [bytes ''dummy'', bytes ''dummy.txt''] =
      Some (Romfs_dirent ROMFS_DIRENT_FILE (bytes ''dummy.txt'') (Byte_data this_is_a_file) 17)" by code_simp
  have l: "length this_is_a_file = unat (17 :: u32)" "unat (17 :: u32) < 2 ^ 31" by (simp_all add: this_is_a_file_def)
  have i: "first_free (fd_table s) = 0" by (simp add: s(2) DFS_FD_MAX_def numeral_nat no_fd_def)
  have p: "47 # bytes ''/dummy/../dummy/dummy.txt'' = bytes ''//dummy/../dummy/dummy.txt''" by simp
  have m: "map (\<lambda>b. (int (length b), b)) (pieces this_is_a_file (map unat [5, 100, 7 :: u32])) =
      [(5, bytes ''this ''), (12, bytes ''is a file!'' @ [13, 10]), (0, [])]" by code_simp
  from rom_file_read_in_pieces [OF s(1) t ok r e l, of "[5, 100, 7]", unfolded i p m int_ops(1)]
  show ?thesis by (elim exE conjE) (intro exI conjI)
qed

section \<open>Listing a directory\<close>

text \<open>What the stream has given: the entries before \<open>k\<close>; one structure at a time fits its buffer.\<close>

definition streaming :: "romfs_dirent \<Rightarrow> nat \<Rightarrow> nat \<Rightarrow> dir \<Rightarrow> (romfs_dirent, 'd) dfs \<Rightarrow> bool" where
  "streaming e k i d s \<longleftrightarrow> on_entry e k i s \<and> dir_fd d = int i \<and>
     (dir_num d = 0 \<or> dir_num d = 260 \<and> dir_cur d = 0 \<and> (\<exists>x. dir_buf d = [x] \<and> d_reclen x = 260))"

fun readdirs :: "nat \<Rightarrow> dir \<Rightarrow> ('a, 'd) dfs \<Rightarrow> (dirent list \<times> dir \<times> ('a, 'd) dfs) res" where
  "readdirs 0 d s = Ok ([], d, s)"
| "readdirs (Suc k) d s = rbind (posix_readdir d s) (\<lambda>(e, d, s). case e of
     None \<Rightarrow> Ok ([], d, s)
   | Some e \<Rightarrow> rbind (readdirs k d s) (\<lambda>(es, d, s). Ok (e # es, d, s)))"

lemma open_stream:
  assumes "rom_mounted root s" and "tidy s" and "used s \<noteq> {..<DFS_FD_MAX}"
    and "image_ok root" and "resolve [] (names p) = Some cs" and "tree_at root cs = Some e" and "de_type e = ROMFS_DIRENT_DIR"
    and i: "i = first_free (fd_table s)"
  shows "\<exists>d s'. posix_opendir True (47 # p) s = Ok (Some d, s') \<and> streaming e 0 i d s' \<and> rom_mounted root s'"
proof -
  have flags: "O_DIRECTORY = (if de_type e = ROMFS_DIRENT_DIR then O_DIRECTORY else 0)" using assms(7) by simp
  obtain s1 where n: "fd_new s = (int i, s1)" "fd_get (int i) s1 = (Some i, set_fd i ((fd_table s ! i)\<lparr>ref_count := 2\<rparr>) s)"
    using new_and_get [OF tidy_length [OF assms(2)] assms(3) i] by blast
  have il: "i < DFS_FD_MAX" "i < length (fd_table s)"
    using free_place(2) [OF tidy_length [OF assms(2)] assms(3)] i tidy_length [OF assms(2)] by auto
  let ?d = "(fd_table s ! i)\<lparr>ref_count := 2\<rparr>" 
  let ?s = "set_fd i ?d s"
  have "rom_mounted root ?s" using assms(1) by (simp add: rom_mounted_def)
  from open_entry [OF this assms(4-6) flags, of ?d]
  obtain d where d: "dfs_file_open ?d (47 # p) O_DIRECTORY ?s = Ok (0, d, ?s)"
    "fd_data d = Some e" "fd_size d = de_size e" "fd_pos d = 0" "fd_fs d = Some 0" "ref_count d = 2" "fd_type d = FT_DIRECTORY"
    using assms(7) by auto
  then show ?thesis
    using il assms(1,7) by (simp add: posix_opendir_def n fd_put_at on_entry_def streaming_def rom_mounted_def)
qed

lemma getdents_one:
  assumes "de_type e = ROMFS_DIRENT_DIR" and "de_data e = Entry_data es" and "length es = unat (de_size e)"
    and "\<forall>x \<in> set es. length (de_name x) \<le> 255"
    and "fd_data f = Some e" and "fd_size f = de_size e" and "fd_pos f = of_nat k" and "k \<le> unat (de_size e)"
  shows "dfs_romfs_getdents fs 511 f dr = Ok (if k < length es then ((260, [dirent_of (es ! k)]), f\<lparr>fd_pos := of_nat (Suc k)\<rparr>, dr)
    else ((0, []), f\<lparr>fd_pos := of_nat k\<rparr>, dr))"
proof -
  have "unat (of_nat k :: u32) = k"
    using assms(8) unsigned_less [of "de_size e", where ?'a = nat] by (intro unat_of_nat_lt) simp
  then have "de_size e \<le> of_nat k \<longleftrightarrow> length es \<le> k" "unat (of_nat k :: u32) = k"
    using assms(3) by (simp_all add: word_le_nat_alt)
  moreover have "k < length es \<Longrightarrow> length (de_name (es ! k)) \<le> 255" using assms(4) by simp
  ultimately show ?thesis
    using assms(1-3,5-8) by (cases "k < length es") (simp_all add: dfs_romfs_getdents_def)
qed

lemma rom_getdents: "rom_mounted root s \<Longrightarrow> fd_type d = FT_DIRECTORY \<Longrightarrow> fd_fs d = Some 0 \<Longrightarrow>
    dfs_file_getdents d n s = rbind (dfs_romfs_getdents \<lparr>dev_id = None, fs_path = Some [47], fs_data = Some root\<rparr> n d (drivers s))
      (\<lambda>((r, es), d, dr). Ok (r, es, d, s\<lparr>drivers := dr\<rparr>))"
  by (simp add: dfs_file_getdents_def fd_ops_def rom_mounted_def romfs_def)

lemma readdir_first:
  assumes "dir_num d = 0 \<or> dir_num d = 260 \<and> dir_cur d = 0 \<and> (\<exists>x. dir_buf d = [x] \<and> d_reclen x = 260)"
    and "fd_get (dir_fd d) s = (Some i, s1)" and "dfs_file_getdents (fd_table s1 ! i) 511 s1 = Ok (r, es, f, s2)"
    and "r = 0 \<or> r = 260 \<and> (\<exists>x. es = [x])"
  shows "posix_readdir d s = (let d = (if dir_num d = 0 then d else d\<lparr>dir_cur := 260\<rparr>); s3 = fd_put i (set_fd i f s2) in
    Ok (if r = 0 then (None, d, rt_set_errno 0 s3) else (Some (hd es), d\<lparr>dir_num := 260, dir_cur := 0, dir_buf := es\<rparr>, s3)))"
proof -
  define d1 where "d1 = (if dir_num d = 0 then d else d\<lparr>dir_cur := 260\<rparr>)"
  have d1: "(if dir_num d = 0 then Ok d else rbind (entry_at d) (\<lambda>e. Ok (d\<lparr>dir_cur := dir_cur d + uint (d_reclen e)\<rparr>))) = Ok d1"
    "dir_num d1 = 0 \<or> dir_num d1 \<le> dir_cur d1"
    using assms(1) by (auto simp: d1_def entry_at_def)
  have buf: "entry_at (d\<lparr>dir_num := 260, dir_cur := 0, dir_buf := [x]\<rparr>) = Ok x" for d x by (simp add: entry_at_def)
  show ?thesis
    using assms(4) unfolding posix_readdir_def assms(2) d1_def [symmetric] prod.case option.case d1(1) rbind_simps if_P [OF d1(2)] assms(3)
    by (auto simp: Let_def buf)
qed

lemma readdir_step:
  assumes "rom_mounted root s" and "streaming e k i d s" and "de_type e = ROMFS_DIRENT_DIR" and "de_data e = Entry_data es"
    and "length es = unat (de_size e)" and "\<forall>x \<in> set es. length (de_name x) \<le> 255"
  shows "\<exists>d' s'. posix_readdir d s = Ok (if k < length es then Some (dirent_of (es ! k)) else None, d', s') \<and>
    (k < length es \<longrightarrow> rom_mounted root s' \<and> streaming e (Suc k) i d' s')"
proof -
  let ?d = "(fd_table s ! i)\<lparr>ref_count := 2\<rparr>"
  have il: "i < DFS_FD_MAX" "i < length (fd_table s)" and fd: "dir_fd d = int i"
    and k: "k \<le> unat (de_size e)" "fd_pos ?d = of_nat k"
    and d: "fd_data ?d = Some e" "fd_size ?d = de_size e" "fd_fs ?d = Some 0" "ref_count (fd_table s ! i) = 1" "fd_type ?d = FT_DIRECTORY"
    and num: "dir_num d = 0 \<or> dir_num d = 260 \<and> dir_cur d = 0 \<and> (\<exists>x. dir_buf d = [x] \<and> d_reclen x = 260)"
    using assms(2,3) by (simp_all add: on_entry_def streaming_def Let_def)
  have get: "fd_get (dir_fd d) s = (Some i, set_fd i ?d s)" using il d(4) fd by (simp add: fd_get_in)
  have at: "fd_table (set_fd i ?d s) ! i = ?d" using il by simp
  have rm: "rom_mounted root (set_fd i ?d s)" using assms(1) by (simp add: rom_mounted_def)
  note g = rom_getdents [OF rm d(5,3), of 511, unfolded getdents_one [OF assms(3-6) d(1,2) k(2,1)]]
  show ?thesis
  proof (cases "k < length es")
    case True
    then have "dfs_file_getdents (fd_table (set_fd i ?d s) ! i) 511 (set_fd i ?d s) =
        Ok (260, [dirent_of (es ! k)], ?d\<lparr>fd_pos := of_nat (Suc k)\<rparr>, set_fd i ?d s)"
      unfolding at g by (simp del: of_nat_Suc)
    from readdir_first [OF num get this] True show ?thesis
      using il d assms(1,3,5) fd
      by (simp add: Let_def fd_put_at streaming_def on_entry_def rom_mounted_def dirent_of_def del: of_nat_Suc)
  next
    case False
    then have "dfs_file_getdents (fd_table (set_fd i ?d s) ! i) 511 (set_fd i ?d s) =
        Ok (0, [], ?d\<lparr>fd_pos := of_nat k\<rparr>, set_fd i ?d s)"
      unfolding at g by simp
    from readdir_first [OF num get this] False show ?thesis by (simp add: Let_def)
  qed
qed

lemma readdirs_list:
  assumes "de_type e = ROMFS_DIRENT_DIR" and "de_data e = Entry_data es"
    and "length es = unat (de_size e)" and "\<forall>x \<in> set es. length (de_name x) \<le> 255"
    and "rom_mounted root s" and "streaming e k i d s" and "length es - k < n"
  shows "\<exists>d' s'. readdirs n d s = Ok (map dirent_of (drop k es), d', s')"
  using assms(5-)
proof (induction n arbitrary: k d s)
  case (Suc n)
  obtain d' s' where st: "posix_readdir d s = Ok (if k < length es then Some (dirent_of (es ! k)) else None, d', s')"
    "k < length es \<longrightarrow> rom_mounted root s' \<and> streaming e (Suc k) i d' s'"
    using readdir_step [OF Suc.prems(1,2) assms(1-4)] by blast
  show ?case
  proof (cases "k < length es")
    case True
    then have "\<exists>d'' s''. readdirs n d' s' = Ok (map dirent_of (drop (Suc k) es), d'', s'')"
      using Suc.IH [of s' "Suc k" d'] st(2) Suc.prems(3) by simp
    then show ?thesis using st(1) True by (auto simp: Cons_nth_drop_Suc [symmetric])
  qed (use st(1) in simp)
qed simp

text \<open>
  C12. On a mounted image, opening a directory, however its path is spelled, gives a stream when a
  descriptor is free and the stream can be allocated; reading it entry by entry gives the directory's
  entries in their order with their names and kinds, and then nothing.
\<close>

theorem rom_directory_listed:
  assumes "rom_mounted root s" and "tidy s" and "used s \<noteq> {..<DFS_FD_MAX}" and "image_ok root"
    and "resolve [] (names p) = Some cs" and "tree_at root cs = Some (Romfs_dirent ROMFS_DIRENT_DIR nm (Entry_data es) n)"
    and "length es = unat n" and "\<forall>x \<in> set es. length (de_name x) \<le> 255" and "length es < m"
  shows "\<exists>d s1 d' s2. posix_opendir True (47 # p) s = Ok (Some d, s1) \<and> readdirs m d s1 = Ok (map dirent_of es, d', s2)"
proof -
  obtain d s1 where s1: "posix_opendir True (47 # p) s = Ok (Some d, s1)"
    "streaming (Romfs_dirent ROMFS_DIRENT_DIR nm (Entry_data es) n) 0 (first_free (fd_table s)) d s1" "rom_mounted root s1"
    using open_stream [OF assms(1-6) _ refl] by auto
  then show ?thesis using readdirs_list [OF _ _ _ assms(8) s1(3,2), of m] assms(7,9) by auto
qed

text \<open>A fresh system with the example image at the root.\<close>

lemma fresh_rom: "\<exists>s. rom_mounted romfs_root s \<and> fd_table s = replicate DFS_FD_MAX no_fd \<and> tidy s \<and> used s = {} \<and>
    used s \<noteq> {..<DFS_FD_MAX}"
  using boot_mounts boot_tidy empty_not_full by metis

theorem rom_directory_listed_witness:
  "\<exists>s d s1 d' s2. posix_opendir True (bytes ''/dummy/..'') (s :: (romfs_dirent, unit) dfs) = Ok (Some d, s1) \<and>
    readdirs 3 d s1 = Ok ([\<lparr>d_type = 2, d_namlen = 5, d_reclen = 260, d_name = bytes ''dummy''\<rparr>,
      \<lparr>d_type = 1, d_namlen = 9, d_reclen = 260, d_name = bytes ''dummy.txt''\<rparr>], d', s2)"
proof -
  obtain s :: "(romfs_dirent, unit) dfs" where s: "rom_mounted romfs_root s" "tidy s" "used s \<noteq> {..<DFS_FD_MAX}"
    using fresh_rom by blast
  have ok: "image_ok romfs_root" by code_simp
  have r: "resolve [] (names (bytes ''dummy/..'')) = Some []" by code_simp
  let ?es = "[Romfs_dirent ROMFS_DIRENT_DIR (bytes ''dummy'') (Entry_data [
       Romfs_dirent ROMFS_DIRENT_FILE (bytes ''dummy.txt'') (Byte_data this_is_a_file) 17]) 1,
     Romfs_dirent ROMFS_DIRENT_FILE (bytes ''dummy.txt'') (Byte_data this_is_a_file) 17]"
  have e: "tree_at romfs_root [] = Some (Romfs_dirent ROMFS_DIRENT_DIR (bytes ''/'') (Entry_data ?es) 2)" by (simp add: romfs_root_def)
  have l: "length ?es = unat (2 :: u32)" "\<forall>x \<in> set ?es. length (de_name x) \<le> 255" "length ?es < 3" by simp_all
  have m: "map dirent_of ?es = [\<lparr>d_type = 2, d_namlen = 5, d_reclen = 260, d_name = bytes ''dummy''\<rparr>,
      \<lparr>d_type = 1, d_namlen = 9, d_reclen = 260, d_name = bytes ''dummy.txt''\<rparr>]" by code_simp
  have p: "47 # bytes ''dummy/..'' = bytes ''/dummy/..''" by simp
  from rom_directory_listed [OF s ok r e l, unfolded m p] show ?thesis by (elim exE conjE) (intro exI conjI)
qed

section \<open>Properties of the table of descriptors\<close>

text \<open>
  C11. Over every sequence of calls that return (open, close, read, write, lseek, fstat, mkdir, unlink,
  rename and stat, on any descriptor and with any arguments), with any file system types that keep
  to the contract, the table keeps its invariant, every descriptor the program holds reaches a
  mounted file system, and the descriptors held and taken change as the reference says: an open takes
  the least one that is not taken, a close frees the one it names, a mkdir may lose the least one that
  is not taken and a refused lseek one that is not taken, and nothing else changes.
\<close>

theorem descriptors_refine_set:
  assumes "run_calls cs s = Ok (rs, s')" and "tidy s" and "H \<subseteq> live s"
  shows "\<exists>H'. tidy s' \<and> H' \<subseteq> live s' \<and> held_steps (H, used s) (zip cs rs) (H', used s')"
  by (rule calls_steps [OF assms])

definition blank_dfs :: "(romfs_dirent, unit) dfs" where
  "blank_dfs = \<lparr>filesystem_operation_table = [], filesystem_table = [], fd_table = [], rt_errno = 0, drivers = (), devices = [], dev_calls = []\<rparr>"

theorem descriptors_refine_set_witness:
  "\<exists>(s' :: (romfs_dirent, unit) dfs) H'. H' \<subseteq> live s' \<and> held_steps ({}, {})
    [(Open (bytes ''/dummy.txt'') 0, 0), (Open (bytes ''/no'') 0, - 1), (Seek 0 1 9, - 1), (Read 0 5, 5), (Mkdir (bytes ''log''), - 1), (Close 0, 0)]
    (H', used s')"
proof -
  let ?cs = "[Open (bytes ''/dummy.txt'') 0, Open (bytes ''/no'') 0, Seek 0 1 9, Read 0 5, Mkdir (bytes ''log''), Close 0]"
  obtain s where s: "boot_rom romfs_root blank_dfs = Ok (0, s)" "rom_mounted romfs_root s" "fd_table s = replicate DFS_FD_MAX no_fd"
    using boot_mounts by blast
  have "(case boot_rom romfs_root blank_dfs of Ok (r, s) \<Rightarrow>
      (case run_calls ?cs s of Ok (rs, s') \<Rightarrow> rs = [0, - 1, - 1, 5, - 1, 0] | _ \<Rightarrow> False) | _ \<Rightarrow> False)" by code_simp
  then obtain s' where r: "run_calls ?cs s = Ok ([0, - 1, - 1, 5, - 1, 0], s')" using s(1) by (auto split: res.splits)
  have t: "tidy s" "used s = {}" using boot_tidy [OF s(2,3)] by blast+
  from descriptors_refine_set [OF r t(1), of "{}"] show ?thesis unfolding t(2) by auto
qed

text \<open>
  A descriptor that is not open is taken like an open one: reading, writing, closing and
  positioning go through the null pointer of its file system, where an error is meant.
\<close>

lemma unopened_descriptor_faults:
  assumes "tidy s" and "i < DFS_FD_MAX" and "i \<notin> used s" and "0 \<le> sint off"
  shows "posix_read (int i) n s = Fault \<and> posix_write (int i) bs s = Fault \<and> posix_close (int i) s = Fault \<and>
    posix_lseek (int i) off 0 s = Fault"
  using unused_faults [OF assms(1-3)] assms(4) by simp

lemma unopened_descriptor_faults_witness:
  "\<exists>s :: (romfs_dirent, unit) dfs. posix_close 3 s = Fault"
proof -
  obtain s :: "(romfs_dirent, unit) dfs" where s: "tidy s" "used s = {}" using fresh_rom by blast
  have "posix_close (int 3) s = Fault" using unopened_descriptor_faults [OF s(1), of 3 0] by (simp add: s(2) DFS_FD_MAX_def)
  then show ?thesis by auto
qed

text \<open>
  Making directories by relative names loses a descriptor each time: after as many calls as
  there are descriptors, no file can be opened.
\<close>

lemma mkdir_exhausts_descriptors:
  assumes "\<forall>p \<in> set ps. relative p" and "DFS_FD_MAX \<le> length ps" and "length (fd_table s) = DFS_FD_MAX"
  shows "\<exists>s'. mkdirs ps s = Ok s' \<and> (\<forall>q flags. posix_open q flags s' = Ok (- 1, rt_set_errno (- ENOMEM) s'))"
  by (rule many_mkdirs [OF assms])

lemma mkdir_exhausts_descriptors_witness:
  "\<exists>s s' :: (romfs_dirent, unit) dfs. mkdirs (replicate 4 (bytes ''log'')) s = Ok s' \<and>
    posix_open (bytes ''/dummy.txt'') 0 s' = Ok (- 1, rt_set_errno (- 12) s')"
proof -
  obtain s :: "(romfs_dirent, unit) dfs" where s: "tidy s" using fresh_rom by blast
  have "\<forall>p \<in> set (replicate 4 (bytes ''log'')). relative p" by (simp add: relative_def)
  from mkdir_exhausts_descriptors [OF this _ tidy_length [OF s]] obtain s' where
    "mkdirs (replicate 4 (bytes ''log'')) s = Ok s'" "\<forall>q flags. posix_open q flags s' = Ok (- 1, rt_set_errno (- ENOMEM) s')"
    by (auto simp: DFS_FD_MAX_def)
  then show ?thesis unfolding ENOMEM_def by blast
qed

section \<open>Paths without a file system\<close>

text \<open>
  For a path that no mounted file system is above, removing a file and asking for its state
  report that it does not exist, and opening it does, with the descriptor left as it was; but
  unmounting it and renaming it go through a null pointer.
\<close>

lemma no_file_system_errors:
  assumes "dfs_normalize_path None p = Ok (Some full)" and "dfs_filesystem_lookup full s = None"
  shows "dfs_file_unlink p s = Ok (- ENOENT, s) \<and> dfs_file_stat p s = Ok (- ENOENT, None, s) \<and>
    dfs_file_open d p flags s = Ok (- ENOENT, d, s) \<and> dfs_unmount p s = Fault \<and> dfs_file_rename p p s = Fault"
  using assms by (simp add: dfs_file_unlink_def dfs_file_stat_def dfs_file_open_def dfs_unmount_def dfs_file_rename_def)

lemma no_file_system_errors_witness:
  "dfs_unmount (bytes ''/sd/'') blank_dfs = Fault"
proof -
  have "dfs_normalize_path None (bytes ''/sd/'') = Ok (Some (bytes ''/sd''))" by code_simp
  moreover have "dfs_filesystem_lookup (bytes ''/sd'') blank_dfs = None" by code_simp
  ultimately show ?thesis using no_file_system_errors by blast
qed

text \<open>
  Mounting: a type that is not registered is looked for behind the registered ones, through the null
  pointer of the first empty place.
\<close>

lemma find_type_falls: "\<forall>o' \<in> set t. op_name o' \<noteq> nm \<Longrightarrow> find_type nm (map Some t @ None # u) = Fault"
  by (induction t) auto

lemma mount_unregistered:
  assumes "filesystem_operation_table s = map Some t @ None # u" and "\<forall>o' \<in> set t. op_name o' \<noteq> nm"
  shows "dfs_mount None p nm rw data s = Fault"
  using find_type_falls [OF assms(2), of u] by (simp add: dfs_mount_def assms(1))

text \<open>An unmounted file system leaves its open files with a null pointer behind them.\<close>

lemma unmount_under_open_file:
  "(case boot_rom romfs_root blank_dfs of Ok (r, s) \<Rightarrow>
     (case posix_open (bytes ''/dummy.txt'') 0 s of Ok (fd, s) \<Rightarrow>
       (case dfs_unmount (bytes ''/'') s of Ok (r, s) \<Rightarrow> r = 0 \<and> (case posix_read fd 5 s of Fault \<Rightarrow> True | _ \<Rightarrow> False) | _ \<Rightarrow> False)
       | _ \<Rightarrow> False) | _ \<Rightarrow> False)"
  by code_simp

end
