(* ===== verification/Dfs_Shell.thy ===== *)
theory Dfs_Shell
  imports Dfs_Rom
begin

text \<open>
  The shell's commands on files (\<open>RTT/components/dfs/src/dfs_file.c\<close> from line 452 on, \<open>dfs_fs.c\<close> from
  line 448 on): create, rename, list, remove, print, copy. They share one static descriptor, which is
  handed in and returned. What they print is a list of values; the loops go on as long as the file
  system returns something other than zero, and may not end.
\<close>

unbundle bit_operations_syntax

section \<open>Commands\<close>

datatype shown =
    Heading "u8 list"
  | Row "u8 list" "u32 option"
  | Bad_file "u8 list"
  | Contents "u8 list"
  | Failed string "u8 list"
  | Disk_free u32 u32

definition createfile :: "u8 list \<Rightarrow> ('a, 'd) dfs \<Rightarrow> (shown list \<times> ('a, 'd) dfs) res" where
  "createfile p s = rbind (posix_open p O_CREAT s) (\<lambda>(fd, s).
     rbind (posix_close fd s) (\<lambda>(r, s). Ok (if fd < 0 then [Failed ''Create'' p] else [], s)))"

definition renamefile :: "u8 list \<Rightarrow> u8 list \<Rightarrow> ('a, 'd) dfs \<Rightarrow> (int \<times> ('a, 'd) dfs) res" where
  "renamefile oldpath newpath s = dfs_file_rename oldpath newpath s"

definition rm :: "u8 list \<Rightarrow> ('a, 'd) dfs \<Rightarrow> (shown list \<times> ('a, 'd) dfs) res" where
  "rm p s = rbind (dfs_file_unlink p s) (\<lambda>(r, s). Ok (if r < 0 then [Failed ''Delete'' p] else [], s))"

text \<open>
  One entry of a listing: the entry's state is asked for by its full name. A row without a size is a
  directory. The first component tells whether the loop goes on.
\<close>

definition ls_entry :: "u8 list \<Rightarrow> u8 list \<Rightarrow> ('a, 'd) dfs \<Rightarrow> (bool \<times> shown list \<times> ('a, 'd) dfs) res" where
  "ls_entry p nm s = rbind (dfs_normalize_path (Some p) nm) (\<lambda>full. case full of
     None \<Rightarrow> Ok (False, [], s)
   | Some q \<Rightarrow> rbind (dfs_file_stat q s) (\<lambda>(r, st, s).
       Ok (True, case st of
           Some st \<Rightarrow> if r = 0 then [Row nm (if st_mode st AND 0xF000 = 0x4000 then None else Some (st_size st))] else [Bad_file nm]
         | None \<Rightarrow> [Bad_file nm], s)))"

partial_function (option) ls_loop :: "u8 list \<Rightarrow> 'a dfs_fd \<Rightarrow> ('a, 'd) dfs \<Rightarrow> shown list \<Rightarrow>
    (shown list \<times> 'a dfs_fd \<times> ('a, 'd) dfs) res option" where
  "ls_loop p d s out = (case dfs_file_getdents d 260 s of
     Halt \<Rightarrow> Some Halt | Fault \<Rightarrow> Some Fault
   | Ok (r, es, d, s) \<Rightarrow>
       if r \<le> 0 then Some (Ok (out, d, s))
       else (case ls_entry p (case es of [] \<Rightarrow> [] | e # _ \<Rightarrow> d_name e) s of
           Halt \<Rightarrow> Some Halt | Fault \<Rightarrow> Some Fault
         | Ok (go_on, rows, s) \<Rightarrow> if go_on then ls_loop p d s (out @ rows) else Some (Ok (out, d, s))))"

definition opt_bind :: "'b res option \<Rightarrow> ('b \<Rightarrow> 'c res) \<Rightarrow> 'c res option" where
  "opt_bind m f = (case m of None \<Rightarrow> None | Some r \<Rightarrow> Some (rbind r f))"

definition ls :: "u8 list option \<Rightarrow> 'a dfs_fd \<Rightarrow> ('a, 'd) dfs \<Rightarrow> (shown list \<times> 'a dfs_fd \<times> ('a, 'd) dfs) res option" where
  "ls pathname fd s = (let p = (case pathname of None \<Rightarrow> [47] | Some p \<Rightarrow> p) in
     case dfs_file_open fd p O_DIRECTORY s of
       Halt \<Rightarrow> Some Halt | Fault \<Rightarrow> Some Fault
     | Ok (r, d, s) \<Rightarrow>
         if r = 0 then opt_bind (ls_loop p d s [Heading p]) (\<lambda>(out, d, s).
           rbind (dfs_file_close d s) (\<lambda>(r, d, s). Ok (out, d, s)))
         else Some (Ok ([Failed ''No such directory'' []], d, s)))"

text \<open>The length is unsigned: a negative result counts as a piece. \<open>%s\<close> prints up to a zero.\<close>

partial_function (option) cat_loop :: "'a dfs_fd \<Rightarrow> ('a, 'd) dfs \<Rightarrow> shown list \<Rightarrow>
    (shown list \<times> 'a dfs_fd \<times> ('a, 'd) dfs) res option" where
  "cat_loop d s out = (case dfs_file_read d 80 s of
     Halt \<Rightarrow> Some Halt | Fault \<Rightarrow> Some Fault
   | Ok (r, bs, d, s) \<Rightarrow> if r = 0 then Some (Ok (out, d, s)) else cat_loop d s (out @ [Contents (c_text bs)]))"

definition cat :: "u8 list \<Rightarrow> 'a dfs_fd \<Rightarrow> ('a, 'd) dfs \<Rightarrow> (shown list \<times> 'a dfs_fd \<times> ('a, 'd) dfs) res option" where
  "cat filename fd s = (case dfs_file_open fd filename 0 s of
     Halt \<Rightarrow> Some Halt | Fault \<Rightarrow> Some Fault
   | Ok (r, d, s) \<Rightarrow>
       if r < 0 then Some (Ok ([Failed ''Open'' filename], d, s))
       else opt_bind (cat_loop d s []) (\<lambda>(out, d, s). rbind (dfs_file_close d s) (\<lambda>(r, d, s). Ok (out, d, s))))"

text \<open>
  A negative result of the read is handed on as a length beyond the buffer of 4096 bytes. Results of
  the writes are not looked at.
\<close>

partial_function (option) copy_loop :: "'a dfs_fd \<Rightarrow> 'a dfs_fd \<Rightarrow> ('a, 'd) dfs \<Rightarrow> ('a dfs_fd \<times> 'a dfs_fd \<times> ('a, 'd) dfs) res option" where
  "copy_loop sd d s = (case dfs_file_read sd 4096 s of
     Halt \<Rightarrow> Some Halt | Fault \<Rightarrow> Some Fault
   | Ok (r, bs, sd, s) \<Rightarrow>
       if r = 0 then Some (Ok (sd, d, s))
       else if r < 0 then Some Fault
       else (case dfs_file_write d (take (nat r) bs) s of
           Halt \<Rightarrow> Some Halt | Fault \<Rightarrow> Some Fault
         | Ok (w, d, s) \<Rightarrow> copy_loop sd d s))"

definition copy :: "bool \<Rightarrow> u8 list \<Rightarrow> u8 list \<Rightarrow> 'a dfs_fd \<Rightarrow> ('a, 'd) dfs \<Rightarrow> (shown list \<times> 'a dfs_fd \<times> ('a, 'd) dfs) res option" where
  "copy allocated src dst fd s = (if \<not> allocated then Some (Ok ([Failed ''out of memory'' []], fd, s))
     else case dfs_file_open no_fd src 0 s of
       Halt \<Rightarrow> Some Halt | Fault \<Rightarrow> Some Fault
     | Ok (r, sd, s) \<Rightarrow>
         if r < 0 then Some (Ok ([Failed ''Read'' src], fd, s))
         else (case dfs_file_open fd dst (O_WRONLY OR O_CREAT) s of
             Halt \<Rightarrow> Some Halt | Fault \<Rightarrow> Some Fault
           | Ok (r, d, s) \<Rightarrow>
               if r < 0 then Some (rbind (dfs_file_close sd s) (\<lambda>(r, sd, s). Ok ([Failed ''Write'' dst], d, s)))
               else opt_bind (copy_loop sd d s) (\<lambda>(sd, d, s).
                 rbind (dfs_file_close sd s) (\<lambda>(r, sd, s). rbind (dfs_file_close d s) (\<lambda>(r, d, s). Ok ([], d, s))))))"

definition mkfs :: "u8 list \<Rightarrow> string \<Rightarrow> ('a, 'd) dfs \<Rightarrow> ('a, 'd) dfs res" where
  "mkfs fs_name device_name s = rbind (dfs_mkfs fs_name device_name s) (\<lambda>(r, s). Ok s)"

definition df :: "u8 list \<Rightarrow> ('a, 'd) dfs \<Rightarrow> (shown list \<times> ('a, 'd) dfs) res" where
  "df p s = rbind (dfs_statfs p s) (\<lambda>(r, b, s). Ok (case b of
     Some b \<Rightarrow> if r = 0 then [Disk_free (f_bfree b) (f_bsize b)] else [] | None \<Rightarrow> [], s))"

section \<open>Printing a file\<close>

lemma opt_bind_Some [simp]: "opt_bind (Some (Ok x)) f = Some (f x)" "opt_bind None f = None"
  by (simp_all add: opt_bind_def)

lemma take_rest: "take n xs @ drop (length (take n xs)) xs = xs"
  by (cases "n \<le> length xs") simp_all

lemma cat_loop_pieces:
  assumes "rom_mounted root s" and "de_data e = Byte_data bs" and "length bs = unat (de_size e)" and "unat (de_size e) < 2 ^ 31"
    and "0 \<notin> set bs" and "pos \<le> length bs" and "fd_pos d = of_nat pos" and "fd_data d = Some e" and "fd_size d = de_size e" and "fd_fs d = Some 0"
  shows "\<exists>ps. cat_loop d s out = Some (Ok (out @ map Contents ps, d\<lparr>fd_pos := of_nat (length bs)\<rparr>, s)) \<and> concat ps = drop pos bs"
  using assms(6-)
proof (induction "length bs - pos" arbitrary: pos d out rule: less_induct)
  case less
  let ?b = "take 80 (drop pos bs)"
  have r: "dfs_file_read d 80 s = Ok (int (length ?b), ?b, d\<lparr>fd_pos := of_nat (pos + length ?b)\<rparr>, s)"
    using rom_read [OF assms(1-4) _ less.prems(2-5), of 80] less.prems(1) assms(3) by simp
  show ?case
  proof (cases "pos = length bs")
    case True
    then show ?thesis using r by (subst cat_loop.simps) simp
  next
    case False
    let ?d = "d\<lparr>fd_pos := of_nat (pos + length ?b)\<rparr>"
    have l: "0 < length ?b" "pos + length ?b \<le> length bs" using False less.prems(1) by auto
    have c: "c_text ?b = ?b" using assms(5) by (intro c_text_id) (auto dest!: in_set_takeD in_set_dropD)
    have "length bs - (pos + length ?b) < length bs - pos" using l by linarith
    from less.hyps [OF this l(2), of ?d "out @ [Contents ?b]"] less.prems
    obtain ps where ps: "cat_loop ?d s (out @ [Contents ?b]) = Some (Ok ((out @ [Contents ?b]) @ map Contents ps, ?d\<lparr>fd_pos := of_nat (length bs)\<rparr>, s))"
      "concat ps = drop (pos + length ?b) bs"
      by auto
    have "int (length ?b) \<noteq> 0" using l(1) by simp
    then have "cat_loop d s out = cat_loop ?d s (out @ [Contents ?b])"
      using r c by (subst cat_loop.simps) (simp del: length_take)
    moreover have "concat (?b # ps) = drop pos bs"
      using ps(2) take_rest [of 80 "drop pos bs"] by (simp only: concat.simps drop_drop add.commute)
    ultimately show ?thesis using ps(1) by (intro exI [of _ "?b # ps"]) simp
  qed
qed

lemma rom_close: "rom_mounted root s \<Longrightarrow> fd_fs d = Some 0 \<Longrightarrow> dfs_file_close d s = Ok (0, no_fd, s)"
  by (simp add: dfs_file_close_def fd_ops_def rom_mounted_def romfs_def dfs_romfs_close_def)

text \<open>
  C27. Printing a text file of a mounted image ends, prints pieces that make up the whole text, and
  leaves the shared descriptor cleared and the file system as it was.
\<close>

theorem cat_prints_file:
  assumes "rom_mounted root s" and "image_ok root" and "resolve [] (names p) = Some cs"
    and "tree_at root cs = Some (Romfs_dirent ROMFS_DIRENT_FILE nm (Byte_data bs) n)"
    and "length bs = unat n" and "unat n < 2 ^ 31" and "0 \<notin> set bs"
  shows "\<exists>ps. cat (47 # p) fd s = Some (Ok (map Contents ps, no_fd, s)) \<and> concat ps = bs"
proof -
  let ?e = "Romfs_dirent ROMFS_DIRENT_FILE nm (Byte_data bs) n"
  obtain d where d: "dfs_file_open fd (47 # p) 0 s = Ok (0, d, s)"
    "fd_data d = Some ?e" "fd_size d = n" "fd_pos d = 0" "fd_fs d = Some 0"
    using open_entry [OF assms(1-4), of 0 fd] by (auto simp: ROMFS_DIRENT_FILE_def ROMFS_DIRENT_DIR_def)
  obtain ps where ps: "cat_loop d s [] = Some (Ok (map Contents ps, d\<lparr>fd_pos := of_nat (length bs)\<rparr>, s))" "concat ps = bs"
    using cat_loop_pieces [OF assms(1), of ?e bs 0 d "[]"] assms(5-7) d by auto
  have "dfs_file_close (d\<lparr>fd_pos := of_nat (length bs)\<rparr>) s = Ok (0, no_fd, s)"
    using d(5) by (intro rom_close [OF assms(1)]) simp
  then show ?thesis using d(1) ps by (intro exI [of _ ps]) (simp add: cat_def)
qed

theorem cat_prints_file_witness:
  "\<exists>(s :: (romfs_dirent, unit) dfs) ps. cat (bytes ''/dummy.txt'') no_fd s = Some (Ok (map Contents ps, no_fd, s)) \<and>
    concat ps = bytes ''this is a file!'' @ [13, 10]"
proof -
  obtain s :: "(romfs_dirent, unit) dfs" where s: "rom_mounted romfs_root s" using fresh_rom by blast
  have ok: "image_ok romfs_root" by code_simp
  have r: "resolve [] (names (bytes ''dummy.txt'')) = Some [bytes ''dummy.txt'']" by code_simp
  have e: "tree_at romfs_root [bytes ''dummy.txt''] =
      Some (Romfs_dirent ROMFS_DIRENT_FILE (bytes ''dummy.txt'') (Byte_data this_is_a_file) 17)" by code_simp
  have l: "length this_is_a_file = unat (17 :: u32)" "unat (17 :: u32) < 2 ^ 31" "0 \<notin> set this_is_a_file"
    by (simp_all add: this_is_a_file_def)
  have p: "47 # bytes ''dummy.txt'' = bytes ''/dummy.txt''" by simp
  from cat_prints_file [OF s ok r e l, of no_fd] show ?thesis unfolding p this_is_a_file_def by (elim exE) (intro exI)
qed

section \<open>Reads that fail\<close>

lemma cat_loop_ends:
  assumes "cat_loop d s out = Some y" and "P d s"
    and "\<And>d s. P d s \<Longrightarrow> \<exists>r bs d' s'. dfs_file_read d 80 s = Ok (r, bs, d', s') \<and> r < 0 \<and> P d' s'"
  shows False
proof -
  have "P d s \<longrightarrow> False"
  proof (rule cat_loop.raw_induct [OF _ assms(1), where P = "\<lambda>d s out y. P d s \<longrightarrow> False"], rule impI)
    fix cl and d :: "'a dfs_fd" and s :: "('a, 'b) dfs" and out y
    assume rec: "\<And>d s out y. cl d s out = Some y \<Longrightarrow> P d s \<longrightarrow> False" and "P d s"
      and step: "(case dfs_file_read d 80 s of
         Ok (r, bs, d, s) \<Rightarrow> if r = 0 then Some (Ok (out, d, s)) else cl d s (out @ [Contents (c_text bs)])
       | Halt \<Rightarrow> Some Halt | Fault \<Rightarrow> Some Fault) = Some y"
    obtain r bs d' s' where "dfs_file_read d 80 s = Ok (r, bs, d', s')" "r < 0" "P d' s'" using assms(3) [OF \<open>P d s\<close>] by blast
    then show False using rec [of d' s'] step by simp
  qed
  then show False using assms(2) by simp
qed

text \<open>
  Printing a file goes on as long as reading returns something other than zero: once the reads
  fail, and go on failing, the command never returns.
\<close>

lemma cat_read_error_never_ends:
  assumes "dfs_file_open fd p 0 s = Ok (r, d, s')" and "0 \<le> r" and "P d s'"
    and "\<And>d s. P d s \<Longrightarrow> \<exists>r bs d' s'. dfs_file_read d 80 s = Ok (r, bs, d', s') \<and> r < 0 \<and> P d' s'"
  shows "cat p fd s = None"
proof -
  have "cat_loop d s' [] = None"
    using cat_loop_ends [of d s' "[]" _ P] assms(3,4) by (cases "cat_loop d s' []") blast+
  then show ?thesis using assms(1,2) by (simp add: cat_def)
qed

text \<open>A type without reading.\<close>

definition no_read :: "(romfs_dirent, unit) dfs_filesystem_operation" where
  "no_read = romfs\<lparr>op_read := None\<rparr>"

lemma cat_read_error_never_ends_witness:
  "\<exists>s :: (romfs_dirent, unit) dfs. cat (bytes ''/dummy.txt'') no_fd s = None"
proof -
  let ?f = "\<lparr>dev_id = None, fs_path = Some [47], fs_data = Some romfs_root\<rparr>"
  define s where "s = blank_dfs\<lparr>filesystem_table := [(Some no_read, ?f)]\<rparr>"
  have o: "(case dfs_file_open no_fd (bytes ''/dummy.txt'') 0 (blank_dfs\<lparr>filesystem_table := [(Some no_read, ?f)]\<rparr>) of
      Ok (r, d, s') \<Rightarrow> r = 0 \<and> fd_fs d = Some 0 \<and> (case fst (filesystem_table s' ! 0) of Some ops \<Rightarrow> Option.is_none (op_read ops) | _ \<Rightarrow> False)
    | _ \<Rightarrow> False)" by code_simp
  let ?P = "\<lambda>d s. fd_fs d = Some 0 \<and> (\<exists>ops. fst (filesystem_table s ! 0) = Some ops \<and> op_read ops = None)"
  obtain d s' where d: "dfs_file_open no_fd (bytes ''/dummy.txt'') 0 s = Ok (0, d, s')" "?P d s'"
    using o unfolding s_def [symmetric]
    by (auto simp: Option.is_none_def split: res.splits option.splits)
  have "cat (bytes ''/dummy.txt'') no_fd s = None"
  proof (rule cat_read_error_never_ends [OF d(1), of ?P])
    fix d :: "romfs_dirent dfs_fd" and s :: "(romfs_dirent, unit) dfs"
    assume "?P d s"
    then show "\<exists>r bs d' s'. dfs_file_read d 80 s = Ok (r, bs, d', s') \<and> r < 0 \<and> ?P d' s'"
      by (auto simp: dfs_file_read_def fd_ops_def ENOSYS_def split: prod.splits)
  qed (use d(2) in simp_all)
  then show ?thesis by blast
qed

text \<open>Copying hands a failed read on as the length of a write beyond the buffer.\<close>

lemma copy_read_error: "dfs_file_read sd 4096 s = Ok (r, bs, sd', s') \<Longrightarrow> r < 0 \<Longrightarrow> copy_loop sd d s = Some Fault"
  by (subst copy_loop.simps) simp

end
