(* ===== verification/Uart_Nodes.thy ===== *)
theory Uart_Nodes
  imports Base
begin

text \<open>
  The transmit side of the modem's serial port, \<open>MySouce/UART1_new .c\<close>: five list nodes move
  between an empty list, a full list and the DMA channel. The lists are doubly linked
  through \<open>Pre\<close> and \<open>Next\<close> pointers with separate head and tail cells; the pointers are
  kept as an explicit store, so aliasing and null pointers are those of the code. The
  abstract view is a bounded queue of frames, an instance of \<open>fifo_drop_new\<close>.
\<close>

section \<open>The store\<close>

definition DATA_NODE_BUFF_MAX_LEN :: nat where
  "DATA_NODE_BUFF_MAX_LEN = 1024"

definition NODE_NUM :: nat where
  "NODE_NUM = 5"

text \<open>
  The list cells: the four sentinels \<open>empty_list_Head\<close>, \<open>empty_list_Tail\<close>,
  \<open>full_list_Head\<close>, \<open>full_list_Tail\<close> and the array \<open>Node_list\<close>. A pointer to a
  \<open>Data_Node\<close> is the number of the allocated object; \<open>None\<close> is the null pointer.
\<close>

datatype cell = E_Head | E_Tail | F_Head | F_Tail | Node_list nat

text \<open>
  \<open>wire\<close> records what each DMA transfer sends (the bytes of the buffer when the channel is
  started); \<open>freed\<close> records the objects handed to \<open>rt_free\<close>. The other fields are the
  variables of the file, the device structure's flags and the enable bits the routines set.
\<close>

record uart =
  Pre :: "cell \<Rightarrow> cell option"
  Nxt :: "cell \<Rightarrow> cell option"
  Node :: "cell \<Rightarrow> nat option"
  buff :: "nat \<Rightarrow> u8 list"
  len :: "nat \<Rightarrow> u16"
  pCurrentMDASendNode :: "cell option"
  openCnt :: u8
  flag :: u16
  open_flag :: u16
  usart_on :: bool
  dmareq_on :: bool
  rxne_on :: bool
  dma_on :: bool
  wire :: "u8 list list"
  freed :: "nat list"

section \<open>List operations\<close>

definition insert_before :: "cell \<Rightarrow> cell \<Rightarrow> uart \<Rightarrow> uart res" where
  "insert_before tail p s =
    (case Pre s tail of
      None \<Rightarrow> Fault
    | Some l \<Rightarrow>
        (let s1 = s\<lparr>Nxt := (Nxt s)(l := Some p)\<rparr>;
             s2 = s1\<lparr>Pre := (Pre s1)(p := Pre s1 tail)\<rparr>;
             s3 = s2\<lparr>Nxt := (Nxt s2)(p := Some tail)\<rparr>
         in Ok (s3\<lparr>Pre := (Pre s3)(tail := Some p)\<rparr>)))"

definition Insert_Node_Full_list :: "cell \<Rightarrow> uart \<Rightarrow> uart res" where
  "Insert_Node_Full_list p s = insert_before F_Tail p s"

definition Insert_Node_Empty_list :: "cell \<Rightarrow> uart \<Rightarrow> uart res" where
  "Insert_Node_Empty_list p s = insert_before E_Tail p s"

definition get_after :: "cell \<Rightarrow> uart \<Rightarrow> (cell option \<times> uart) res" where
  "get_after head s =
    (case Nxt s head of
      None \<Rightarrow> Fault
    | Some p \<Rightarrow>
        if Node s p \<noteq> None then
          (let s1 = s\<lparr>Nxt := (Nxt s)(head := Nxt s p)\<rparr> in
           (case Nxt s1 p of
              None \<Rightarrow> Fault
            | Some r \<Rightarrow> Ok (Some p, s1\<lparr>Pre := (Pre s1)(r := Some head)\<rparr>)))
        else Ok (None, s))"

definition Get_Full_Node :: "uart \<Rightarrow> (cell option \<times> uart) res" where
  "Get_Full_Node s = get_after F_Head s"

definition Get_Empty_Node :: "uart \<Rightarrow> (cell option \<times> uart) res" where
  "Get_Empty_Node s = get_after E_Head s"

text \<open>\<open>Data_Node_list_init\<close>; \<open>alloc i\<close> is what the \<open>i\<close>-th \<open>rt_malloc\<close> returns.\<close>

definition init_sentinels :: "uart \<Rightarrow> uart" where
  "init_sentinels s =
    s\<lparr>Pre := (Pre s)(E_Head := None, E_Tail := Some E_Head, F_Head := None, F_Tail := Some F_Head),
      Node := (Node s)(E_Head := None, E_Tail := None, F_Head := None, F_Tail := None),
      Nxt := (Nxt s)(E_Head := Some E_Tail, E_Tail := None, F_Head := Some F_Tail, F_Tail := None)\<rparr>"

fun hook_nodes :: "(nat \<Rightarrow> nat option) \<Rightarrow> nat list \<Rightarrow> uart \<Rightarrow> uart res" where
  "hook_nodes alloc [] s = Ok s"
| "hook_nodes alloc (i # is) s =
    rbind (Insert_Node_Empty_list (Node_list i) (s\<lparr>Node := (Node s)(Node_list i := alloc i)\<rparr>))
      (hook_nodes alloc is)"

definition Data_Node_list_init :: "(nat \<Rightarrow> nat option) \<Rightarrow> uart \<Rightarrow> uart res" where
  "Data_Node_list_init alloc s = hook_nodes alloc [0..<NODE_NUM] (init_sentinels s)"

text \<open>\<open>free_node\<close>: both loops run until the list is empty; \<open>None\<close> is not returning.\<close>

partial_function (option) free_list ::
  "(uart \<Rightarrow> (cell option \<times> uart) res) \<Rightarrow> uart \<Rightarrow> uart res option" where
  "free_list get s =
    (case get s of
      Ok (Some p, s') \<Rightarrow>
        (case Node s' p of
          None \<Rightarrow> free_list get s'
        | Some d \<Rightarrow> free_list get (s'\<lparr>freed := freed s' @ [d]\<rparr>))
    | Ok (None, s') \<Rightarrow> Some (Ok s')
    | Halt \<Rightarrow> Some Halt
    | Fault \<Rightarrow> Some Fault)"

definition free_node :: "uart \<Rightarrow> uart res option" where
  "free_node s =
    (case free_list Get_Full_Node s of
      Some (Ok s') \<Rightarrow> free_list Get_Empty_Node s'
    | r \<Rightarrow> r)"

section \<open>The driver\<close>

text \<open>Starting the channel: the bytes it will send are those of the buffer now.\<close>

definition USART1_DMA_Wirte :: "nat \<Rightarrow> uart \<Rightarrow> uart" where
  "USART1_DMA_Wirte d s =
    s\<lparr>dma_on := True, wire := wire s @ [take (unat (len s d)) (buff s d)]\<rparr>"

definition copy_in :: "nat \<Rightarrow> u8 list \<Rightarrow> uart \<Rightarrow> uart" where
  "copy_in d data s =
    s\<lparr>buff := (buff s)(d := data @ drop (length data) (buff s d)),
      len := (len s)(d := of_nat (length data))\<rparr>"

definition start_or_queue :: "cell \<Rightarrow> uart \<Rightarrow> uart res" where
  "start_or_queue p s =
    (case pCurrentMDASendNode s of
      None \<Rightarrow>
        (let s1 = s\<lparr>pCurrentMDASendNode := Some p\<rparr> in
         (case Node s1 p of None \<Rightarrow> Fault | Some d \<Rightarrow> Ok (USART1_DMA_Wirte d s1)))
    | Some _ \<Rightarrow> Insert_Node_Full_list p s)"

definition USART1_new_hw_write :: "u8 list \<Rightarrow> uart \<Rightarrow> (nat \<times> uart) res" where
  "USART1_new_hw_write data s =
    (if \<not> length data \<le> DATA_NODE_BUFF_MAX_LEN then Halt
     else rbind (Get_Empty_Node s) (\<lambda>(r, s1).
       (case r of
          None \<Rightarrow> Ok (0, s1)
        | Some p \<Rightarrow>
            (case Node s1 p of
               None \<Rightarrow> Fault
             | Some d \<Rightarrow>
                 rbind (start_or_queue p (copy_in d data s1)) (\<lambda>s2. Ok (length data, s2))))))"

definition DMA1_Channel4_IRQHandler :: "uart \<Rightarrow> uart res" where
  "DMA1_Channel4_IRQHandler s =
    rbind (case pCurrentMDASendNode s of None \<Rightarrow> Ok s | Some p \<Rightarrow> Insert_Node_Empty_list p s)
      (\<lambda>s1. rbind (Get_Full_Node s1) (\<lambda>(r, s2).
        (let s3 = s2\<lparr>pCurrentMDASendNode := r\<rparr> in
         (case r of
            None \<Rightarrow> Ok s3
          | Some p \<Rightarrow> (case Node s3 p of None \<Rightarrow> Fault | Some d \<Rightarrow> Ok (USART1_DMA_Wirte d s3))))))"

definition FLAG_ACTIVATED :: u16 where "FLAG_ACTIVATED = 0x10"
definition OFLAG_OPEN :: u16 where "OFLAG_OPEN = 8"

definition USART1_new_hw_init :: "uart \<Rightarrow> uart" where
  "USART1_new_hw_init s =
    (if and (flag s) FLAG_ACTIVATED \<noteq> 0 then s
     else s\<lparr>dmareq_on := True, rxne_on := True, usart_on := True,
            flag := or (flag s) FLAG_ACTIVATED\<rparr>)"

definition USART1_new_hw_open :: "(nat \<Rightarrow> nat option) \<Rightarrow> u16 \<Rightarrow> uart \<Rightarrow> uart res" where
  "USART1_new_hw_open alloc oflag s =
    (let s1 = s\<lparr>openCnt := openCnt s + 1\<rparr> in
     if and (open_flag s) OFLAG_OPEN \<noteq> 0 then Ok s1
     else rbind (Data_Node_list_init alloc s1)
       (\<lambda>s2. Ok (s2\<lparr>open_flag := or (open_flag s2) (or OFLAG_OPEN oflag)\<rparr>)))"

text \<open>The result is the error code: \<open>False\<close> for \<open>RT_EOK\<close>, \<open>True\<close> for \<open>RT_EBUSY\<close>.\<close>

definition USART1_new_hw_close :: "uart \<Rightarrow> (bool \<times> uart) res option" where
  "USART1_new_hw_close s =
    (if open_flag s = 0 then Some (Ok (False, s))
     else if sint (openCnt s) > 1 then Some (Ok (False, s\<lparr>openCnt := openCnt s - 1\<rparr>))
     else
       (let s1 = s\<lparr>openCnt := 0\<rparr> in
        if pCurrentMDASendNode s1 \<noteq> None then Some (Ok (True, s1))
        else
          (let s2 = s1\<lparr>dmareq_on := False, rxne_on := False, dma_on := False, usart_on := False\<rparr> in
           (case free_node s2 of
              None \<Rightarrow> None
            | Some r \<Rightarrow> Some (rbind r (\<lambda>s3. Ok (False, s3\<lparr>open_flag := 0\<rparr>)))))))"


section \<open>Chains of list cells\<close>

text \<open>
  \<open>dchain n p a xs b\<close>: following \<open>n\<close> from \<open>a\<close> visits \<open>xs\<close> and reaches \<open>b\<close>, and \<open>p\<close>
  leads back along the same cells.
\<close>

fun dchain :: "(cell \<Rightarrow> cell option) \<Rightarrow> (cell \<Rightarrow> cell option) \<Rightarrow> cell \<Rightarrow> cell list \<Rightarrow> cell \<Rightarrow> bool" where
  "dchain n p a [] b \<longleftrightarrow> n a = Some b \<and> p b = Some a"
| "dchain n p a (x # xs) b \<longleftrightarrow> n a = Some x \<and> p x = Some a \<and> dchain n p x xs b"

lemma dchain_snoc:
  "dchain n p a (xs @ [x]) b \<longleftrightarrow> dchain n p a xs x \<and> n x = Some b \<and> p b = Some x"
  by (induction xs arbitrary: a) auto

lemma dchain_cong:
  assumes "\<And>c. c \<in> insert a (set xs) \<Longrightarrow> n' c = n c" and "\<And>c. c \<in> insert b (set xs) \<Longrightarrow> p' c = p c"
  shows "dchain n' p' a xs b = dchain n p a xs b"
  using assms by (induction xs arbitrary: a) auto

lemma dchain_last: "dchain n p a xs b \<Longrightarrow> p b = Some (last (a # xs)) \<and> n (last (a # xs)) = Some b"
  by (induction xs arbitrary: a) auto

lemma dchain_insert:
  assumes "dchain n p a xs b" and "x \<notin> {a, b} \<union> set xs" and "distinct (a # xs)" and "b \<notin> insert a (set xs)"
    and n': "n' = n(last (a # xs) := Some x, x := Some b)"
    and p': "p' = p(x := Some (last (a # xs)), b := Some x)"
  shows "dchain n' p' a (xs @ [x]) b"
  using assms(1-4)
proof (cases xs rule: rev_cases)
  case Nil
  with assms show ?thesis by auto
next
  case (snoc ys y)
  have "dchain n' p' a ys y = dchain n p a ys y"
    using assms snoc by (intro dchain_cong) auto
  with assms snoc have "dchain n' p' a (ys @ [y]) x" by (auto simp: dchain_snoc)
  with assms snoc have "dchain n' p' a ((ys @ [y]) @ [x]) b"
    unfolding dchain_snoc [of _ _ _ "ys @ [y]"] by auto
  with snoc show ?thesis by simp
qed

lemma dchain_remove:
  assumes "dchain n p a (x # xs) b" and "distinct (x # xs)" and "a \<notin> set (x # xs)" and "b \<notin> insert a (set (x # xs))"
  shows "\<exists>r. n x = Some r \<and> dchain (n(a := n x)) (p(r := Some a)) a xs b \<and> r \<in> insert b (set xs)"
proof (cases xs)
  case Nil
  with assms show ?thesis by auto
next
  case (Cons y ys)
  have "dchain (n(a := Some y)) (p(y := Some a)) y ys b = dchain n p y ys b"
    using assms Cons by (intro dchain_cong) auto
  with assms Cons show ?thesis by auto
qed

text \<open>The executable reading of a list: at most \<open>k\<close> steps from \<open>a\<close> to \<open>b\<close>.\<close>

fun walk :: "nat \<Rightarrow> (cell \<Rightarrow> cell option) \<Rightarrow> cell \<Rightarrow> cell \<Rightarrow> cell list" where
  "walk 0 n a b = []"
| "walk (Suc k) n a b =
    (case n a of None \<Rightarrow> [] | Some x \<Rightarrow> if x = b then [] else x # walk k n x b)"

lemma walk_dchain: "dchain n p a xs b \<Longrightarrow> b \<notin> set xs \<Longrightarrow> length xs \<le> k \<Longrightarrow> walk k n a b = xs"
proof (induction xs arbitrary: a k)
  case Nil
  then show ?case by (cases k) auto
next
  case (Cons x xs)
  then show ?case by (cases k) auto
qed

section \<open>The invariant\<close>

definition current :: "uart \<Rightarrow> cell list" where
  "current s = (case pCurrentMDASendNode s of None \<Rightarrow> [] | Some p \<Rightarrow> [p])"

text \<open>
  \<open>uart_rep s es fs ws\<close>: the empty list is \<open>es\<close>, the full list is \<open>fs\<close>, and with the
  nodes \<open>ws\<close> in neither list they are the \<open>NODE_NUM\<close> nodes, each once; every node has a
  buffer and no two share one.
\<close>

definition uart_rep :: "uart \<Rightarrow> cell list \<Rightarrow> cell list \<Rightarrow> cell list \<Rightarrow> bool" where
  "uart_rep s es fs ws \<longleftrightarrow>
    dchain (Nxt s) (Pre s) E_Head es E_Tail \<and> dchain (Nxt s) (Pre s) F_Head fs F_Tail \<and>
    distinct (es @ fs @ ws) \<and> set (es @ fs @ ws) = Node_list ` {..<NODE_NUM} \<and>
    Node s E_Tail = None \<and> Node s F_Tail = None \<and>
    (\<forall>c \<in> Node_list ` {..<NODE_NUM}. Node s c \<noteq> None) \<and> inj_on (Node s) (Node_list ` {..<NODE_NUM})"

text \<open>Between two calls the node in neither list is the one being sent, and frames wait only
  while a transfer is running.\<close>

definition uart_inv :: "uart \<Rightarrow> bool" where
  "uart_inv s \<longleftrightarrow>
    (\<exists>es fs. uart_rep s es fs (current s) \<and> (pCurrentMDASendNode s = None \<longrightarrow> fs = []))"

definition frame :: "uart \<Rightarrow> cell \<Rightarrow> u8 list" where
  "frame s c = (case Node s c of None \<Rightarrow> [] | Some d \<Rightarrow> take (unat (len s d)) (buff s d))"

text \<open>The frames the driver holds: the one being sent, then the full list in order.\<close>

definition full_cells :: "uart \<Rightarrow> cell list" where
  "full_cells s = walk NODE_NUM (Nxt s) F_Head F_Tail"

definition held :: "uart \<Rightarrow> u8 list list" where
  "held s = map (frame s) (current s @ full_cells s)"

lemma rep_cells:
  assumes "uart_rep s es fs ws"
  shows "set es \<subseteq> Node_list ` {..<NODE_NUM}" "set fs \<subseteq> Node_list ` {..<NODE_NUM}"
    "set ws \<subseteq> Node_list ` {..<NODE_NUM}"
  using assms unfolding uart_rep_def by auto

lemma rep_not_sentinel:
  assumes "uart_rep s es fs ws" and "c \<in> {E_Head, E_Tail, F_Head, F_Tail}"
  shows "c \<notin> set es" "c \<notin> set fs" "c \<notin> set ws"
  using rep_cells [OF assms(1)] assms(2) by auto

lemma rep_length: "uart_rep s es fs ws \<Longrightarrow> length es + length fs + length ws = NODE_NUM"
proof -
  assume r: "uart_rep s es fs ws"
  then have d: "distinct (es @ fs @ ws)"
    and st: "set (es @ fs @ ws) = Node_list ` {..<NODE_NUM}"
    unfolding uart_rep_def by blast+
  show ?thesis
    using distinct_card [OF d] unfolding st by (simp add: card_image inj_on_def)
qed

lemma rep_full_cells: "uart_rep s es fs ws \<Longrightarrow> full_cells s = fs"
  using rep_length [of s es fs ws] rep_not_sentinel(2) [of s es fs ws F_Tail]
  unfolding full_cells_def uart_rep_def by (intro walk_dchain) auto

lemma rep_node: "uart_rep s es fs ws \<Longrightarrow> c \<in> set es \<union> set fs \<union> set ws \<Longrightarrow> \<exists>d. Node s c = Some d"
  unfolding uart_rep_def by (metis (no_types, lifting) Un_iff not_None_eq set_append)

lemma rep_node_inj:
  "uart_rep s es fs ws \<Longrightarrow> c \<in> set es \<union> set fs \<union> set ws \<Longrightarrow> c' \<in> set es \<union> set fs \<union> set ws \<Longrightarrow>
    Node s c = Node s c' \<longleftrightarrow> c = c'"
  using rep_cells [of s es fs ws] unfolding uart_rep_def by (metis (no_types, lifting) Un_iff inj_onD set_append)

lemma rep_cong:
  "Nxt s' = Nxt s \<Longrightarrow> Pre s' = Pre s \<Longrightarrow> Node s' = Node s \<Longrightarrow> uart_rep s' es fs ws = uart_rep s es fs ws"
  by (simp add: uart_rep_def)

section \<open>What the list operations do\<close>

lemma get_after_Nil: "dchain (Nxt s) (Pre s) h [] t \<Longrightarrow> Node s t = None \<Longrightarrow> get_after h s = Ok (None, s)"
  by (simp add: get_after_def)

lemma get_after_Cons:
  assumes c: "dchain (Nxt s) (Pre s) h (x # xs) t" and d: "distinct (x # xs)"
    and h: "h \<notin> set (x # xs)" and t: "t \<notin> insert h (set (x # xs))" and x: "Node s x \<noteq> None"
  shows "\<exists>n' p'. get_after h s = Ok (Some x, s\<lparr>Nxt := n', Pre := p'\<rparr>) \<and> dchain n' p' h xs t \<and>
    (\<forall>a ys b. insert a (set ys) \<inter> {h} = {} \<longrightarrow> insert b (set ys) \<inter> insert t (set xs) = {} \<longrightarrow>
      dchain n' p' a ys b = dchain (Nxt s) (Pre s) a ys b)"
proof -
  obtain r where r: "Nxt s x = Some r" "dchain ((Nxt s)(h := Nxt s x)) ((Pre s)(r := Some h)) h xs t"
    "r \<in> insert t (set xs)"
    using dchain_remove [OF c d h t] by auto
  have "get_after h s = Ok (Some x, s\<lparr>Nxt := (Nxt s)(h := Nxt s x), Pre := (Pre s)(r := Some h)\<rparr>)"
    using c h x r(1) by (auto simp: get_after_def)
  moreover have "dchain ((Nxt s)(h := Nxt s x)) ((Pre s)(r := Some h)) a ys b = dchain (Nxt s) (Pre s) a ys b"
    if "insert a (set ys) \<inter> {h} = {}" "insert b (set ys) \<inter> insert t (set xs) = {}" for a ys b
    using that r(3) by (intro dchain_cong) auto
  ultimately show ?thesis using r(2) by blast
qed

lemma insert_before_chain:
  assumes c: "dchain (Nxt s) (Pre s) h xs t" and x: "x \<notin> {h, t} \<union> set xs"
    and d: "distinct (h # xs)" and t: "t \<notin> insert h (set xs)"
  shows "\<exists>n' p'. insert_before t x s = Ok (s\<lparr>Nxt := n', Pre := p'\<rparr>) \<and> dchain n' p' h (xs @ [x]) t \<and>
    (\<forall>a ys b. insert a (set ys) \<inter> insert h (insert x (set xs)) = {} \<longrightarrow> insert b (set ys) \<inter> {x, t} = {} \<longrightarrow>
      dchain n' p' a ys b = dchain (Nxt s) (Pre s) a ys b)"
proof -
  let ?l = "last (h # xs)"
  let ?n = "(Nxt s)(?l := Some x, x := Some t)" and ?p = "(Pre s)(x := Some ?l, t := Some x)"
  have l: "?l \<in> insert h (set xs)" by (metis last_in_set list.set(2) list.distinct(1))
  have "insert_before t x s = Ok (s\<lparr>Nxt := ?n, Pre := ?p\<rparr>)"
    using dchain_last [OF c] x by (simp add: insert_before_def)
  moreover have "dchain ?n ?p h (xs @ [x]) t"
    by (rule dchain_insert [OF c x d t refl refl])
  moreover have "dchain ?n ?p a ys b = dchain (Nxt s) (Pre s) a ys b"
    if "insert a (set ys) \<inter> insert h (insert x (set xs)) = {}" "insert b (set ys) \<inter> {x, t} = {}" for a ys b
    using that l by (intro dchain_cong) auto
  ultimately show ?thesis by blast
qed

text \<open>The four list routines on a well-formed store.\<close>

lemma Get_Empty_Node_rep:
  assumes r: "uart_rep s es fs ws"
  shows "(es = [] \<and> Get_Empty_Node s = Ok (None, s)) \<or>
    (\<exists>x es' n' p'. es = x # es' \<and> Get_Empty_Node s = Ok (Some x, s\<lparr>Nxt := n', Pre := p'\<rparr>) \<and>
      uart_rep (s\<lparr>Nxt := n', Pre := p'\<rparr>) es' fs (x # ws))"
proof (cases es)
  case Nil
  with r show ?thesis by (simp add: uart_rep_def Get_Empty_Node_def get_after_Nil [of s E_Head E_Tail])
next
  case (Cons x es')
  note sent = rep_not_sentinel [OF r]
  have c0: "dchain (Nxt s) (Pre s) E_Head (x # es') E_Tail" and d: "distinct (x # es')"
    and h: "E_Head \<notin> set (x # es')" and e: "E_Tail \<notin> insert E_Head (set (x # es'))"
    using r Cons sent [of E_Head] sent [of E_Tail] unfolding uart_rep_def by auto
  have nx: "Node s x \<noteq> None" using rep_node [OF r, of x] Cons by auto
  from get_after_Cons [OF c0 d h e nx] obtain n' p'
    where g: "get_after E_Head s = Ok (Some x, s\<lparr>Nxt := n', Pre := p'\<rparr>)"
    and c: "dchain n' p' E_Head es' E_Tail"
    and oth: "\<forall>a ys b. insert a (set ys) \<inter> {E_Head} = {} \<longrightarrow> insert b (set ys) \<inter> insert E_Tail (set es') = {} \<longrightarrow>
      dchain n' p' a ys b = dchain (Nxt s) (Pre s) a ys b"
    by blast
  have o: "dchain n' p' F_Head fs F_Tail = dchain (Nxt s) (Pre s) F_Head fs F_Tail"
    using r Cons sent [of E_Head] sent [of E_Tail] sent [of F_Tail] sent [of F_Head]
    unfolding uart_rep_def by (intro oth [rule_format]) auto
  have "uart_rep (s\<lparr>Nxt := n', Pre := p'\<rparr>) es' fs (x # ws)"
    using r c o Cons unfolding uart_rep_def by auto
  with g Cons show ?thesis by (auto simp: Get_Empty_Node_def)
qed

lemma Get_Full_Node_rep:
  assumes r: "uart_rep s es fs ws"
  shows "(fs = [] \<and> Get_Full_Node s = Ok (None, s)) \<or>
    (\<exists>x fs' n' p'. fs = x # fs' \<and> Get_Full_Node s = Ok (Some x, s\<lparr>Nxt := n', Pre := p'\<rparr>) \<and>
      uart_rep (s\<lparr>Nxt := n', Pre := p'\<rparr>) es fs' (x # ws))"
proof (cases fs)
  case Nil
  with r show ?thesis by (simp add: uart_rep_def Get_Full_Node_def get_after_Nil [of s F_Head F_Tail])
next
  case (Cons x fs')
  note sent = rep_not_sentinel [OF r]
  have c0: "dchain (Nxt s) (Pre s) F_Head (x # fs') F_Tail" and d: "distinct (x # fs')"
    and h: "F_Head \<notin> set (x # fs')" and e: "F_Tail \<notin> insert F_Head (set (x # fs'))"
    using r Cons sent [of F_Head] sent [of F_Tail] unfolding uart_rep_def by auto
  have nx: "Node s x \<noteq> None" using rep_node [OF r, of x] Cons by auto
  from get_after_Cons [OF c0 d h e nx] obtain n' p'
    where g: "get_after F_Head s = Ok (Some x, s\<lparr>Nxt := n', Pre := p'\<rparr>)"
    and c: "dchain n' p' F_Head fs' F_Tail"
    and oth: "\<forall>a ys b. insert a (set ys) \<inter> {F_Head} = {} \<longrightarrow> insert b (set ys) \<inter> insert F_Tail (set fs') = {} \<longrightarrow>
      dchain n' p' a ys b = dchain (Nxt s) (Pre s) a ys b"
    by blast
  have o: "dchain n' p' E_Head es E_Tail = dchain (Nxt s) (Pre s) E_Head es E_Tail"
    using r Cons sent [of F_Head] sent [of F_Tail] sent [of E_Tail] sent [of E_Head]
    unfolding uart_rep_def by (intro oth [rule_format]) auto
  have "uart_rep (s\<lparr>Nxt := n', Pre := p'\<rparr>) es fs' (x # ws)"
    using r c o Cons unfolding uart_rep_def by auto
  with g Cons show ?thesis by (auto simp: Get_Full_Node_def)
qed

lemma Insert_Node_Full_list_rep:
  assumes r: "uart_rep s es fs (x # ws)"
  shows "\<exists>n' p'. Insert_Node_Full_list x s = Ok (s\<lparr>Nxt := n', Pre := p'\<rparr>) \<and>
    uart_rep (s\<lparr>Nxt := n', Pre := p'\<rparr>) es (fs @ [x]) ws"
proof -
  note sent = rep_not_sentinel [OF r]
  have c0: "dchain (Nxt s) (Pre s) F_Head fs F_Tail" and x: "x \<notin> {F_Head, F_Tail} \<union> set fs"
    and d: "distinct (F_Head # fs)" and e: "F_Tail \<notin> insert F_Head (set fs)"
    using r sent [of F_Head] sent [of F_Tail] unfolding uart_rep_def by auto
  from insert_before_chain [OF c0 x d e] obtain n' p'
    where g: "insert_before F_Tail x s = Ok (s\<lparr>Nxt := n', Pre := p'\<rparr>)"
    and c: "dchain n' p' F_Head (fs @ [x]) F_Tail"
    and oth: "\<forall>a ys b. insert a (set ys) \<inter> insert F_Head (insert x (set fs)) = {} \<longrightarrow>
      insert b (set ys) \<inter> {x, F_Tail} = {} \<longrightarrow> dchain n' p' a ys b = dchain (Nxt s) (Pre s) a ys b"
    by blast
  have o: "dchain n' p' E_Head es E_Tail = dchain (Nxt s) (Pre s) E_Head es E_Tail"
    using r sent [of F_Head] sent [of F_Tail] sent [of E_Tail] sent [of E_Head]
    unfolding uart_rep_def by (intro oth [rule_format]) auto
  have "uart_rep (s\<lparr>Nxt := n', Pre := p'\<rparr>) es (fs @ [x]) ws"
    using r c o unfolding uart_rep_def by auto
  with g show ?thesis by (auto simp: Insert_Node_Full_list_def)
qed

lemma Insert_Node_Empty_list_rep:
  assumes r: "uart_rep s es fs (x # ws)"
  shows "\<exists>n' p'. Insert_Node_Empty_list x s = Ok (s\<lparr>Nxt := n', Pre := p'\<rparr>) \<and>
    uart_rep (s\<lparr>Nxt := n', Pre := p'\<rparr>) (es @ [x]) fs ws"
proof -
  note sent = rep_not_sentinel [OF r]
  have c0: "dchain (Nxt s) (Pre s) E_Head es E_Tail" and x: "x \<notin> {E_Head, E_Tail} \<union> set es"
    and d: "distinct (E_Head # es)" and e: "E_Tail \<notin> insert E_Head (set es)"
    using r sent [of E_Head] sent [of E_Tail] unfolding uart_rep_def by auto
  from insert_before_chain [OF c0 x d e] obtain n' p'
    where g: "insert_before E_Tail x s = Ok (s\<lparr>Nxt := n', Pre := p'\<rparr>)"
    and c: "dchain n' p' E_Head (es @ [x]) E_Tail"
    and oth: "\<forall>a ys b. insert a (set ys) \<inter> insert E_Head (insert x (set es)) = {} \<longrightarrow>
      insert b (set ys) \<inter> {x, E_Tail} = {} \<longrightarrow> dchain n' p' a ys b = dchain (Nxt s) (Pre s) a ys b"
    by blast
  have o: "dchain n' p' F_Head fs F_Tail = dchain (Nxt s) (Pre s) F_Head fs F_Tail"
    using r sent [of E_Head] sent [of E_Tail] sent [of F_Tail] sent [of F_Head]
    unfolding uart_rep_def by (intro oth [rule_format]) auto
  have "uart_rep (s\<lparr>Nxt := n', Pre := p'\<rparr>) (es @ [x]) fs ws"
    using r c o unfolding uart_rep_def by auto
  with g show ?thesis by (auto simp: Insert_Node_Empty_list_def)
qed

lemma hook_nodes_chain:
  assumes "dchain (Nxt s) (Pre s) E_Head (map Node_list js) E_Tail"
    and "dchain (Nxt s) (Pre s) F_Head [] F_Tail" and "distinct (js @ is)"
  shows "\<exists>s'. hook_nodes alloc is s = Ok s' \<and>
    dchain (Nxt s') (Pre s') E_Head (map Node_list (js @ is)) E_Tail \<and>
    dchain (Nxt s') (Pre s') F_Head [] F_Tail \<and>
    (\<forall>c. Node s' c = (if c \<in> Node_list ` set is then (case c of Node_list i \<Rightarrow> alloc i) else Node s c)) \<and>
    (\<exists>n p d. s' = s\<lparr>Nxt := n, Pre := p, Node := d\<rparr>)"
  using assms
proof (induction "is" arbitrary: js s)
  case Nil
  have "s = s\<lparr>Nxt := Nxt s, Pre := Pre s, Node := Node s\<rparr>" by simp
  then have "\<exists>n p d. s = s\<lparr>Nxt := n, Pre := p, Node := d\<rparr>" by blast
  with Nil show ?case by simp
next
  case (Cons i "is")
  let ?s = "s\<lparr>Node := (Node s)(Node_list i := alloc i)\<rparr>"
  have c0: "dchain (Nxt ?s) (Pre ?s) E_Head (map Node_list js) E_Tail"
    and x: "Node_list i \<notin> {E_Head, E_Tail} \<union> set (map Node_list js)"
    and dh: "distinct (E_Head # map Node_list js)" and e: "E_Tail \<notin> insert E_Head (set (map Node_list js))"
    using Cons.prems by (auto simp: distinct_map inj_on_def)
  from insert_before_chain [OF c0 x dh e] obtain n' p'
    where g: "insert_before E_Tail (Node_list i) ?s = Ok (?s\<lparr>Nxt := n', Pre := p'\<rparr>)"
    and ce: "dchain n' p' E_Head (map Node_list js @ [Node_list i]) E_Tail"
    and oth: "\<forall>a ys b. insert a (set ys) \<inter> insert E_Head (insert (Node_list i) (set (map Node_list js))) = {} \<longrightarrow>
      insert b (set ys) \<inter> {Node_list i, E_Tail} = {} \<longrightarrow> dchain n' p' a ys b = dchain (Nxt ?s) (Pre ?s) a ys b"
    by blast
  have "dchain n' p' F_Head [] F_Tail = dchain (Nxt ?s) (Pre ?s) F_Head [] F_Tail"
    by (intro oth [rule_format]) auto
  with ce Cons.prems(2) have c: "dchain n' p' E_Head (map Node_list (js @ [i])) E_Tail"
    "dchain n' p' F_Head [] F_Tail"
    by simp_all
  let ?t = "?s\<lparr>Nxt := n', Pre := p'\<rparr>"
  have d: "distinct ((js @ [i]) @ is)" using Cons.prems(3) by auto
  have c': "dchain (Nxt ?t) (Pre ?t) E_Head (map Node_list (js @ [i])) E_Tail"
    "dchain (Nxt ?t) (Pre ?t) F_Head [] F_Tail"
    using c by simp_all
  from Cons.IH [OF c' d] obtain s' where s': "hook_nodes alloc is ?t = Ok s'"
    "dchain (Nxt s') (Pre s') E_Head (map Node_list ((js @ [i]) @ is)) E_Tail"
    "dchain (Nxt s') (Pre s') F_Head [] F_Tail"
    and nd: "\<And>c. Node s' c = (if c \<in> Node_list ` set is then (case c of Node_list i \<Rightarrow> alloc i) else Node ?t c)"
    and e: "\<exists>n p d. s' = ?t\<lparr>Nxt := n, Pre := p, Node := d\<rparr>"
    by blast
  from e have e': "\<exists>n p d. s' = s\<lparr>Nxt := n, Pre := p, Node := d\<rparr>" by auto
  have nd': "Node s' c = (if c \<in> Node_list ` set (i # is) then (case c of Node_list i \<Rightarrow> alloc i) else Node s c)" for c
    unfolding nd by auto
  have h: "hook_nodes alloc (i # is) s = Ok s'"
    using g s'(1) by (simp add: Insert_Node_Empty_list_def)
  show ?case
    using h s'(2,3) nd' e' by (intro exI [of _ s'] conjI allI) (simp_all only: append.assoc append.simps)
qed

definition fresh_alloc :: "(nat \<Rightarrow> nat option) \<Rightarrow> bool" where
  "fresh_alloc alloc \<longleftrightarrow> (\<forall>i<NODE_NUM. alloc i \<noteq> None) \<and> inj_on alloc {..<NODE_NUM}"

lemma Data_Node_list_init_rep:
  assumes a: "fresh_alloc alloc"
  shows "\<exists>s'. Data_Node_list_init alloc s = Ok s' \<and> uart_rep s' (map Node_list [0..<NODE_NUM]) [] [] \<and>
    (\<exists>n p d. s' = s\<lparr>Nxt := n, Pre := p, Node := d\<rparr>)"
proof -
  let ?s = "init_sentinels s"
  have "dchain (Nxt ?s) (Pre ?s) E_Head (map Node_list []) E_Tail"
    and "dchain (Nxt ?s) (Pre ?s) F_Head [] F_Tail" and "distinct ([] @ [0..<NODE_NUM])"
    by (simp_all add: init_sentinels_def)
  from hook_nodes_chain [OF this, of alloc] obtain s' where s': "hook_nodes alloc [0..<NODE_NUM] ?s = Ok s'"
    and c: "dchain (Nxt s') (Pre s') E_Head (map Node_list [0..<NODE_NUM]) E_Tail"
      "dchain (Nxt s') (Pre s') F_Head [] F_Tail"
    and nd: "\<And>c. Node s' c = (if c \<in> Node_list ` set [0..<NODE_NUM] then (case c of Node_list i \<Rightarrow> alloc i) else Node ?s c)"
    and e: "\<exists>n p d. s' = ?s\<lparr>Nxt := n, Pre := p, Node := d\<rparr>"
    by auto
  have "\<exists>n p d. s' = s\<lparr>Nxt := n, Pre := p, Node := d\<rparr>"
    using e by (auto simp: init_sentinels_def)
  moreover have "uart_rep s' (map Node_list [0..<NODE_NUM]) [] []"
    unfolding uart_rep_def
  proof (intro conjI)
    show "Node s' E_Tail = None" "Node s' F_Tail = None" by (auto simp: nd init_sentinels_def)
    show "\<forall>c \<in> Node_list ` {..<NODE_NUM}. Node s' c \<noteq> None"
      using a by (auto simp: nd fresh_alloc_def lessThan_atLeast0)
    show "inj_on (Node s') (Node_list ` {..<NODE_NUM})"
      using a unfolding fresh_alloc_def inj_on_def by (auto simp: nd lessThan_atLeast0)
  qed (use c in \<open>auto simp: distinct_map inj_on_def lessThan_atLeast0\<close>)
  ultimately show ?thesis using s' by (auto simp: Data_Node_list_init_def)
qed

section \<open>The driver refines a bounded queue of frames\<close>

abbreviation fits :: "u8 list \<Rightarrow> bool" where
  "fits data \<equiv> length data \<le> DATA_NODE_BUFF_MAX_LEN"

lemma frame_copy_in:
  assumes "Node s p = Some d" and "fits data"
  shows "frame (copy_in d data s) p = data"
    and "Node s c \<noteq> Some d \<Longrightarrow> frame (copy_in d data s) c = frame s c"
  using assms
  by (auto simp: frame_def copy_in_def DATA_NODE_BUFF_MAX_LEN_def unat_of_nat_lt split: option.split)

lemma copy_in_fields [simp]:
  "Nxt (copy_in d data s) = Nxt s" "Pre (copy_in d data s) = Pre s" "Node (copy_in d data s) = Node s"
  "pCurrentMDASendNode (copy_in d data s) = pCurrentMDASendNode s" "wire (copy_in d data s) = wire s"
  by (simp_all add: copy_in_def)

lemma DMA_Wirte_fields [simp]:
  "Nxt (USART1_DMA_Wirte d s) = Nxt s" "Pre (USART1_DMA_Wirte d s) = Pre s"
  "Node (USART1_DMA_Wirte d s) = Node s"
  "pCurrentMDASendNode (USART1_DMA_Wirte d s) = pCurrentMDASendNode s"
  "wire (USART1_DMA_Wirte d s) = wire s @ [take (unat (len s d)) (buff s d)]"
  "frame (USART1_DMA_Wirte d s) = frame s"
  by (simp_all add: USART1_DMA_Wirte_def frame_def fun_eq_iff split: option.split)

lemma frame_links [simp]:
  "frame (s\<lparr>Nxt := n, Pre := p\<rparr>) = frame s" "frame (s\<lparr>pCurrentMDASendNode := c\<rparr>) = frame s"
  by (simp_all add: frame_def fun_eq_iff split: option.split)

lemma held_rep: "uart_rep s es fs ws \<Longrightarrow> held s = map (frame s) (current s @ fs)"
  by (simp add: held_def rep_full_cells)

text \<open>Writing when no node is free changes nothing and returns 0.\<close>

lemma write_full:
  assumes "uart_inv s" and "length (held s) = NODE_NUM" and "fits data"
  shows "USART1_new_hw_write data s = Ok (0, s)"
proof -
  obtain es fs where r: "uart_rep s es fs (current s)" using assms(1) by (auto simp: uart_inv_def)
  with rep_length [OF r] assms(2) have "length es = 0" by (simp add: held_rep [OF r] del: length_0_conv)
  then have "es = []" by simp
  with Get_Empty_Node_rep [OF r] assms(3) show ?thesis by (simp add: USART1_new_hw_write_def)
qed

text \<open>Otherwise the frame is accepted: sent at once when the channel is idle, else queued last.\<close>

lemma write_free:
  assumes i: "uart_inv s" and l: "length (held s) < NODE_NUM" and f: "fits data"
  shows "\<exists>s'. USART1_new_hw_write data s = Ok (length data, s') \<and> uart_inv s' \<and>
    held s' = held s @ [data] \<and>
    wire s' = (if pCurrentMDASendNode s = None then wire s @ [data] else wire s)"
proof -
  obtain es fs where r: "uart_rep s es fs (current s)"
    and dr: "pCurrentMDASendNode s = None \<longrightarrow> fs = []"
    using i by (auto simp: uart_inv_def)
  have "es \<noteq> []" using rep_length [OF r] l by (auto simp: held_rep [OF r])
  with Get_Empty_Node_rep [OF r] obtain x es' n p where es: "es = x # es'"
    and g: "Get_Empty_Node s = Ok (Some x, s\<lparr>Nxt := n, Pre := p\<rparr>)"
    and r1: "uart_rep (s\<lparr>Nxt := n, Pre := p\<rparr>) es' fs (x # current s)"
    by auto
  obtain d where d: "Node s x = Some d" using rep_node [OF r1, of x] by auto
  let ?t = "copy_in d data (s\<lparr>Nxt := n, Pre := p\<rparr>)"
  have r2: "uart_rep ?t es' fs (x # current s)" using r1 by (subst rep_cong) simp_all
  have old: "frame ?t c = frame s c" if "c \<in> set (current s @ fs)" for c
  proof -
    have "c \<noteq> x" using r1 that by (auto simp: uart_rep_def)
    with rep_node_inj [OF r1, of c x] that d have "Node s c \<noteq> Some d" by auto
    with frame_copy_in(2) [of "s\<lparr>Nxt := n, Pre := p\<rparr>" x d data c] d f show ?thesis by simp
  qed
  have new: "frame ?t x = data" using frame_copy_in(1) [of "s\<lparr>Nxt := n, Pre := p\<rparr>" x d data] d f by simp
  have w: "USART1_new_hw_write data s = rbind (start_or_queue x ?t) (\<lambda>s2. Ok (length data, s2))"
    using f g d by (simp add: USART1_new_hw_write_def)
  show ?thesis
  proof (cases "pCurrentMDASendNode s")
    case None
    let ?u = "USART1_DMA_Wirte d (?t\<lparr>pCurrentMDASendNode := Some x\<rparr>)"
    have "start_or_queue x ?t = Ok ?u" using None d by (simp add: start_or_queue_def)
    moreover have r3: "uart_rep ?u es' fs (current ?u)"
      using r2 None by (subst rep_cong [of _ ?t]) (simp_all add: current_def)
    moreover have "wire ?u = wire s @ [data]"
      using new d by (simp add: frame_def)
    ultimately show ?thesis
      using w None dr new old by (auto simp: uart_inv_def held_rep [OF r] held_rep [OF r3] current_def)
  next
    case (Some c)
    from Insert_Node_Full_list_rep [OF r2] obtain n' p'
      where q: "Insert_Node_Full_list x ?t = Ok (?t\<lparr>Nxt := n', Pre := p'\<rparr>)"
      and r3: "uart_rep (?t\<lparr>Nxt := n', Pre := p'\<rparr>) es' (fs @ [x]) (current s)"
      by blast
    have cu: "current (?t\<lparr>Nxt := n', Pre := p'\<rparr>) = current s" by (simp add: current_def)
    have "start_or_queue x ?t = Ok (?t\<lparr>Nxt := n', Pre := p'\<rparr>)" using Some q by (simp add: start_or_queue_def)
    with w Some r3 new old cu show ?thesis
      by (auto simp: uart_inv_def held_rep [OF r] held_rep [OF r3])
  qed
qed

text \<open>The end-of-transfer interrupt recycles the sent node and starts the next frame.\<close>

lemma irq_step:
  assumes i: "uart_inv s"
  shows "\<exists>s'. DMA1_Channel4_IRQHandler s = Ok s' \<and> uart_inv s' \<and> held s' = tl (held s) \<and>
    wire s' = wire s @ take 1 (tl (held s))"
proof -
  obtain es fs where r: "uart_rep s es fs (current s)"
    and dr: "pCurrentMDASendNode s = None \<longrightarrow> fs = []"
    using i by (auto simp: uart_inv_def)
  obtain n p es' where
    g: "(case pCurrentMDASendNode s of None \<Rightarrow> Ok s | Some p \<Rightarrow> Insert_Node_Empty_list p s) =
      Ok (s\<lparr>Nxt := n, Pre := p\<rparr>)"
    and r1: "uart_rep (s\<lparr>Nxt := n, Pre := p\<rparr>) es' fs []"
  proof (cases "pCurrentMDASendNode s")
    case None
    with r that [where n = "Nxt s" and p = "Pre s" and es' = es] show ?thesis by (simp add: current_def)
  next
    case (Some x)
    with r Insert_Node_Empty_list_rep [of s es fs x "[]"] that show ?thesis
      by (auto simp: current_def)
  qed
  let ?t = "s\<lparr>Nxt := n, Pre := p\<rparr>"
  show ?thesis
  proof (cases fs)
    case Nil
    with Get_Full_Node_rep [OF r1] g have e: "DMA1_Channel4_IRQHandler s = Ok (?t\<lparr>pCurrentMDASendNode := None\<rparr>)"
      by (simp add: DMA1_Channel4_IRQHandler_def)
    have r2: "uart_rep (?t\<lparr>pCurrentMDASendNode := None\<rparr>) es' [] []"
      using r1 Nil by (subst rep_cong [of _ ?t]) simp_all
    have c0: "current (?t\<lparr>pCurrentMDASendNode := None\<rparr>) = []" by (simp add: current_def)
    have "tl (held s) = []" unfolding held_rep [OF r] Nil by (simp add: current_def split: option.split)
    with e r2 c0 show ?thesis by (auto simp: uart_inv_def held_rep [OF r2])
  next
    case (Cons x fs')
    with Get_Full_Node_rep [OF r1] obtain n' p' where
      q: "Get_Full_Node ?t = Ok (Some x, ?t\<lparr>Nxt := n', Pre := p'\<rparr>)"
      and r2: "uart_rep (?t\<lparr>Nxt := n', Pre := p'\<rparr>) es' fs' [x]"
      by auto
    obtain d where d: "Node s x = Some d" using rep_node [OF r2, of x] by auto
    let ?u = "USART1_DMA_Wirte d (?t\<lparr>Nxt := n', Pre := p', pCurrentMDASendNode := Some x\<rparr>)"
    have e: "DMA1_Channel4_IRQHandler s = Ok ?u"
      using g q d by (simp add: DMA1_Channel4_IRQHandler_def)
    have r3: "uart_rep ?u es' fs' (current ?u)"
      using r2 by (subst rep_cong [of _ "?t\<lparr>Nxt := n', Pre := p'\<rparr>"]) (simp_all add: current_def)
    have "pCurrentMDASendNode s \<noteq> None" using dr Cons by auto
    then have h: "tl (held s) = map (frame s) fs" unfolding held_rep [OF r] by (auto simp: current_def)
    have "held ?u = map (frame s) fs" unfolding held_rep [OF r3] using Cons by (simp add: current_def)
    moreover have "wire ?u = wire s @ [frame s x]" using d by (simp add: frame_def)
    ultimately show ?thesis using e r3 h Cons by (auto simp: uart_inv_def)
  qed
qed

section \<open>Runs of writes and interrupts\<close>

datatype uart_op = Write "u8 list" | Dma_done

fun do_op :: "uart_op \<Rightarrow> uart \<Rightarrow> uart res" where
  "do_op (Write data) s = rbind (USART1_new_hw_write data s) (\<lambda>(_, s'). Ok s')"
| "do_op Dma_done s = DMA1_Channel4_IRQHandler s"

fun uart_run :: "uart_op list \<Rightarrow> uart \<Rightarrow> uart res" where
  "uart_run [] s = Ok s"
| "uart_run (x # xs) s = rbind (do_op x s) (uart_run xs)"

text \<open>The frames whose write found a free node.\<close>

fun accepted :: "uart_op list \<Rightarrow> nat \<Rightarrow> u8 list list" where
  "accepted [] k = []"
| "accepted (Write data # xs) k =
    (if k < NODE_NUM then data # accepted xs (Suc k) else accepted xs k)"
| "accepted (Dma_done # xs) k = accepted xs (k - 1)"

definition ops_fit :: "uart_op list \<Rightarrow> bool" where
  "ops_fit xs \<longleftrightarrow> (\<forall>data. Write data \<in> set xs \<longrightarrow> fits data)"

definition unsent :: "uart \<Rightarrow> u8 list list" where
  "unsent s = map (frame s) (full_cells s)"

lemma inv_unsent: "uart_inv s \<Longrightarrow> pCurrentMDASendNode s = None \<Longrightarrow> held s = [] \<and> unsent s = []"
  by (auto simp: uart_inv_def held_def unsent_def current_def rep_full_cells)

lemma held_unsent: "pCurrentMDASendNode s \<noteq> None \<Longrightarrow> unsent s = tl (held s)"
  by (auto simp: unsent_def held_def current_def)

lemma held_bound: "uart_inv s \<Longrightarrow> length (held s) \<le> NODE_NUM"
  using rep_length by (fastforce simp: uart_inv_def held_rep)

lemma write_step:
  assumes i: "uart_inv s" and f: "fits data"
  shows "\<exists>k s'. USART1_new_hw_write data s = Ok (k, s') \<and> uart_inv s' \<and>
    held s' = take NODE_NUM (held s @ [data]) \<and>
    wire s' @ unsent s' = wire s @ unsent s @ (if length (held s) < NODE_NUM then [data] else [])"
proof (cases "length (held s) < NODE_NUM")
  case True
  with write_free [OF i _ f] obtain s' where w: "USART1_new_hw_write data s = Ok (length data, s')"
    and i': "uart_inv s'" and h: "held s' = held s @ [data]"
    and wi: "wire s' = (if pCurrentMDASendNode s = None then wire s @ [data] else wire s)"
    by auto
  have busy: "pCurrentMDASendNode s' \<noteq> None" using inv_unsent [OF i'] h by auto
  have "wire s' @ unsent s' = wire s @ unsent s @ [data]"
  proof (cases "pCurrentMDASendNode s")
    case None
    with inv_unsent [OF i None] h wi held_unsent [OF busy] show ?thesis by simp
  next
    case (Some c)
    then have "held s \<noteq> []" by (simp add: held_def current_def)
    with Some h wi held_unsent [OF busy] held_unsent [of s] show ?thesis by simp
  qed
  with w i' h True show ?thesis by simp
next
  case False
  with held_bound [OF i] have "length (held s) = NODE_NUM" by simp
  with write_full [OF i _ f] i show ?thesis by auto
qed

lemma irq_step_unsent:
  assumes i: "uart_inv s"
  shows "\<exists>s'. DMA1_Channel4_IRQHandler s = Ok s' \<and> uart_inv s' \<and> held s' = tl (held s) \<and>
    wire s' @ unsent s' = wire s @ unsent s"
proof -
  obtain s' where s': "DMA1_Channel4_IRQHandler s = Ok s'" "uart_inv s'" "held s' = tl (held s)"
    "wire s' = wire s @ take 1 (tl (held s))"
    using irq_step [OF i] by auto
  have "take 1 (tl (held s)) @ unsent s' = unsent s"
  proof (cases "pCurrentMDASendNode s")
    case None
    have n: "pCurrentMDASendNode s' = None"
      using inv_unsent [OF i None] s'(3) by (auto simp: held_def current_def split: option.splits)
    with inv_unsent [OF i None] inv_unsent [OF s'(2) n] show ?thesis by simp
  next
    case (Some c)
    then have h: "unsent s = tl (held s)" using held_unsent [of s] by simp
    show ?thesis
    proof (cases "tl (held s)")
      case Nil
      with s'(3) have "pCurrentMDASendNode s' = None" by (auto simp: held_def current_def split: option.splits)
      with inv_unsent [OF s'(2)] h Nil show ?thesis by simp
    next
      case (Cons f fs)
      with s'(3) inv_unsent [OF s'(2)] have "pCurrentMDASendNode s' \<noteq> None" by auto
      with held_unsent [of s'] s'(3) h Cons show ?thesis by simp
    qed
  qed
  with s' show ?thesis by auto
qed

lemma uart_run_ok:
  "uart_inv s \<Longrightarrow> ops_fit xs \<Longrightarrow> \<exists>s'. uart_run xs s = Ok s' \<and> uart_inv s' \<and>
    wire s' @ unsent s' = wire s @ unsent s @ accepted xs (length (held s))"
proof (induction xs arbitrary: s)
  case Nil
  then show ?case by simp
next
  case (Cons x xs)
  have xs: "ops_fit xs" using Cons.prems(2) by (auto simp: ops_fit_def)
  show ?case
  proof (cases x)
    case (Write data)
    then have f: "fits data" using Cons.prems(2) by (auto simp: ops_fit_def)
    obtain k s1 where w: "USART1_new_hw_write data s = Ok (k, s1)" and i: "uart_inv s1"
      and h: "held s1 = take NODE_NUM (held s @ [data])"
      and u: "wire s1 @ unsent s1 = wire s @ unsent s @ (if length (held s) < NODE_NUM then [data] else [])"
      using write_step [OF Cons.prems(1) f] by auto
    obtain s' where s': "uart_run xs s1 = Ok s'" "uart_inv s'"
      "wire s' @ unsent s' = wire s1 @ unsent s1 @ accepted xs (length (held s1))"
      using Cons.IH [OF i xs] by auto
    have l: "length (held s1) = (if length (held s) < NODE_NUM then Suc (length (held s)) else length (held s))"
      using h held_bound [OF Cons.prems(1)] by simp
    have "wire s' @ unsent s' = (wire s1 @ unsent s1) @ accepted xs (length (held s1))" using s'(3) by simp
    then have "wire s' @ unsent s' = wire s @ unsent s @ accepted (x # xs) (length (held s))"
      unfolding u l Write by simp
    with w s' Write show ?thesis by simp
  next
    case Dma_done
    obtain s1 where w: "DMA1_Channel4_IRQHandler s = Ok s1" and i: "uart_inv s1"
      and h: "held s1 = tl (held s)" and u: "wire s1 @ unsent s1 = wire s @ unsent s"
      using irq_step_unsent [OF Cons.prems(1)] by auto
    obtain s' where s': "uart_run xs s1 = Ok s'" "uart_inv s'"
      "wire s' @ unsent s' = wire s1 @ unsent s1 @ accepted xs (length (held s1))"
      using Cons.IH [OF i xs] by auto
    have "wire s' @ unsent s' = (wire s1 @ unsent s1) @ accepted xs (length (held s1))" using s'(3) by simp
    with w s' h u Dma_done show ?thesis by simp
  qed
qed

lemma open_inv:
  assumes "fresh_alloc alloc" and "and (open_flag s) OFLAG_OPEN = 0" and "pCurrentMDASendNode s = None"
  shows "\<exists>s'. USART1_new_hw_open alloc oflag s = Ok s' \<and> uart_inv s' \<and> held s' = [] \<and> unsent s' = [] \<and>
    wire s' = wire s \<and> and (open_flag s') OFLAG_OPEN \<noteq> 0"
proof -
  let ?s = "s\<lparr>openCnt := openCnt s + 1\<rparr>"
  obtain s1 n p d where s1: "Data_Node_list_init alloc ?s = Ok s1"
    and r: "uart_rep s1 (map Node_list [0..<NODE_NUM]) [] []" and e: "s1 = ?s\<lparr>Nxt := n, Pre := p, Node := d\<rparr>"
    using Data_Node_list_init_rep [OF assms(1), of ?s] by auto
  let ?t = "s1\<lparr>open_flag := or (open_flag s1) (or OFLAG_OPEN oflag)\<rparr>"
  have c: "pCurrentMDASendNode ?t = None" using e assms(3) by simp
  then have "uart_rep ?t (map Node_list [0..<NODE_NUM]) [] (current ?t)"
    using r by (subst rep_cong [of _ s1]) (simp_all add: current_def)
  then have i: "uart_inv ?t" using c by (auto simp: uart_inv_def)
  have "and (or (open_flag s) (or OFLAG_OPEN oflag)) OFLAG_OPEN = OFLAG_OPEN"
    by (simp add: bit_eq_iff bit_simps) blast
  then have o: "and (open_flag ?t) OFLAG_OPEN \<noteq> 0" using e by (simp add: OFLAG_OPEN_def)
  have "USART1_new_hw_open alloc oflag s = Ok ?t"
    using assms(2) s1 by (simp add: USART1_new_hw_open_def)
  with i o inv_unsent [OF i c] e show ?thesis by auto
qed

section \<open>The driver as a queue\<close>

definition put_frame :: "u8 list \<Rightarrow> uart \<Rightarrow> uart" where
  "put_frame data s = (case USART1_new_hw_write data s of Ok (_, s') \<Rightarrow> s' | _ \<Rightarrow> s)"

definition end_frame :: "uart \<Rightarrow> uart" where
  "end_frame s = (case DMA1_Channel4_IRQHandler s of Ok s' \<Rightarrow> s' | _ \<Rightarrow> s)"

lemma put_frame_step:
  "uart_inv s \<Longrightarrow> fits data \<Longrightarrow> uart_inv (put_frame data s) \<and> held (put_frame data s) = take NODE_NUM (held s @ [data])"
  using write_step [of s data] by (auto simp: put_frame_def)

lemma end_frame_step: "uart_inv s \<Longrightarrow> uart_inv (end_frame s) \<and> held (end_frame s) = tl (held s)"
  using irq_step [of s] by (auto simp: end_frame_def)

interpretation uq: fifo_drop_new uart_inv fits held NODE_NUM put_frame end_frame
  by unfold_locales (auto simp: held_bound put_frame_step end_frame_step)

section \<open>Closing and reopening\<close>

lemma free_empty_list:
  "uart_rep s es fs ws \<Longrightarrow> \<exists>n p. free_list Get_Empty_Node s =
    Some (Ok (s\<lparr>Nxt := n, Pre := p, freed := freed s @ map (the \<circ> Node s) es\<rparr>))"
proof (induction es arbitrary: s ws)
  case Nil
  with Get_Empty_Node_rep [OF Nil] have g: "Get_Empty_Node s = Ok (None, s)" by simp
  have "free_list Get_Empty_Node s = Some (Ok (s\<lparr>Nxt := Nxt s, Pre := Pre s, freed := freed s @ []\<rparr>))"
    by (subst free_list.simps) (simp add: g)
  then show ?case unfolding list.map by blast
next
  case (Cons x es)
  from Get_Empty_Node_rep [OF Cons.prems] obtain n p where
    g: "Get_Empty_Node s = Ok (Some x, s\<lparr>Nxt := n, Pre := p\<rparr>)"
    and r: "uart_rep (s\<lparr>Nxt := n, Pre := p\<rparr>) es fs (x # ws)"
    by auto
  obtain d where d: "Node s x = Some d" using rep_node [OF Cons.prems, of x] by auto
  let ?t = "s\<lparr>Nxt := n, Pre := p, freed := freed s @ [d]\<rparr>"
  have "uart_rep ?t es fs (x # ws)" using r by (subst rep_cong [of _ "s\<lparr>Nxt := n, Pre := p\<rparr>"]) simp_all
  from Cons.IH [OF this] obtain n' p' where
    "free_list Get_Empty_Node ?t = Some (Ok (?t\<lparr>Nxt := n', Pre := p', freed := freed ?t @ map (the \<circ> Node ?t) es\<rparr>))"
    by blast
  moreover have "free_list Get_Empty_Node s = free_list Get_Empty_Node ?t"
    by (subst free_list.simps) (simp add: g d)
  ultimately show ?case using d by (intro exI [of _ n'] exI [of _ p']) (simp add: comp_def)
qed

text \<open>
  The last close of an idle port frees every buffer once and switches the receiver, the DMA
  request and the USART off.
\<close>

lemma close_idle:
  assumes i: "uart_inv s" and idle: "pCurrentMDASendNode s = None"
    and o: "open_flag s \<noteq> 0" and last: "sint (openCnt s) \<le> 1"
  shows "\<exists>s'. USART1_new_hw_close s = Some (Ok (False, s')) \<and> open_flag s' = 0 \<and> \<not> usart_on s' \<and>
    flag s' = flag s \<and> pCurrentMDASendNode s' = None \<and> (\<exists>ds. freed s' = freed s @ ds \<and> distinct ds \<and>
      Some ` set ds = Node s ` (Node_list ` {..<NODE_NUM}))"
proof -
  obtain es where r: "uart_rep s es [] []" using i idle by (auto simp: uart_inv_def current_def)
  let ?s = "s\<lparr>openCnt := 0, dmareq_on := False, rxne_on := False, dma_on := False, usart_on := False\<rparr>"
  have r': "uart_rep ?s es [] []" using r by (subst rep_cong [of _ s]) simp_all
  have "free_list Get_Full_Node ?s = Some (Ok ?s)"
    using Get_Full_Node_rep [OF r'] by (subst free_list.simps) simp
  moreover obtain n p where "free_list Get_Empty_Node ?s =
    Some (Ok (?s\<lparr>Nxt := n, Pre := p, freed := freed ?s @ map (the \<circ> Node ?s) es\<rparr>))"
    using free_empty_list [OF r'] by blast
  ultimately have c: "USART1_new_hw_close s =
    Some (Ok (False, ?s\<lparr>Nxt := n, Pre := p, freed := freed s @ map (the \<circ> Node s) es, open_flag := 0\<rparr>))"
    using o last idle by (simp add: USART1_new_hw_close_def free_node_def)
  have es: "set es = Node_list ` {..<NODE_NUM}" and d: "distinct es" and inj: "inj_on (Node s) (set es)"
    and nn: "\<forall>c \<in> set es. Node s c \<noteq> None"
    using r unfolding uart_rep_def by auto
  have "inj_on (the \<circ> Node s) (set es)"
    using inj nn unfolding inj_on_def by (metis comp_apply option.expand)
  then have "distinct (map (the \<circ> Node s) es)" using d by (simp add: distinct_map)
  moreover have "Some ` set (map (the \<circ> Node s) es) = Node s ` set es"
    using nn by (force simp: image_iff)
  ultimately show ?thesis using c es idle by auto
qed

section \<open>A write interrupted by the end of a transfer\<close>

text \<open>
  \<open>USART1_new_hw_write\<close> runs in a thread with interrupts enabled. \<open>ustep\<close> cuts it where the
  interrupt can fall: before the node is taken (\<open>W_idle\<close>), after the copy (\<open>W_got\<close>), and
  between the test of \<open>pCurrentMDASendNode\<close> and the insertion (\<open>W_busy\<close>).
\<close>

datatype wpc = W_idle | W_got cell | W_busy cell

inductive ustep :: "uart \<times> wpc \<Rightarrow> uart \<times> wpc \<Rightarrow> bool" where
  take_node: "fits data \<Longrightarrow> Get_Empty_Node s = Ok (Some p, s1) \<Longrightarrow> Node s1 p = Some d \<Longrightarrow>
    ustep (s, W_idle) (copy_in d data s1, W_got p)"
| start_dma: "pCurrentMDASendNode s = None \<Longrightarrow> Node s p = Some d \<Longrightarrow>
    ustep (s, W_got p) (USART1_DMA_Wirte d (s\<lparr>pCurrentMDASendNode := Some p\<rparr>), W_idle)"
| see_busy: "pCurrentMDASendNode s \<noteq> None \<Longrightarrow> ustep (s, W_got p) (s, W_busy p)"
| queue_node: "Insert_Node_Full_list p s = Ok s' \<Longrightarrow> ustep (s, W_busy p) (s', W_idle)"
| dma_irq: "pCurrentMDASendNode s \<noteq> None \<Longrightarrow> DMA1_Channel4_IRQHandler s = Ok s' \<Longrightarrow> ustep (s, w) (s', w)"

inductive_simps ustep_busy: "ustep (s, W_busy p) t"
inductive_cases ustep_gotE: "ustep (s, W_got p) t"

abbreviation usteps :: "uart \<times> wpc \<Rightarrow> uart \<times> wpc \<Rightarrow> bool" where
  "usteps \<equiv> rtranclp ustep"

text \<open>Run without interruption, the steps are the write routine.\<close>

lemma write_is_steps:
  assumes "USART1_new_hw_write data s = Ok (n, s')"
  shows "usteps (s, W_idle) (s', W_idle)"
proof -
  from assms have f: "fits data" by (simp add: USART1_new_hw_write_def split: if_splits)
  with assms obtain r s1 where g: "Get_Empty_Node s = Ok (r, s1)"
    by (auto simp: USART1_new_hw_write_def rbind_Ok_iff)
  show ?thesis
  proof (cases r)
    case None
    from g None have "s1 = s"
      by (auto simp: Get_Empty_Node_def get_after_def Let_def split: option.splits if_splits)
    with assms f g None show ?thesis by (simp add: USART1_new_hw_write_def)
  next
    case (Some p)
    with assms f g obtain d where d: "Node s1 p = Some d"
      and q: "start_or_queue p (copy_in d data s1) = Ok s'"
      by (auto simp: USART1_new_hw_write_def rbind_Ok_iff split: option.splits)
    let ?t = "copy_in d data s1"
    have a: "ustep (s, W_idle) (?t, W_got p)" using f g Some d by (auto intro: take_node)
    have "usteps (?t, W_got p) (s', W_idle)"
    proof (cases "pCurrentMDASendNode ?t")
      case None
      with q d have "s' = USART1_DMA_Wirte d (?t\<lparr>pCurrentMDASendNode := Some p\<rparr>)"
        by (simp add: start_or_queue_def)
      with None d start_dma [of ?t p d] show ?thesis by auto
    next
      case (Some c)
      with q have i: "Insert_Node_Full_list p ?t = Ok s'" by (simp add: start_or_queue_def)
      have "ustep (?t, W_got p) (?t, W_busy p)" using Some by (auto intro: see_busy)
      with queue_node [OF i] show ?thesis by (auto intro: converse_rtranclp_into_rtranclp)
    qed
    with a show ?thesis by (rule converse_rtranclp_into_rtranclp)
  qed
qed

text \<open>
  With one frame in flight, the interrupt between the test and the insertion leaves the
  frame in the full list with no transfer running; the next write overtakes it.
\<close>

lemma race_steps:
  assumes i: "uart_inv s" and h: "length (held s) = 1" and f: "fits b"
  shows "\<exists>t es x. usteps (s, W_idle) (t, W_idle) \<and> uart_rep t es [x] [] \<and> pCurrentMDASendNode t = None \<and>
    frame t x = b \<and> wire t = wire s"
proof -
  obtain es fs where r: "uart_rep s es fs (current s)" using i by (auto simp: uart_inv_def)
  have busy: "pCurrentMDASendNode s \<noteq> None" using inv_unsent [OF i] h by (cases "pCurrentMDASendNode s") auto
  then obtain c where c: "pCurrentMDASendNode s = Some c" by auto
  have fs: "fs = []" using h held_rep [OF r] c by (simp add: current_def)
  have "es \<noteq> []" using rep_length [OF r] fs c by (auto simp: current_def NODE_NUM_def)
  with Get_Empty_Node_rep [OF r] obtain x es' n p where
    g: "Get_Empty_Node s = Ok (Some x, s\<lparr>Nxt := n, Pre := p\<rparr>)"
    and r1: "uart_rep (s\<lparr>Nxt := n, Pre := p\<rparr>) es' [] [x, c]"
    using fs c by (auto simp: current_def)
  obtain d where d: "Node s x = Some d" using rep_node [OF r1, of x] by auto
  let ?t = "copy_in d b (s\<lparr>Nxt := n, Pre := p\<rparr>)"
  have r2: "uart_rep ?t es' [] [c, x]"
    using r1 unfolding uart_rep_def by (auto simp: insert_commute)
  from Insert_Node_Empty_list_rep [OF r2] obtain n' p' where
    e: "Insert_Node_Empty_list c ?t = Ok (?t\<lparr>Nxt := n', Pre := p'\<rparr>)"
    and r3: "uart_rep (?t\<lparr>Nxt := n', Pre := p'\<rparr>) (es' @ [c]) [] [x]"
    by blast
  let ?u = "?t\<lparr>Nxt := n', Pre := p', pCurrentMDASendNode := None\<rparr>"
  have q: "DMA1_Channel4_IRQHandler ?t = Ok ?u"
    using e c Get_Full_Node_rep [OF r3] by (simp add: DMA1_Channel4_IRQHandler_def)
  have r4: "uart_rep ?u (es' @ [c]) [] [x]"
    using r3 by (subst rep_cong [of _ "?t\<lparr>Nxt := n', Pre := p'\<rparr>"]) simp_all
  from Insert_Node_Full_list_rep [OF r4] obtain n'' p'' where
    k: "Insert_Node_Full_list x ?u = Ok (?u\<lparr>Nxt := n'', Pre := p''\<rparr>)"
    and r5: "uart_rep (?u\<lparr>Nxt := n'', Pre := p''\<rparr>) (es' @ [c]) [x] []"
    by auto
  have "ustep (s, W_idle) (?t, W_got x)" using f g d by (auto intro: take_node)
  moreover have "ustep (?t, W_got x) (?t, W_busy x)" using c by (auto intro: see_busy)
  moreover have "ustep (?t, W_busy x) (?u, W_busy x)" using c q by (auto intro: dma_irq)
  moreover have "ustep (?u, W_busy x) (?u\<lparr>Nxt := n'', Pre := p''\<rparr>, W_idle)" using k by (rule queue_node)
  ultimately have "usteps (s, W_idle) (?u\<lparr>Nxt := n'', Pre := p''\<rparr>, W_idle)"
    by (meson converse_rtranclp_into_rtranclp r_into_rtranclp)
  moreover have "frame (?u\<lparr>Nxt := n'', Pre := p''\<rparr>) x = b"
    using frame_copy_in(1) [of "s\<lparr>Nxt := n, Pre := p\<rparr>" x d b] d f by (simp add: frame_def)
  moreover have "pCurrentMDASendNode (?u\<lparr>Nxt := n'', Pre := p''\<rparr>) = None" by simp
  moreover have "wire (?u\<lparr>Nxt := n'', Pre := p''\<rparr>) = wire s" by simp
  ultimately show ?thesis using r5 by blast
qed

lemma write_overtakes:
  assumes r: "uart_rep t es [x] []" and idle: "pCurrentMDASendNode t = None" and f: "fits data"
  shows "\<exists>s'. USART1_new_hw_write data t = Ok (length data, s') \<and> wire s' = wire t @ [data] \<and>
    unsent s' = [frame t x]"
proof -
  have "es \<noteq> []" using rep_length [OF r] by (auto simp: NODE_NUM_def)
  with Get_Empty_Node_rep [OF r] obtain y es' n p where
    g: "Get_Empty_Node t = Ok (Some y, t\<lparr>Nxt := n, Pre := p\<rparr>)"
    and r1: "uart_rep (t\<lparr>Nxt := n, Pre := p\<rparr>) es' [x] [y]"
    by auto
  obtain d where d: "Node t y = Some d" using rep_node [OF r1, of y] by auto
  let ?t = "copy_in d data (t\<lparr>Nxt := n, Pre := p\<rparr>)"
  let ?u = "USART1_DMA_Wirte d (?t\<lparr>pCurrentMDASendNode := Some y\<rparr>)"
  have "USART1_new_hw_write data t = Ok (length data, ?u)"
    using f g d idle by (simp add: USART1_new_hw_write_def start_or_queue_def)
  moreover have "wire ?u = wire t @ [data]"
    using frame_copy_in(1) [of "t\<lparr>Nxt := n, Pre := p\<rparr>" y d data] d f by (simp add: frame_def)
  moreover have "unsent ?u = [frame t x]"
  proof -
    have "uart_rep ?u es' [x] [y]" using r1 by (subst rep_cong [of _ "t\<lparr>Nxt := n, Pre := p\<rparr>"]) simp_all
    moreover have "x \<noteq> y" using r1 by (auto simp: uart_rep_def)
    then have "Node t x \<noteq> Some d" using rep_node_inj [OF r1, of x y] d by auto
    then have "frame ?t x = frame t x"
      using frame_copy_in(2) [of "t\<lparr>Nxt := n, Pre := p\<rparr>" y d data x] d f by simp
    ultimately show ?thesis by (simp add: unsent_def rep_full_cells)
  qed
  ultimately show ?thesis by blast
qed

section \<open>Properties\<close>

definition uart_off :: uart where
  "uart_off = \<lparr>Pre = (\<lambda>_. None), Nxt = (\<lambda>_. None), Node = (\<lambda>_. None), buff = (\<lambda>_. []), len = (\<lambda>_. 0),
    pCurrentMDASendNode = None, openCnt = 0, flag = 0, open_flag = 0, usart_on = False,
    dmareq_on = False, rxne_on = False, dma_on = False, wire = [], freed = []\<rparr>"

lemma fresh_alloc_Some: "fresh_alloc Some"
  by (simp add: fresh_alloc_def inj_on_def)

text \<open>
  C1. No frame is lost, duplicated or reordered: after the port is opened, any sequence of
  writes (of at most 1024 bytes) and end-of-transfer interrupts runs without a null access,
  and the frames handed to the DMA channel followed by those still queued are exactly the
  frames of the writes that found one of the five nodes free, in order.
\<close>

theorem uart_frames_in_order:
  assumes "fresh_alloc alloc" and "and (open_flag s) OFLAG_OPEN = 0" and "pCurrentMDASendNode s = None"
    and "ops_fit xs"
  shows "\<exists>s0 s'. USART1_new_hw_open alloc oflag s = Ok s0 \<and> uart_run xs s0 = Ok s' \<and>
    wire s' @ unsent s' = wire s @ accepted xs 0"
proof -
  obtain s0 where s0: "USART1_new_hw_open alloc oflag s = Ok s0" "uart_inv s0" "held s0 = []"
    "unsent s0 = []" "wire s0 = wire s"
    using open_inv [OF assms(1-3)] by blast
  with uart_run_ok [OF s0(2) assms(4)] show ?thesis by auto
qed

theorem uart_frames_in_order_witness:
  "\<exists>s0 s'. USART1_new_hw_open Some 3 uart_off = Ok s0 \<and>
    uart_run [Write [1], Write [2, 3], Dma_done] s0 = Ok s' \<and> wire s' @ unsent s' = [[1], [2, 3]]"
  using uart_frames_in_order [OF fresh_alloc_Some, of uart_off "[Write [1], Write [2, 3], Dma_done]" 3]
  by (auto simp: uart_off_def ops_fit_def DATA_NODE_BUFF_MAX_LEN_def NODE_NUM_def)

text \<open>
  The five-node pool is a bounded queue that refuses new frames when full: after a burst of
  writes with no interrupt the driver holds the first five of (frames held before, burst).
\<close>

lemma uart_burst_keeps_first_five:
  assumes "uart_inv s" and "list_all fits burst"
  shows "held (fold put_frame burst s) = take 5 (held s @ burst)"
  using uq.q_puts_take [OF assms] by (simp add: NODE_NUM_def)

lemma uart_burst_keeps_first_five_witness:
  "\<exists>s. uart_inv s \<and> held (fold put_frame [[1], [2], [3], [4], [5], [6]] s) = [[1], [2], [3], [4], [5]]"
proof -
  obtain s where "uart_inv s" "held s = []"
    using open_inv [OF fresh_alloc_Some, of uart_off 3] by (auto simp: uart_off_def)
  with uart_burst_keeps_first_five [of s "[[1], [2], [3], [4], [5], [6]]"] show ?thesis
    by (auto simp: DATA_NODE_BUFF_MAX_LEN_def)
qed

text \<open>
  C39. The write routine is not atomic with respect to the end-of-transfer interrupt: with one
  frame in flight, the interrupt can fall between its test of the current node and its
  insertion; then frame \<open>b\<close> sits in the full list with no transfer running, and the next
  frame \<open>c\<close> is sent before it.
\<close>

theorem uart_race_reorders:
  assumes "uart_inv s" and "length (held s) = 1" and "fits b" and "fits c"
  shows "\<exists>t s'. usteps (s, W_idle) (t, W_idle) \<and> pCurrentMDASendNode t = None \<and> unsent t = [b] \<and>
    USART1_new_hw_write c t = Ok (length c, s') \<and> wire s' = wire s @ [c] \<and> unsent s' = [b]"
proof -
  obtain t es x where t: "usteps (s, W_idle) (t, W_idle)" "uart_rep t es [x] []"
    "pCurrentMDASendNode t = None" "frame t x = b" "wire t = wire s"
    using race_steps [OF assms(1-3)] by blast
  then have "unsent t = [b]" by (simp add: unsent_def rep_full_cells)
  with t write_overtakes [OF t(2,3) assms(4)] show ?thesis by auto
qed

theorem uart_race_reorders_witness:
  "\<exists>s t s'. usteps (s, W_idle) (t, W_idle) \<and> unsent t = [[2]] \<and>
    USART1_new_hw_write [3] t = Ok (1, s') \<and> unsent s' = [[2]]"
proof -
  obtain s0 where s0: "uart_inv s0" "held s0 = []"
    using open_inv [OF fresh_alloc_Some, of uart_off 3] by (auto simp: uart_off_def)
  then have "uart_inv (put_frame [1] s0)" "length (held (put_frame [1] s0)) = 1"
    using put_frame_step [of s0 "[1]"] by (auto simp: DATA_NODE_BUFF_MAX_LEN_def NODE_NUM_def)
  from uart_race_reorders [OF this, of "[2]" "[3]"] show ?thesis
    by (auto simp: DATA_NODE_BUFF_MAX_LEN_def)
qed

text \<open>
  The last close of an idle, activated port frees each node's buffer exactly once, marks
  the port closed and switches the USART off; because the activated flag stays set,
  initialising it again does nothing and the USART stays off.
\<close>

lemma uart_reinit_after_close_stays_off:
  assumes "uart_inv s" and "pCurrentMDASendNode s = None" and "open_flag s \<noteq> 0"
    and "sint (openCnt s) \<le> 1" and "and (flag s) FLAG_ACTIVATED \<noteq> 0"
  shows "\<exists>s' ds. USART1_new_hw_close s = Some (Ok (False, s')) \<and> open_flag s' = 0 \<and>
    freed s' = freed s @ ds \<and> distinct ds \<and> Some ` set ds = Node s ` (Node_list ` {..<5}) \<and>
    \<not> usart_on (USART1_new_hw_init s')"
  using close_idle [OF assms(1-4)] assms(5)
  by (auto simp: USART1_new_hw_init_def NODE_NUM_def)

lemma uart_reinit_after_close_stays_off_witness:
  "\<exists>s s'. USART1_new_hw_open Some 3 (USART1_new_hw_init uart_off) = Ok s \<and>
    USART1_new_hw_close s = Some (Ok (False, s')) \<and> usart_on s \<and> \<not> usart_on (USART1_new_hw_init s')"
proof -
  let ?i = "USART1_new_hw_init uart_off"
  have n: "and (open_flag ?i) OFLAG_OPEN = 0" "pCurrentMDASendNode ?i = None"
    by (simp_all add: USART1_new_hw_init_def uart_off_def FLAG_ACTIVATED_def)
  obtain s where s: "USART1_new_hw_open Some 3 ?i = Ok s" "uart_inv s" "held s = []"
    "and (open_flag s) OFLAG_OPEN \<noteq> 0"
    using open_inv [OF fresh_alloc_Some n] by blast
  obtain s1 m p d where i: "Data_Node_list_init Some (?i\<lparr>openCnt := openCnt ?i + 1\<rparr>) = Ok s1"
    "s1 = ?i\<lparr>openCnt := openCnt ?i + 1, Nxt := m, Pre := p, Node := d\<rparr>"
    using Data_Node_list_init_rep [OF fresh_alloc_Some, of "?i\<lparr>openCnt := openCnt ?i + 1\<rparr>"] by auto
  from s(1) i n have f: "flag s = flag ?i" "openCnt s = 1" "usart_on s" "pCurrentMDASendNode s = None"
    by (auto simp: USART1_new_hw_open_def USART1_new_hw_init_def uart_off_def FLAG_ACTIVATED_def)
  have "open_flag s \<noteq> 0" using s(4) by auto
  moreover have "and (flag s) FLAG_ACTIVATED \<noteq> 0"
    by (simp add: f USART1_new_hw_init_def uart_off_def FLAG_ACTIVATED_def)
  ultimately obtain s' where "USART1_new_hw_close s = Some (Ok (False, s'))" "\<not> usart_on (USART1_new_hw_init s')"
    using uart_reinit_after_close_stays_off [OF s(2) f(4)] f(2) by auto
  with s(1) f(3) show ?thesis by blast
qed

end
