(* ===== verification/Serial.thy ===== *)
theory Serial
  imports Base
begin

text \<open>
  The generic serial device, \<open>MySouce/serial.c\<close> and \<open>serial.h\<close>: the receive ring that the
  interrupt fills and \<open>rt_serial_read\<close> empties (an instance of \<open>fifo_drop_old\<close>), polled
  input and output, and the linked list of DMA transmit requests.
\<close>

section \<open>Device state\<close>

definition UART_RX_BUFFER_SIZE :: nat where "UART_RX_BUFFER_SIZE = 64"

definition DEV_ACTIVATED :: u16 where "DEV_ACTIVATED = 0x10"
definition DEV_SUSPENDED :: u16 where "DEV_SUSPENDED = 0x20"
definition DEV_STREAM :: u16 where "DEV_STREAM = 0x40"
definition DEV_INT_RX :: u16 where "DEV_INT_RX = 0x100"
definition DEV_DMA_RX :: u16 where "DEV_DMA_RX = 0x200"
definition DEV_INT_TX :: u16 where "DEV_INT_TX = 0x400"
definition DEV_DMA_TX :: u16 where "DEV_DMA_TX = 0x800"

definition has :: "u16 \<Rightarrow> u16 \<Rightarrow> bool" where
  "has f m \<longleftrightarrow> and f m \<noteq> 0"

record int_rx =
  rx_buffer :: "u8 list"
  read_index :: nat
  save_index :: nat

text \<open>
  \<open>dn_ptr n\<close>, \<open>dn_size n\<close> and \<open>dn_next n\<close> are the fields of data node \<open>n\<close> (the node holds the
  caller's pointer, not its bytes); \<open>dma_started\<close> lists the transfers handed to the channel,
  \<open>dr_out\<close> the bytes written to the data register; \<open>rx_indicate\<close> says whether the callback is set.
\<close>

record serial =
  dev_flag :: u16
  rx :: int_rx
  rx_indicate :: bool
  dn_ptr :: "nat \<Rightarrow> u32"
  dn_size :: "nat \<Rightarrow> nat"
  dn_next :: "nat \<Rightarrow> nat option"
  list_head :: "nat option"
  list_tail :: "nat option"
  dma_on :: bool
  dma_started :: "(u32 \<times> nat) list"
  dr_out :: "u8 list"
  usart_en :: bool

section \<open>The receive ring\<close>

definition next_index :: "nat \<Rightarrow> nat" where
  "next_index i = (if i + 1 \<ge> UART_RX_BUFFER_SIZE then 0 else i + 1)"

text \<open>One character saved by \<open>rt_hw_serial_isr\<close>: the oldest is given up when the ring is full.\<close>

definition isr_save :: "u8 \<Rightarrow> int_rx \<Rightarrow> int_rx" where
  "isr_save b r =
    (let r1 = r\<lparr>rx_buffer := (rx_buffer r)[save_index r := b]\<rparr>;
         r2 = r1\<lparr>save_index := next_index (save_index r1)\<rparr>
     in if save_index r2 = read_index r2 then r2\<lparr>read_index := next_index (read_index r2)\<rparr> else r2)"

text \<open>\<open>rt_serial_read\<close> in interrupt mode: \<open>size\<close> characters or as many as there are; the flag
  says whether it stopped on an empty buffer (\<open>-RT_EEMPTY\<close>).\<close>

fun int_read :: "nat \<Rightarrow> int_rx \<Rightarrow> u8 list \<times> bool \<times> int_rx" where
  "int_read 0 r = ([], False, r)"
| "int_read (Suc n) r =
    (if read_index r \<noteq> save_index r then
       (let c = rx_buffer r ! read_index r;
            r1 = r\<lparr>read_index := next_index (read_index r)\<rparr>
        in (case int_read n r1 of (cs, e, r2) \<Rightarrow> (c # cs, e, r2)))
     else ([], True, r))"

definition rx_length :: "int_rx \<Rightarrow> nat" where
  "rx_length r =
    (if read_index r > save_index r
     then UART_RX_BUFFER_SIZE - read_index r + save_index r
     else save_index r - read_index r)"

text \<open>
  The receive interrupt: \<open>pending\<close> are the characters the data register delivers while the
  routine runs (none when the interrupt has another cause); each is saved, then the callback
  gets the count.
\<close>

definition rt_hw_serial_isr :: "u8 list \<Rightarrow> serial \<Rightarrow> (nat option \<times> serial) res" where
  "rt_hw_serial_isr pending s =
    (if pending = [] then Ok (None, s)
     else if \<not> has (dev_flag s) DEV_INT_RX then Halt
     else (let s1 = s\<lparr>rx := fold isr_save pending (rx s)\<rparr>
           in Ok (if rx_indicate s1 then Some (rx_length (rx s1)) else None, s1)))"

section \<open>Polled input and output\<close>

text \<open>
  Polling mode of \<open>rt_serial_read\<close>. The outer loop compares with \<open>size\<close>, the inner loop stores
  characters as long as one is ready. \<open>bursts\<close> are the characters each pass of the outer
  loop finds ready; \<open>None\<close> is a reader still waiting when they are used up.
\<close>

fun poll_read :: "nat \<Rightarrow> u8 list list \<Rightarrow> u8 list \<Rightarrow> u8 list option" where
  "poll_read sz bursts stored =
    (if length stored < sz then
       (case bursts of [] \<Rightarrow> None | b # bs \<Rightarrow> poll_read sz bs (stored @ b))
     else Some stored)"

definition rt_serial_read ::
  "nat \<Rightarrow> u8 list list \<Rightarrow> serial \<Rightarrow> (u8 list \<times> bool \<times> serial) option" where
  "rt_serial_read sz bursts s =
    (if has (dev_flag s) DEV_INT_RX then
       (case int_read sz (rx s) of (cs, e, r) \<Rightarrow> Some (cs, e, s\<lparr>rx := r\<rparr>))
     else (case poll_read sz bursts [] of None \<Rightarrow> None | Some cs \<Rightarrow> Some (cs, False, s)))"

text \<open>Stream mode sends a carriage return before every newline.\<close>

definition stream_byte :: "u8 \<Rightarrow> u8 list" where
  "stream_byte c = (if c = 10 then [13, c] else [c])"

definition poll_write :: "u8 list \<Rightarrow> serial \<Rightarrow> serial" where
  "poll_write data s =
    (if has (dev_flag s) DEV_STREAM then s\<lparr>dr_out := dr_out s @ concat (map stream_byte data)\<rparr>
     else s\<lparr>dr_out := dr_out s @ data\<rparr>)"

section \<open>DMA output\<close>

definition rt_serial_enable_dma :: "u32 \<Rightarrow> nat \<Rightarrow> serial \<Rightarrow> serial" where
  "rt_serial_enable_dma a k s = s\<lparr>dma_on := True, dma_started := dma_started s @ [(a, k)]\<rparr>"

definition dma_write :: "nat \<Rightarrow> u32 \<Rightarrow> nat \<Rightarrow> serial \<Rightarrow> serial" where
  "dma_write n a k s =
    (let s1 = s\<lparr>dn_ptr := (dn_ptr s)(n := a), dn_size := (dn_size s)(n := k),
                dn_next := (dn_next s)(n := None)\<rparr>;
         s2 = (case list_tail s1 of None \<Rightarrow> s1 | Some t \<Rightarrow> s1\<lparr>dn_next := (dn_next s1)(t := Some n)\<rparr>);
         s3 = s2\<lparr>list_tail := Some n\<rparr>
     in case list_head s3 of
          None \<Rightarrow> rt_serial_enable_dma (dn_ptr s3 n) (dn_size s3 n) (s3\<lparr>list_head := Some n\<rparr>)
        | Some _ \<Rightarrow> s3)"

text \<open>
  \<open>alloc\<close> is the node \<open>rt_mp_alloc\<close> returns, \<open>a\<close> the caller's pointer and \<open>data\<close> the bytes
  there. The result is the byte count, a flag for \<open>-RT_ENOMEM\<close> and the state; the DMA branch
  leaves \<open>ptr\<close> at the start of the buffer, so its count is 0.
\<close>

definition rt_serial_write ::
  "nat option \<Rightarrow> u32 \<Rightarrow> u8 list \<Rightarrow> serial \<Rightarrow> (nat \<times> bool \<times> serial) res" where
  "rt_serial_write alloc a data s =
    (if has (dev_flag s) DEV_INT_TX then Halt
     else if has (dev_flag s) DEV_DMA_TX then
       (case alloc of
          None \<Rightarrow> Ok (0, True, s)
        | Some n \<Rightarrow> Ok (0, False, dma_write n a (length data) s))
     else Ok (length data, False, poll_write data s))"

text \<open>
  The transfer-complete interrupt. The result is the pointer given to the \<open>tx_complete\<close>
  callback, the node released with \<open>rt_mp_free\<close> and the state.
\<close>

definition rt_hw_serial_dma_tx_isr :: "serial \<Rightarrow> (u32 \<times> nat \<times> serial) res" where
  "rt_hw_serial_dma_tx_isr s =
    (if \<not> has (dev_flag s) DEV_DMA_TX then Halt
     else (case list_head s of
        None \<Rightarrow> Halt
      | Some n \<Rightarrow>
          (let s1 = s\<lparr>list_head := dn_next s n\<rparr>;
               s2 = (if list_head s1 = None then s1\<lparr>list_tail := None\<rparr> else s1)
           in Ok (dn_ptr s n, n, case list_head s2 of
                 Some m \<Rightarrow> rt_serial_enable_dma (dn_ptr s2 m) (dn_size s2 m) s2
               | None \<Rightarrow> s2\<lparr>dma_on := False\<rparr>))))"

section \<open>Initialisation and control\<close>

definition rt_serial_init :: "serial \<Rightarrow> serial" where
  "rt_serial_init s =
    (if has (dev_flag s) DEV_ACTIVATED then s
     else
       (let s1 = (if has (dev_flag s) DEV_INT_RX
             then s\<lparr>rx := \<lparr>rx_buffer = replicate UART_RX_BUFFER_SIZE 0, read_index = 0, save_index = 0\<rparr>\<rparr>
             else s);
            s2 = (if has (dev_flag s1) DEV_DMA_TX then s1\<lparr>list_head := None, list_tail := None\<rparr> else s1)
        in s2\<lparr>usart_en := True, dev_flag := or (dev_flag s2) DEV_ACTIVATED\<rparr>))"

datatype ctrl = Suspend | Resume | Other_cmd

fun rt_serial_control :: "ctrl \<Rightarrow> serial \<Rightarrow> serial" where
  "rt_serial_control Suspend s = s\<lparr>dev_flag := or (dev_flag s) DEV_SUSPENDED, usart_en := False\<rparr>"
| "rt_serial_control Resume s = s\<lparr>dev_flag := and (dev_flag s) (not DEV_SUSPENDED), usart_en := True\<rparr>"
| "rt_serial_control Other_cmd s = s"

text \<open>
  Registration refuses receive DMA and interrupt transmission; the result is the flag word
  handed to \<open>rt_device_register\<close>.
\<close>

definition rt_hw_serial_register :: "u16 \<Rightarrow> u16 res" where
  "rt_hw_serial_register fl =
    (if has fl DEV_DMA_RX \<or> has fl DEV_INT_TX then Halt else Ok (or 3 fl))"

section \<open>The ring is a bounded queue\<close>

definition rx_inv :: "int_rx \<Rightarrow> bool" where
  "rx_inv r \<longleftrightarrow> length (rx_buffer r) = UART_RX_BUFFER_SIZE \<and>
    read_index r < UART_RX_BUFFER_SIZE \<and> save_index r < UART_RX_BUFFER_SIZE"

definition rx_data :: "int_rx \<Rightarrow> u8 list" where
  "rx_data r = map (\<lambda>k. rx_buffer r ! ((read_index r + k) mod UART_RX_BUFFER_SIZE)) [0..<rx_length r]"

definition rx_pop :: "int_rx \<Rightarrow> int_rx" where
  "rx_pop r = snd (snd (int_read 1 r))"

lemma length_rx_data [simp]: "length (rx_data r) = rx_length r"
  by (simp add: rx_data_def)

lemma tl_map_upt: "tl (map f [0..<n]) = map (\<lambda>k. f (Suc k)) [0..<n - 1]"
  by (cases n) (simp_all add: upt_conv_Cons map_Suc_upt [symmetric] comp_def del: upt_Suc)

lemma tl_rx_data:
  "tl (rx_data r) = map (\<lambda>k. rx_buffer r ! ((read_index r + Suc k) mod 64)) [0..<rx_length r - 1]"
  by (simp add: rx_data_def tl_map_upt UART_RX_BUFFER_SIZE_def)

lemma rx_length_le: "rx_inv r \<Longrightarrow> rx_length r \<le> 63"
  by (auto simp: rx_inv_def rx_length_def UART_RX_BUFFER_SIZE_def)

lemma next_index_mod: "i < 64 \<Longrightarrow> next_index i = (i + 1) mod 64"
  by (simp add: next_index_def UART_RX_BUFFER_SIZE_def wrap_mod del: Suc_eq_plus1 add_Suc_right One_nat_def)

lemma rx_inv64: "rx_inv r \<longleftrightarrow> length (rx_buffer r) = 64 \<and> read_index r < 64 \<and> save_index r < 64"
  by (simp add: rx_inv_def UART_RX_BUFFER_SIZE_def)

lemma save_mod: "rx_inv r \<Longrightarrow> (read_index r + rx_length r) mod 64 = save_index r"
  by (auto simp: rx_inv64 rx_length_def UART_RX_BUFFER_SIZE_def)

lemma rx_length_unique:
  assumes "read_index r < 64" and "k < 64" and "(read_index r + k) mod 64 = save_index r"
  shows "rx_length r = k"
proof -
  have "save_index r = (if read_index r + k < 64 then read_index r + k else read_index r + k - 64)"
    using assms wrap_mod [of "read_index r" 64 k] by simp
  with assms show ?thesis by (simp add: rx_length_def UART_RX_BUFFER_SIZE_def split: if_splits)
qed

lemma isr_save_inv: "rx_inv r \<Longrightarrow> rx_inv (isr_save b r)"
  by (auto simp: rx_inv64 isr_save_def next_index_def UART_RX_BUFFER_SIZE_def Let_def)

lemma rx_data_put:
  assumes i: "rx_inv r" and l: "length (rx_data r) < 63"
  shows "rx_data (isr_save b r) = rx_data r @ [b]"
proof -
  let ?s = "isr_save b r"
  have b: "length (rx_buffer r) = 64" "read_index r < 64" "save_index r < 64"
    using i by (simp_all add: rx_inv64)
  have lr: "rx_length r < 63" using l by simp
  have sv: "(save_index r + 1) mod 64 = (read_index r + Suc (rx_length r)) mod 64"
    using save_mod [OF i] mod_add_left_eq [of "read_index r + rx_length r" 64 1] by simp
  then have "(save_index r + 1) mod 64 \<noteq> read_index r"
    using slot_neq [OF b(2), of 0 "Suc (rx_length r)"] lr b by simp
  then have s: "?s = r\<lparr>rx_buffer := (rx_buffer r)[save_index r := b], save_index := (save_index r + 1) mod 64\<rparr>"
    using b by (simp add: isr_save_def Let_def next_index_mod)
  have "rx_length ?s = Suc (rx_length r)"
    using lr sv b by (intro rx_length_unique) (simp_all add: s)
  moreover have "rx_buffer ?s ! ((read_index r + k) mod 64) = rx_buffer r ! ((read_index r + k) mod 64)"
    if "k < rx_length r" for k
    using slot_neq [OF b(2) that] save_mod [OF i] lr by (simp add: s)
  moreover have "rx_buffer ?s ! ((read_index r + rx_length r) mod 64) = b"
    using b by (simp add: s save_mod [OF i])
  ultimately show ?thesis by (simp add: rx_data_def s UART_RX_BUFFER_SIZE_def)
qed

lemma rx_data_drop_old:
  assumes i: "rx_inv r" and l: "length (rx_data r) = 63"
  shows "rx_data (isr_save b r) = tl (rx_data r) @ [b]"
proof -
  let ?s = "isr_save b r"
  have b: "length (rx_buffer r) = 64" "read_index r < 64" "save_index r < 64"
    using i by (simp_all add: rx_inv64)
  have lr: "rx_length r = 63" using l by simp
  have sv: "(save_index r + 1) mod 64 = read_index r"
    using save_mod [OF i] lr b mod_add_left_eq [of "read_index r + 63" 64 1] by simp
  then have s: "?s = r\<lparr>rx_buffer := (rx_buffer r)[save_index r := b],
      save_index := read_index r, read_index := (read_index r + 1) mod 64\<rparr>"
    using b by (simp add: isr_save_def Let_def next_index_mod)
  have "rx_length ?s = 63"
    using b slot_step [of "read_index r" 64 63] by (intro rx_length_unique) (simp_all add: s)
  moreover have "rx_buffer ?s ! ((read_index r + 1 + k) mod 64) = rx_buffer r ! ((read_index r + 1 + k) mod 64)"
    if "k < 62" for k
    using slot_neq [OF b(2), of "Suc k" 63] that save_mod [OF i] lr by (simp add: s)
  moreover have "rx_buffer ?s ! ((read_index r + 1 + 62) mod 64) = b"
    using save_mod [OF i] lr b by (simp add: s add.commute)
  moreover have "[0..<63] = [0..<62] @ [62::nat]" by (simp add: upt_rec)
  ultimately show ?thesis
    unfolding tl_rx_data by (simp add: rx_data_def s lr UART_RX_BUFFER_SIZE_def mod_add_left_eq)
qed

lemma rx_data_pop:
  assumes i: "rx_inv r"
  shows "rx_inv (rx_pop r)" and "rx_data (rx_pop r) = tl (rx_data r)"
    and "rx_data r \<noteq> [] \<Longrightarrow> rx_buffer r ! read_index r = hd (rx_data r)"
proof -
  show "rx_inv (rx_pop r)"
    using i by (auto simp: rx_pop_def rx_inv_def next_index_def UART_RX_BUFFER_SIZE_def Let_def)
  show "rx_buffer r ! read_index r = hd (rx_data r)" if "rx_data r \<noteq> []"
    using that i by (auto simp: rx_data_def hd_map rx_inv_def)
  show "rx_data (rx_pop r) = tl (rx_data r)"
  proof (cases "read_index r = save_index r")
    case True
    then have "rx_length r = 0" by (simp add: rx_length_def)
    with True show ?thesis by (simp add: rx_pop_def rx_data_def)
  next
    case False
    then have s: "rx_pop r = r\<lparr>read_index := (read_index r + 1) mod 64\<rparr>"
      using i by (simp add: rx_pop_def Let_def next_index_mod rx_inv_def UART_RX_BUFFER_SIZE_def)
    have pos: "0 < rx_length r" using False i by (auto simp: rx_length_def rx_inv_def)
    have "rx_length (rx_pop r) = rx_length r - 1"
    proof (rule rx_length_unique)
      show "read_index (rx_pop r) < 64" by (simp add: s)
      have "((read_index r + 1) mod 64 + (rx_length r - 1)) mod 64 = (read_index r + rx_length r) mod 64"
        using pos slot_step [of "read_index r" 64 "rx_length r - 1"] by simp
      then show "(read_index (rx_pop r) + (rx_length r - 1)) mod 64 = save_index (rx_pop r)"
        using save_mod [OF i] by (simp add: s)
    qed (use rx_length_le [OF i] in simp)
    moreover have "(Suc (read_index r) mod 64 + k) mod 64 = Suc (read_index r + k) mod 64" for k
      using slot_step [of "read_index r" 64 k] by simp
    ultimately show ?thesis
      unfolding tl_rx_data by (simp add: rx_data_def s UART_RX_BUFFER_SIZE_def)
  qed
qed

interpretation rxq: fifo_drop_old rx_inv "\<lambda>_. True" rx_data 63 isr_save rx_pop
  by unfold_locales (use rx_length_le rx_data_pop in \<open>auto simp: isr_save_inv rx_data_put rx_data_drop_old\<close>)

lemma int_read_Suc:
  assumes "rx_inv r" and "rx_data r \<noteq> []"
  shows "int_read (Suc n) r =
    (case int_read n (rx_pop r) of (cs, e, r') \<Rightarrow> (hd (rx_data r) # cs, e, r'))"
proof -
  have "read_index r \<noteq> save_index r" using assms(2) by (auto simp: rx_data_def rx_length_def)
  with rx_data_pop(3) [OF assms] show ?thesis by (simp add: rx_pop_def Let_def)
qed

lemma int_read_data:
  "rx_inv r \<Longrightarrow> \<exists>r'. int_read n r = (take n (rx_data r), length (rx_data r) < n, r') \<and>
    rx_inv r' \<and> rx_data r' = drop n (rx_data r)"
proof (induction n arbitrary: r)
  case 0
  then show ?case by simp
next
  case (Suc n)
  show ?case
  proof (cases "rx_data r = []")
    case True
    then have "rx_length r = 0" by (metis length_rx_data list.size(3))
    then have "read_index r = save_index r"
      using Suc.prems by (auto simp: rx_length_def rx_inv64 UART_RX_BUFFER_SIZE_def split: if_splits)
    with True Suc.prems show ?thesis by simp
  next
    case False
    then obtain x xs where d: "rx_data r = x # xs" by (cases "rx_data r") auto
    with rx_data_pop [OF Suc.prems] Suc.IH [of "rx_pop r"]
    show ?thesis by (auto simp: int_read_Suc [OF Suc.prems False] simp del: length_rx_data int_read.simps)
  qed
qed

section \<open>The DMA request list\<close>

fun chain :: "(nat \<Rightarrow> nat option) \<Rightarrow> nat option \<Rightarrow> nat list \<Rightarrow> bool" where
  "chain nx p [] \<longleftrightarrow> p = None"
| "chain nx p (x # xs) \<longleftrightarrow> p = Some x \<and> chain nx (nx x) xs"

lemma chain_cong: "(\<And>x. x \<in> set xs \<Longrightarrow> nx' x = nx x) \<Longrightarrow> chain nx' p xs = chain nx p xs"
  by (induction xs arbitrary: p) auto

lemma chain_snoc:
  assumes "chain nx p xs" and "xs \<noteq> []" and "n \<notin> set xs" and "distinct xs"
  shows "chain (nx(n := None, last xs := Some n)) p (xs @ [n])"
  using assms
proof (induction xs arbitrary: p)
  case Nil
  then show ?case by simp
next
  case (Cons x xs)
  show ?case
  proof (cases "xs = []")
    case True
    with Cons.prems show ?thesis by simp
  next
    case False
    with Cons have "x \<noteq> last xs" "x \<noteq> n" by auto
    with Cons False show ?thesis by simp
  qed
qed

definition tx_rep :: "serial \<Rightarrow> nat list \<Rightarrow> bool" where
  "tx_rep s ns \<longleftrightarrow> chain (dn_next s) (list_head s) ns \<and> distinct ns \<and>
    list_tail s = (if ns = [] then None else Some (last ns))"

definition request :: "serial \<Rightarrow> nat \<Rightarrow> u32 \<times> nat" where
  "request s n = (dn_ptr s n, dn_size s n)"

text \<open>The requests taken so far: those started and those still waiting behind the running one.\<close>

definition taken :: "serial \<Rightarrow> nat list \<Rightarrow> (u32 \<times> nat) list" where
  "taken s ns = dma_started s @ tl (map (request s) ns)"

lemma dma_write_rep:
  assumes "tx_rep s ns" and "n \<notin> set ns"
  shows "tx_rep (dma_write n a k s) (ns @ [n])" and "taken (dma_write n a k s) (ns @ [n]) = taken s ns @ [(a, k)]"
proof -
  have m: "map (request (s\<lparr>dn_ptr := (dn_ptr s)(n := a), dn_size := (dn_size s)(n := k), dn_next := f,
      list_tail := t\<rparr>)) ns = map (request s) ns" for f t
    using assms(2) by (auto simp: request_def)
  show "tx_rep (dma_write n a k s) (ns @ [n])"
    using assms chain_snoc [of "dn_next s" "list_head s" ns n]
    by (cases ns) (auto simp: dma_write_def tx_rep_def rt_serial_enable_dma_def)
  show "taken (dma_write n a k s) (ns @ [n]) = taken s ns @ [(a, k)]"
    using assms m
    by (cases ns) (auto simp: dma_write_def tx_rep_def rt_serial_enable_dma_def taken_def request_def)
qed

lemma dma_isr_rep:
  assumes "tx_rep s (n # ns)" and "has (dev_flag s) DEV_DMA_TX"
  shows "\<exists>s'. rt_hw_serial_dma_tx_isr s = Ok (dn_ptr s n, n, s') \<and> tx_rep s' ns \<and> dev_flag s' = dev_flag s \<and>
    taken s' ns = taken s (n # ns) \<and> dma_on s' = (ns \<noteq> [])"
proof -
  have h: "list_head s = Some n" using assms(1) by (simp add: tx_rep_def)
  show ?thesis
  proof (cases ns)
    case Nil
    with assms h show ?thesis
      by (simp add: rt_hw_serial_dma_tx_isr_def tx_rep_def Let_def taken_def)
  next
    case (Cons m ms)
    then have "dn_next s n = Some m" using assms(1) by (simp add: tx_rep_def)
    with assms h Cons show ?thesis
      by (auto simp: rt_hw_serial_dma_tx_isr_def tx_rep_def Let_def taken_def rt_serial_enable_dma_def request_def)
  qed
qed

text \<open>Writers and the transfer interrupt in any order.\<close>

datatype dma_ev = Request nat u32 "u8 list" | Transfer_done

fun dma_run :: "dma_ev list \<Rightarrow> serial \<Rightarrow> serial res" where
  "dma_run [] s = Ok s"
| "dma_run (Request n a data # es) s =
    rbind (rt_serial_write (Some n) a data s) (\<lambda>(_, _, s'). dma_run es s')"
| "dma_run (Transfer_done # es) s = rbind (rt_hw_serial_dma_tx_isr s) (\<lambda>(_, _, s'). dma_run es s')"

text \<open>
  What the pool and the channel guarantee of a sequence of events: an allocated node is not in
  use, and a transfer ends only when one is running. The result is the list of nodes in use.
\<close>

fun in_use :: "dma_ev list \<Rightarrow> nat list \<Rightarrow> nat list option" where
  "in_use [] ns = Some ns"
| "in_use (Request n a data # es) ns = (if n \<in> set ns then None else in_use es (ns @ [n]))"
| "in_use (Transfer_done # es) ns = (case ns of [] \<Rightarrow> None | _ # ns' \<Rightarrow> in_use es ns')"

fun requested :: "dma_ev list \<Rightarrow> (u32 \<times> nat) list" where
  "requested [] = []"
| "requested (Request n a data # es) = (a, length data) # requested es"
| "requested (Transfer_done # es) = requested es"

lemma dma_run_rep:
  "tx_rep s ns \<Longrightarrow> has (dev_flag s) DEV_DMA_TX \<Longrightarrow> \<not> has (dev_flag s) DEV_INT_TX \<Longrightarrow>
    in_use es ns = Some ns' \<Longrightarrow>
    \<exists>s'. dma_run es s = Ok s' \<and> tx_rep s' ns' \<and> taken s' ns' = taken s ns @ requested es"
proof (induction es arbitrary: s ns)
  case Nil
  then show ?case by auto
next
  case (Cons e es)
  show ?case
  proof (cases e)
    case (Request n a data)
    let ?w = "dma_write n a (length data) s"
    have fl: "dev_flag ?w = dev_flag s"
      by (simp add: dma_write_def Let_def rt_serial_enable_dma_def split: option.split)
    have n: "n \<notin> set ns" and u: "in_use es (ns @ [n]) = Some ns'"
      using Cons.prems(4) Request by (auto split: if_splits)
    have "rt_serial_write (Some n) a data s = Ok (0, False, ?w)"
      using Cons.prems by (simp add: rt_serial_write_def)
    moreover obtain s' where "dma_run es ?w = Ok s'" "tx_rep s' ns'"
      "taken s' ns' = taken ?w (ns @ [n]) @ requested es"
      using Cons.IH [OF dma_write_rep(1) [OF Cons.prems(1) n, of a "length data"] _ _ u] Cons.prems(2,3) fl
      by auto
    ultimately show ?thesis
      using Request dma_write_rep(2) [OF Cons.prems(1) n] by simp
  next
    case Transfer_done
    then obtain n ms where ns: "ns = n # ms" and u: "in_use es ms = Some ns'"
      using Cons.prems(4) by (auto split: list.splits)
    obtain s1 where s1: "rt_hw_serial_dma_tx_isr s = Ok (dn_ptr s n, n, s1)" "tx_rep s1 ms"
      "dev_flag s1 = dev_flag s" "taken s1 ms = taken s ns"
      using dma_isr_rep [of s n ms] Cons.prems ns by auto
    with Cons.IH [OF s1(2) _ _ u] Cons.prems(2,3) Transfer_done show ?thesis by auto
  qed
qed

section \<open>Properties\<close>

text \<open>
  C6. The receive interrupt never loses the newest characters: after it has saved the pending
  characters, the ring holds the last 63 of (what it held, what arrived), and the callback is
  given exactly their number.
\<close>

theorem serial_isr_keeps_newest:
  assumes "rx_inv (rx s)" and "has (dev_flag s) DEV_INT_RX" and "pending \<noteq> []" and "rx_indicate s"
  shows "\<exists>s'. rt_hw_serial_isr pending s = Ok (Some (length (newest 63 (rx_data (rx s) @ pending))), s') \<and>
    rx_inv (rx s') \<and> rx_data (rx s') = newest 63 (rx_data (rx s) @ pending)"
proof -
  let ?r = "fold isr_save pending (rx s)"
  have "rx_inv ?r" "rx_data ?r = newest 63 (rx_data (rx s) @ pending)"
    using rxq.q_puts_newest [OF assms(1), of pending] rxq.inv_all [OF assms(1), of pending]
    by (simp_all add: list_all_iff)
  moreover from this(2) have "rx_length ?r = length (newest 63 (rx_data (rx s) @ pending))"
    by (metis length_rx_data)
  ultimately show ?thesis using assms(2-4) by (simp add: rt_hw_serial_isr_def Let_def)
qed

definition serial0 :: "u16 \<Rightarrow> serial" where
  "serial0 f = \<lparr>dev_flag = f, rx = \<lparr>rx_buffer = [], read_index = 0, save_index = 0\<rparr>, rx_indicate = True,
    dn_ptr = (\<lambda>_. 0), dn_size = (\<lambda>_. 0), dn_next = (\<lambda>_. None), list_head = None, list_tail = None,
    dma_on = False, dma_started = [], dr_out = [], usart_en = False\<rparr>"

lemma init_rx:
  "has f DEV_INT_RX \<Longrightarrow> \<not> has f DEV_ACTIVATED \<Longrightarrow> has (dev_flag (rt_serial_init (serial0 f))) DEV_INT_RX \<Longrightarrow>
    rx_inv (rx (rt_serial_init (serial0 f))) \<and> rx_data (rx (rt_serial_init (serial0 f))) = [] \<and>
    rx_indicate (rt_serial_init (serial0 f))"
  by (auto simp: rt_serial_init_def serial0_def Let_def rx_inv_def rx_data_def rx_length_def UART_RX_BUFFER_SIZE_def)

theorem serial_isr_keeps_newest_witness:
  "\<exists>s'. rt_hw_serial_isr [7, 8] (rt_serial_init (serial0 0x103)) = Ok (Some 2, s') \<and> rx_data (rx s') = [7, 8]"
proof -
  have f: "has 0x103 DEV_INT_RX" "\<not> has 0x103 DEV_ACTIVATED"
    "has (dev_flag (rt_serial_init (serial0 0x103))) DEV_INT_RX"
    by (simp_all add: has_def DEV_INT_RX_def DEV_ACTIVATED_def rt_serial_init_def serial0_def Let_def DEV_DMA_TX_def)
  from init_rx [OF f] f(3) serial_isr_keeps_newest [of "rt_serial_init (serial0 0x103)" "[7, 8]"]
  show ?thesis by (auto simp: newest_def)
qed

text \<open>
  A read in interrupt mode returns the oldest characters in order of arrival, as many as
  asked for and available, reports an empty buffer exactly when there were too few, and leaves
  the rest in the ring.
\<close>

lemma serial_read_takes_oldest:
  assumes "rx_inv (rx s)" and "has (dev_flag s) DEV_INT_RX"
  shows "\<exists>s'. rt_serial_read n bursts s =
      Some (take n (rx_data (rx s)), length (rx_data (rx s)) < n, s') \<and>
    rx_inv (rx s') \<and> rx_data (rx s') = drop n (rx_data (rx s))"
  using int_read_data [OF assms(1), of n] assms(2) by (auto simp: rt_serial_read_def)

lemma serial_read_takes_oldest_witness:
  "\<exists>s s'. rx_data (rx s) = [7, 8] \<and> rt_serial_read 3 [] s = Some ([7, 8], True, s')"
proof -
  let ?s = "(serial0 0x103)\<lparr>rx := \<lparr>rx_buffer = [7, 8] @ replicate 62 0, read_index = 0, save_index = 2\<rparr>\<rparr>"
  have "rx_inv (rx ?s)" by (simp add: rx_inv_def UART_RX_BUFFER_SIZE_def)
  moreover have d: "rx_data (rx ?s) = [7, 8]"
    by (simp add: rx_data_def rx_length_def UART_RX_BUFFER_SIZE_def upt_rec)
  moreover have "has (dev_flag ?s) DEV_INT_RX" by (simp add: has_def DEV_INT_RX_def serial0_def)
  ultimately have "\<exists>s'. rt_serial_read 3 [] ?s = Some ([7, 8], True, s')"
    using serial_read_takes_oldest [of ?s 3 "[]"] by auto
  with d show ?thesis by blast
qed

text \<open>
  Polled input can return more characters than asked for: the inner loop stores whatever
  is ready without looking at \<open>size\<close>, so a burst of characters arriving in one pass runs past
  the caller's buffer.
\<close>

lemma serial_poll_read_overruns:
  assumes "\<not> has (dev_flag s) DEV_INT_RX" and "0 < n" and "n < length burst"
  shows "\<exists>cs. rt_serial_read n (burst # bursts) s = Some (cs, False, s) \<and> length cs > n"
  using assms by (simp add: rt_serial_read_def)

lemma serial_poll_read_overruns_witness:
  "rt_serial_read 1 [[65, 66]] (serial0 3) = Some ([65, 66], False, serial0 3)"
  using serial_poll_read_overruns [of "serial0 3" 1 "[65, 66]" "[]"]
  by (simp add: rt_serial_read_def has_def DEV_INT_RX_def serial0_def)

text \<open>
  C13. DMA output is a queue of requests: for any interleaving of writes and transfer
  interrupts that the pool and the channel allow, no assertion fails, and the transfers
  started followed by the requests still waiting are exactly the requests made, in order.
\<close>

theorem serial_dma_in_order:
  assumes "tx_rep s []" and "has (dev_flag s) DEV_DMA_TX" and "\<not> has (dev_flag s) DEV_INT_TX"
    and "in_use es [] = Some ns"
  shows "\<exists>s'. dma_run es s = Ok s' \<and> tx_rep s' ns \<and>
    dma_started s' @ tl (map (request s') ns) = dma_started s @ requested es"
  using dma_run_rep [OF assms] by (auto simp: taken_def)

theorem serial_dma_in_order_witness:
  "\<exists>s'. dma_run [Request 0 100 [1, 2], Request 1 200 [3], Transfer_done] (serial0 0x803) = Ok s' \<and>
    dma_started s' @ tl (map (request s') [1]) = [(100, 2), (200, 1)]"
proof -
  have "tx_rep (serial0 0x803) []" by (simp add: tx_rep_def serial0_def)
  moreover have "has (dev_flag (serial0 0x803)) DEV_DMA_TX" "\<not> has (dev_flag (serial0 0x803)) DEV_INT_TX"
    by (simp_all add: has_def DEV_DMA_TX_def DEV_INT_TX_def serial0_def)
  ultimately show ?thesis
    using serial_dma_in_order [of "serial0 0x803" "[Request 0 100 [1, 2], Request 1 200 [3], Transfer_done]" "[1]"]
    by (auto simp: serial0_def)
qed

end
