(* ===== verification/Sdcard.thy ===== *)
theory Sdcard
  imports Base
begin

text \<open>
  The SD card driver, \<open>MySouce/msd.c\<close> and \<open>msd.h\<close>, with the partition reader it calls,
  \<open>RTT/components/dfs/src/dfs_fs.c\<close>. The SPI bus is full duplex: every byte sent returns a
  byte. The state is the log of what the driver did on the bus; the card is a parameter, the
  function that gives the byte the card answers after a log. The decoded registers, the
  commands, the polling loops and the block transfers are those of the code.
\<close>

section \<open>The bus\<close>

datatype spi_ev = Configure | CS_low | CS_high | Out u8

type_synonym log = "spi_ev list"
type_synonym sd_card = "log \<Rightarrow> u8"

abbreviation BLOCK_SIZE :: nat where "BLOCK_SIZE \<equiv> 512"
abbreviation SECTOR_SIZE :: nat where "SECTOR_SIZE \<equiv> 512"

definition DUMMY :: u8 where "DUMMY = 0xFF"
definition START_DATA :: u8 where "START_DATA = 0xFE"
definition NO_ERROR :: u8 where "NO_ERROR = 0"
definition FAILURE :: u8 where "FAILURE = 0xFF"
definition IN_IDLE_STATE :: u8 where "IN_IDLE_STATE = 1"

definition DATA_OK :: u8 where "DATA_OK = 5"
definition DATA_CRC_ERROR :: u8 where "DATA_CRC_ERROR = 0xB"
definition DATA_WRITE_ERROR :: u8 where "DATA_WRITE_ERROR = 0xD"

definition MSD_WriteByte :: "u8 \<Rightarrow> log \<Rightarrow> log" where
  "MSD_WriteByte b l = l @ [Out b]"

definition MSD_ReadByte :: "sd_card \<Rightarrow> log \<Rightarrow> u8 \<times> log" where
  "MSD_ReadByte dev l = (let l' = l @ [Out DUMMY] in (dev l', l'))"

fun read_bytes :: "sd_card \<Rightarrow> nat \<Rightarrow> log \<Rightarrow> u8 list \<times> log" where
  "read_bytes dev 0 l = ([], l)"
| "read_bytes dev (Suc n) l =
    (case MSD_ReadByte dev l of (b, l1) \<Rightarrow>
      (case read_bytes dev n l1 of (bs, l2) \<Rightarrow> (b # bs, l2)))"

definition MSD_SendCmd :: "u8 \<Rightarrow> u32 \<Rightarrow> u8 \<Rightarrow> log \<Rightarrow> log" where
  "MSD_SendCmd cmd arg crc l =
    fold MSD_WriteByte
      [or cmd 0x40, ucast (drop_bit 24 arg), ucast (drop_bit 16 arg), ucast (drop_bit 8 arg),
       ucast arg, crc] l"

text \<open>The polling loop of \<open>MSD_GetResponse\<close>, by the counter.\<close>

fun poll :: "sd_card \<Rightarrow> nat \<Rightarrow> u8 \<Rightarrow> log \<Rightarrow> nat \<times> log" where
  "poll dev 0 r l = (0, snd (MSD_ReadByte dev l))"
| "poll dev (Suc c) r l =
    (case MSD_ReadByte dev l of (b, l1) \<Rightarrow> if b \<noteq> r then poll dev c r l1 else (Suc c, l1))"

definition MSD_GetResponse :: "sd_card \<Rightarrow> u8 \<Rightarrow> log \<Rightarrow> u8 \<times> log" where
  "MSD_GetResponse dev r l =
    (case poll dev 0xFFF r l of (c, l1) \<Rightarrow> (if c = 0 then FAILURE else NO_ERROR, l1))"

text \<open>
  The loop of \<open>MSD_GetDataResponse\<close> with \<open>n\<close> readings left; the flag says that it returned from
  inside the loop. Then the wait for the end of the busy signal, which need not end.
\<close>

fun data_response :: "sd_card \<Rightarrow> nat \<Rightarrow> u8 \<Rightarrow> log \<Rightarrow> bool \<times> u8 \<times> log" where
  "data_response dev 0 r l = (False, r, l)"
| "data_response dev (Suc n) r l =
    (case MSD_ReadByte dev l of (b, l1) \<Rightarrow>
      (let r1 = and b 0x1F in
       if r1 = DATA_OK then (False, r1, l1)
       else if r1 = DATA_CRC_ERROR \<or> r1 = DATA_WRITE_ERROR then (True, r1, l1)
       else data_response dev n r1 l1))"

partial_function (option) wait_null :: "sd_card \<Rightarrow> log \<Rightarrow> log option" where
  "wait_null dev l =
    (case MSD_ReadByte dev l of (b, l1) \<Rightarrow> if b = 0 then wait_null dev l1 else Some l1)"

definition MSD_GetDataResponse :: "sd_card \<Rightarrow> log \<Rightarrow> (u8 \<times> log) option" where
  "MSD_GetDataResponse dev l =
    (case data_response dev 65 0 l of (early, r, l1) \<Rightarrow>
      if early then Some (r, l1)
      else (case wait_null dev l1 of None \<Rightarrow> None | Some l2 \<Rightarrow> Some (r, l2)))"

section \<open>Initialisation\<close>

definition SPI_Config :: "log \<Rightarrow> log" where
  "SPI_Config l = l @ [Configure]"

partial_function (option) op_cond_loop :: "sd_card \<Rightarrow> log \<Rightarrow> log option" where
  "op_cond_loop dev l =
    (case MSD_GetResponse dev NO_ERROR (MSD_SendCmd 1 0 0xFF (MSD_WriteByte DUMMY (l @ [CS_high]) @ [CS_low]))
     of (r, l1) \<Rightarrow> if r \<noteq> 0 then op_cond_loop dev l1 else Some l1)"

definition MSD_GoIdleState :: "sd_card \<Rightarrow> log \<Rightarrow> (u8 \<times> log) option" where
  "MSD_GoIdleState dev l =
    (case MSD_GetResponse dev IN_IDLE_STATE (MSD_SendCmd 0 0 0x95 (l @ [CS_low])) of (r, l1) \<Rightarrow>
      if r \<noteq> 0 then Some (FAILURE, l1)
      else (case op_cond_loop dev l1 of
              None \<Rightarrow> None
            | Some l2 \<Rightarrow> Some (NO_ERROR, MSD_WriteByte DUMMY (l2 @ [CS_high]))))"

definition MSD_Init :: "sd_card \<Rightarrow> log \<Rightarrow> (u8 \<times> log) option" where
  "MSD_Init dev l =
    MSD_GoIdleState dev (fold MSD_WriteByte (replicate 10 DUMMY) (SPI_Config l @ [CS_high]))"

definition MSD_GetStatus :: "sd_card \<Rightarrow> log \<Rightarrow> u16 \<times> log" where
  "MSD_GetStatus dev l =
    (case MSD_ReadByte dev (MSD_SendCmd 13 0 0xFF (l @ [CS_low])) of (a, l1) \<Rightarrow>
      (case MSD_ReadByte dev l1 of (b, l2) \<Rightarrow>
        (or (ucast a) (push_bit 8 (ucast b)), MSD_WriteByte DUMMY (l2 @ [CS_high]))))"

section \<open>Blocks\<close>

text \<open>The result of a read is the status and the bytes stored at \<open>pBuffer\<close>.\<close>

definition MSD_ReadBlock :: "sd_card \<Rightarrow> u32 \<Rightarrow> u16 \<Rightarrow> log \<Rightarrow> u8 \<times> u8 list \<times> log" where
  "MSD_ReadBlock dev addr n l =
    (let (rv, data, l3) =
       (case MSD_GetResponse dev NO_ERROR (MSD_SendCmd 17 addr 0xFF (l @ [CS_low])) of (r, l1) \<Rightarrow>
         if r = 0 then
           (case MSD_GetResponse dev START_DATA l1 of (t, l2) \<Rightarrow>
             if t = 0 then
               (case read_bytes dev (unat n) l2 of (bs, l3) \<Rightarrow>
                 (NO_ERROR, bs, snd (MSD_ReadByte dev (snd (MSD_ReadByte dev l3)))))
             else (FAILURE, [], l2))
         else (FAILURE, [], l1))
     in (rv, data, MSD_WriteByte DUMMY (l3 @ [CS_high])))"

definition send_data :: "sd_card \<Rightarrow> u8 list \<Rightarrow> log \<Rightarrow> log" where
  "send_data dev data l =
    snd (MSD_ReadByte dev (snd (MSD_ReadByte dev
      (fold MSD_WriteByte data (MSD_WriteByte 0xFE (MSD_WriteByte DUMMY l))))))"

text \<open>\<open>data\<close> holds the \<open>NumByteToWrite\<close> bytes at \<open>pBuffer\<close>.\<close>

definition MSD_WriteBlock :: "sd_card \<Rightarrow> u8 list \<Rightarrow> u32 \<Rightarrow> log \<Rightarrow> (u8 \<times> log) option" where
  "MSD_WriteBlock dev data addr l =
    (case MSD_GetResponse dev NO_ERROR (MSD_SendCmd 24 addr 0xFF (l @ [CS_low])) of (r, l1) \<Rightarrow>
      if r = 0 then
        (case MSD_GetDataResponse dev (send_data dev data l1) of
           None \<Rightarrow> None
         | Some (d, l2) \<Rightarrow>
             Some (if d = DATA_OK then NO_ERROR else FAILURE, MSD_WriteByte DUMMY (l2 @ [CS_high])))
      else Some (FAILURE, MSD_WriteByte DUMMY (l1 @ [CS_high])))"

fun write_blocks :: "sd_card \<Rightarrow> nat \<Rightarrow> u8 list \<Rightarrow> u32 \<Rightarrow> u32 \<Rightarrow> u8 \<Rightarrow> log \<Rightarrow> (bool \<times> u8 \<times> log) option" where
  "write_blocks dev 0 data addr off rv l = Some (True, rv, l)"
| "write_blocks dev (Suc n) data addr off rv l =
    (case MSD_GetResponse dev NO_ERROR (MSD_SendCmd 24 (addr + off) 0xFF l) of (r, l1) \<Rightarrow>
      if r \<noteq> 0 then Some (False, FAILURE, l1)
      else (case MSD_GetDataResponse dev (send_data dev (take BLOCK_SIZE data) l1) of
              None \<Rightarrow> None
            | Some (d, l2) \<Rightarrow>
                write_blocks dev n (drop BLOCK_SIZE data) addr (off + 512)
                  (if d = DATA_OK then NO_ERROR else FAILURE) l2))"

text \<open>The early return of the command's refusal skips the end of the routine.\<close>

definition MSD_WriteBuffer :: "sd_card \<Rightarrow> u8 list \<Rightarrow> u32 \<Rightarrow> log \<Rightarrow> (u8 \<times> log) option" where
  "MSD_WriteBuffer dev data addr l =
    (case write_blocks dev (length data div BLOCK_SIZE) data addr 0 FAILURE (l @ [CS_low]) of
       None \<Rightarrow> None
     | Some (True, rv, l1) \<Rightarrow> Some (rv, MSD_WriteByte DUMMY (l1 @ [CS_high]))
     | Some (False, rv, l1) \<Rightarrow> Some (rv, l1))"

fun read_blocks :: "sd_card \<Rightarrow> nat \<Rightarrow> u32 \<Rightarrow> u32 \<Rightarrow> u8 \<Rightarrow> log \<Rightarrow> bool \<times> u8 \<times> u8 list \<times> log" where
  "read_blocks dev 0 addr off rv l = (True, rv, [], l)"
| "read_blocks dev (Suc n) addr off rv l =
    (case MSD_GetResponse dev NO_ERROR (MSD_SendCmd 17 (addr + off) 0xFF l) of (r, l1) \<Rightarrow>
      if r \<noteq> 0 then (False, FAILURE, [], l1)
      else (case MSD_GetResponse dev START_DATA l1 of (t, l2) \<Rightarrow>
        if t = 0 then
          (case read_bytes dev BLOCK_SIZE l2 of (bs, l3) \<Rightarrow>
            (case read_blocks dev n addr (off + 512) NO_ERROR
                (snd (MSD_ReadByte dev (snd (MSD_ReadByte dev l3)))) of
              (fin, rv', bs', l4) \<Rightarrow> (fin, rv', bs @ bs', l4)))
        else read_blocks dev n addr off FAILURE l2))"

definition MSD_ReadBuffer :: "sd_card \<Rightarrow> u32 \<Rightarrow> nat \<Rightarrow> log \<Rightarrow> u8 \<times> u8 list \<times> log" where
  "MSD_ReadBuffer dev addr n l =
    (case read_blocks dev (n div BLOCK_SIZE) addr 0 FAILURE (l @ [CS_low]) of (fin, rv, bs, l1) \<Rightarrow>
      (rv, bs, if fin then MSD_WriteByte DUMMY (l1 @ [CS_high]) else l1))"

section \<open>Registers\<close>

record sMSD_CSD =
  CSDStruct :: u8
  SysSpecVersion :: u8
  Reserved1 :: u8
  TAAC :: u8
  NSAC :: u8
  MaxBusClkFrec :: u8
  CardComdClasses :: u16
  RdBlockLen :: u8
  PartBlockRead :: u8
  WrBlockMisalign :: u8
  RdBlockMisalign :: u8
  DSRImpl :: u8
  Reserved2 :: u8
  DeviceSize :: u16
  MaxRdCurrentVDDMin :: u8
  MaxRdCurrentVDDMax :: u8
  MaxWrCurrentVDDMin :: u8
  MaxWrCurrentVDDMax :: u8
  DeviceSizeMul :: u8
  EraseGrSize :: u8
  EraseGrMul :: u8
  WrProtectGrSize :: u8
  WrProtectGrEnable :: u8
  ManDeflECC :: u8
  WrSpeedFact :: u8
  MaxWrBlockLen :: u8
  WriteBlockPaPartial :: u8
  Reserved3 :: u8
  ContentProtectAppli :: u8
  FileFormatGrouop :: u8
  CopyFlag :: u8
  PermWrProtect :: u8
  TempWrProtect :: u8
  FileFormat :: u8
  ECC :: u8
  msd_CRC :: u8
  Reserved4 :: u8

definition csd_of :: "u8 list \<Rightarrow> sMSD_CSD" where
  "csd_of t = \<lparr>
    CSDStruct = drop_bit 6 (and (t ! 0) 0xC0),
    SysSpecVersion = drop_bit 2 (and (t ! 0) 0x3C),
    Reserved1 = and (t ! 0) 0x03,
    TAAC = t ! 1,
    NSAC = t ! 2,
    MaxBusClkFrec = t ! 3,
    CardComdClasses = or (push_bit 4 (ucast (t ! 4))) (drop_bit 4 (and (ucast (t ! 5)) 0xF0)),
    RdBlockLen = and (t ! 5) 0x0F,
    PartBlockRead = drop_bit 7 (and (t ! 6) 0x80),
    WrBlockMisalign = drop_bit 6 (and (t ! 6) 0x40),
    RdBlockMisalign = drop_bit 5 (and (t ! 6) 0x20),
    DSRImpl = drop_bit 4 (and (t ! 6) 0x10),
    Reserved2 = 0,
    DeviceSize = or (or (push_bit 10 (and (ucast (t ! 6)) 0x03)) (push_bit 2 (ucast (t ! 7))))
      (drop_bit 6 (and (ucast (t ! 8)) 0xC0)),
    MaxRdCurrentVDDMin = drop_bit 3 (and (t ! 8) 0x38),
    MaxRdCurrentVDDMax = and (t ! 8) 0x07,
    MaxWrCurrentVDDMin = drop_bit 5 (and (t ! 9) 0xE0),
    MaxWrCurrentVDDMax = drop_bit 2 (and (t ! 9) 0x1C),
    DeviceSizeMul = or (push_bit 1 (and (t ! 9) 0x03)) (drop_bit 7 (and (t ! 10) 0x80)),
    EraseGrSize = drop_bit 2 (and (t ! 10) 0x7C),
    EraseGrMul = or (push_bit 3 (and (t ! 10) 0x03)) (drop_bit 5 (and (t ! 11) 0xE0)),
    WrProtectGrSize = and (t ! 11) 0x1F,
    WrProtectGrEnable = drop_bit 7 (and (t ! 12) 0x80),
    ManDeflECC = drop_bit 5 (and (t ! 12) 0x60),
    WrSpeedFact = drop_bit 2 (and (t ! 12) 0x1C),
    MaxWrBlockLen = or (push_bit 2 (and (t ! 12) 0x03)) (drop_bit 6 (and (t ! 13) 0xc0)),
    WriteBlockPaPartial = drop_bit 5 (and (t ! 13) 0x20),
    Reserved3 = 0,
    ContentProtectAppli = and (t ! 13) 0x01,
    FileFormatGrouop = drop_bit 7 (and (t ! 14) 0x80),
    CopyFlag = drop_bit 6 (and (t ! 14) 0x40),
    PermWrProtect = drop_bit 5 (and (t ! 14) 0x20),
    TempWrProtect = drop_bit 4 (and (t ! 14) 0x10),
    FileFormat = drop_bit 2 (and (t ! 14) 0x0C),
    ECC = and (t ! 14) 0x03,
    msd_CRC = drop_bit 1 (and (t ! 15) 0xFE),
    Reserved4 = 1\<rparr>"

record sMSD_CID =
  ManufacturerID :: u8
  OEM_AppliID :: u16
  ProdName1 :: u32
  ProdName2 :: u8
  ProdRev :: u8
  ProdSN :: u32
  cid_Reserved1 :: u8
  ManufactDate :: u16
  cid_CRC :: u8
  cid_Reserved2 :: u8

text \<open>\<open>Reserved1\<close> is or-ed into what the caller's structure held.\<close>

definition cid_of :: "u8 \<Rightarrow> u8 list \<Rightarrow> sMSD_CID" where
  "cid_of old t = \<lparr>
    ManufacturerID = t ! 0,
    OEM_AppliID = or (push_bit 8 (ucast (t ! 1))) (ucast (t ! 2)),
    ProdName1 = or (or (or (push_bit 24 (ucast (t ! 3))) (push_bit 16 (ucast (t ! 4))))
      (push_bit 8 (ucast (t ! 5)))) (ucast (t ! 6)),
    ProdName2 = t ! 7,
    ProdRev = t ! 8,
    ProdSN = or (or (or (push_bit 24 (ucast (t ! 9))) (push_bit 16 (ucast (t ! 10))))
      (push_bit 8 (ucast (t ! 11)))) (ucast (t ! 12)),
    cid_Reserved1 = or old (drop_bit 4 (and (t ! 13) 0xF0)),
    ManufactDate = or (push_bit 8 (and (ucast (t ! 13)) 0x0F)) (ucast (t ! 14)),
    cid_CRC = drop_bit 1 (and (t ! 15) 0xFE),
    cid_Reserved2 = 1\<rparr>"

text \<open>
  The transaction both register reads share. \<open>junk\<close> is the indeterminate content of the local
  array, which stays when no data token comes.
\<close>

definition read_register :: "sd_card \<Rightarrow> u8 \<Rightarrow> u8 list \<Rightarrow> log \<Rightarrow> u8 \<times> u8 list \<times> log" where
  "read_register dev cmd junk l =
    (let (rv, tab, l3) =
       (case MSD_GetResponse dev NO_ERROR (MSD_SendCmd cmd 0 0xFF (l @ [CS_low])) of (r, l1) \<Rightarrow>
         if r = 0 then
           (case MSD_GetResponse dev START_DATA l1 of (t, l2) \<Rightarrow>
             (case (if t = 0 then read_bytes dev 16 l2 else (junk, l2)) of (tab, l3) \<Rightarrow>
               (NO_ERROR, tab, MSD_WriteByte DUMMY (MSD_WriteByte DUMMY l3))))
         else (FAILURE, junk, l1))
     in (rv, tab, MSD_WriteByte DUMMY (l3 @ [CS_high])))"

definition MSD_GetCSDRegister :: "sd_card \<Rightarrow> u8 list \<Rightarrow> log \<Rightarrow> u8 \<times> sMSD_CSD \<times> log" where
  "MSD_GetCSDRegister dev junk l =
    (case read_register dev 9 junk l of (rv, tab, l1) \<Rightarrow> (rv, csd_of tab, l1))"

definition MSD_GetCIDRegister :: "sd_card \<Rightarrow> u8 \<Rightarrow> u8 list \<Rightarrow> log \<Rightarrow> u8 \<times> sMSD_CID \<times> log" where
  "MSD_GetCIDRegister dev old junk l =
    (case read_register dev 10 junk l of (rv, tab, l1) \<Rightarrow> (rv, cid_of old tab, l1))"

section \<open>The block device\<close>

record dfs_partition =
  part_type :: u8
  part_offset :: u32
  part_size :: u32

definition le32 :: "u8 list \<Rightarrow> u32" where
  "le32 t = or (or (or (ucast (t ! 0)) (push_bit 8 (ucast (t ! 1)))) (push_bit 16 (ucast (t ! 2))))
    (push_bit 24 (ucast (t ! 3)))"

text \<open>The result says whether an entry was found; a sector too short for it is a fault.\<close>

definition dfs_filesystem_get_partition ::
  "dfs_partition \<Rightarrow> u8 list \<Rightarrow> nat \<Rightarrow> (bool \<times> dfs_partition) res" where
  "dfs_filesystem_get_partition part buf pindex =
    (let dpt = drop (0x1be + pindex * 16) buf in
     if length dpt < 16 then Fault
     else if dpt ! 0 \<noteq> 0x80 \<and> dpt ! 0 \<noteq> 0 then Ok (False, part)
     else if dpt ! 4 \<noteq> 0 then
       Ok (True, part\<lparr>part_type := dpt ! 4, part_offset := le32 (drop 8 dpt), part_size := le32 (drop 12 dpt)\<rparr>)
     else Ok (False, part))"

definition rt_msd_init :: "sd_card \<Rightarrow> u8 list \<Rightarrow> log \<Rightarrow> log" where
  "rt_msd_init dev junk l = snd (snd (MSD_GetCSDRegister dev junk l))"

definition sector_addr :: "u32 \<Rightarrow> u32 \<Rightarrow> nat \<Rightarrow> u32" where
  "sector_addr off pos i = (off + pos + of_nat i) * 512"

text \<open>
  The loop over the sectors \<open>is\<close>: the flag is false for the early return with 0; the bytes
  stored so far are in the result either way.
\<close>

fun read_sectors :: "sd_card \<Rightarrow> u32 \<Rightarrow> u32 \<Rightarrow> nat list \<Rightarrow> log \<Rightarrow> bool \<times> u8 list \<times> log" where
  "read_sectors dev off pos [] l = (True, [], l)"
| "read_sectors dev off pos (i # is) l =
    (case MSD_ReadBlock dev (sector_addr off pos i) 512 l of (st, bs, l1) \<Rightarrow>
      if st \<noteq> 0 then (False, bs, l1)
      else (case read_sectors dev off pos is l1 of (ok, bs', l2) \<Rightarrow> (ok, bs @ bs', l2)))"

definition rt_msd_read :: "sd_card \<Rightarrow> u32 \<Rightarrow> u32 \<Rightarrow> nat \<Rightarrow> log \<Rightarrow> nat \<times> u8 list \<times> log" where
  "rt_msd_read dev off pos n l =
    (case read_sectors dev off pos [0..<n] l of (ok, bs, l1) \<Rightarrow> (if ok then n else 0, bs, l1))"

fun write_sectors :: "sd_card \<Rightarrow> u32 \<Rightarrow> u32 \<Rightarrow> u8 list \<Rightarrow> nat list \<Rightarrow> log \<Rightarrow> (bool \<times> log) option" where
  "write_sectors dev off pos data [] l = Some (True, l)"
| "write_sectors dev off pos data (i # is) l =
    (case MSD_WriteBuffer dev (take SECTOR_SIZE (drop (i * SECTOR_SIZE) data)) (sector_addr off pos i) l of
       None \<Rightarrow> None
     | Some (st, l1) \<Rightarrow> if st \<noteq> 0 then Some (False, l1) else write_sectors dev off pos data is l1)"

definition rt_msd_write :: "sd_card \<Rightarrow> u32 \<Rightarrow> u32 \<Rightarrow> u8 list \<Rightarrow> nat \<Rightarrow> log \<Rightarrow> (nat \<times> log) option" where
  "rt_msd_write dev off pos data n l =
    (case write_sectors dev off pos data [0..<n] l of
       None \<Rightarrow> None
     | Some (ok, l1) \<Rightarrow> Some (if ok then n else 0, l1))"

text \<open>
  Start-up: \<open>mem\<close> says whether the sector buffer could be allocated, \<open>p0\<close> is the partition
  variable before. The result is the partition registered with device \<open>sd0\<close>, if any.
\<close>

definition rt_hw_msd_init :: "sd_card \<Rightarrow> bool \<Rightarrow> dfs_partition \<Rightarrow> log \<Rightarrow> (dfs_partition option \<times> log) res option" where
  "rt_hw_msd_init dev mem p0 l =
    (case MSD_Init dev l of
       None \<Rightarrow> None
     | Some (st, l1) \<Rightarrow>
         if st \<noteq> NO_ERROR then Some (Ok (None, l1))
         else if \<not> mem then Some (Ok (None, l1))
         else (case MSD_ReadBlock dev 0 512 l1 of (st', sector, l2) \<Rightarrow>
           if st' = NO_ERROR then
             Some (rbind (dfs_filesystem_get_partition p0 sector 0) (\<lambda>(found, p).
               Ok (Some (if found then p else p\<lparr>part_offset := 0, part_size := 0\<rparr>), l2)))
           else Some (Ok (Some (p0\<lparr>part_offset := 0, part_size := 0\<rparr>), l2))))"

section \<open>What the polling loops see\<close>

text \<open>The next \<open>n\<close> bytes the card sends when it is only clocked with dummy bytes.\<close>

definition replies :: "sd_card \<Rightarrow> log \<Rightarrow> nat \<Rightarrow> u8 list" where
  "replies dev l n = map (\<lambda>k. dev (l @ replicate (Suc k) (Out DUMMY))) [0..<n]"

abbreviation clocks :: "nat \<Rightarrow> log" where
  "clocks n \<equiv> replicate n (Out DUMMY)"

lemma replies_0 [simp]: "replies dev l 0 = []"
  by (simp add: replies_def)

lemma length_replies [simp]: "length (replies dev l n) = n"
  by (simp add: replies_def)

lemma nth_replies: "k < n \<Longrightarrow> replies dev l n ! k = dev (l @ clocks (Suc k))"
  by (simp add: replies_def)

lemma replies_Suc: "replies dev l (Suc n) = dev (l @ [Out DUMMY]) # replies dev (l @ [Out DUMMY]) n"
  by (simp add: replies_def upt_conv_Cons map_Suc_upt [symmetric] comp_def del: upt_Suc)

lemma replies_add: "replies dev l (m + n) = replies dev l m @ replies dev (l @ clocks m) n"
  by (induction m arbitrary: l) (simp_all add: replies_Suc replicate_append_same [symmetric])

lemma replies_split:
  "replies dev l n = xs @ ys \<Longrightarrow>
    replies dev l (length xs) = xs \<and> replies dev (l @ clocks (length xs)) (length ys) = ys"
  by (metis append_eq_append_conv length_append length_replies replies_add)

lemma read_bytes_replies: "read_bytes dev n l = (replies dev l n, l @ clocks n)"
  by (induction n arbitrary: l) (simp_all add: MSD_ReadByte_def Let_def replies_Suc)

lemma poll_hit:
  "replies dev l (Suc (length p)) = p @ [r] \<Longrightarrow> r \<notin> set p \<Longrightarrow> length p < c \<Longrightarrow>
    poll dev c r l = (c - length p, l @ clocks (Suc (length p)))"
proof (induction p arbitrary: l c)
  case Nil
  then show ?case by (cases c) (simp_all add: replies_Suc MSD_ReadByte_def Let_def)
next
  case (Cons b p)
  then obtain d where "c = Suc d" by (cases c) auto
  with Cons show ?case by (auto simp: replies_Suc MSD_ReadByte_def Let_def)
qed

lemma poll_miss: "r \<notin> set (replies dev l c) \<Longrightarrow> poll dev c r l = (0, l @ clocks (Suc c))"
  by (induction c arbitrary: l) (auto simp: replies_Suc MSD_ReadByte_def Let_def)

lemma response_hit:
  assumes "replies dev l (Suc (length p)) = p @ [r]" and "r \<notin> set p" and "length p < 4095"
  shows "MSD_GetResponse dev r l = (0, l @ clocks (Suc (length p)))"
  using poll_hit [OF assms] assms(3) by (simp add: MSD_GetResponse_def NO_ERROR_def)

lemma response_miss:
  "r \<notin> set (replies dev l 4095) \<Longrightarrow> MSD_GetResponse dev r l = (FAILURE, l @ clocks 4096)"
  using poll_miss [of r dev l 4095] by (simp add: MSD_GetResponse_def eval_nat_numeral(3) [symmetric])

lemma response_hit_set:
  assumes "r \<in> set (replies dev l 4095)"
  shows "\<exists>p. replies dev l (Suc (length p)) = p @ [r] \<and> r \<notin> set p \<and> length p < 4095"
proof -
  obtain p q where p: "replies dev l 4095 = (p @ [r]) @ q" "r \<notin> set p"
    using split_list_first [OF assms] by auto
  then have "length p < 4095" using length_replies [of dev l 4095] by (metis add_Suc_right append.assoc
    length_append list.size(4) append_Cons less_add_Suc1)
  with p replies_split [OF p(1)] show ?thesis by auto
qed

section \<open>Frames\<close>

definition cmd_frame :: "u8 \<Rightarrow> u32 \<Rightarrow> log" where
  "cmd_frame c a = map Out [c, ucast (drop_bit 24 a), ucast (drop_bit 16 a), ucast (drop_bit 8 a), ucast a, 0xFF]"

lemma fold_WriteByte: "fold MSD_WriteByte bs l = l @ map Out bs"
  by (induction bs arbitrary: l) (simp_all add: MSD_WriteByte_def)

lemma SendCmd_frame:
  "MSD_SendCmd 17 a 0xFF l = l @ cmd_frame 0x51 a" "MSD_SendCmd 24 a 0xFF l = l @ cmd_frame 0x58 a"
  by (simp_all add: MSD_SendCmd_def MSD_WriteByte_def cmd_frame_def)

definition deselected :: "log \<Rightarrow> bool" where
  "deselected l \<longleftrightarrow> (\<exists>l'. l = l' @ [CS_high, Out DUMMY])"

text \<open>
  A card that serves reads of the addresses in \<open>A\<close> from \<open>disk\<close>: after the command frame it sends
  some bytes, the response 0, some bytes, the data token and the block.
\<close>

definition serves_reads :: "sd_card \<Rightarrow> (u32 \<Rightarrow> u8 list) \<Rightarrow> u32 set \<Rightarrow> bool" where
  "serves_reads dev disk A \<longleftrightarrow> (\<forall>l a. deselected l \<longrightarrow> a \<in> A \<longrightarrow> length (disk a) = 512 \<and>
    (\<exists>p q. length p < 4095 \<and> 0 \<notin> set p \<and> length q < 4095 \<and> START_DATA \<notin> set q \<and>
      replies dev (l @ CS_low # cmd_frame 0x51 a) (length p + length q + 514) = p @ 0 # q @ START_DATA # disk a))"

lemma ReadBlock_served:
  assumes "serves_reads dev disk A" and "deselected l" and "a \<in> A"
  shows "\<exists>l'. MSD_ReadBlock dev a 512 l = (0, disk a, l') \<and> deselected l'"
proof -
  let ?l = "l @ CS_low # cmd_frame 0x51 a"
  obtain p q where pq: "length p < 4095" "0 \<notin> set p" "length q < 4095" "START_DATA \<notin> set q"
    "replies dev ?l (length p + length q + 514) = (p @ [0]) @ (q @ [START_DATA]) @ disk a"
    and d: "length (disk a) = 512"
    using assms unfolding serves_reads_def by fastforce
  let ?l1 = "?l @ clocks (Suc (length p))" and ?l2 = "(?l @ clocks (Suc (length p))) @ clocks (Suc (length q))"
  have r1: "replies dev ?l (Suc (length p)) = p @ [0]"
    and r2: "replies dev ?l1 (Suc (length q) + 512) = (q @ [START_DATA]) @ disk a"
    using replies_split [OF pq(5)] d by (simp_all add: add.commute)
  have r3: "replies dev ?l1 (Suc (length q)) = q @ [START_DATA]" "replies dev ?l2 512 = disk a"
    using replies_split [OF r2] d by simp_all
  have "MSD_GetResponse dev NO_ERROR ?l = (0, ?l1)"
    using response_hit [OF r1 pq(2,1)] by (simp add: NO_ERROR_def)
  moreover have "MSD_GetResponse dev START_DATA ?l1 = (0, ?l2)"
    using response_hit [OF r3(1) pq(4,3)] .
  moreover have "read_bytes dev (unat (512 :: u16)) ?l2 = (disk a, ?l2 @ clocks 512)"
    using r3(2) by (simp add: read_bytes_replies)
  ultimately show ?thesis
    by (simp add: MSD_ReadBlock_def SendCmd_frame Let_def MSD_ReadByte_def MSD_WriteByte_def NO_ERROR_def
        deselected_def)
qed

lemma read_sectors_served:
  "serves_reads dev disk A \<Longrightarrow> deselected l \<Longrightarrow> \<forall>i \<in> set is. sector_addr off pos i \<in> A \<Longrightarrow>
    \<exists>l'. read_sectors dev off pos is l = (True, concat (map (\<lambda>i. disk (sector_addr off pos i)) is), l') \<and>
      deselected l'"
proof (induction "is" arbitrary: l)
  case Nil
  then show ?case by simp
next
  case (Cons i "is")
  then obtain l1 where l1: "MSD_ReadBlock dev (sector_addr off pos i) 512 l = (0, disk (sector_addr off pos i), l1)"
    "deselected l1"
    using ReadBlock_served [of dev disk A l "sector_addr off pos i"] by auto
  with Cons.IH [OF Cons.prems(1) l1(2)] Cons.prems(3) show ?case by auto
qed

section \<open>Writing sectors\<close>

text \<open>
  A card that accepts blocks for the addresses in \<open>A\<close>: it answers the command, then, whatever
  bytes it sends while the block goes out, accepts the data and releases the bus after a busy
  time \<open>b\<close>.
\<close>

definition pending_response :: "u8 \<Rightarrow> bool" where
  "pending_response b \<longleftrightarrow> and b 0x1F \<noteq> DATA_OK \<and> and b 0x1F \<noteq> DATA_CRC_ERROR \<and> and b 0x1F \<noteq> DATA_WRITE_ERROR"

definition block_out :: "u8 list \<Rightarrow> log" where
  "block_out data = [Out DUMMY, Out 0xFE] @ map Out data @ [Out DUMMY, Out DUMMY]"

definition accepts_writes :: "sd_card \<Rightarrow> u32 set \<Rightarrow> bool" where
  "accepts_writes dev A \<longleftrightarrow> (\<forall>l a data. deselected l \<longrightarrow> a \<in> A \<longrightarrow> length data = 512 \<longrightarrow>
    (\<exists>p q r b e. length p < 4095 \<and> 0 \<notin> set p \<and> replies dev (l @ CS_low # cmd_frame 0x58 a) (Suc (length p)) = p @ [0] \<and>
      length q < 65 \<and> list_all pending_response q \<and> and r 0x1F = DATA_OK \<and> e \<noteq> 0 \<and>
      replies dev (l @ CS_low # cmd_frame 0x58 a @ clocks (Suc (length p)) @ block_out data)
        (length q + b + 2) = q @ r # replicate b 0 @ [e]))"

text \<open>One block on the bus: \<open>j\<close> polls of the command response, \<open>k\<close> of the data response and the busy signal.\<close>

definition write_tx :: "u32 \<Rightarrow> u8 list \<Rightarrow> nat \<times> nat \<Rightarrow> log" where
  "write_tx a data jk = CS_low # cmd_frame 0x58 a @ clocks (fst jk) @ block_out data @ clocks (snd jk) @
    [CS_high, Out DUMMY]"

lemma send_data_out: "send_data dev data l = l @ block_out data"
  by (simp add: send_data_def MSD_ReadByte_def MSD_WriteByte_def fold_WriteByte block_out_def Let_def)

lemma data_response_accept:
  "replies dev l (Suc (length q)) = q @ [r] \<Longrightarrow> length q < n \<Longrightarrow> list_all pending_response q \<Longrightarrow>
    and r 0x1F = DATA_OK \<Longrightarrow> data_response dev n x l = (False, DATA_OK, l @ clocks (Suc (length q)))"
proof (induction q arbitrary: l n x)
  case Nil
  then show ?case by (cases n) (simp_all add: replies_Suc MSD_ReadByte_def Let_def)
next
  case (Cons b q)
  then obtain d where "n = Suc d" by (cases n) auto
  with Cons show ?case by (auto simp: replies_Suc MSD_ReadByte_def Let_def pending_response_def)
qed

lemma wait_null_busy:
  "replies dev l (Suc b) = replicate b 0 @ [e] \<Longrightarrow> e \<noteq> 0 \<Longrightarrow> wait_null dev l = Some (l @ clocks (Suc b))"
proof (induction b arbitrary: l)
  case 0
  then show ?case by (simp add: wait_null.simps replies_Suc MSD_ReadByte_def Let_def)
next
  case (Suc b)
  then have "dev (l @ [Out DUMMY]) = 0" "replies dev (l @ [Out DUMMY]) (Suc b) = replicate b 0 @ [e]"
    by (simp_all add: replies_Suc)
  with Suc.IH Suc.prems(2) show ?case
    by (subst wait_null.simps) (simp add: MSD_ReadByte_def Let_def)
qed

lemma WriteBuffer_accepted:
  assumes "accepts_writes dev A" and "deselected l" and "a \<in> A" and d: "length data = 512"
  shows "\<exists>jk. MSD_WriteBuffer dev data a l = Some (0, l @ write_tx a data jk)"
proof -
  let ?l = "l @ CS_low # cmd_frame 0x58 a"
  obtain p q r b e where p: "length p < 4095" "0 \<notin> set p" "replies dev ?l (Suc (length p)) = p @ [0]"
    and q: "length q < 65" "list_all pending_response q" "and r 0x1F = DATA_OK" "e \<noteq> 0"
      "replies dev (?l @ clocks (Suc (length p)) @ block_out data) (length q + b + 2) =
        (q @ [r]) @ (replicate b 0 @ [e])"
    using assms unfolding accepts_writes_def by fastforce
  let ?l1 = "?l @ clocks (Suc (length p))"
  let ?l2 = "?l @ clocks (Suc (length p)) @ block_out data"
  let ?l3 = "?l2 @ clocks (Suc (length q))"
  have r: "replies dev ?l2 (Suc (length q)) = q @ [r]" "replies dev ?l3 (Suc b) = replicate b 0 @ [e]"
    using replies_split [OF q(5)] by simp_all
  have "MSD_GetResponse dev NO_ERROR ?l = (0, ?l1)"
    using response_hit [OF p(3,2,1)] by (simp add: NO_ERROR_def)
  moreover have "MSD_GetDataResponse dev ?l2 = Some (DATA_OK, ?l3 @ clocks (Suc b))"
    unfolding MSD_GetDataResponse_def data_response_accept [OF r(1) q(1-3)] prod.case if_False
    using wait_null_busy [OF r(2) q(4)] by (simp add: DATA_OK_def)
  ultimately have "MSD_WriteBuffer dev data a l =
      Some (0, l @ write_tx a data (Suc (length p), Suc (length q) + Suc b))"
    using d by (simp add: MSD_WriteBuffer_def SendCmd_frame send_data_out NO_ERROR_def
        MSD_WriteByte_def write_tx_def replicate_add
        replicate_append_same replicate_app_Cons_same)
  then show ?thesis ..
qed

lemma deselected_write_tx: "deselected (l @ write_tx a data jk)"
  unfolding deselected_def write_tx_def
  by (intro exI [of _ "l @ CS_low # cmd_frame 0x58 a @ clocks (fst jk) @ block_out data @ clocks (snd jk)"]) simp

definition sector_of :: "u8 list \<Rightarrow> nat \<Rightarrow> u8 list" where
  "sector_of data i = take 512 (drop (i * 512) data)"

definition writes_tx :: "u32 \<Rightarrow> u32 \<Rightarrow> u8 list \<Rightarrow> nat list \<Rightarrow> (nat \<times> nat) list \<Rightarrow> log" where
  "writes_tx off pos data is jks =
    concat (map2 (\<lambda>i. write_tx ((off + pos + of_nat i) * 512) (sector_of data i)) is jks)"

lemma write_sectors_accepted:
  "accepts_writes dev A \<Longrightarrow> deselected l \<Longrightarrow> \<forall>i \<in> set is. sector_addr off pos i \<in> A \<Longrightarrow>
    \<forall>i \<in> set is. i * 512 + 512 \<le> length data \<Longrightarrow>
    \<exists>jks. length jks = length is \<and> write_sectors dev off pos data is l = Some (True, l @ writes_tx off pos data is jks)"
proof (induction "is" arbitrary: l)
  case Nil
  then show ?case by (simp add: writes_tx_def)
next
  case (Cons i "is")
  have "length (sector_of data i) = 512" using Cons.prems(4) by (auto simp: sector_of_def min_def)
  then obtain jk where w: "MSD_WriteBuffer dev (sector_of data i) (sector_addr off pos i) l =
      Some (0, l @ write_tx (sector_addr off pos i) (sector_of data i) jk)"
    using WriteBuffer_accepted Cons.prems(1-3) by (metis list.set_intros(1))
  obtain jks where "length jks = length is"
    "write_sectors dev off pos data is (l @ write_tx (sector_addr off pos i) (sector_of data i) jk) =
      Some (True, (l @ write_tx (sector_addr off pos i) (sector_of data i) jk) @ writes_tx off pos data is jks)"
    using Cons.IH [OF Cons.prems(1) deselected_write_tx] Cons.prems(3,4) by (meson list.set_intros(2))
  with w show ?case
    by (intro exI [of _ "jk # jks"]) (simp add: writes_tx_def sector_of_def sector_addr_def)
qed

section \<open>Example cards\<close>

text \<open>
  The bytes since the chip was selected determine what these cards answer: a read of address
  \<open>a\<close> gives 512 times the third byte of \<open>a\<close>; a write is acknowledged at once.
\<close>

definition selected_bytes :: "log \<Rightarrow> log" where
  "selected_bytes l = rev (takeWhile (\<lambda>e. e \<noteq> CS_low) (rev l))"

definition ramp_card :: sd_card where
  "ramp_card l =
    (let t = selected_bytes l; k = length t - 7
     in if k = 0 then 0 else if k = 1 then START_DATA else (case t ! 3 of Out b \<Rightarrow> b | _ \<Rightarrow> 0))"

definition ramp_disk :: "u32 \<Rightarrow> u8 list" where
  "ramp_disk a = replicate 512 (ucast (drop_bit 8 a))"

lemma selected_bytes_frame: "selected_bytes (l @ CS_low # map Out bs) = map Out bs"
proof -
  have "takeWhile (\<lambda>e. e \<noteq> CS_low) (rev (map Out bs) @ CS_low # rev l) = rev (map Out bs)"
    by (subst takeWhile_append2) auto
  then show ?thesis by (simp add: selected_bytes_def)
qed

lemma cmd_frame_clocks:
  "cmd_frame c a @ clocks n = map Out ([c, ucast (drop_bit 24 a), ucast (drop_bit 16 a), ucast (drop_bit 8 a),
    ucast a, 0xFF] @ replicate n DUMMY)"
  by (simp add: cmd_frame_def)

lemma ramp_card_reply:
  "ramp_card ((l @ CS_low # cmd_frame c a) @ clocks (Suc k)) =
    (if k = 0 then 0 else if k = 1 then START_DATA else ucast (drop_bit 8 a))"
  unfolding append_assoc append_Cons cmd_frame_clocks ramp_card_def selected_bytes_frame by simp

lemma ramp_card_serves: "serves_reads ramp_card ramp_disk UNIV"
proof -
  have "replies ramp_card (l @ CS_low # cmd_frame 0x51 a) 514 = [] @ 0 # [] @ START_DATA # ramp_disk a" for l a
  proof (rule nth_equalityI)
    fix k assume "k < length (replies ramp_card (l @ CS_low # cmd_frame 0x51 a) 514)"
    then have k: "k < 514" by simp
    have "replies ramp_card (l @ CS_low # cmd_frame 0x51 a) 514 ! k =
        (if k = 0 then 0 else if k = 1 then START_DATA else ucast (drop_bit 8 a))"
      unfolding nth_replies [OF k] by (rule ramp_card_reply)
    with k show "replies ramp_card (l @ CS_low # cmd_frame 0x51 a) 514 ! k =
        ([] @ 0 # [] @ START_DATA # ramp_disk a) ! k"
      by (simp add: ramp_disk_def nth_Cons split: nat.split)
  qed (simp add: ramp_disk_def)
  then show ?thesis
    unfolding serves_reads_def by (auto simp: ramp_disk_def intro!: exI [of _ "[]"])
qed

definition eager_card :: sd_card where
  "eager_card l =
    (let k = length (selected_bytes l) - 7
     in if k = 0 then 0 else if k < 516 then 0xFF else if k = 517 then DATA_OK else 0xFF)"

lemma eager_card_accepts: "accepts_writes eager_card UNIV"
proof -
  have a: "eager_card ((l @ CS_low # cmd_frame c a) @ clocks (Suc 0)) = 0" for l c a
    unfolding append_assoc append_Cons cmd_frame_clocks eager_card_def selected_bytes_frame by simp
  have b: "selected_bytes ((l @ CS_low # cmd_frame c a @ clocks 1 @ block_out data) @ clocks k) =
      cmd_frame c a @ clocks 1 @ block_out data @ clocks k" for l c a data k
    using selected_bytes_frame [of l "[c, ucast (drop_bit 24 a), ucast (drop_bit 16 a), ucast (drop_bit 8 a),
      ucast a, 0xFF] @ [DUMMY] @ [DUMMY, 0xFE] @ data @ [DUMMY, DUMMY] @ replicate k DUMMY"]
    by (simp add: cmd_frame_def block_out_def)
  have r0: "replies eager_card (l @ CS_low # cmd_frame c a) (Suc 0) = [0]" for l c a
    using a [of l c a] by (simp add: replies_def)
  have r1: "replies eager_card (l @ CS_low # cmd_frame c a @ clocks 1 @ block_out data) 2 = [DATA_OK, 0xFF]"
    if "length data = 512" for l c a data
  proof -
    have "eager_card ((l @ CS_low # cmd_frame c a @ clocks 1 @ block_out data) @ clocks (Suc k)) =
        (if k = 0 then DATA_OK else 0xFF)" for k
      unfolding eager_card_def b by (simp add: that cmd_frame_def block_out_def)
    then show ?thesis unfolding replies_def by (simp only:) (simp add: upt_rec)
  qed
  show ?thesis
    unfolding accepts_writes_def
  proof (intro allI impI)
    fix l a and data :: "u8 list"
    assume d: "length data = 512"
    have "and DATA_OK 0x1F = DATA_OK" "(0xFF :: u8) \<noteq> 0" by (simp_all add: DATA_OK_def)
    with r0 [of l "0x58" a] r1 [OF d, of l "0x58" a]
    show "\<exists>p q r b e. length p < 4095 \<and> 0 \<notin> set p \<and>
      replies eager_card (l @ CS_low # cmd_frame 0x58 a) (Suc (length p)) = p @ [0] \<and>
      length q < 65 \<and> list_all pending_response q \<and> and r 0x1F = DATA_OK \<and> e \<noteq> 0 \<and>
      replies eager_card (l @ CS_low # cmd_frame 0x58 a @ clocks (Suc (length p)) @ block_out data)
        (length q + b + 2) = q @ r # replicate b 0 @ [e]"
      by - (rule exI [of _ "[]"], rule exI [of _ "[]"], rule exI [of _ DATA_OK], rule exI [of _ 0],
        rule exI [of _ "0xFF"], simp add: numeral_2_eq_2)
  qed
qed

section \<open>A card that never leaves the idle state\<close>

lemma op_cond_ends: "op_cond_loop dev l = Some l' \<Longrightarrow> \<exists>m. dev m = 0"
proof (rule op_cond_loop.raw_induct [where P = "\<lambda>dev l l'. \<exists>m. dev m = 0"])
  fix rec and dev :: sd_card and l l'
  assume rec: "\<And>l b y. rec l b = Some y \<Longrightarrow> \<exists>m. l m = (0 :: u8)"
    and step: "(case MSD_GetResponse dev NO_ERROR
        (MSD_SendCmd 1 0 0xFF (MSD_WriteByte DUMMY (l @ [CS_high]) @ [CS_low])) of
        (r, l1) \<Rightarrow> if r \<noteq> 0 then rec dev l1 else Some l1) = Some l'"
  show "\<exists>m. dev m = 0"
  proof (rule ccontr)
    assume "\<nexists>m. dev m = 0"
    moreover from this have "0 \<notin> set (replies dev m 4095)" for m by (auto simp: replies_def)
    then have "MSD_GetResponse dev NO_ERROR m = (FAILURE, m @ clocks 4096)" for m
      using response_miss by (simp add: NO_ERROR_def)
    ultimately show False using step rec by (simp add: FAILURE_def) blast
  qed
qed assumption

section \<open>Register layout\<close>

text \<open>The value of a run of bytes, the first the most significant.\<close>

fun be_val :: "u8 list \<Rightarrow> nat" where
  "be_val [] = 0"
| "be_val (b # bs) = unat b * 256 ^ length bs + be_val bs"

lemma be_val_bound: "be_val bs < 2 ^ (8 * length bs)"
proof (induction bs)
  case Nil
  then show ?case by simp
next
  case (Cons b bs)
  have "unat b \<le> 255" using unat_u8_lt [of b] by linarith
  then have "unat b * 256 ^ length bs \<le> 255 * 256 ^ length bs" by (intro mult_right_mono) simp_all
  moreover have "be_val bs < 256 ^ length bs" using Cons by (simp add: power_mult)
  moreover have "(2 :: nat) ^ (8 * length (b # bs)) = 256 * 256 ^ length bs" by (simp add: power_mult power_add)
  ultimately show ?case unfolding be_val.simps by linarith
qed

lemma be_val_Cons: "be_val (b # bs) = or (push_bit (8 * length bs) (unat b)) (be_val bs)"
proof -
  have "\<not> bit (be_val bs) n" if "8 * length bs \<le> n" for n
    using be_val_bound [of bs] that leD by (metis bit_take_bit_iff take_bit_nat_eq_self_iff)
  then have "and (push_bit (8 * length bs) (unat b)) (be_val bs) = 0"
    by (intro bit_eqI) (auto simp: bit_simps)
  then show ?thesis
    by (simp add: disjunctive_add_eq_or [symmetric] push_bit_eq_mult power_mult)
qed

lemma bit_be_val:
  "bit (be_val bs) n \<longleftrightarrow> n < 8 * length bs \<and> bit (bs ! (length bs - 1 - n div 8)) (n mod 8)"
proof (induction bs)
  case Nil
  then show ?case by simp
next
  case (Cons b bs)
  show ?case
  proof (cases "n < 8 * length bs")
    case True
    then have "n div 8 < length bs" by (simp add: less_mult_imp_div_less mult.commute)
    then have "length bs - n div 8 = Suc (length bs - 1 - n div 8)" by simp
    with True show ?thesis unfolding be_val_Cons bit_or_iff Cons.IH by (simp add: bit_push_bit_iff)
  next
    case False
    then have b: "bit (be_val (b # bs)) n \<longleftrightarrow> bit b (n - 8 * length bs)"
      unfolding be_val_Cons bit_or_iff Cons.IH by (simp add: bit_simps)
    show ?thesis
    proof (cases "n < 8 * Suc (length bs)")
      case True
      with False have "n div 8 = length bs" by (simp add: div_nat_eqI)
      then have "n mod 8 = n - 8 * length bs" by (simp add: modulo_nat_def)
      with \<open>n div 8 = length bs\<close> True b show ?thesis by simp
    next
      case f: False
      then have "\<not> bit b (n - 8 * length bs)" using bit_imp_le_length [of b "n - 8 * length bs"] by auto
      with f b show ?thesis by simp
    qed
  qed
qed

text \<open>The bits \<open>lo\<close> to \<open>lo + k - 1\<close> of a register.\<close>

definition reg_bits :: "u8 list \<Rightarrow> nat \<Rightarrow> nat \<Rightarrow> nat" where
  "reg_bits t lo k = be_val t div 2 ^ lo mod 2 ^ k"

lemma bit_reg_bits: "bit (reg_bits t lo k) n \<longleftrightarrow> n < k \<and> bit (be_val t) (lo + n)"
  by (simp add: reg_bits_def bit_take_bit_iff bit_drop_bit_eq flip: take_bit_eq_mod drop_bit_eq_div)

lemma bit_u8_high: "8 \<le> n \<Longrightarrow> \<not> bit (b :: u8) n"
  using bit_imp_le_length [of b n] by auto

lemma below16: "n < 16 \<Longrightarrow> n \<in> {0, 1, 2, 3, 4, 5, 6, 7, 8, 9, 10, 11, 12, 13, 14, 15 :: nat}"
  unfolding insert_iff empty_iff by arith

lemma unat_eq_reg_bits:
  assumes "\<And>n. n < LENGTH('a) \<Longrightarrow> bit (w :: 'a::len word) n \<longleftrightarrow> bit (reg_bits t lo k) n" and "k \<le> LENGTH('a)"
  shows "unat w = reg_bits t lo k"
proof (rule bit_eqI)
  fix n
  show "bit (unat w) n \<longleftrightarrow> bit (reg_bits t lo k) n"
    using assms by (cases "n < LENGTH('a)") (auto simp: bit_simps bit_reg_bits dest: bit_imp_le_length)
qed

lemmas field_bits = bit_reg_bits bit_be_val bit_simps bit_u8_high

lemma bits_DeviceSize:
  assumes "length t = 16"
  shows "unat (or (or (push_bit 10 (and (ucast (t ! 6)) 0x03)) (push_bit 2 (ucast (t ! 7))))
      (drop_bit 6 (and (ucast (t ! 8)) 0xC0)) :: u16) = reg_bits t 62 12"
  by (rule unat_eq_reg_bits, simp, drule below16, elim insertE)
    (simp_all add: field_bits assms)

lemma bits_CardComdClasses:
  assumes "length t = 16"
  shows "unat (or (push_bit 4 (ucast (t ! 4))) (drop_bit 4 (and (ucast (t ! 5)) 0xF0)) :: u16) = reg_bits t 84 12"
  by (rule unat_eq_reg_bits, simp, drule below16, elim insertE)
    (simp_all add: field_bits assms)

lemma below8: "n < 8 \<Longrightarrow> n \<in> {0, 1, 2, 3, 4, 5, 6, 7 :: nat}"
  unfolding insert_iff empty_iff by arith

lemma bits_bytes:
  assumes "length t = 16"
  shows "unat (and (t ! 5) 0x0F) = reg_bits t 80 4"
    and "unat (or (push_bit 1 (and (t ! 9) 0x03)) (drop_bit 7 (and (t ! 10) 0x80))) = reg_bits t 47 3"
    and "unat (or (push_bit 2 (and (t ! 12) 0x03)) (drop_bit 6 (and (t ! 13) 0xc0))) = reg_bits t 22 4"
  by (rule unat_eq_reg_bits, simp, drule below8, elim insertE; simp add: field_bits assms bit_double_iff mult.commute [of _ "2 :: u8"])+

section \<open>Properties\<close>

text \<open>
  The polling loop accepts the expected byte exactly when the card sends it among its next
  4095 bytes; an answer that comes with the last poll, when the counter is already 0, is
  reported as a failure.
\<close>

lemma msd_response_window:
  "fst (MSD_GetResponse dev r l) = NO_ERROR \<longleftrightarrow> r \<in> set (replies dev l 4095)"
proof (cases "r \<in> set (replies dev l 4095)")
  case True
  from response_hit_set [OF this] response_hit True show ?thesis by (auto simp: NO_ERROR_def)
next
  case False
  with response_miss [OF False] show ?thesis by (simp add: NO_ERROR_def FAILURE_def)
qed

text \<open>
  C2. Reading sectors refines the card's contents: from a card that serves the addresses read,
  the device returns the sector count and the contents of the sectors one after the other,
  and leaves the chip deselected.
\<close>

theorem msd_read_refines_disk:
  assumes "serves_reads dev disk A" and "deselected l" and "\<forall>i < n. (off + pos + of_nat i) * 512 \<in> A"
  shows "\<exists>l'. rt_msd_read dev off pos n l =
      (n, concat (map (\<lambda>i. disk ((off + pos + of_nat i) * 512)) [0..<n]), l') \<and> deselected l'"
  using read_sectors_served [OF assms(1,2), of "[0..<n]" off pos] assms(3)
  by (auto simp: rt_msd_read_def sector_addr_def)

theorem msd_read_refines_disk_witness:
  "\<exists>l'. rt_msd_read ramp_card 1 0 2 [CS_high, Out DUMMY] = (2, replicate 512 2 @ replicate 512 4, l')"
proof -
  have "[0..<2] = [0, 1 :: nat]" by (simp add: upt_rec)
  moreover have "deselected [CS_high, Out DUMMY]" by (simp add: deselected_def)
  ultimately show ?thesis
    using msd_read_refines_disk [OF ramp_card_serves, of "[CS_high, Out DUMMY]" 2 1 0]
    by (auto simp: ramp_disk_def sector_addr_def drop_bit_eq_div)
qed

text \<open>
  C21. Writing sectors puts exactly one write transaction per sector on the bus, with the
  sector's address and its 512 bytes, in order, and reports the sector count, when the card
  accepts the blocks.
\<close>

theorem msd_write_transactions:
  assumes "accepts_writes dev A" and "deselected l" and "\<forall>i < n. (off + pos + of_nat i) * 512 \<in> A"
    and "length data = n * 512"
  shows "\<exists>jks. length jks = n \<and>
    rt_msd_write dev off pos data n l = Some (n, l @ writes_tx off pos data [0..<n] jks)"
proof -
  have "\<forall>i \<in> set [0..<n]. i * 512 + 512 \<le> length data" using assms(4) by auto
  with write_sectors_accepted [OF assms(1,2), of "[0..<n]" off pos data] assms(3) show ?thesis
    by (auto simp: rt_msd_write_def sector_addr_def)
qed

theorem msd_write_transactions_witness:
  "\<exists>jk. rt_msd_write eager_card 0 3 (replicate 512 7) 1 [CS_high, Out DUMMY] =
    Some (1, [CS_high, Out DUMMY] @ write_tx 1536 (replicate 512 7) jk)"
proof -
  have "deselected [CS_high, Out DUMMY]" by (simp add: deselected_def)
  then obtain jks where "length jks = 1" "rt_msd_write eager_card 0 3 (replicate 512 7) 1 [CS_high, Out DUMMY] =
    Some (1, [CS_high, Out DUMMY] @ writes_tx 0 3 (replicate 512 7) [0..<1] jks)"
    using msd_write_transactions [OF eager_card_accepts, of "[CS_high, Out DUMMY]" 1 0 3 "replicate 512 7"]
    by auto
  then show ?thesis
    by (cases jks) (auto simp: writes_tx_def sector_addr_def sector_of_def)
qed

text \<open>
  Start-up need not return: with a card that acknowledges the reset command but never
  answers the operating-condition command with 0, the initialisation, and with it the
  registration of the device, loops for ever.
\<close>

lemma msd_init_may_hang:
  assumes "\<forall>l. dev l \<noteq> 0" and "\<forall>l. IN_IDLE_STATE \<in> set (replies dev l 4095)"
  shows "rt_hw_msd_init dev mem p0 l = None"
proof -
  have "op_cond_loop dev m = None" for m
    using op_cond_ends assms(1) by (cases "op_cond_loop dev m") auto
  moreover have "fst (MSD_GetResponse dev IN_IDLE_STATE m) = 0" for m
    using response_hit_set [of IN_IDLE_STATE dev m] response_hit assms(2) by fastforce
  ultimately have "MSD_Init dev l = None"
    by (auto simp: MSD_Init_def MSD_GoIdleState_def split: prod.splits) (metis fst_conv)
  then show ?thesis by (simp add: rt_hw_msd_init_def)
qed

lemma msd_init_may_hang_witness: "rt_hw_msd_init (\<lambda>_. 1) True \<lparr>part_type = 0, part_offset = 0, part_size = 0\<rparr> [] = None"
proof -
  have "replies (\<lambda>_. 1) l 4095 = 1 # replies (\<lambda>_. 1) (l @ [Out DUMMY]) 4094" for l
    using replies_Suc [of "\<lambda>_. 1" l 4094] by simp
  then show ?thesis by (intro msd_init_may_hang) (simp_all add: IN_IDLE_STATE_def)
qed

text \<open>
  When the card refuses the command of a block, the buffered write returns failure at once
  and leaves the chip selected, while the single-block write ends by deselecting it.
\<close>

lemma msd_refused_write_stays_selected:
  assumes "0 \<notin> set (replies dev (l @ CS_low # cmd_frame 0x58 a) 4095)" and "512 \<le> length data"
  shows "MSD_WriteBuffer dev data a l = Some (FAILURE, l @ CS_low # cmd_frame 0x58 a @ clocks 4096) \<and>
    MSD_WriteBlock dev data a l =
      Some (FAILURE, l @ CS_low # cmd_frame 0x58 a @ clocks 4096 @ [CS_high, Out DUMMY])"
proof -
  have "MSD_GetResponse dev NO_ERROR (l @ CS_low # cmd_frame 0x58 a) =
      (FAILURE, (l @ CS_low # cmd_frame 0x58 a) @ clocks 4096)"
    using response_miss [OF assms(1)] by (simp add: NO_ERROR_def)
  moreover obtain k where "length data div 512 = Suc k"
    using assms(2) by (metis div_greater_zero_iff gr0_implies_Suc zero_less_numeral)
  ultimately show ?thesis
    by (simp_all add: MSD_WriteBuffer_def MSD_WriteBlock_def SendCmd_frame FAILURE_def MSD_WriteByte_def)
qed

lemma msd_refused_write_stays_selected_witness:
  "\<exists>l. MSD_WriteBuffer (\<lambda>_. 0xFF) (replicate 512 0) 0 [] = Some (FAILURE, l) \<and> CS_high \<notin> set l"
proof -
  have "0 \<notin> set (replies (\<lambda>_. 0xFF) l 4095)" for l by (auto simp: replies_def)
  from msd_refused_write_stays_selected [OF this, of "replicate 512 0" 0 "[]"] show ?thesis
    by (auto simp: cmd_frame_def)
qed

text \<open>
  The decoded CSD fields are the bit fields of the 128-bit register: command classes
  (bits 84 to 95), block length (80 to 83), device size (62 to 73), its multiplier (47 to 49)
  and the write block length (22 to 25).
\<close>

lemma msd_csd_fields:
  assumes "length t = 16"
  shows "unat (CardComdClasses (csd_of t)) = reg_bits t 84 12 \<and> unat (RdBlockLen (csd_of t)) = reg_bits t 80 4 \<and>
    unat (DeviceSize (csd_of t)) = reg_bits t 62 12 \<and> unat (DeviceSizeMul (csd_of t)) = reg_bits t 47 3 \<and>
    unat (MaxWrBlockLen (csd_of t)) = reg_bits t 22 4"
  unfolding csd_of_def sMSD_CSD.simps
  using bits_CardComdClasses [OF assms] bits_DeviceSize [OF assms] bits_bytes [OF assms] by blast

lemma msd_csd_fields_witness:
  "unat (DeviceSize (csd_of [0, 0x26, 0, 0x32, 0x5F, 0x59, 0x83, 0xC8, 0xAD, 0xDB, 0xCF, 0xFF, 0xD2, 0x40, 0x40, 0xAB])) = 3874"
  using msd_csd_fields [of "[0, 0x26, 0, 0x32, 0x5F, 0x59, 0x83, 0xC8, 0xAD, 0xDB, 0xCF, 0xFF, 0xD2, 0x40, 0x40, 0xAB]"]
  by (simp add: reg_bits_def)

end
