(* ===== verification/At_Modem.thy ===== *)
theory At_Modem
  imports Base "HOL-Library.Sublist"
begin

text \<open>
  The modem's command thread, \<open>MySouce/ATcmd/AT_APP.c\<close>: the interrupt collects lines in a ring
  of five nodes, the thread decodes them against \<open>AT_Command_list\<close> and drives the dialling
  state machine. The ring is an instance of \<open>fifo\<close> as long as it is not overrun; what an
  overrun does is proved separately.
\<close>

section \<open>The command list\<close>

abbreviation cr :: "u8 list" where "cr \<equiv> [13]"
abbreviation crlf :: "u8 list" where "crlf \<equiv> [13, 10]"

definition AT_Command_list :: "u8 list list" where
  "AT_Command_list =
    [bytes ''OK'' @ cr,
     bytes ''ERROR'' @ cr,
     cr,
     bytes ''^RSSILVL:0'' @ cr,
     bytes ''^RSSILVL:20'' @ cr,
     bytes ''^RSSILVL:40'' @ cr,
     bytes ''^RSSILVL:60'' @ cr,
     bytes ''^RSSILVL:80'' @ cr,
     bytes ''^RSSILVL:99'' @ cr,
     bytes ''^MODE:0'' @ cr,
     bytes ''^MODE:2'' @ cr,
     bytes ''AT^IPINIT'' @ cr,
     bytes ''AT^IPINIT?'' @ cr,
     bytes ''^IPINIT:0'',
     bytes ''^IPINIT:1'',
     bytes ''AT^IPOPEN='',
     bytes ''+CME ERROR:'',
     bytes ''AT^IPSEND=3,'',
     bytes ''AT^IPENTRANS=1'' @ cr,
     bytes ''^SYSINFO:'',
     bytes ''^DSDORMANT: 1'' @ cr,
     bytes ''^IPSTATE: 1,0,remote close'' @ cr,
     bytes ''>'' @ cr,
     bytes ''^HCMGSS:'']"

definition Command_list_num :: nat where "Command_list_num = 24"

text \<open>Both arguments are the memory from the pointer on; running past its end is a fault.\<close>

fun StrCompare :: "u8 list \<Rightarrow> u8 list \<Rightarrow> bool res" where
  "StrCompare (a # as) (b # bs) =
    (if a = 0 \<or> b = 0 then Ok True else if a \<noteq> b then Ok False else StrCompare as bs)"
| "StrCompare _ _ = Fault"

fun decode_from :: "nat \<Rightarrow> u8 list list \<Rightarrow> u8 list \<Rightarrow> u8 res" where
  "decode_from i [] s = Ok 0xff"
| "decode_from i (c # cs) s =
    rbind (StrCompare (c @ [0]) s) (\<lambda>m. if m then Ok (of_nat i) else decode_from (Suc i) cs s)"

definition DecodeCommand :: "u8 list \<Rightarrow> u8 res" where
  "DecodeCommand s = decode_from 0 (take Command_list_num AT_Command_list) s"

section \<open>The line ring\<close>

definition AT_CMD_MAX_LEN :: nat where "AT_CMD_MAX_LEN = 100"

text \<open>\<open>Str\<close>, \<open>Ready\<close> and \<open>Nxt\<close> are the fields of the nodes, numbered in order of allocation.\<close>

record at_rx =
  Str :: "nat \<Rightarrow> u8 list"
  Ready :: "nat \<Rightarrow> bool"
  Nxt :: "nat \<Rightarrow> nat"
  pWrite :: nat
  pRead :: nat
  Buf :: "u8 list"
  index :: nat

definition buf_node :: "nat \<Rightarrow> at_rx \<Rightarrow> at_rx" where
  "buf_node i r =
    (if i = 0 then r\<lparr>pWrite := 0, Ready := (Ready r)(0 := False), pRead := 0\<rparr>
     else r\<lparr>Nxt := (Nxt r)(pWrite r := i), pWrite := i, Ready := (Ready r)(i := False)\<rparr>)"

text \<open>\<open>rt_malloc\<close> is taken to succeed; with no node the first store goes through a null pointer.\<close>

definition ATcmdBuf_init :: "nat \<Rightarrow> at_rx \<Rightarrow> at_rx res" where
  "ATcmdBuf_init n r =
    (if n = 0 then Fault
     else (let r1 = fold buf_node [0..<n] r
           in Ok (r1\<lparr>Nxt := (Nxt r1)(pWrite r1 := pRead r1), pWrite := pRead r1\<rparr>)))"

text \<open>
  One received byte. The flag says that \<open>ATsem\<close> is released. Looking before the first byte of
  the buffer and closing a line that fills the node are accesses outside the arrays.
\<close>

definition step_index :: "at_rx \<Rightarrow> at_rx" where
  "step_index r =
    (let r1 = r\<lparr>index := index r + 1\<rparr> in if index r1 \<ge> AT_CMD_MAX_LEN then r1\<lparr>index := 0\<rparr> else r1)"

definition MC323A_RX :: "u8 \<Rightarrow> at_rx \<Rightarrow> (bool \<times> at_rx) res" where
  "MC323A_RX b r =
    (if b = 0x7E then Ok (False, r\<lparr>index := 0\<rparr>)
     else
       (let r1 = r\<lparr>Buf := (Buf r)[index r := b]\<rparr> in
        if Buf r1 ! index r1 = 10 then
          (if index r1 = 0 then Fault
           else if Buf r1 ! (index r1 - 1) = 13 then
             (if index r1 + 1 \<ge> AT_CMD_MAX_LEN then Fault
              else
                (let w = pWrite r1;
                     line = take (index r1 + 1) (Buf r1) @ [0]
                 in Ok (True, r1\<lparr>Str := (Str r1)(w := line @ drop (length line) (Str r1 w)),
                                 Ready := (Ready r1)(w := True), pWrite := Nxt r1 w, index := 0\<rparr>)))
           else Ok (False, step_index r1))
        else Ok (False, step_index r1)))"

fun rx_bytes :: "u8 list \<Rightarrow> at_rx \<Rightarrow> (nat \<times> at_rx) res" where
  "rx_bytes [] r = Ok (0, r)"
| "rx_bytes (b # bs) r =
    rbind (MC323A_RX b r) (\<lambda>(s, r1). rbind (rx_bytes bs r1) (\<lambda>(n, r2). Ok ((if s then 1 else 0) + n, r2)))"

text \<open>The thread after \<open>rt_sem_take\<close>: \<open>None\<close> when the node at \<open>pRead\<close> is not ready.\<close>

definition take_line :: "at_rx \<Rightarrow> (u8 option \<times> at_rx) res" where
  "take_line r =
    (if \<not> Ready r (pRead r) then Ok (None, r)
     else rbind (DecodeCommand (Str r (pRead r))) (\<lambda>v.
       Ok (Some v, r\<lparr>Ready := (Ready r)(pRead r := False), pRead := Nxt r (pRead r)\<rparr>)))"

section \<open>The address file\<close>

text \<open>\<open>file\<close> gives the contents of a file, if there is one (\<open>stat\<close>, \<open>open\<close> and \<open>read\<close> agree on it).\<close>

definition readIPAddrFromfile :: "(string \<Rightarrow> u8 list option) \<Rightarrow> string \<Rightarrow> (u8 list \<times> u8 list) res" where
  "readIPAddrFromfile file name =
    (case file name of
       None \<Rightarrow> Halt
     | Some c \<Rightarrow>
         if \<not> length c \<le> 22 then Halt
         else
           (let i = length (takeWhile (\<lambda>b. b \<noteq> 58) c) in
            if \<not> i < length c then Halt
            else if i + 1 > 20 \<or> length c - (i + 1) > 8 then Fault
            else Ok (take i c @ [0], drop (i + 1) c)))"

definition c_str :: "u8 list \<Rightarrow> u8 list res" where
  "c_str m = (if 0 \<in> set m then Ok (takeWhile (\<lambda>b. b \<noteq> 0) m) else Fault)"

section \<open>The dialling thread\<close>

text \<open>
  \<open>net\<close> is the flag \<open>NET_CONNET_EVENT\<close> of \<open>GlobalEvent\<close>, which only this thread sets and clears.
\<close>

record at_th =
  state :: nat
  IpSel :: nat
  net :: bool

definition modem :: "u8 list \<Rightarrow> call" where
  "modem s = DevWrite ''MC323A'' s"

abbreviation quoted :: "u8 list \<Rightarrow> u8 list" where
  "quoted s \<equiv> 34 # s @ [34]"

definition ipinit :: "u8 list" where
  "ipinit = bytes ''AT^IPINIT=,'' @ quoted (bytes ''card'') @ bytes '','' @ quoted (bytes ''card'') @ crlf"

definition ipopen :: "u8 list \<Rightarrow> u8 list \<Rightarrow> u8 list" where
  "ipopen ip port = bytes ''AT^IPOPEN=1,'' @ quoted (bytes ''TCP'') @ bytes '','' @ quoted ip @ bytes '','' @
    port @ bytes '',8002'' @ crlf"

definition TCP_Dial :: "(string \<Rightarrow> u8 list option) \<Rightarrow> at_th \<Rightarrow> (call list \<times> at_th) res" where
  "TCP_Dial file s =
    rbind (readIPAddrFromfile file (if IpSel s = 0 then ''/configure/ip1.dat'' else ''/configure/ip2.dat''))
      (\<lambda>(ip, port). rbind (c_str ip) (\<lambda>a. rbind (c_str port) (\<lambda>p.
        Ok ([modem (ipopen a p)], s\<lparr>state := 6\<rparr>))))"

text \<open>\<open>sms\<close> is the text message in network byte order (conversion tables outside the sources).\<close>

definition on_OK :: "u8 list \<Rightarrow> (string \<Rightarrow> u8 list option) \<Rightarrow> at_th \<Rightarrow> (call list \<times> at_th) res" where
  "on_OK sms file s =
    (if state s = 1 then Ok ([modem (bytes ''AT^IPINIT?'' @ crlf)], s\<lparr>state := 2\<rparr>)
     else if state s = 2 then Ok ([modem (bytes ''AT^HSMSSS=0,0,6,0'' @ crlf)], s\<lparr>state := 3\<rparr>)
     else if state s = 3 then
       Ok ([modem (bytes ''AT^HCMGS='' @ quoted (bytes ''15668061345'') @ crlf), Delay (RT_TICK_PER_SECOND div 10),
            modem sms, modem [0x00, 0x1A]], s\<lparr>state := 4\<rparr>)
     else if state s = 4 then Ok ([], s)
     else if state s = 5 then TCP_Dial file s
     else if state s = 6 then Ok ([modem (bytes ''AT^IPDATMODE=1'' @ crlf)], s\<lparr>state := 7\<rparr>)
     else if state s = 7 then Ok ([modem (bytes ''AT^IPENTRANS=1'' @ crlf)], s\<lparr>state := 8\<rparr>)
     else if state s = 8 then
       Ok ([DevControl ''MC323A'' 1 [1, 0, 0, 0], EventSend ''GlobalEvent'' 1], s\<lparr>state := 9, net := True\<rparr>)
     else Ok ([], s))"

definition on_ERROR :: "at_th \<Rightarrow> call list \<times> at_th" where
  "on_ERROR s =
    (if state s = 1 then ([modem ipinit], s)
     else if state s = 6 then ([modem (bytes ''AT^RESET'' @ crlf)], s\<lparr>IpSel := 1, state := 0\<rparr>)
     else ([], s))"

text \<open>
  \<open>rt_event_recv\<close> waits for ever when the event is not set: no other thread sends it, so the
  thread stops, as in a failed assertion.
\<close>

definition on_remote_close :: "at_th \<Rightarrow> (call list \<times> at_th) res" where
  "on_remote_close s =
    (if \<not> net s then Halt
     else Ok ([EventClear ''GlobalEvent'' 1, DevControl ''MC323A'' 1 [0, 0, 0, 0],
               modem (bytes ''AT^RESET'' @ crlf)], s\<lparr>net := False, state := 0\<rparr>))"

definition at_step ::
  "u8 list \<Rightarrow> (string \<Rightarrow> u8 list option) \<Rightarrow> u8 \<Rightarrow> at_th \<Rightarrow> (call list \<times> at_th) res" where
  "at_step sms file v s =
    (if v = 0 then on_OK sms file s
     else if v = 10 then Ok ([modem ipinit], s\<lparr>state := 1\<rparr>)
     else if v = 1 then Ok (on_ERROR s)
     else if v = 21 then on_remote_close s
     else if v = 23 then
       rbind (TCP_Dial file s) (\<lambda>(cs, s1). Ok (Delay (RT_TICK_PER_SECOND div 10) # cs, s1))
     else Ok ([], s))"

fun at_run ::
  "u8 list \<Rightarrow> (string \<Rightarrow> u8 list option) \<Rightarrow> u8 list \<Rightarrow> at_th \<Rightarrow> (call list \<times> at_th) res" where
  "at_run sms file [] s = Ok ([], s)"
| "at_run sms file (v # vs) s =
    rbind (at_step sms file v s) (\<lambda>(cs, s1). rbind (at_run sms file vs s1) (\<lambda>(ds, s2). Ok (cs @ ds, s2)))"

section \<open>Decoding\<close>

lemma StrCompare_prefix:
  "0 \<notin> set xs \<Longrightarrow> 0 \<notin> set ys \<Longrightarrow> StrCompare (xs @ 0 # r) (ys @ 0 # r') = Ok (prefix xs ys \<or> prefix ys xs)"
proof (induction xs arbitrary: ys)
  case Nil
  then show ?case by (cases ys) auto
next
  case (Cons x xs)
  then show ?case by (cases ys) auto
qed

definition comparable :: "u8 list \<Rightarrow> u8 list \<Rightarrow> bool" where
  "comparable c w \<longleftrightarrow> prefix c w \<or> prefix w c"

definition decoded :: "nat option \<Rightarrow> u8" where
  "decoded k = (case k of None \<Rightarrow> 0xff | Some i \<Rightarrow> of_nat i)"

lemma decode_from_find:
  "0 \<notin> set w \<Longrightarrow> list_all (\<lambda>c. 0 \<notin> set c) cs \<Longrightarrow>
    decode_from i cs (w @ 0 # r) = Ok (decoded (find (\<lambda>k. comparable (cs ! (k - i)) w) [i..<i + length cs]))"
proof (induction cs arbitrary: i)
  case Nil
  then show ?case by (simp add: decoded_def)
next
  case (Cons c cs)
  have "find (\<lambda>k. comparable ((c # cs) ! (k - i)) w) [Suc i..<Suc i + length cs] =
      find (\<lambda>k. comparable (cs ! (k - Suc i)) w) [Suc i..<Suc i + length cs]"
    by (rule find_cong) (auto simp: nth_Cons' Suc_diff_Suc)
  then show ?case
    using Cons StrCompare_prefix [of c w "[]" r]
    by (auto simp: upt_conv_Cons comparable_def decoded_def simp del: upt_Suc)
qed

lemma list_no_zero: "list_all (\<lambda>c. 0 \<notin> set c) AT_Command_list"
  by code_simp

lemma length_list [simp]: "length AT_Command_list = 24"
  by (simp add: AT_Command_list_def)

lemma DecodeCommand_find:
  "0 \<notin> set w \<Longrightarrow>
    DecodeCommand (w @ 0 # r) = Ok (decoded (find (\<lambda>k. comparable (AT_Command_list ! k) w) [0..<24]))"
  using decode_from_find [of w AT_Command_list 0 r] list_no_zero
  by (simp add: DecodeCommand_def Command_list_num_def)

text \<open>No entry of the list is a prefix of another.\<close>

lemma list_incomparable: "sorted_wrt (\<lambda>c d. \<not> comparable c d) AT_Command_list"
  unfolding comparable_def by code_simp

lemma comparable_commute: "comparable c d = comparable d c"
  by (auto simp: comparable_def)

lemma list_comparable_eq:
  assumes "i < 24" and "j < 24" and c: "comparable (AT_Command_list ! i) (AT_Command_list ! j)"
  shows "i = j"
proof (rule linorder_cases)
  assume "i < j"
  have "\<not> comparable (AT_Command_list ! i) (AT_Command_list ! j)"
    by (rule sorted_wrt_nth_less [OF list_incomparable \<open>i < j\<close>]) (simp add: assms(2))
  with c show ?thesis by contradiction
next
  assume "j < i"
  have "\<not> comparable (AT_Command_list ! j) (AT_Command_list ! i)"
    by (rule sorted_wrt_nth_less [OF list_incomparable \<open>j < i\<close>]) (simp add: assms(1))
  moreover have "comparable (AT_Command_list ! j) (AT_Command_list ! i)"
    using c by (rule comparable_commute [THEN iffD1])
  ultimately show ?thesis by contradiction
qed

lemma comparable_extend: "comparable c (d @ t) \<Longrightarrow> comparable c d"
  unfolding comparable_def using append_prefixD prefix_same_cases [of c "d @ t" d] prefixI by blast

lemma find_unique:
  assumes "i < n" and "P i" and "\<And>j. j < n \<Longrightarrow> P j \<Longrightarrow> j = i"
  shows "find P [0..<n] = Some i"
proof -
  have "\<not> P j" if "j < i" for j
    using assms(3) [of j] assms(1) that by auto
  then show ?thesis
    unfolding find_Some_iff using assms(1,2) by (intro exI [of _ i] conjI allI impI) auto
qed

section \<open>Receiving a line\<close>

definition plain :: "u8 \<Rightarrow> bool" where
  "plain b \<longleftrightarrow> b \<noteq> 10 \<and> b \<noteq> 0x7E \<and> b \<noteq> 0"

lemma rx_plain:
  "list_all plain w \<Longrightarrow> length (Buf r) = 100 \<Longrightarrow> index r + length w < 100 \<Longrightarrow>
    \<exists>B. rx_bytes w r = Ok (0, r\<lparr>Buf := B, index := index r + length w\<rparr>) \<and> length B = 100 \<and>
      take (index r + length w) B = take (index r) (Buf r) @ w"
proof (induction w arbitrary: r)
  case Nil
  then show ?case by (intro exI [of _ "Buf r"]) simp
next
  case (Cons b w)
  let ?r = "r\<lparr>Buf := (Buf r)[index r := b], index := index r + 1\<rparr>"
  have step: "MC323A_RX b r = Ok (False, ?r)"
    using Cons.prems by (simp add: MC323A_RX_def Let_def plain_def step_index_def AT_CMD_MAX_LEN_def)
  obtain B where B: "rx_bytes w ?r = Ok (0, ?r\<lparr>Buf := B, index := index ?r + length w\<rparr>)" "length B = 100"
    "take (index ?r + length w) B = take (index ?r) (Buf ?r) @ w"
    using Cons.IH [of ?r] Cons.prems by auto
  have "take (index r + 1) ((Buf r)[index r := b]) = take (index r) (Buf r) @ [b]"
    using Cons.prems by (simp add: take_Suc_conv_app_nth)
  with B step show ?case by (intro exI [of _ B]) simp
qed

definition line_ok :: "u8 list \<Rightarrow> bool" where
  "line_ok l \<longleftrightarrow> 2 \<le> length l \<and> length l \<le> 99 \<and> drop (length l - 2) l = crlf \<and> list_all plain (take (length l - 2) l)"

lemma line_okE:
  assumes "line_ok l"
  obtains w where "l = w @ crlf" and "list_all plain w" and "length w \<le> 97"
proof -
  have "l = take (length l - 2) l @ crlf" using assms append_take_drop_id [of "length l - 2" l] by (simp add: line_ok_def)
  moreover have "length (take (length l - 2) l) \<le> 97" using assms by (auto simp: line_ok_def)
  ultimately show thesis using assms that unfolding line_ok_def by blast
qed

lemma line_okI: "list_all plain w \<Longrightarrow> length w \<le> 97 \<Longrightarrow> line_ok (w @ crlf)"
  by (simp add: line_ok_def)

lemma rx_bytes_append:
  "rx_bytes (xs @ ys) r = rbind (rx_bytes xs r) (\<lambda>(m, r1). rbind (rx_bytes ys r1) (\<lambda>(n, r2). Ok (m + n, r2)))"
proof (induction xs arbitrary: r)
  case Nil
  show ?case by (cases "rx_bytes ys r") auto
next
  case (Cons x xs)
  show ?case
    by (cases "MC323A_RX x r") (auto simp: rbind_def Cons split: res.split)
qed

lemma rx_line:
  assumes "line_ok l" and "length (Buf r) = 100" and "index r = 0" and "length (Str r (pWrite r)) = 100"
  shows "\<exists>B S. rx_bytes l r = Ok (1, r\<lparr>Buf := B, index := 0, Str := (Str r)(pWrite r := l @ 0 # S),
      Ready := (Ready r)(pWrite r := True), pWrite := Nxt r (pWrite r)\<rparr>) \<and> length B = 100 \<and>
    length (l @ 0 # S) = 100"
proof -
  obtain w where w: "l = w @ crlf" "list_all plain w" "length w \<le> 97" using line_okE [OF assms(1)] .
  obtain B where B: "rx_bytes w r = Ok (0, r\<lparr>Buf := B, index := length w\<rparr>)" "length B = 100"
    "take (length w) B = w"
    using rx_plain [OF w(2) assms(2)] assms(3) w(3) by auto
  let ?C = "B[length w := 13, Suc (length w) := 10]"
  have t: "take (length w + 2) ?C = w @ crlf"
    using B w(3) by (simp add: take_Suc_conv_app_nth take_update_cancel)
  have "rx_bytes crlf (r\<lparr>Buf := B, index := length w\<rparr>) =
      Ok (1, r\<lparr>Buf := ?C, index := 0, Str := (Str r)(pWrite r := l @ 0 # drop (length l + 1) (Str r (pWrite r))),
        Ready := (Ready r)(pWrite r := True), pWrite := Nxt r (pWrite r)\<rparr>)"
    using w B t assms(3) by (simp add: MC323A_RX_def Let_def step_index_def AT_CMD_MAX_LEN_def)
  with B w assms(4) show ?thesis
    by (intro exI [of _ ?C] exI [of _ "drop (length l + 1) (Str r (pWrite r))"]) (simp add: rx_bytes_append)
qed

section \<open>The ring of lines\<close>

definition slot :: "at_rx \<Rightarrow> nat \<Rightarrow> nat" where
  "slot r k = (pRead r + k) mod 5"

text \<open>The lines the thread has not taken yet, from \<open>pRead\<close> on as far as the nodes are ready.\<close>

definition unread :: "at_rx \<Rightarrow> u8 list list" where
  "unread r = map (\<lambda>i. c_text (Str r i)) (takeWhile (Ready r) (map (slot r) [0..<5]))"

definition at_rep :: "at_rx \<Rightarrow> u8 list list \<Rightarrow> bool" where
  "at_rep r ls \<longleftrightarrow> length ls \<le> 5 \<and> pRead r < 5 \<and> pWrite r = slot r (length ls) \<and>
    index r = 0 \<and> length (Buf r) = 100 \<and>
    (\<forall>i < 5. Nxt r i = (i + 1) mod 5 \<and> length (Str r i) = 100) \<and>
    (\<forall>k < 5. Ready r (slot r k) \<longleftrightarrow> k < length ls) \<and>
    (\<forall>k < length ls. 0 \<notin> set (ls ! k) \<and> (\<exists>z. Str r (slot r k) = ls ! k @ 0 # z))"

definition at_inv :: "at_rx \<Rightarrow> bool" where
  "at_inv r \<longleftrightarrow> (\<exists>ls. at_rep r ls)"

definition put_line :: "u8 list \<Rightarrow> at_rx \<Rightarrow> at_rx" where
  "put_line l r = (case rx_bytes l r of Ok (n, r') \<Rightarrow> r' | _ \<Rightarrow> r)"

definition take1 :: "at_rx \<Rightarrow> at_rx" where
  "take1 r = (case take_line r of Ok (v, r') \<Rightarrow> r' | _ \<Rightarrow> r)"

lemma slot_less [simp]: "slot r k < 5"
  by (simp add: slot_def)

lemma slot_distinct: "at_rep r ls \<Longrightarrow> k < 5 \<Longrightarrow> k' < 5 \<Longrightarrow> slot r k = slot r k' \<longleftrightarrow> k = k'"
  using slot_neq [of "pRead r" 5 k k'] slot_neq [of "pRead r" 5 k' k]
  by (cases k k' rule: linorder_cases) (auto simp: at_rep_def slot_def)

lemma rep_unread:
  assumes "at_rep r ls" shows "unread r = ls"
proof -
  have n: "length ls \<le> 5" using assms by (simp add: at_rep_def)
  have "takeWhile (Ready r) (map (slot r) [0..<5]) = map (slot r) (takeWhile (\<lambda>k. k < length ls) [0..<5])"
    unfolding takeWhile_map using assms
    by (intro arg_cong [of _ _ "map (slot r)"] takeWhile_cong) (simp_all add: at_rep_def)
  also have "takeWhile (\<lambda>k. k < length ls) [0..<5] = [0..<length ls]"
    using n upt_add_eq_append [of 0 "length ls" "5 - length ls"]
    by (cases "length ls = 5") (simp_all add: takeWhile_tail takeWhile_append2 upt_conv_Cons del: upt_rec_numeral)
  finally show ?thesis
    using assms by (auto simp: unread_def at_rep_def intro!: nth_equalityI)
qed

lemma text_line: "line_ok l \<Longrightarrow> 0 \<notin> set l"
  by (erule line_okE) (auto simp: plain_def list_all_iff)

text \<open>What one line does to the ring, full or not.\<close>

lemma put_line_state:
  assumes "at_rep r ls" and "line_ok l"
  shows "\<exists>B S. put_line l r = r\<lparr>Buf := B, index := 0, Str := (Str r)(pWrite r := l @ 0 # S),
      Ready := (Ready r)(pWrite r := True), pWrite := (pWrite r + 1) mod 5\<rparr> \<and>
    length B = 100 \<and> length (l @ 0 # S) = 100 \<and> rx_bytes l r = Ok (1, put_line l r)"
proof -
  have "pWrite r < 5" "length (Buf r) = 100" "index r = 0" using assms(1) by (simp_all add: at_rep_def)
  moreover from this assms(1) have "Nxt r (pWrite r) = (pWrite r + 1) mod 5" "length (Str r (pWrite r)) = 100"
    by (simp_all add: at_rep_def)
  ultimately show ?thesis using rx_line [OF assms(2), of r] unfolding put_line_def by fastforce
qed

lemma put_line_rep:
  assumes i: "at_rep r ls" and l: "line_ok l" and n: "length ls < 5"
  shows "at_rep (put_line l r) (ls @ [l])"
proof -
  obtain B S where p: "put_line l r = r\<lparr>Buf := B, index := 0, Str := (Str r)(pWrite r := l @ 0 # S),
      Ready := (Ready r)(pWrite r := True), pWrite := (pWrite r + 1) mod 5\<rparr>" "length B = 100"
      "length (l @ 0 # S) = 100"
    using put_line_state [OF i l] by blast
  have w: "pWrite r = slot r (length ls)" and sl: "slot (put_line l r) = slot r"
    using i by (simp_all add: at_rep_def p(1) slot_def fun_eq_iff)
  have neq: "slot r k \<noteq> pWrite r" if "k < 5" "k \<noteq> length ls" for k
    using slot_distinct [OF i that(1) n] that(2) w by simp
  have "(pWrite r + 1) mod 5 = slot r (Suc (length ls))"
    by (simp add: w slot_def mod_Suc_eq)
  then show ?thesis
    using i n p(2,3) neq w text_line [OF l] unfolding at_rep_def sl
    by (auto simp: p(1) nth_append less_Suc_eq)
qed

lemma take_line_rep:
  assumes i: "at_rep r (l # ls)"
  shows "\<exists>v. DecodeCommand (l @ [0]) = Ok v \<and> take_line r = Ok (Some v, take1 r) \<and> at_rep (take1 r) ls"
proof -
  have z: "0 \<notin> set l" "Ready r (pRead r)" and s: "\<exists>z. Str r (pRead r) = l @ 0 # z"
    using i by (force simp: at_rep_def slot_def)+
  then obtain v where v: "DecodeCommand (Str r (pRead r)) = Ok v" "DecodeCommand (l @ [0]) = Ok v"
    using DecodeCommand_find [OF z(1)] by auto
  have t: "take_line r = Ok (Some v, r\<lparr>Ready := (Ready r)(pRead r := False), pRead := Nxt r (pRead r)\<rparr>)"
    using v(1) z(2) by (simp add: take_line_def)
  then have t1: "take_line r = Ok (Some v, take1 r)" by (simp add: take1_def)
  have r': "take1 r = r\<lparr>Ready := (Ready r)(pRead r := False), pRead := (pRead r + 1) mod 5\<rparr>"
    using i by (simp add: take1_def t at_rep_def)
  have sl: "slot (take1 r) k = slot r (Suc k)" for k
    by (simp add: r' slot_def slot_step [simplified])
  have neq: "slot r k \<noteq> pRead r" if "k < 5" "0 < k" for k
    using slot_distinct [OF i that(1), of 0] that(2) i by (simp add: slot_def at_rep_def)
  have "Ready (take1 r) (slot (take1 r) k) \<longleftrightarrow> k < length ls" if "k < 5" for k
  proof (cases "k = 4")
    case True
    then have "slot r (Suc k) = pRead r" using i by (simp add: slot_def at_rep_def)
    with True i show ?thesis by (simp add: sl) (simp add: r' at_rep_def)
  next
    case False
    with that neq [of "Suc k"] i show ?thesis by (simp add: sl) (simp add: r' at_rep_def)
  qed
  with i have "at_rep (take1 r) ls"
    unfolding at_rep_def sl by (auto simp: r')
  with t1 v(2) show ?thesis by blast
qed

lemma at_inv_rep: "at_inv r \<Longrightarrow> at_rep r (unread r)"
  using rep_unread by (auto simp: at_inv_def)

lemma rep_inv: "at_rep r ls \<Longrightarrow> at_inv r \<and> unread r = ls"
  using rep_unread by (auto simp: at_inv_def)

lemma take1_empty: "at_rep r [] \<Longrightarrow> take1 r = r"
  by (force simp: take1_def take_line_def at_rep_def slot_def)

interpretation atq: fifo at_inv line_ok unread 5 put_line take1
proof
  fix r l
  assume i: "at_inv r"
  note rep = at_inv_rep [OF i]
  show "length (unread r) \<le> 5" using rep by (simp add: at_rep_def)
  have "at_inv (take1 r) \<and> unread (take1 r) = tl (unread r)"
  proof (cases "unread r")
    case Nil
    with rep take1_empty [of r] i show ?thesis by simp
  next
    case (Cons x xs)
    with rep take_line_rep [of r x xs] rep_inv [of "take1 r" xs] show ?thesis by auto
  qed
  then show "at_inv (take1 r)" and "unread (take1 r) = tl (unread r)" by simp_all
  assume l: "line_ok l"
  show "unread (put_line l r) = unread r @ [l]" if "length (unread r) < 5"
    using rep_inv [OF put_line_rep [OF rep l that]] by simp
  show "at_inv (put_line l r)" if "length (unread r) < 5"
    using rep_inv [OF put_line_rep [OF rep l that]] by simp
qed

section \<open>Start-up of the ring\<close>

definition at_off :: "(nat \<Rightarrow> u8 list) \<Rightarrow> at_rx" where
  "at_off mem = \<lparr>Str = mem, Ready = (\<lambda>_. True), Nxt = (\<lambda>_. 0), pWrite = 0, pRead = 0,
    Buf = replicate 100 0, index = 0\<rparr>"

lemma ATcmdBuf_init_rep:
  assumes "\<forall>i. length (mem i) = 100"
  shows "\<exists>r. ATcmdBuf_init 5 (at_off mem) = Ok r \<and> at_rep r []"
proof -
  have "[0..<5] = [0, 1, 2, 3, 4 :: nat]" by (simp add: upt_rec)
  moreover have "(\<forall>i < 5 :: nat. P i) \<longleftrightarrow> P 0 \<and> P 1 \<and> P 2 \<and> P 3 \<and> P 4" for P
    by (auto simp: less_Suc_eq numeral_eq_Suc)
  ultimately show ?thesis
    using assms by (simp add: ATcmdBuf_init_def Let_def buf_node_def at_off_def at_rep_def slot_def)
qed

section \<open>The dialling thread\<close>

lemma c_str_text [simp]: "0 \<notin> set w \<Longrightarrow> c_str (w @ [0]) = Ok w"
  using c_text_line [of w "[]"] by (simp add: c_str_def c_text_def)

definition addr_file :: "u8 list \<Rightarrow> u8 list \<Rightarrow> u8 list" where
  "addr_file ip port = ip @ 58 # port @ [0]"

definition addr_ok :: "u8 list \<Rightarrow> u8 list \<Rightarrow> bool" where
  "addr_ok ip port \<longleftrightarrow> 0 \<notin> set ip \<and> 58 \<notin> set ip \<and> 0 \<notin> set port \<and> length ip \<le> 15 \<and> length port \<le> 5"

lemma readIP_addr:
  assumes "file name = Some (addr_file ip port)" and "addr_ok ip port"
  shows "readIPAddrFromfile file name = Ok (ip @ [0], port @ [0])"
proof -
  have "takeWhile (\<lambda>b. b \<noteq> 58) (addr_file ip port) = ip"
    using assms(2) unfolding addr_file_def addr_ok_def by (subst takeWhile_append2) auto
  moreover have "drop (Suc (length ip)) (addr_file ip port) = port @ [0]" by (simp add: addr_file_def)
  moreover have "length (addr_file ip port) = length ip + length port + 2" "take (length ip) (addr_file ip port) = ip"
    by (simp_all add: addr_file_def)
  ultimately show ?thesis
    using assms unfolding addr_ok_def by (simp add: readIPAddrFromfile_def Let_def)
qed

lemma TCP_Dial_addr:
  assumes "file (if IpSel s = 0 then ''/configure/ip1.dat'' else ''/configure/ip2.dat'') = Some (addr_file ip port)"
    and "addr_ok ip port"
  shows "TCP_Dial file s = Ok ([modem (ipopen ip port)], s\<lparr>state := 6\<rparr>)"
  using readIP_addr [of "file" "if IpSel s = 0 then ''/configure/ip1.dat'' else ''/configure/ip2.dat''" ip port] assms
  by (simp add: TCP_Dial_def addr_ok_def)

text \<open>What every step keeps: the states that occur, and the second address once selected.\<close>

definition th_inv :: "at_th \<Rightarrow> bool" where
  "th_inv s \<longleftrightarrow> state s \<noteq> 5 \<and> state s \<le> 9"

lemma TCP_Dial_state: "TCP_Dial file s = Ok (cs, s') \<Longrightarrow> s' = s\<lparr>state := 6\<rparr>"
  by (auto simp: TCP_Dial_def rbind_Ok_iff)

lemma at_step_inv:
  "at_step sms file v s = Ok (cs, s') \<Longrightarrow> th_inv s \<Longrightarrow> th_inv s' \<and> (IpSel s = 1 \<longrightarrow> IpSel s' = 1)"
  by (auto simp: at_step_def on_OK_def on_ERROR_def on_remote_close_def th_inv_def rbind_Ok_iff
      dest!: TCP_Dial_state split: if_splits)

lemma at_run_inv:
  "at_run sms file vs s = Ok (cs, s') \<Longrightarrow> th_inv s \<Longrightarrow> th_inv s' \<and> (IpSel s = 1 \<longrightarrow> IpSel s' = 1)"
proof (induction vs arbitrary: s cs)
  case Nil
  then show ?case by simp
next
  case (Cons v vs)
  then obtain c1 s1 c2 where "at_step sms file v s = Ok (c1, s1)" "at_run sms file vs s1 = Ok (c2, s')"
    by (auto simp: rbind_Ok_iff)
  with at_step_inv Cons.IH Cons.prems(2) show ?case by blast
qed

lemma at_run_waits:
  "state s = 4 \<Longrightarrow> \<forall>v \<in> set vs. v \<notin> {10, 21, 23} \<Longrightarrow> at_run sms file vs s = Ok ([], s)"
  by (induction vs) (auto simp: at_step_def on_OK_def on_ERROR_def)

section \<open>Properties\<close>

text \<open>
  C22. Each command decodes to its own number: a line that starts with entry \<open>i\<close> of the command
  list, followed by anything without a zero byte, is decoded as \<open>i\<close>.
\<close>

theorem at_decode_commands:
  assumes "i < 24" and "0 \<notin> set t"
  shows "DecodeCommand (AT_Command_list ! i @ t @ 0 # r) = Ok (of_nat i)"
proof -
  let ?w = "AT_Command_list ! i @ t"
  have "0 \<notin> set ?w"
    using list_no_zero assms by (auto simp: list_all_length)
  moreover have "find (\<lambda>k. comparable (AT_Command_list ! k) ?w) [0..<24] = Some i"
    using assms(1) comparable_extend list_comparable_eq [OF _ assms(1)]
    by (intro find_unique) (auto simp: comparable_def)
  ultimately show ?thesis
    using DecodeCommand_find [of ?w r] by (simp add: decoded_def)
qed

theorem at_decode_commands_witness:
  "DecodeCommand (AT_Command_list ! 23 @ [32, 49, 13, 10] @ [0]) = Ok 23"
  using at_decode_commands [of 23 "[32, 49, 13, 10]" "[]"] by simp

text \<open>
  C23. The line collector delivers lines intact and in order: after up to five complete lines
  with no line taken, the \<open>n\<close>-th line taken is the \<open>n\<close>-th line received.
\<close>

theorem at_lines_in_order:
  assumes "at_inv r" and "unread r = []" and "list_all line_ok ls" and "length ls \<le> 5" and "n < length ls"
  shows "hd (unread ((take1 ^^ n) (fold put_line ls r))) = ls ! n"
  using atq.puts_then_takes [OF assms] .

theorem at_lines_in_order_witness:
  "\<exists>r. hd (unread ((take1 ^^ 1) (fold put_line [[79, 75, 13, 10], [62, 13, 10]] r))) = [62, 13, 10]"
proof -
  obtain r where "at_rep r []" using ATcmdBuf_init_rep [of "\<lambda>_. replicate 100 0"] by auto
  then have "at_inv r" "unread r = []" using rep_inv by auto
  from at_lines_in_order [OF this, of "[[79, 75, 13, 10], [62, 13, 10]]" 1] show ?thesis
    by (auto simp: line_ok_def plain_def)
qed

text \<open>
  The ring has no overrun check: a sixth line arriving while five wait is stored over the
  oldest, so the next line taken is the newest, and the oldest is lost.
\<close>

lemma at_overrun_takes_newest:
  assumes "at_inv r" and "unread r = [l0, l1, l2, l3, l4]" and "line_ok l"
  shows "rx_bytes l r = Ok (1, put_line l r) \<and> unread (put_line l r) = [l, l1, l2, l3, l4]"
proof -
  note rep = at_inv_rep [OF assms(1), unfolded assms(2)]
  obtain B S where p: "put_line l r = r\<lparr>Buf := B, index := 0, Str := (Str r)(pWrite r := l @ 0 # S),
      Ready := (Ready r)(pWrite r := True), pWrite := (pWrite r + 1) mod 5\<rparr>"
      "rx_bytes l r = Ok (1, put_line l r)"
    using put_line_state [OF rep assms(3)] by blast
  have w: "pWrite r = slot r 0" using rep by (simp add: at_rep_def slot_def)
  have sl: "slot (put_line l r) = slot r" by (simp add: p(1) slot_def fun_eq_iff)
  have "\<forall>k < 5. Ready r (slot r k)" using rep by (simp add: at_rep_def)
  then have "takeWhile (Ready r) (map (slot r) [0..<5]) = map (slot r) [0..<5]"
    and "takeWhile (Ready (put_line l r)) (map (slot r) [0..<5]) = map (slot r) [0..<5]"
    by (auto simp: takeWhile_eq_all_conv p(1))
  moreover have "[0..<5] = 0 # [1..<5]" by (simp add: upt_rec)
  moreover have "map (\<lambda>k. c_text (Str (put_line l r) (slot r k))) [1..<5] = map (\<lambda>k. c_text (Str r (slot r k))) [1..<5]"
    using slot_distinct [OF rep, of _ 0] by (auto simp: p(1) w)
  ultimately have "unread (put_line l r) = l # tl (unread r)"
    using text_line [OF assms(3)] unfolding unread_def sl by (simp add: comp_def) (simp add: p(1) w)
  with p(2) assms(2) show ?thesis by simp
qed

lemma at_overrun_takes_newest_witness:
  "\<exists>r. unread r = replicate 5 [62, 13, 10] \<and> unread (put_line [79, 75, 13, 10] r) =
    [79, 75, 13, 10] # replicate 4 [62, 13, 10]"
proof -
  obtain r0 where "at_rep r0 []" using ATcmdBuf_init_rep [of "\<lambda>_. replicate 100 0"] by auto
  then have "at_inv r0" "unread r0 = []" using rep_inv by auto
  moreover have "line_ok [62, 13, 10]" by (simp add: line_ok_def plain_def)
  ultimately have "at_inv (fold put_line (replicate 5 [62, 13, 10]) r0)" (is "at_inv ?r")
    "unread (fold put_line (replicate 5 [62, 13, 10]) r0) = replicate 5 [62, 13, 10]"
    using atq.puts [of r0 "replicate 5 [62, 13, 10]"] by (auto simp: list_all_length)
  moreover from this have "unread ?r = [[62, 13, 10], [62, 13, 10], [62, 13, 10], [62, 13, 10], [62, 13, 10]]"
    by (simp add: numeral_eq_Suc)
  moreover have "line_ok [79, 75, 13, 10]" by (simp add: line_ok_def plain_def)
  ultimately have "unread (put_line [79, 75, 13, 10] ?r) = [79, 75, 13, 10] # replicate 4 [62, 13, 10]"
    using at_overrun_takes_newest [of ?r] by (simp add: numeral_eq_Suc)
  with \<open>unread ?r = replicate 5 [62, 13, 10]\<close> show ?thesis by blast
qed

text \<open>
  C7. The dialling sequence: from any state with the first address selected, the answers
  mode, OK, OK, OK, message sent, OK, OK, OK make the thread send, in this order, the set-up
  commands, the text message, the connection command with the address and port of the file and
  the transparent-mode commands, and then announce the network.
\<close>

theorem at_dial_sequence:
  assumes "IpSel s = 0" and "file ''/configure/ip1.dat'' = Some (addr_file ip port)" and "addr_ok ip port"
  shows "at_run sms file [10, 0, 0, 0, 23, 0, 0, 0] s =
    Ok ([modem ipinit, modem (bytes ''AT^IPINIT?'' @ crlf), modem (bytes ''AT^HSMSSS=0,0,6,0'' @ crlf),
         modem (bytes ''AT^HCMGS='' @ quoted (bytes ''15668061345'') @ crlf), Delay 10, modem sms, modem [0x00, 0x1A],
         Delay 10, modem (ipopen ip port), modem (bytes ''AT^IPDATMODE=1'' @ crlf),
         modem (bytes ''AT^IPENTRANS=1'' @ crlf),
         DevControl ''MC323A'' 1 [1, 0, 0, 0], EventSend ''GlobalEvent'' 1], s\<lparr>state := 9, net := True\<rparr>)"
  using TCP_Dial_addr [of "file" "s\<lparr>state := 4\<rparr>" ip port] assms by (simp add: at_step_def on_OK_def)

definition th0 :: at_th where
  "th0 = \<lparr>state = 0, IpSel = 0, net = False\<rparr>"

theorem at_dial_sequence_witness:
  "\<exists>cs. at_run [] (\<lambda>_. Some (addr_file [49, 46, 49] [56, 48])) [10, 0, 0, 0, 23, 0, 0, 0] th0 =
    Ok (cs, th0\<lparr>state := 9, net := True\<rparr>) \<and> modem (ipopen [49, 46, 49] [56, 48]) \<in> set cs"
  using at_dial_sequence [of th0 "\<lambda>_. Some (addr_file [49, 46, 49] [56, 48])" "[49, 46, 49]" "[56, 48]" "[]"]
  by (simp add: th0_def addr_ok_def)

text \<open>
  State 5 is never reached (the assignment meant to enter it is a comparison): starting
  from any other state it does not occur, and in state 4 no sequence of answers without a mode
  report, a closed connection or a message report has any effect, however many OKs it holds.
\<close>

lemma at_state5_unreachable:
  assumes "th_inv s" and "at_run sms file vs s = Ok (cs, s')"
  shows "state s' \<noteq> 5 \<and>
    (state s' = 4 \<longrightarrow> (\<forall>ws. set ws \<inter> {10, 21, 23} = {} \<longrightarrow> at_run sms file ws s' = Ok ([], s')))"
  using at_run_inv [OF assms(2,1)] at_run_waits [of s'] by (auto simp: th_inv_def)

lemma at_state5_unreachable_witness:
  "\<exists>cs s'. at_run [] (\<lambda>_. None) [10, 0, 0, 0, 0] th0 = Ok (cs, s') \<and> state s' = 4 \<and>
    at_run [] (\<lambda>_. None) [0, 0, 2] s' = Ok ([], s')"
proof -
  obtain cs where r: "at_run [] (\<lambda>_. None) [10, 0, 0, 0, 0] th0 = Ok (cs, th0\<lparr>state := 4\<rparr>)"
    by (auto simp: at_step_def on_OK_def th0_def)
  have "th_inv th0" by (simp add: th_inv_def th0_def)
  from at_state5_unreachable [OF this r] have "at_run [] (\<lambda>_. None) [0, 0, 2] (th0\<lparr>state := 4\<rparr>) = Ok ([], th0\<lparr>state := 4\<rparr>)"
    by (simp del: at_run.simps)
  with r show ?thesis by (intro exI [of _ cs] exI [of _ "th0\<lparr>state := 4\<rparr>"]) simp
qed

text \<open>
  A remote close that arrives while the network is not announced stops the thread for
  good: it waits for the event that only it would send. After an announced connection it
  withdraws the event, tells the driver and resets the modem.
\<close>

lemma at_remote_close:
  "at_step sms file 21 s =
    (if net s then
       Ok ([EventClear ''GlobalEvent'' 1, DevControl ''MC323A'' 1 [0, 0, 0, 0], modem (bytes ''AT^RESET'' @ crlf)],
         s\<lparr>net := False, state := 0\<rparr>)
     else Halt) \<and>
   rbind (at_step sms file 21 s) (\<lambda>(cs, s1). at_step sms file 21 s1) = Halt"
  by (simp add: at_step_def on_remote_close_def)

end
