(* ===== verification/Screens.thy ===== *)
theory Screens
  imports Base
begin

text \<open>
  The advertising screen and the driver's display, \<open>MySouce/PCP/AdscreenAPP.c\<close> and
  \<open>LCDAPP.c\<close>: the byte receiver that cuts frames between \<open>0x7E\<close> marks (the same routine in
  both files), the threads that pass texts to the peripherals, and the text buffers other
  threads fill. Packing and unpacking of peripheral packets is in files outside the sources
  (\<open>PCP.h\<close> only declares it); an unpacked packet is an input.
\<close>

section \<open>Receiving frames\<close>

abbreviation mark :: u8 where "mark \<equiv> 0x7E"

text \<open>
  \<open>SaveBuf\<close> is the driver's buffer; a store past its end is a fault. (The counter is 16 bits
  wide; no buffer is that long.)
\<close>

record framer =
  couter :: nat
  SaveBuf :: "u8 list"

definition frame_byte :: "u8 \<Rightarrow> framer \<Rightarrow> (nat option \<times> framer) res" where
  "frame_byte b f =
    (if couter f \<ge> length (SaveBuf f) then Fault
     else
       (let f1 = f\<lparr>SaveBuf := (SaveBuf f)[couter f := b]\<rparr> in
        if couter f1 = 0 \<and> b \<noteq> mark then Ok (None, f1)
        else if couter f1 \<noteq> 0 \<and> b = mark then
          (if couter f1 = 1 then Ok (None, f1)
           else Ok (Some (couter f1 + 1), f1\<lparr>couter := 0\<rparr>))
        else Ok (None, f1\<lparr>couter := couter f1 + 1\<rparr>)))"

definition ADS_input :: "u8 \<Rightarrow> framer \<Rightarrow> (call list \<times> framer) res" where
  "ADS_input b f =
    rbind (frame_byte b f) (\<lambda>(r, f1).
      Ok (case r of None \<Rightarrow> [] | Some n \<Rightarrow> [MbSend ''ADS_MB'' (of_nat n)], f1))"

definition LCD_input :: "u8 \<Rightarrow> framer \<Rightarrow> (call list \<times> framer) res" where
  "LCD_input b f =
    rbind (frame_byte b f) (\<lambda>(r, f1).
      Ok (case r of None \<Rightarrow> [] | Some n \<Rightarrow> [EventSend ''LCD_Event'' 1], f1))"

text \<open>The frames in the buffer at the moments they are announced.\<close>

fun frames_of :: "u8 list \<Rightarrow> framer \<Rightarrow> (u8 list list \<times> framer) res" where
  "frames_of [] f = Ok ([], f)"
| "frames_of (b # bs) f =
    rbind (frame_byte b f) (\<lambda>(r, f1). rbind (frames_of bs f1) (\<lambda>(fs, f2).
      Ok ((case r of None \<Rightarrow> fs | Some n \<Rightarrow> take n (SaveBuf f1) # fs), f2)))"

section \<open>The screens' packets and the heap\<close>

record pcp =
  Version :: u16
  Company :: u16
  Type :: u8
  CMD :: u8
  userData :: "u8 list"
  sz :: nat

definition dPCPuserDataSize :: nat where "dPCPuserDataSize = 255"

text \<open>What a device gets with a control request: the command byte and the user data.\<close>

definition pcp_bytes :: "pcp \<Rightarrow> u8 list" where
  "pcp_bytes p = CMD p # take (sz p) (userData p)"

text \<open>\<open>memcpy\<close> into the user data; the blocks of the heap are \<open>None\<close> once freed.\<close>

definition set_data :: "u8 list \<Rightarrow> nat \<Rightarrow> pcp \<Rightarrow> pcp" where
  "set_data t n p = p\<lparr>userData := take n t @ drop n (userData p), sz := n\<rparr>"

section \<open>The advertising screen\<close>

record ads =
  state :: nat
  pPCP :: pcp
  pADText :: "nat option"
  ADTextLen :: nat
  heap :: "nat \<Rightarrow> u8 list option"

text \<open>
  One pass of the thread's loop. \<open>mail\<close> says whether a mail arrives within five seconds of the
  request; \<open>ack\<close> is the result of the second control request (success, and the packet then).
  In state 4 the pass starts when a mail has arrived.
\<close>

definition ads_request :: "u8 \<Rightarrow> ads \<Rightarrow> call list \<times> ads" where
  "ads_request c s =
    (let s1 = s\<lparr>pPCP := (pPCP s)\<lparr>CMD := c, sz := 0\<rparr>\<rparr> in ([DevControl ''ADS'' 1 (pcp_bytes (pPCP s1))], s1))"

definition ads_text :: "ads \<Rightarrow> (call list \<times> ads) res" where
  "ads_text s =
    (case pADText s of
       None \<Rightarrow> Ok ([], s\<lparr>pPCP := (pPCP s)\<lparr>CMD := 0x40\<rparr>\<rparr>)
     | Some a \<Rightarrow>
         (case heap s a of
            None \<Rightarrow> Fault
          | Some t \<Rightarrow>
              (let s1 = s\<lparr>pPCP := set_data t (ADTextLen s) ((pPCP s)\<lparr>CMD := 0x40\<rparr>)\<rparr>;
                   s2 = s1\<lparr>heap := (heap s1)(a := None), ADTextLen := 0\<rparr>
               in Ok ([DevControl ''ADS'' 1 (pcp_bytes (pPCP s2))], s2))))"

definition ads_pass :: "bool \<Rightarrow> bool \<times> pcp \<Rightarrow> ads \<Rightarrow> (call list \<times> ads) res" where
  "ads_pass mail ack s =
    (if state s = 1 then
       (case ads_request 4 (s\<lparr>pPCP := (pPCP s)\<lparr>Version := 0, Company := 0, Type := 1\<rparr>\<rparr>) of (cs, s1) \<Rightarrow>
         Ok (if \<not> mail then (cs, s1)
             else (let s2 = s1\<lparr>pPCP := snd ack\<rparr> in
               (cs @ [DevControl ''ADS'' 2 []], if fst ack then s2\<lparr>state := 2\<rparr> else s2))))
     else if state s = 2 then
       (case ads_request 1 s of (cs, s1) \<Rightarrow>
         Ok (if \<not> mail then (cs, s1)
             else (let s2 = s1\<lparr>pPCP := snd ack\<rparr> in
               (cs @ [DevControl ''ADS'' 2 []],
                if fst ack \<and> CMD (pPCP s2) = 1 then s2\<lparr>state := 3\<rparr> else s2))))
     else if state s = 3 then Ok ([], s\<lparr>state := 4\<rparr>)
     else if state s = 4 then
       rbind (ads_text s) (\<lambda>(cs, s1).
         Ok (if pADText s = None \<or> \<not> mail then (cs, s1)
             else (cs @ [DevControl ''ADS'' 2 []], s1\<lparr>pPCP := snd ack\<rparr>)))
     else Ok ([], s))"

text \<open>\<open>a\<close> is the block \<open>rt_malloc\<close> returns.\<close>

definition AD_Get_text :: "nat option \<Rightarrow> u8 list \<Rightarrow> ads \<Rightarrow> (call list \<times> ads) res" where
  "AD_Get_text a t s =
    (if \<not> length t < dPCPuserDataSize then Halt
     else (case a of
        None \<Rightarrow> Halt
      | Some b \<Rightarrow> Ok ([MbSend ''ADS_MB'' 0],
          s\<lparr>heap := (heap s)(b := Some t), pADText := Some b, ADTextLen := length t\<rparr>)))"

section \<open>The driver's display\<close>

definition Driver1 :: "u8 list" where
  "Driver1 = [187, 182, 211, 173, 214, 220, 208, 199, 179, 219, 203, 190, 187, 250, 163, 172,
    196, 250, 181, 196, 177, 224, 186, 197, 202, 199, 163, 186, 49, 48, 48, 50]"

definition Driver2 :: "u8 list" where
  "Driver2 = [187, 182, 211, 173, 197, 183, 186, 163, 203, 190, 187, 250, 163, 172,
    196, 250, 181, 196, 177, 224, 186, 197, 202, 199, 163, 186, 49, 48, 48, 56]"

text \<open>\<open>ev\<close> holds the flags of \<open>LCD_Event\<close>.\<close>

record lcd =
  lPCP :: pcp
  pText :: "nat option"
  TextLen :: nat
  lheap :: "nat \<Rightarrow> u8 list option"
  ev :: u32

definition lcd_greeting :: "u8 list" where
  "lcd_greeting = bytes ''0123456789AbCd'' @ [194, 179, 182, 171, 180, 243, 209, 167]"

definition lcd_start :: "lcd \<Rightarrow> call list \<times> lcd" where
  "lcd_start s =
    (let p = set_data lcd_greeting 22 ((lPCP s)\<lparr>CMD := 7, Company := 0x1234, Type := 0x56, Version := 0x78\<rparr>)
     in ([DevControl ''LCD'' 1 (pcp_bytes p)], s\<lparr>lPCP := p\<rparr>))"

definition lcd_show :: "u8 list \<Rightarrow> lcd \<Rightarrow> call list \<times> lcd" where
  "lcd_show t s =
    (let p = set_data t (length t) (lPCP s) in ([DevControl ''LCD'' 1 (pcp_bytes p)], s\<lparr>lPCP := p\<rparr>))"

text \<open>One pass: \<open>rt_event_recv\<close> has returned the flags that were set and cleared them.\<close>

definition lcd_pass :: "lcd \<Rightarrow> (call list \<times> lcd) res" where
  "lcd_pass s0 =
    (let v = and (ev s0) 0xF; s = s0\<lparr>ev := and (ev s0) (not 0xF)\<rparr> in
     if bit v 0 then Ok ([], s)
     else if bit v 1 then
       (case pText s of
          None \<Rightarrow> Ok ([], s)
        | Some a \<Rightarrow>
            (case lheap s a of
               None \<Rightarrow> Fault
             | Some t \<Rightarrow>
                 (case lcd_show (take (TextLen s) t) s of (cs, s1) \<Rightarrow>
                   Ok (cs, s1\<lparr>lheap := (lheap s1)(a := None), TextLen := 0\<rparr>))))
     else if bit v 2 then Ok (lcd_show Driver1 s)
     else if bit v 3 then Ok (lcd_show Driver2 s)
     else Ok ([], s))"

definition lcd_event :: "u32 \<Rightarrow> lcd \<Rightarrow> lcd" where
  "lcd_event m s = s\<lparr>ev := or (ev s) m\<rparr>"

definition LCD_Get_text :: "nat option \<Rightarrow> u8 list \<Rightarrow> lcd \<Rightarrow> lcd res" where
  "LCD_Get_text a t s =
    (if \<not> length t < dPCPuserDataSize then Halt
     else (case a of
        None \<Rightarrow> Halt
      | Some b \<Rightarrow> Ok (lcd_event 2
          (s\<lparr>lheap := (lheap s)(b := Some t), pText := Some b, TextLen := length t\<rparr>))))"

section \<open>The reference decoder\<close>

text \<open>
  Everything up to a mark is skipped, further marks are skipped, the bytes up to the next mark
  are a frame, and the search starts again behind it.
\<close>

function deframe :: "u8 list \<Rightarrow> u8 list list" where
  "deframe bs =
    (case dropWhile (\<lambda>b. b \<noteq> mark) bs of
       [] \<Rightarrow> []
     | _ # r \<Rightarrow>
         (let r1 = dropWhile (\<lambda>b. b = mark) r in
          (case dropWhile (\<lambda>b. b \<noteq> mark) r1 of
             [] \<Rightarrow> []
           | _ # rest \<Rightarrow> takeWhile (\<lambda>b. b \<noteq> mark) r1 # deframe rest)))"
  by pat_completeness auto
termination
proof (relation "measure length", goal_cases)
  case 1
  show ?case by simp
next
  case (2 bs b r r1 c rest)
  have "length (b # r) \<le> length bs" by (metis 2(1) length_dropWhile_le)
  moreover have "length (c # rest) \<le> length r1" by (metis 2(3) length_dropWhile_le)
  moreover have "length r1 \<le> length r" by (simp add: 2(2) length_dropWhile_le)
  ultimately show ?case by simp
qed

declare deframe.simps [simp del]

definition deframe_in :: "u8 list \<Rightarrow> u8 list \<Rightarrow> u8 list list" where
  "deframe_in w bs =
    (let r1 = (if w = [] then dropWhile (\<lambda>b. b = mark) bs else bs) in
     (case dropWhile (\<lambda>b. b \<noteq> mark) r1 of
        [] \<Rightarrow> []
      | _ # rest \<Rightarrow> (w @ takeWhile (\<lambda>b. b \<noteq> mark) r1) # deframe rest))"

lemma deframe_simps:
  "deframe [] = []"
  "deframe (b # bs) = (if b = mark then deframe_in [] bs else deframe bs)"
  by (simp_all add: deframe.simps [of "[]"] deframe.simps [of "b # bs"] deframe_in_def Let_def
      cong: list.case_cong)
    (simp add: deframe.simps [of bs] Let_def cong: list.case_cong)

lemma deframe_in_simps:
  "deframe_in w [] = []"
  "deframe_in w (b # bs) =
    (if b = mark then (if w = [] then deframe_in [] bs else w # deframe bs) else deframe_in (w @ [b]) bs)"
  by (simp_all add: deframe_in_def Let_def cong: list.case_cong)

text \<open>\<open>n\<close> bytes are enough for every run of bytes between two marks, with both marks.\<close>

fun runs_fit :: "nat \<Rightarrow> nat \<Rightarrow> u8 list \<Rightarrow> bool" where
  "runs_fit n k [] \<longleftrightarrow> k + 1 < n"
| "runs_fit n k (b # bs) \<longleftrightarrow> k + 1 < n \<and> runs_fit n (if b = mark then 0 else k + 1) bs"

definition framed :: "u8 list \<Rightarrow> u8 list" where
  "framed w = mark # w @ [mark]"

lemma runs_fit_mono: "runs_fit n k bs \<Longrightarrow> j \<le> k \<Longrightarrow> runs_fit n j bs"
  by (induction bs arbitrary: j k) auto

lemma runs_fit_pos: "runs_fit n k bs \<Longrightarrow> k + 1 < n"
  by (cases bs) auto

lemma frames_deframe:
  shows "couter f = 0 \<Longrightarrow> runs_fit (length (SaveBuf f)) 0 bs \<Longrightarrow>
      \<exists>f'. frames_of bs f = Ok (map framed (deframe bs), f')"
    and "couter f = Suc (length w) \<Longrightarrow> take (Suc (length w)) (SaveBuf f) = mark # w \<Longrightarrow> mark \<notin> set w \<Longrightarrow>
      runs_fit (length (SaveBuf f)) (length w) bs \<Longrightarrow>
      \<exists>f'. frames_of bs f = Ok (map framed (deframe_in w bs), f')"
proof (induction bs arbitrary: f w)
  case Nil
  {
    case 1
    then show ?case by (simp add: deframe_simps)
  next
    case 2
    then show ?case by (simp add: deframe_in_simps)
  }
next
  case (Cons b bs)
  {
    case 1
    let ?f = "f\<lparr>SaveBuf := (SaveBuf f)[0 := b]\<rparr>"
    have n: "0 < length (SaveBuf f)" using runs_fit_pos [OF 1(2)] by linarith
    show ?case
    proof (cases "b = mark")
      case True
      have "take (Suc 0) ((SaveBuf f)[0 := mark]) = [mark]" using n by (cases "SaveBuf f") auto
      with Cons.IH(2) [of "?f\<lparr>couter := 1\<rparr>" "[]"] 1 n True show ?thesis
        by (auto simp: frame_byte_def Let_def deframe_simps)
    next
      case False
      with Cons.IH(1) [of ?f] 1 n runs_fit_mono show ?thesis
        by (auto simp: frame_byte_def Let_def deframe_simps)
    qed
  next
    case 2
    let ?f = "f\<lparr>SaveBuf := (SaveBuf f)[Suc (length w) := b]\<rparr>"
    have n: "Suc (length w) < length (SaveBuf f)" using runs_fit_pos [OF 2(4)] by simp
    have t: "take (Suc (length w)) (SaveBuf ?f) = mark # w" using 2(2) by simp
    have t1: "take (Suc (Suc (length w))) (SaveBuf ?f) = mark # w @ [b]"
      using t n by (simp add: take_Suc_conv_app_nth)
    show ?case
    proof (cases "b = mark")
      case True
      show ?thesis
      proof (cases w)
        case Nil
        with Cons.IH(2) [of ?f "[]"] 2 n t True show ?thesis
          by (auto simp: frame_byte_def Let_def deframe_in_simps)
      next
        case (Cons x xs)
        then have "w \<noteq> []" by simp
        with \<open>b = mark\<close> Cons.IH(1) [of "?f\<lparr>couter := 0\<rparr>"] 2 n t1 show ?thesis
          by (auto simp: frame_byte_def Let_def deframe_in_simps framed_def)
      qed
    next
      case False
      with Cons.IH(2) [of "?f\<lparr>couter := Suc (Suc (length w))\<rparr>" "w @ [b]"] 2 n t1 show ?thesis
        by (auto simp: frame_byte_def Let_def deframe_in_simps)
    qed
  }
qed

fun input_run :: "(u8 \<Rightarrow> framer \<Rightarrow> (call list \<times> framer) res) \<Rightarrow> u8 list \<Rightarrow> framer \<Rightarrow> (call list \<times> framer) res" where
  "input_run h [] f = Ok ([], f)"
| "input_run h (b # bs) f =
    rbind (h b f) (\<lambda>(cs, f1). rbind (input_run h bs f1) (\<lambda>(ds, f2). Ok (cs @ ds, f2)))"

lemma frame_byte_size: "frame_byte b f = Ok (Some n, f1) \<Longrightarrow> length (take n (SaveBuf f1)) = n"
  by (auto simp: frame_byte_def Let_def split: if_splits)

lemma input_run_frames:
  "frames_of bs f = Ok (fs, f') \<Longrightarrow>
    input_run ADS_input bs f = Ok (map (\<lambda>w. MbSend ''ADS_MB'' (of_nat (length w))) fs, f') \<and>
    input_run LCD_input bs f = Ok (map (\<lambda>w. EventSend ''LCD_Event'' 1) fs, f')"
proof (induction bs arbitrary: f fs)
  case Nil
  then show ?case by simp
next
  case (Cons b bs)
  then obtain r f1 fs1 where r: "frame_byte b f = Ok (r, f1)" "frames_of bs f1 = Ok (fs1, f')"
    "fs = (case r of None \<Rightarrow> fs1 | Some n \<Rightarrow> take n (SaveBuf f1) # fs1)"
    by (auto simp: rbind_Ok_iff)
  with Cons.IH [OF r(2)] frame_byte_size [of b f _ f1] show ?case
    by (cases r) (auto simp: ADS_input_def LCD_input_def)
qed

section \<open>Properties\<close>

text \<open>
  C36. The byte receivers implement the reference decoder: over a stream whose runs fit the
  buffer, the frames announced are exactly those of the decoder, with both marks, each found
  in the buffer when it is announced; the advertising screen's mails carry their sizes, the
  display's receiver sends one event per frame.
\<close>

theorem screen_input_deframes:
  assumes "couter f = 0" and "runs_fit (length (SaveBuf f)) 0 bs"
  shows "\<exists>f'. frames_of bs f = Ok (map framed (deframe bs), f') \<and>
    input_run ADS_input bs f = Ok (map (\<lambda>w. MbSend ''ADS_MB'' (of_nat (length w + 2))) (deframe bs), f') \<and>
    input_run LCD_input bs f = Ok (map (\<lambda>w. EventSend ''LCD_Event'' 1) (deframe bs), f')"
proof -
  obtain f' where f: "frames_of bs f = Ok (map framed (deframe bs), f')"
    using frames_deframe(1) [OF assms] by blast
  from input_run_frames [OF f] f show ?thesis
    by (auto simp: comp_def framed_def)
qed

theorem screen_input_deframes_witness:
  "\<exists>f'. frames_of [9, 0x7E, 0x7E, 1, 2, 0x7E, 3, 0x7E, 4, 0x7E] \<lparr>couter = 0, SaveBuf = replicate 5 0\<rparr> =
    Ok ([[0x7E, 1, 2, 0x7E], [0x7E, 4, 0x7E]], f')"
proof -
  have "deframe [9, 0x7E, 0x7E, 1, 2, 0x7E, 3, 0x7E, 4, 0x7E] = [[1, 2], [4]]"
    by (simp add: deframe_simps deframe_in_simps)
  with screen_input_deframes [of "\<lparr>couter = 0, SaveBuf = replicate 5 0\<rparr>" "[9, 0x7E, 0x7E, 1, 2, 0x7E, 3, 0x7E, 4, 0x7E]"]
  show ?thesis by (auto simp: framed_def)
qed

text \<open>
  A text handed to the advertising screen is sent once and its block freed, but the pointer
  is kept: the next mail without a new text, for instance a frame the screen sends by itself,
  makes the thread free the block again.
\<close>

lemma ads_text_sent_then_freed_twice:
  assumes "state s = 4" and "length t < 255" and "heap s b = None" and "length (userData (pPCP s)) = 255"
  shows "\<exists>s1 s2. AD_Get_text (Some b) t s = Ok ([MbSend ''ADS_MB'' 0], s1) \<and>
    ads_pass False ack s1 = Ok ([DevControl ''ADS'' 1 (0x40 # t)], s2) \<and> heap s2 = heap s \<and>
    ads_pass mail ack' s2 = Fault"
  using assms
  by (simp add: AD_Get_text_def dPCPuserDataSize_def ads_pass_def ads_text_def set_data_def pcp_bytes_def Let_def
      fun_upd_idem)

definition ads0 :: ads where
  "ads0 = \<lparr>state = 4, pPCP = \<lparr>Version = 0, Company = 0, Type = 1, CMD = 1, userData = replicate 255 0, sz = 0\<rparr>,
    pADText = None, ADTextLen = 0, heap = (\<lambda>_. None)\<rparr>"

lemma ads_text_sent_then_freed_twice_witness:
  "\<exists>s1 s2. AD_Get_text (Some 7) [65, 66] ads0 = Ok ([MbSend ''ADS_MB'' 0], s1) \<and>
    ads_pass False (True, pPCP ads0) s1 = Ok ([DevControl ''ADS'' 1 [0x40, 65, 66]], s2) \<and>
    ads_pass True (True, pPCP ads0) s2 = Fault"
  using ads_text_sent_then_freed_twice [of ads0 "[65, 66]" 7 "(True, pPCP ads0)" True "(True, pPCP ads0)"]
  by (auto simp: ads0_def)

text \<open>
  An acknowledgement of the display that arrives together with a text hides it: the pass
  clears both flags and handles only the first, so the text is never shown and its block stays
  allocated; alone, the text is shown and freed.
\<close>

lemma lcd_ack_hides_text:
  assumes "ev s = 0" and "length t < 255" and "lheap s b = None" and "length (userData (lPCP s)) = 255"
  shows "\<exists>s1 s2 s3. LCD_Get_text (Some b) t s = Ok s1 \<and>
    lcd_pass s1 = Ok ([DevControl ''LCD'' 1 (CMD (lPCP s) # t)], s2) \<and> lheap s2 b = None \<and>
    lcd_pass (lcd_event 1 s1) = Ok ([], s3) \<and> ev s3 = 0 \<and> lheap s3 b = Some t \<and> lcd_pass s3 = Ok ([], s3)"
  using assms
  by (simp add: LCD_Get_text_def dPCPuserDataSize_def lcd_pass_def lcd_event_def lcd_show_def set_data_def
      pcp_bytes_def Let_def)

definition lcd0 :: lcd where
  "lcd0 = \<lparr>lPCP = \<lparr>Version = 0, Company = 0, Type = 0, CMD = 7, userData = replicate 255 0, sz = 0\<rparr>,
    pText = None, TextLen = 0, lheap = (\<lambda>_. None), ev = 0\<rparr>"

lemma lcd_ack_hides_text_witness:
  "\<exists>s1 s3. LCD_Get_text (Some 3) [65] lcd0 = Ok s1 \<and> lcd_pass (lcd_event 1 s1) = Ok ([], s3) \<and>
    lheap s3 3 = Some [65]"
  using lcd_ack_hides_text [of lcd0 "[65]" 3] by (auto simp: lcd0_def)

end
