(* ===== verification/Camera.thy ===== *)
theory Camera
  imports Base "HOL-Library.Sublist"
begin

text \<open>
  The camera, \<open>MySouce/PCP/CameraAPP.c\<close>: the byte receiver that recognises the end of a packet
  and the thread that appends the packets' contents to a file and renames it when the picture
  is complete. The receiver is compared with a reference that looks at the whole packet.
\<close>

section \<open>Receiving packets\<close>

definition cameraBufSize :: nat where "cameraBufSize = 2048"

definition dPartOfdata :: u8 where "dPartOfdata = 2"
definition dEndChars :: u8 where "dEndChars = 3"
definition dNoneDatapart :: u8 where "dNoneDatapart = 4"

text \<open>\<open>pData\<close> is the offset of the write pointer in \<open>buf\<close>.\<close>

record cam =
  buf :: "u8 list"
  sz :: nat
  pData :: nat
  index :: nat
  checkSum8 :: u8
  endFlage :: bool

definition store :: "u8 \<Rightarrow> cam \<Rightarrow> cam" where
  "store b c = c\<lparr>buf := (buf c)[pData c := b], pData := pData c + 1\<rparr>"

definition packet_end :: "cam \<Rightarrow> cam" where
  "packet_end c = c\<lparr>endFlage := False, sz := index c, pData := 0, index := 0\<rparr>"

definition CameraData :: "u8 \<Rightarrow> cam \<Rightarrow> (u8 \<times> cam) res" where
  "CameraData b c0 =
    (let c = c0\<lparr>index := index c0 + 1\<rparr> in
     if index c > cameraBufSize + 11 then Halt
     else if pData c \<ge> length (buf c) then Fault
     else if b = 13 then Ok (0, (store b c)\<lparr>endFlage := True\<rparr>)
     else if b = 10 then
       (let c1 = store b c in
        if endFlage c1 then
          (if index c1 \<le> 9 then Ok (dNoneDatapart, (packet_end c1)\<lparr>checkSum8 := 0\<rparr>)
           else if index c1 = 0x400 + 11 then Ok (dPartOfdata, packet_end c1)
           else if buf c1 ! (pData c1 - 4) = 0xD9 then Ok (dEndChars, packet_end c1)
           else Ok (0, c1\<lparr>endFlage := False\<rparr>))
        else Ok (0, c1\<lparr>endFlage := False\<rparr>))
     else (let c1 = store b c in Ok (0, c1\<lparr>checkSum8 := checkSum8 c1 + b\<rparr>)))"

definition Camera_input :: "u8 \<Rightarrow> cam \<Rightarrow> (call list \<times> cam) res" where
  "Camera_input b c =
    rbind (CameraData b c) (\<lambda>(r, c1).
      Ok (if r \<noteq> 0 then [EventSend ''CamerEV'' (push_bit (unat r) 1)] else [], c1))"

fun input_run :: "u8 list \<Rightarrow> cam \<Rightarrow> (call list \<times> cam) res" where
  "input_run [] c = Ok ([], c)"
| "input_run (b # bs) c =
    rbind (Camera_input b c) (\<lambda>(cs, c1). rbind (input_run bs c1) (\<lambda>(ds, c2). Ok (cs @ ds, c2)))"

section \<open>The picture file\<close>

text \<open>
  \<open>pic\<close> is the content of \<open>/Picture/Camera1.jpg\<close>, \<open>pics\<close> the renamed files with the time that
  names them. What the calls answer is in \<open>answers\<close>: whether \<open>open\<close> succeeds, the bytes a \<open>write\<close> stores at
  most, the clock if the device exists, and whether \<open>rename\<close> succeeds.
\<close>

record app =
  cdev :: cam
  pic :: "u8 list"
  pics :: "(u32 \<times> u8 list) list"
  running :: bool

record answers =
  opened :: bool
  room :: nat
  now :: "u32 option"
  renamed :: bool

definition append_part :: "answers \<Rightarrow> app \<Rightarrow> (call list \<times> app) res" where
  "append_part w a =
    (if \<not> opened w then Ok ([DevClose ''Camera''], a\<lparr>running := False\<rparr>)
     else if sz (cdev a) < 11 then Fault
     else Ok ([DevControl ''Camera'' 4 []],
       a\<lparr>pic := pic a @ take (room w) (take (sz (cdev a) - 11) (drop 8 (buf (cdev a)))), cdev := (cdev a)\<lparr>sz := 0\<rparr>\<rparr>))"

definition finish_picture :: "answers \<Rightarrow> app \<Rightarrow> call list \<times> app" where
  "finish_picture w a =
    (let a1 = (case now w of None \<Rightarrow> a | Some t \<Rightarrow> if renamed w then a\<lparr>pics := pics a @ [(t, pic a)], pic := []\<rparr> else a)
     in ([Delay (RT_TICK_PER_SECOND * 60), DevControl ''Camera'' 3 []], a1\<lparr>cdev := (cdev a1)\<lparr>sz := 0\<rparr>\<rparr>))"

text \<open>One pass of the thread for the received flags \<open>v\<close>.\<close>

definition camera_pass :: "answers \<Rightarrow> u32 \<Rightarrow> app \<Rightarrow> (call list \<times> app) res" where
  "camera_pass w v a =
    rbind (if bit v 2 \<or> bit v 3 then append_part w a else Ok ([], a)) (\<lambda>(cs, a1).
      Ok (if running a1 \<and> bit v 4 then (case finish_picture w a1 of (ds, a2) \<Rightarrow> (cs @ ds, a2))
          else (cs, a1)))"

text \<open>A packet arrives and the thread handles its event before the next one: the calls of both.\<close>

definition packet_pass :: "answers \<Rightarrow> u8 list \<Rightarrow> app \<Rightarrow> (call list \<times> app) res" where
  "packet_pass w p a =
    rbind (input_run p (cdev a)) (\<lambda>(cs, c). let a1 = a\<lparr>cdev := c\<rparr> in
      (case cs of
         [EventSend _ v] \<Rightarrow> rbind (camera_pass w v a1) (\<lambda>(ds, a2). Ok (cs @ ds, a2))
       | _ \<Rightarrow> Ok (cs, a1)))"

fun packets_run :: "answers \<Rightarrow> u8 list list \<Rightarrow> app \<Rightarrow> (call list \<times> app) res" where
  "packets_run w [] a = Ok ([], a)"
| "packets_run w (p # ps) a = rbind (packet_pass w p a) (\<lambda>(cs, a). rbind (packets_run w ps a) (\<lambda>(ds, a). Ok (cs @ ds, a)))"

section \<open>The reference\<close>

text \<open>A carriage return has been seen since the last newline.\<close>

definition cr_seen :: "u8 list \<Rightarrow> bool" where
  "cr_seen w \<longleftrightarrow> 13 \<in> set (takeWhile (\<lambda>b. b \<noteq> 10) (rev w))"

definition verdict :: "u8 list \<Rightarrow> u8" where
  "verdict p =
    (if p \<noteq> [] \<and> last p = 10 \<and> cr_seen (butlast p) then
       (if length p \<le> 9 then dNoneDatapart
        else if length p = 1035 then dPartOfdata
        else if p ! (length p - 4) = 0xD9 then dEndChars
        else 0)
     else 0)"

text \<open>No proper prefix of \<open>p\<close> already ends a packet.\<close>

definition packet :: "u8 list \<Rightarrow> bool" where
  "packet p \<longleftrightarrow> length p \<le> cameraBufSize + 11 \<and> list_all (\<lambda>k. verdict (take k p) = 0) [0..<length p]"

definition fresh :: "cam \<Rightarrow> bool" where
  "fresh c \<longleftrightarrow> index c = 0 \<and> pData c = 0 \<and> \<not> endFlage c \<and> length (buf c) = cameraBufSize + 11"

text \<open>The state in the middle of a packet, with \<open>w\<close> received.\<close>

definition inside :: "u8 list \<Rightarrow> cam \<Rightarrow> bool" where
  "inside w c \<longleftrightarrow> index c = length w \<and> pData c = length w \<and> endFlage c = cr_seen w \<and>
    length (buf c) = cameraBufSize + 11 \<and> take (length w) (buf c) = w"

lemma cr_seen_snoc: "cr_seen (w @ [b]) = (b \<noteq> 10 \<and> (b = 13 \<or> cr_seen w))"
  by (auto simp: cr_seen_def)

lemma CameraData_step:
  assumes i: "inside w c" and l: "length w < cameraBufSize + 11"
  shows "\<exists>c'. CameraData b c = Ok (verdict (w @ [b]), c') \<and>
    (if verdict (w @ [b]) = 0 then inside (w @ [b]) c'
     else fresh c' \<and> sz c' = Suc (length w) \<and> take (Suc (length w)) (buf c') = w @ [b])"
proof -
  have n: "length w < length (buf c)" using assms by (simp add: inside_def)
  have t: "take (Suc (length w)) ((buf c)[length w := b]) = w @ [b]"
    using i n by (simp add: inside_def take_Suc_conv_app_nth)
  have d: "(buf c)[length w := b] ! (length w - 3) = (w @ [b]) ! (length w - 3)"
    using t by (metis diff_le_self le_imp_less_Suc nth_take)
  show ?thesis
    using i l n t d unfolding CameraData_def Let_def
    by (auto simp: inside_def fresh_def store_def packet_end_def verdict_def cr_seen_snoc
        dNoneDatapart_def dPartOfdata_def dEndChars_def cameraBufSize_def)
qed

lemma input_run_append:
  "input_run (xs @ ys) c =
    rbind (input_run xs c) (\<lambda>(cs, c1). rbind (input_run ys c1) (\<lambda>(ds, c2). Ok (cs @ ds, c2)))"
proof (induction xs arbitrary: c)
  case Nil
  show ?case by (cases "input_run ys c") auto
next
  case (Cons x xs)
  show ?case by (cases "Camera_input x c") (auto simp: rbind_def Cons split: res.split)
qed

lemma input_run_inside:
  assumes "fresh c" and "length p \<le> cameraBufSize + 11"
    and "list_all (\<lambda>k. verdict (take k p) = 0) [0..<Suc (length p)]"
  shows "\<exists>c'. input_run p c = Ok ([], c') \<and> inside p c'"
  using assms(2,3)
proof (induction p rule: rev_induct)
  case Nil
  with assms(1) show ?case by (auto simp: inside_def fresh_def cr_seen_def)
next
  case (snoc b p)
  then have "list_all (\<lambda>k. verdict (take k p) = 0) [0..<Suc (length p)]"
    by (auto simp: list_all_iff less_Suc_eq)
  with snoc obtain c1 where c1: "input_run p c = Ok ([], c1)" "inside p c1" by auto
  have "verdict (p @ [b]) = 0" using snoc.prems(2) by (simp add: list_all_iff)
  with CameraData_step [OF c1(2), of b] snoc.prems(1) c1(1) show ?case
    by (auto simp: input_run_append Camera_input_def)
qed

lemma input_run_packet:
  assumes "fresh c" and "packet p" and "verdict p \<noteq> 0"
  shows "\<exists>c'. input_run p c = Ok ([EventSend ''CamerEV'' (push_bit (unat (verdict p)) 1)], c') \<and>
    fresh c' \<and> sz c' = length p \<and> take (length p) (buf c') = p"
proof -
  obtain w b where p: "p = w @ [b]" using assms(3) by (cases p rule: rev_cases) (auto simp: verdict_def)
  have w: "list_all (\<lambda>k. verdict (take k w) = 0) [0..<Suc (length w)]" "length w \<le> cameraBufSize + 11"
    using assms(2) by (auto simp: packet_def p list_all_iff less_Suc_eq)
  obtain c1 where c1: "input_run w c = Ok ([], c1)" "inside w c1"
    using input_run_inside [OF assms(1) w(2,1)] by blast
  with CameraData_step [OF c1(2), of b] assms(2,3) show ?thesis
    by (auto simp: p packet_def input_run_append Camera_input_def)
qed

definition payload :: "u8 list \<Rightarrow> u8 list" where
  "payload p = take (length p - 11) (drop 8 p)"

lemma verdict_cases: "verdict p \<in> {0, 2, 3, 4}"
  by (simp add: verdict_def dNoneDatapart_def dPartOfdata_def dEndChars_def)

text \<open>A packet that carries data.\<close>

definition data_packet :: "u8 list \<Rightarrow> bool" where
  "data_packet p \<longleftrightarrow> packet p \<and> 11 \<le> length p \<and> verdict p \<in> {dPartOfdata, dEndChars}"

text \<open>The calls a packet causes: its event, and the order for the next part, or the pause and the order for a new picture.\<close>

definition packet_calls :: "u8 list \<Rightarrow> call list" where
  "packet_calls p = EventSend ''CamerEV'' (push_bit (unat (verdict p)) 1) #
    (if verdict p = dNoneDatapart then [Delay (RT_TICK_PER_SECOND * 60), DevControl ''Camera'' 3 []] else [DevControl ''Camera'' 4 []])"

text \<open>Files can be opened and have room for the packets.\<close>

definition room_for :: "answers \<Rightarrow> u8 list list \<Rightarrow> bool" where
  "room_for w ps \<longleftrightarrow> opened w \<and> (\<forall>p \<in> set ps. length p \<le> room w + 11)"

lemma packet_pass_data:
  assumes "data_packet p" and "fresh (cdev a)" and "opened w" and "length p \<le> room w + 11"
  shows "\<exists>c. packet_pass w p a = Ok (packet_calls p, a\<lparr>cdev := c, pic := pic a @ payload p\<rparr>) \<and> fresh c"
proof -
  obtain c where c: "input_run p (cdev a) = Ok ([EventSend ''CamerEV'' (push_bit (unat (verdict p)) 1)], c)"
    "fresh c" "sz c = length p" "take (length p) (buf c) = p"
    using input_run_packet [OF assms(2), of p] assms(1)
    unfolding data_packet_def dPartOfdata_def dEndChars_def by fastforce
  have "take (length p - 11) (drop 8 (buf c)) = payload p"
  proof -
    have "take (length p - 11) (drop 8 (take (length p) (buf c))) = take (length p - 11) (drop 8 (buf c))"
      using assms(1) by (simp add: drop_take min_def data_packet_def)
    with c(4) show ?thesis by (simp add: payload_def)
  qed
  moreover have "take (room w) (payload p) = payload p" using assms(4) by (simp add: payload_def)
  ultimately show ?thesis
    using c assms(1,3)
    by (intro exI [of _ "c\<lparr>sz := 0\<rparr>"]) (auto simp: packet_pass_def camera_pass_def append_part_def packet_calls_def data_packet_def
        dPartOfdata_def dEndChars_def dNoneDatapart_def fresh_def bit_simps)
qed

lemma packets_run_data:
  "list_all data_packet ps \<Longrightarrow> fresh (cdev a) \<Longrightarrow> room_for w ps \<Longrightarrow>
    \<exists>c. packets_run w ps a = Ok (concat (map packet_calls ps), a\<lparr>cdev := c, pic := pic a @ concat (map payload ps)\<rparr>) \<and> fresh c"
proof (induction ps arbitrary: a)
  case Nil
  then show ?case by (intro exI [of _ "cdev a"]) simp
next
  case (Cons p ps)
  then obtain c where c: "packet_pass w p a = Ok (packet_calls p, a\<lparr>cdev := c, pic := pic a @ payload p\<rparr>)" "fresh c"
    using packet_pass_data [of p a w] by (auto simp: room_for_def)
  with Cons.IH [of "a\<lparr>cdev := c, pic := pic a @ payload p\<rparr>"] Cons.prems show ?case by (auto simp: room_for_def)
qed

lemma packets_run_append: "packets_run w (ps @ qs) a =
    rbind (packets_run w ps a) (\<lambda>(cs, a). rbind (packets_run w qs a) (\<lambda>(ds, a). Ok (cs @ ds, a)))"
proof (induction ps arbitrary: a)
  case Nil
  show ?case by (cases "packets_run w qs a") auto
next
  case (Cons p ps)
  then show ?case by (cases "packet_pass w p a") (auto simp: rbind_def split: res.split)
qed

lemma packet_pass_none:
  assumes "packet p" and "verdict p = dNoneDatapart" and "fresh (cdev a)" and "running a" and "now w = Some t"
  shows "\<exists>c. packet_pass w p a = Ok (packet_calls p,
    if renamed w then a\<lparr>cdev := c, pic := [], pics := pics a @ [(t, pic a)]\<rparr> else a\<lparr>cdev := c\<rparr>) \<and> fresh c"
proof -
  obtain c where "input_run p (cdev a) = Ok ([EventSend ''CamerEV'' (push_bit (unat (verdict p)) 1)], c)" "fresh c"
    using input_run_packet [OF assms(3,1)] assms(2) by (auto simp: dNoneDatapart_def)
  then show ?thesis
    using assms(2,4,5)
    by (intro exI [of _ "c\<lparr>sz := 0\<rparr>"]) (auto simp: packet_pass_def camera_pass_def finish_picture_def packet_calls_def dNoneDatapart_def fresh_def bit_simps)
qed

lemma packets_run_picture:
  assumes "list_all data_packet ps" and "packet q" and "verdict q = dNoneDatapart"
    and "fresh (cdev a)" and "running a" and "room_for w ps" and "now w = Some t"
  shows "\<exists>c. packets_run w (ps @ [q]) a = Ok (concat (map packet_calls (ps @ [q])),
    if renamed w then a\<lparr>cdev := c, pic := [], pics := pics a @ [(t, pic a @ concat (map payload ps))]\<rparr>
    else a\<lparr>cdev := c, pic := pic a @ concat (map payload ps)\<rparr>) \<and> fresh c"
proof -
  obtain c where c: "packets_run w ps a = Ok (concat (map packet_calls ps), a\<lparr>cdev := c, pic := pic a @ concat (map payload ps)\<rparr>)" "fresh c"
    using packets_run_data [OF assms(1,4,6)] by blast
  let ?b = "a\<lparr>cdev := c, pic := pic a @ concat (map payload ps)\<rparr>"
  have "fresh (cdev ?b)" "running ?b" using c(2) assms(5) by simp_all
  then obtain c' where c': "packet_pass w q ?b = Ok (packet_calls q,
    if renamed w then ?b\<lparr>cdev := c', pic := [], pics := pics ?b @ [(t, pic ?b)]\<rparr> else ?b\<lparr>cdev := c'\<rparr>)" "fresh c'"
    using packet_pass_none [OF assms(2,3) _ _ assms(7)] by blast
  show ?thesis using c(1) c' by (intro exI [of _ c']) (simp add: packets_run_append)
qed

section \<open>Properties\<close>

text \<open>
  The receiver decides on a packet exactly as the reference does on the whole of it: fed with
  the bytes of a packet that no proper prefix ends, it stays silent until the last byte and
  then announces the reference's verdict, with the packet in the buffer, its size recorded and
  the receiver ready for the next one.
\<close>

lemma camera_packet_verdict:
  assumes "fresh c" and "packet p" and "verdict p \<noteq> 0"
  shows "\<exists>c'. input_run p c = Ok ([EventSend ''CamerEV'' (push_bit (unat (verdict p)) 1)], c') \<and>
    fresh c' \<and> sz c' = length p \<and> take (length p) (buf c') = p"
  using input_run_packet [OF assms] .

definition cam0 :: cam where
  "cam0 = \<lparr>buf = replicate 2059 0, sz = 0, pData = 0, index = 0, checkSum8 = 0, endFlage = False\<rparr>"

lemma fresh_cam0: "fresh cam0"
  by (simp add: fresh_def cam0_def cameraBufSize_def)

definition end_packet :: "u8 list" where
  "end_packet = [1, 2, 3, 4, 5, 6, 7, 8, 65, 66, 0xD9, 9, 13, 10]"

lemma end_packet_ok: "data_packet end_packet" "verdict end_packet = dEndChars" "payload end_packet = [65, 66, 0xD9]"
  by code_simp+

lemma camera_packet_verdict_witness:
  "\<exists>c'. input_run end_packet cam0 = Ok ([EventSend ''CamerEV'' 8], c') \<and> sz c' = 14"
  using camera_packet_verdict [OF fresh_cam0, of end_packet] end_packet_ok
  by (auto simp: data_packet_def dEndChars_def end_packet_def)

text \<open>
  C34. A picture is put together without loss: when data packets arrive, each handled before the
  next, and then an empty packet, the receiver announces every packet and the thread orders the next part
  behind each one with data, and behind the empty one waits a minute and orders a new picture. If the
  files can be opened, have room and the final one can be renamed, the file named with the time holds the
  old contents followed by the payloads in order, and a new file is begun; if it cannot be renamed, the
  payloads stay in the file the next picture is appended to.
\<close>

theorem camera_picture_assembled:
  assumes "list_all data_packet ps" and "packet q" and "verdict q = dNoneDatapart"
    and "fresh (cdev a)" and "running a" and "room_for w ps" and "now w = Some t"
  shows "\<exists>c. packets_run w (ps @ [q]) a = Ok (concat (map packet_calls (ps @ [q])),
    if renamed w then a\<lparr>cdev := c, pic := [], pics := pics a @ [(t, pic a @ concat (map payload ps))]\<rparr>
    else a\<lparr>cdev := c, pic := pic a @ concat (map payload ps)\<rparr>) \<and> fresh c"
  by (rule packets_run_picture [OF assms])

definition answers0 :: "u32 \<Rightarrow> answers" where
  "answers0 t = \<lparr>opened = True, room = 1024, now = Some t, renamed = True\<rparr>"

lemma end_packet_room: "room_for (answers0 t) [end_packet]"
  by (simp add: room_for_def answers0_def end_packet_def)

theorem camera_picture_assembled_witness:
  "\<exists>a. packets_run (answers0 5) [end_packet, [0, 13, 10]] \<lparr>cdev = cam0, pic = [1], pics = [], running = True\<rparr> =
      Ok ([EventSend ''CamerEV'' 8, DevControl ''Camera'' 4 [], EventSend ''CamerEV'' 16, Delay 6000, DevControl ''Camera'' 3 []], a) \<and>
    pics a = [(5, [1, 65, 66, 0xD9])]"
proof -
  have e: "packet [0, 13, 10]" "verdict [0, 13, 10] = dNoneDatapart" by code_simp+
  have "packet_calls end_packet = [EventSend ''CamerEV'' 8, DevControl ''Camera'' 4 []]"
    "packet_calls [0, 13, 10] = [EventSend ''CamerEV'' 16, Delay 6000, DevControl ''Camera'' 3 []]"
    using end_packet_ok(2) e(2) by (simp_all add: packet_calls_def dEndChars_def dNoneDatapart_def)
  with camera_picture_assembled [of "[end_packet]" "[0, 13, 10]" "\<lparr>cdev = cam0, pic = [1], pics = [], running = True\<rparr>" "answers0 5" 5]
    e fresh_cam0 end_packet_ok end_packet_room [of 5]
  show ?thesis by (auto simp: answers0_def)
qed

end
