(* ===== verification/Gps.thy ===== *)
theory Gps
  imports Base
begin

text \<open>
  The satellite receiver, \<open>MySouce/PCP/GPSAPP.c\<close>: the byte receiver that collects sentences,
  \<open>Unpack_GPRMC\<close> that takes a position sentence apart field by field, and the thread that
  reports every tenth one. \<open>sscanf\<close> is modelled for \<open>%x\<close> and \<open>%d\<close>; its conversion of the
  speed to floating point and the scaling are a parameter.
\<close>

section \<open>Number conversion\<close>

definition is_space :: "u8 \<Rightarrow> bool" where
  "is_space b \<longleftrightarrow> b = 32 \<or> (9 \<le> b \<and> b \<le> 13)"

definition digit_val :: "u8 \<Rightarrow> nat option" where
  "digit_val b =
    (if 48 \<le> b \<and> b \<le> 57 then Some (unat b - 48)
     else if 97 \<le> b \<and> b \<le> 102 then Some (unat b - 87)
     else if 65 \<le> b \<and> b \<le> 70 then Some (unat b - 55)
     else None)"

fun scan_digits :: "nat \<Rightarrow> nat \<Rightarrow> u8 list \<Rightarrow> nat" where
  "scan_digits base acc [] = acc"
| "scan_digits base acc (b # bs) =
    (case digit_val b of
       None \<Rightarrow> acc
     | Some d \<Rightarrow> if d < base then scan_digits base (acc * base + d) bs else acc)"

definition starts_digit :: "nat \<Rightarrow> u8 list \<Rightarrow> bool" where
  "starts_digit base s = (case s of [] \<Rightarrow> False | b # _ \<Rightarrow> (case digit_val b of None \<Rightarrow> False | Some d \<Rightarrow> d < base))"

text \<open>The value converted, or \<open>None\<close> for no conversion; the argument ends at its zero byte.\<close>

definition scan_num :: "nat \<Rightarrow> u8 list \<Rightarrow> u32 option" where
  "scan_num base s =
    (let s1 = dropWhile is_space s;
         neg = (case s1 of b # _ \<Rightarrow> b = 45 | [] \<Rightarrow> False);
         s2 = (case s1 of b # t \<Rightarrow> if b = 45 \<or> b = 43 then t else s1 | [] \<Rightarrow> []);
         s3 = (if base = 16 then (case s2 of z # x # t \<Rightarrow> if z = 48 \<and> (x = 120 \<or> x = 88) \<and> starts_digit 16 t then t else s2 | _ \<Rightarrow> s2)
               else s2)
     in if starts_digit base s3 then
          Some (if neg then - of_nat (scan_digits base 0 s3) else of_nat (scan_digits base 0 s3))
        else None)"

section \<open>Unpacking a position sentence\<close>

record locate =
  Latitude :: u32
  Longitude :: u32
  Altitude :: u16
  Speed :: u16
  Direction :: u16
  TimeBCD :: "u8 list"
  AlarmFlage :: u32
  CarState :: u32

text \<open>\<open>Val\<close> is the local variable \<open>Value\<close>: it keeps its last value when nothing is converted.\<close>

record unpack =
  tempBuf :: "u8 list"
  index :: nat
  CommaNum :: u8
  Val :: u32
  loc :: locate

definition scan_into :: "nat \<Rightarrow> u8 list \<Rightarrow> unpack \<Rightarrow> unpack" where
  "scan_into base s g = g\<lparr>Val := (case scan_num base (c_text s) of None \<Rightarrow> Val g | Some v \<Rightarrow> v)\<rparr>"

definition time_part :: "nat \<Rightarrow> nat \<Rightarrow> unpack \<Rightarrow> unpack" where
  "time_part off k g =
    (let g1 = scan_into 16 (take 2 (drop off (tempBuf g))) g
     in g1\<lparr>loc := (loc g1)\<lparr>TimeBCD := (TimeBCD (loc g1))[k := ucast (Val g1)]\<rparr>\<rparr>)"

definition drop_points :: "unpack \<Rightarrow> unpack" where
  "drop_points g =
    (let f = filter (\<lambda>b. b \<noteq> 46) (take (index g) (tempBuf g))
     in g\<lparr>tempBuf := f @ drop (length f) (tempBuf g)\<rparr>)"

definition cut_point :: "unpack \<Rightarrow> unpack" where
  "cut_point g =
    (let k = length (takeWhile (\<lambda>b. b \<noteq> 46) (take (index g) (tempBuf g)))
     in if k < index g then g\<lparr>tempBuf := (tempBuf g)[k := 0]\<rparr> else g)"

definition scan_loc :: "nat \<Rightarrow> (u32 \<Rightarrow> locate \<Rightarrow> locate) \<Rightarrow> unpack \<Rightarrow> unpack" where
  "scan_loc base up g =
    (case scan_num base (c_text (tempBuf g)) of None \<Rightarrow> g | Some v \<Rightarrow> g\<lparr>loc := up v (loc g)\<rparr>)"

text \<open>What happens at a comma; \<open>None\<close> is the return with -1.\<close>

definition field_end :: "(u8 list \<Rightarrow> u16) \<Rightarrow> unpack \<Rightarrow> unpack option" where
  "field_end speed_of g =
    (if CommaNum g = 2 then Some (time_part 4 5 (time_part 2 4 (time_part 0 3 g)))
     else if CommaNum g = 3 then (if tempBuf g ! 0 \<noteq> 65 then None else Some g)
     else if CommaNum g = 4 then Some (scan_loc 10 (\<lambda>v l. l\<lparr>Latitude := v\<rparr>) (drop_points g))
     else if CommaNum g = 6 then Some (scan_loc 10 (\<lambda>v l. l\<lparr>Longitude := v\<rparr>) (drop_points g))
     else if CommaNum g = 8 then Some (g\<lparr>loc := (loc g)\<lparr>Speed := speed_of (c_text (tempBuf g))\<rparr>\<rparr>)
     else if CommaNum g = 9 then
       (let g1 = scan_into 10 (tempBuf (cut_point g)) (cut_point g)
        in Some (g1\<lparr>loc := (loc g1)\<lparr>Direction := ucast (Val g1)\<rparr>\<rparr>))
     else if CommaNum g = 10 then Some (time_part 4 0 (time_part 2 1 (time_part 0 2 g)))
     else Some g)"

definition push :: "u8 \<Rightarrow> unpack \<Rightarrow> unpack" where
  "push b g = g\<lparr>tempBuf := (tempBuf g)[index g := b], index := index g + 1\<rparr>"

fun unpack_loop :: "(u8 list \<Rightarrow> u16) \<Rightarrow> u8 list \<Rightarrow> unpack \<Rightarrow> (bool \<times> unpack) res" where
  "unpack_loop sp [] g = Fault"
| "unpack_loop sp (c # cs) g =
    (if c = 0 then Ok (True, g)
     else if index g \<ge> length (tempBuf g) then Fault
     else if c = 44 then
       (let g1 = push 0 (g\<lparr>CommaNum := CommaNum g + 1\<rparr>) in
        (case field_end sp g1 of
           None \<Rightarrow> Ok (False, g1)
         | Some g2 \<Rightarrow> unpack_loop sp cs (g2\<lparr>index := 0\<rparr>)))
     else unpack_loop sp cs (push c g))"

text \<open>
  \<open>buf\<close> is the block of 100 bytes \<open>rt_malloc\<close> returns, if any, and \<open>v0\<close> the indeterminate start
  value of \<open>Value\<close>. The result says whether 0 was returned and whether a block stays allocated.
\<close>

definition Unpack_GPRMC ::
  "(u8 list \<Rightarrow> u16) \<Rightarrow> u8 list option \<Rightarrow> u32 \<Rightarrow> u8 list \<Rightarrow> locate \<Rightarrow> (bool \<times> bool \<times> locate) res" where
  "Unpack_GPRMC sp mem v0 str l =
    (case mem of
       None \<Rightarrow> Ok (False, False, l)
     | Some b \<Rightarrow>
         rbind (unpack_loop sp str \<lparr>tempBuf = b, index = 0, CommaNum = 0, Val = v0, loc = l\<rparr>) (\<lambda>(ok, g).
           if ok then Ok (True, False, (loc g)\<lparr>Altitude := 0\<rparr>) else Ok (False, True, loc g)))"

section \<open>Receiving sentences\<close>

record gps_rx =
  rindex :: nat
  UserData :: "u8 list"

definition rx_push :: "u8 \<Rightarrow> gps_rx \<Rightarrow> gps_rx res" where
  "rx_push b r =
    (if rindex r \<ge> length (UserData r) then Fault
     else Ok (r\<lparr>UserData := (UserData r)[rindex r := b], rindex := (rindex r + 1) mod 256\<rparr>))"

definition GPS_input :: "u8 \<Rightarrow> gps_rx \<Rightarrow> (call list \<times> gps_rx) res" where
  "GPS_input b r =
    rbind (rx_push b (if b = 36 then r\<lparr>rindex := 0\<rparr> else r)) (\<lambda>r1.
      if b = 10 then
        rbind (rx_push 0 r1) (\<lambda>r2. Ok ([MbSend ''GPS_MB'' (of_nat (rindex r2))], r2\<lparr>rindex := 0\<rparr>))
      else Ok ([], r1))"

section \<open>The reporting thread\<close>

text \<open>\<open>lost\<close> counts the blocks never freed.\<close>

record gps =
  gcouter :: u8
  info :: locate
  lost :: nat

text \<open>
  One mail: \<open>str\<close> is the receive buffer, \<open>mem\<close> and \<open>v0\<close> as above, \<open>auth\<close> the state of
  \<open>AUTHENTCATED_EVENT\<close>. The result is the report sent, if any.
\<close>

definition gps_pass ::
  "(u8 list \<Rightarrow> u16) \<Rightarrow> u8 list option \<Rightarrow> u32 \<Rightarrow> bool \<Rightarrow> u8 list \<Rightarrow> gps \<Rightarrow> (locate option \<times> gps) res" where
  "gps_pass sp mem v0 auth str s =
    (let c = gcouter s + 1 in
     if c < 10 then Ok (None, s\<lparr>gcouter := c\<rparr>)
     else rbind (Unpack_GPRMC sp mem v0 str (info s)) (\<lambda>(ok, leak, l).
       (let s1 = s\<lparr>gcouter := 0, info := l, lost := (if leak then lost s + 1 else lost s)\<rparr> in
        if \<not> ok then Ok (None, s1)
        else if auth then
          (let l1 = (info s1)\<lparr>AlarmFlage := 0, CarState := 0\<rparr> in Ok (Some l1, s1\<lparr>info := l1\<rparr>))
        else Ok (None, s1))))"

section \<open>Fields of a sentence\<close>

definition field :: "u8 list \<Rightarrow> bool" where
  "field f \<longleftrightarrow> length f < 99 \<and> 44 \<notin> set f \<and> 0 \<notin> set f"

lemma push_field:
  "44 \<notin> set f \<Longrightarrow> 0 \<notin> set f \<Longrightarrow> index g + length f < length (tempBuf g) \<Longrightarrow>
    unpack_loop sp (f @ cs) g =
    unpack_loop sp cs (g\<lparr>tempBuf := take (index g) (tempBuf g) @ f @ drop (index g + length f) (tempBuf g),
      index := index g + length f\<rparr>)"
proof (induction f arbitrary: g)
  case Nil
  then show ?case by simp
next
  case (Cons b f)
  have "take (Suc (index g)) ((tempBuf g)[index g := b]) = take (index g) (tempBuf g) @ [b]"
    using Cons.prems by (simp add: take_Suc_conv_app_nth)
  with Cons show ?case by (simp add: push_def)
qed

lemma field_step:
  assumes "field f" and "index g = 0" and "length (tempBuf g) = 100"
  shows "\<exists>r g1. length (f @ 0 # r) = 100 \<and>
    g1 = g\<lparr>CommaNum := CommaNum g + 1, tempBuf := f @ 0 # r, index := Suc (length f)\<rparr> \<and>
    unpack_loop sp (f @ 44 # cs) g =
    (case field_end sp g1 of
       None \<Rightarrow> Ok (False, g1)
     | Some g2 \<Rightarrow> unpack_loop sp cs (g2\<lparr>index := 0\<rparr>))"
proof -
  let ?r = "drop (Suc (length f)) (tempBuf g)"
  have "drop (length f) (tempBuf g) = tempBuf g ! length f # ?r"
    using assms by (simp add: Cons_nth_drop_Suc field_def)
  then have "(f @ drop (length f) (tempBuf g))[length f := 0] = f @ 0 # ?r" by (simp add: list_update_append)
  then show ?thesis
    using assms
    by - (rule exI [of _ ?r], intro exI conjI, simp add: field_def, rule refl,
        simp add: push_field field_def push_def Let_def)
qed

section \<open>Digits\<close>

definition dig :: "nat \<Rightarrow> u8" where
  "dig d = of_nat (48 + d)"

definition dig2 :: "nat \<Rightarrow> u8 list" where
  "dig2 n = [dig (n div 10), dig (n mod 10)]"

definition bcd :: "nat \<Rightarrow> u8" where
  "bcd n = of_nat (16 * (n div 10) + n mod 10)"


lemma below10: "d < 10 \<Longrightarrow> d \<in> {0, 1, 2, 3, 4, 5, 6, 7, 8, 9 :: nat}"
  unfolding insert_iff empty_iff by arith

lemma dig_facts:
  "d < 10 \<Longrightarrow> digit_val (dig d) = Some d \<and> dig d \<noteq> 0 \<and> dig d \<noteq> 44 \<and> dig d \<noteq> 46 \<and> dig d \<noteq> 45 \<and>
    dig d \<noteq> 43 \<and> dig d \<noteq> 120 \<and> dig d \<noteq> 88 \<and> \<not> is_space (dig d)"
  by (drule below10, elim insertE) (simp_all add: dig_def digit_val_def is_space_def)

lemma scan_digits_map:
  "list_all (\<lambda>d. d < 10) ds \<Longrightarrow> 10 \<le> base \<Longrightarrow>
    scan_digits base acc (map dig ds) = foldl (\<lambda>a d. a * base + d) acc ds"
  by (induction ds arbitrary: acc) (auto simp: dig_facts)

lemma scan_num_digits:
  assumes "list_all (\<lambda>d. d < 10) ds" and "ds \<noteq> []" and "base = 10 \<or> base = 16"
  shows "scan_num base (map dig ds) = Some (of_nat (foldl (\<lambda>a d. a * base + d) 0 ds))"
proof -
  obtain d es where d: "ds = d # es" "d < 10" "list_all (\<lambda>d. d < 10) es"
    using assms(1,2) by (cases ds) auto
  note f = dig_facts [OF d(2)]
  have "\<not> (case map dig es of x # t \<Rightarrow> x = 120 \<or> x = 88 | [] \<Rightarrow> False)"
    using d(3) dig_facts by (cases es) auto
  with f d assms(3) scan_digits_map [OF assms(1), of base 0] show ?thesis
    by (auto simp: scan_num_def Let_def starts_digit_def split: list.split)
qed

lemma u32_u8: "k < 256 \<Longrightarrow> ucast (of_nat k :: u32) = (of_nat k :: u8)"
  by (simp add: unsigned_of_nat take_bit_nat_eq_self)

lemma dig2_bcd:
  assumes "n < 100"
  shows "scan_num 16 (dig2 n) = Some v \<Longrightarrow> ucast v = bcd n" and "scan_num 16 (dig2 n) \<noteq> None"
proof -
  have "list_all (\<lambda>d. d < 10) [n div 10, n mod 10]" using assms by auto
  from scan_num_digits [OF this, of 16]
  have s: "scan_num 16 (dig2 n) = Some (of_nat (16 * (n div 10) + n mod 10))" by (simp add: dig2_def mult.commute)
  then show "scan_num 16 (dig2 n) \<noteq> None" by simp
  show "ucast v = bcd n" if "scan_num 16 (dig2 n) = Some v"
    using that s assms u32_u8 [of "16 * (n div 10) + n mod 10"] unfolding bcd_def by simp
qed

section \<open>One field after the other\<close>

definition ready :: "u8 \<Rightarrow> locate \<Rightarrow> unpack \<Rightarrow> bool" where
  "ready k l g \<longleftrightarrow> length (tempBuf g) = 100 \<and> index g = 0 \<and> CommaNum g = k \<and> loc g = l"

lemma ready_step:
  assumes "ready k l g" and "field f"
    and "\<And>r g1. length (f @ 0 # r) = 100 \<Longrightarrow> tempBuf g1 = f @ 0 # r \<Longrightarrow> index g1 = Suc (length f) \<Longrightarrow>
      CommaNum g1 = k + 1 \<Longrightarrow> loc g1 = l \<Longrightarrow>
      \<exists>g2. field_end sp g1 = Some g2 \<and> length (tempBuf g2) = 100 \<and> CommaNum g2 = k + 1 \<and> loc g2 = l'"
  shows "\<exists>g'. unpack_loop sp (f @ 44 # cs) g = unpack_loop sp cs g' \<and> ready (k + 1) l' g'"
proof -
  have i: "index g = 0" "length (tempBuf g) = 100" using assms(1) by (simp_all add: ready_def)
  obtain r g1 where g1: "length (f @ 0 # r) = 100"
    "g1 = g\<lparr>CommaNum := CommaNum g + 1, tempBuf := f @ 0 # r, index := Suc (length f)\<rparr>"
    "unpack_loop sp (f @ 44 # cs) g =
      (case field_end sp g1 of None \<Rightarrow> Ok (False, g1) | Some g2 \<Rightarrow> unpack_loop sp cs (g2\<lparr>index := 0\<rparr>))"
    using field_step [OF assms(2) i, of sp cs] by blast
  then obtain g2 where "field_end sp g1 = Some g2" "length (tempBuf g2) = 100" "CommaNum g2 = k + 1" "loc g2 = l'"
    using assms(3) [of r g1] assms(1) by (auto simp: ready_def)
  with g1(3) show ?thesis by (intro exI [of _ "g2\<lparr>index := 0\<rparr>"]) (simp add: ready_def)
qed

lemma plain_field:
  assumes "ready k l g" and "field f" and "k + 1 \<notin> {2, 3, 4, 6, 8, 9, 10}"
  shows "\<exists>g'. unpack_loop sp (f @ 44 # cs) g = unpack_loop sp cs g' \<and> ready (k + 1) l g'"
  using assms(3) by (intro ready_step [OF assms(1,2)]) (auto simp: field_end_def)


lemma dig2_nz: "n < 100 \<Longrightarrow> 0 \<notin> set (dig2 n)"
  using dig_facts [of "n div 10"] dig_facts [of "n mod 10"] by (auto simp: dig2_def)

lemma time_part_dig2:
  assumes "take 2 (drop off (tempBuf g)) = dig2 n" and "n < 100"
  shows "\<exists>v. time_part off k g = g\<lparr>Val := v, loc := (loc g)\<lparr>TimeBCD := (TimeBCD (loc g))[k := bcd n]\<rparr>\<rparr>"
proof -
  obtain v where v: "scan_num 16 (dig2 n) = Some v" using dig2_bcd(2) [OF assms(2)] by auto
  with assms c_text_id [OF dig2_nz [OF assms(2)]] dig2_bcd(1) [OF assms(2) v] show ?thesis
    by (intro exI [of _ v]) (simp add: time_part_def scan_into_def)
qed

definition clock :: "nat \<Rightarrow> nat \<Rightarrow> nat \<Rightarrow> u8 list" where
  "clock a b c = dig2 a @ dig2 b @ dig2 c"

lemma three_parts:
  assumes "tempBuf g = clock a b c @ t" and "a < 100" and "b < 100" and "c < 100"
  shows "\<exists>v. time_part 4 k3 (time_part 2 k2 (time_part 0 k1 g)) =
    g\<lparr>Val := v, loc := (loc g)\<lparr>TimeBCD := (TimeBCD (loc g))[k1 := bcd a, k2 := bcd b, k3 := bcd c]\<rparr>\<rparr>"
proof -
  have t: "take 2 (drop 0 (tempBuf g)) = dig2 a" "take 2 (drop 2 (tempBuf g)) = dig2 b"
    "take 2 (drop 4 (tempBuf g)) = dig2 c"
    using assms(1) by (simp_all add: clock_def dig2_def)
  obtain v1 where v1: "time_part 0 k1 g = g\<lparr>Val := v1, loc := (loc g)\<lparr>TimeBCD := (TimeBCD (loc g))[k1 := bcd a]\<rparr>\<rparr>"
    using time_part_dig2 [OF t(1) assms(2)] by blast
  obtain v2 where v2: "time_part 2 k2 (time_part 0 k1 g) =
      g\<lparr>Val := v2, loc := (loc g)\<lparr>TimeBCD := (TimeBCD (loc g))[k1 := bcd a, k2 := bcd b]\<rparr>\<rparr>"
    using time_part_dig2 [of 2 "time_part 0 k1 g" b k2] t(2) assms(3) by (auto simp: v1)
  show ?thesis
    using time_part_dig2 [of 4 "time_part 2 k2 (time_part 0 k1 g)" c k3] t(3) assms(4) by (auto simp: v2)
qed

lemma time_field:
  assumes "ready 1 l g" and "field (clock a b c @ t)" and "a < 100" and "b < 100" and "c < 100"
  shows "\<exists>g'. unpack_loop sp ((clock a b c @ t) @ 44 # cs) g = unpack_loop sp cs g' \<and>
    ready 2 (l\<lparr>TimeBCD := (TimeBCD l)[3 := bcd a, 4 := bcd b, 5 := bcd c]\<rparr>) g'"
proof -
  have "\<exists>g'. unpack_loop sp ((clock a b c @ t) @ 44 # cs) g = unpack_loop sp cs g' \<and>
    ready (1 + 1) (l\<lparr>TimeBCD := (TimeBCD l)[3 := bcd a, 4 := bcd b, 5 := bcd c]\<rparr>) g'"
  proof (rule ready_step [OF assms(1,2)])
    fix r and g1 :: unpack
    assume "tempBuf g1 = (clock a b c @ t) @ 0 # r" "CommaNum g1 = 1 + 1" "loc g1 = l"
      "length ((clock a b c @ t) @ 0 # r) = 100"
    with three_parts [of g1 a b c "t @ 0 # r" 5 4 3] assms(3-5)
    show "\<exists>g2. field_end sp g1 = Some g2 \<and> length (tempBuf g2) = 100 \<and> CommaNum g2 = 1 + 1 \<and>
      loc g2 = l\<lparr>TimeBCD := (TimeBCD l)[3 := bcd a, 4 := bcd b, 5 := bcd c]\<rparr>"
      by (auto simp: field_end_def)
  qed
  then show ?thesis by simp
qed















section \<open>A whole sentence\<close>


definition two_digit :: "nat \<times> nat \<times> nat \<Rightarrow> bool" where
  "two_digit t \<longleftrightarrow> fst t < 100 \<and> fst (snd t) < 100 \<and> snd (snd t) < 100"



lemma dig2_set: "n < 100 \<Longrightarrow> 44 \<notin> set (dig2 n) \<and> 0 \<notin> set (dig2 n)"
  using dig_facts [of "n div 10"] dig_facts [of "n mod 10"] by (auto simp: dig2_def)

lemma field_clock:
  "a < 100 \<Longrightarrow> b < 100 \<Longrightarrow> c < 100 \<Longrightarrow> length tf < 90 \<Longrightarrow> 44 \<notin> set tf \<Longrightarrow> 0 \<notin> set tf \<Longrightarrow> field (clock a b c @ tf)"
  using dig2_set [of a] dig2_set [of b] dig2_set [of c] by (auto simp: field_def clock_def) (simp add: dig2_def)





section \<open>Properties\<close>


definition loc0 :: locate where
  "loc0 = \<lparr>Latitude = 0, Longitude = 0, Altitude = 0, Speed = 0, Direction = 0, TimeBCD = replicate 6 0,
    AlarmFlage = 0, CarState = 0\<rparr>"


text \<open>
  A sentence without a fix (status other than \<open>A\<close>) is refused after its time has already
  been stored, and the work buffer is never freed: the thread loses a block with every tenth
  sentence, whatever the state of the network.
\<close>

lemma gps_void_sentence_leaks:
  assumes "two_digit t" and "length tf < 90" and "44 \<notin> set tf" and "0 \<notin> set tf" and "length b = 100"
    and "st \<noteq> 65" and "st \<noteq> 44" and "st \<noteq> 0" and "gcouter s = 9"
  shows "\<exists>l. gps_pass sp (Some b) v0 auth (bytes ''$GPRMC'' @ 44 #
      (clock (fst t) (fst (snd t)) (snd (snd t)) @ tf) @ 44 # [st] @ 44 # tail) s =
      Ok (None, s\<lparr>gcouter := 0, info := l, lost := lost s + 1\<rparr>) \<and>
    TimeBCD l = (TimeBCD (info s))[3 := bcd (fst t), 4 := bcd (fst (snd t)), 5 := bcd (snd (snd t))]"
proof -
  let ?g = "\<lparr>tempBuf = b, index = 0, CommaNum = 0, Val = v0, loc = info s\<rparr>"
  let ?tf = "clock (fst t) (fst (snd t)) (snd (snd t)) @ tf"
  let ?s2 = "[st] @ 44 # tail"
  let ?s1 = "?tf @ 44 # ?s2"
  note td = assms(1) [unfolded two_digit_def]
  have g: "ready 0 (info s) ?g" using assms(5) by (simp add: ready_def)
  have h: "field (bytes ''$GPRMC'')" "field [st]" "field ?tf"
    using assms(2-4,7,8) td field_clock [of "fst t" "fst (snd t)" "snd (snd t)" tf] by (simp_all add: field_def)
  obtain g1 where 1: "unpack_loop sp (bytes ''$GPRMC'' @ 44 # ?s1) ?g = unpack_loop sp ?s1 g1" "ready 1 (info s) g1"
    using plain_field [OF g h(1), of sp ?s1] by (auto simp del: bytes_simps)
  obtain g2 where 2: "unpack_loop sp ?s1 g1 = unpack_loop sp ?s2 g2"
    "ready 2 ((info s)\<lparr>TimeBCD := (TimeBCD (info s))[3 := bcd (fst t), 4 := bcd (fst (snd t)), 5 := bcd (snd (snd t))]\<rparr>) g2"
    using time_field [OF 1(2) h(3), of sp ?s2] td by auto
  have i: "index g2 = 0" "length (tempBuf g2) = 100" "CommaNum g2 = 2" using 2(2) by (simp_all add: ready_def)
  obtain r g3 where "g3 = g2\<lparr>CommaNum := CommaNum g2 + 1, tempBuf := [st] @ 0 # r, index := Suc (length [st])\<rparr>"
    "unpack_loop sp ?s2 g2 =
      (case field_end sp g3 of None \<Rightarrow> Ok (False, g3) | Some g' \<Rightarrow> unpack_loop sp tail (g'\<lparr>index := 0\<rparr>))"
    using field_step [OF h(2) i(1,2), of sp tail] by blast
  then have 3: "unpack_loop sp ?s2 g2 = Ok (False, g3)" "loc g3 = loc g2"
    using i(3) assms(6) by (simp_all add: field_end_def)
  have "Unpack_GPRMC sp (Some b) v0 (bytes ''$GPRMC'' @ 44 # ?s1) (info s) = Ok (False, True, loc g3)"
    unfolding Unpack_GPRMC_def option.case 1(1) 2(1) 3(1) by simp
  then show ?thesis
    using assms(9) 3(2) 2(2) by (intro exI [of _ "loc g3"]) (simp add: gps_pass_def ready_def del: bytes_simps)
qed

lemma gps_void_sentence_leaks_witness:
  "\<exists>l. gps_pass (\<lambda>_. 0) (Some (replicate 100 0)) 0 True (bytes ''$GPRMC'' @ 44 # clock 9 8 7 @ 44 # [86] @ 44 # [0])
      \<lparr>gcouter = 9, info = loc0, lost = 0\<rparr> = Ok (None, \<lparr>gcouter = 0, info = l, lost = 1\<rparr>)"
  using gps_void_sentence_leaks [of "(9, 8, 7)" "[]" "replicate 100 0" 86 "\<lparr>gcouter = 9, info = loc0, lost = 0\<rparr>"
      "\<lambda>_. 0" 0 True "[0]"]
  by (auto simp: two_digit_def simp del: bytes_simps)

end
