(* ===== verification/Voice.thy ===== *)
theory Voice
  imports Base
begin

text \<open>
  The voice path: the double buffer the microphone interrupt fills and the thread that encodes
  it (\<open>MySouce/Vocoder/RecordAPP.c\<close>), and the ring of received frames with the thread that
  decodes them (\<open>SoundAPP.c\<close>). The speech codec is a library the sources only call: encoder
  and decoder are arguments, functions of the codec's state and of one frame.
\<close>

section \<open>Recording\<close>

definition FRAME_SIZE :: nat where "FRAME_SIZE = 160"

text \<open>\<open>Buffer\<close> has the two frames; the static \<open>i\<close> of the callback is \<open>pos\<close>.\<close>

record rec =
  Buffer :: "u16 list list"
  currentIndex :: nat
  pos :: nat

definition put_sample :: "u32 \<Rightarrow> rec \<Rightarrow> rec" where
  "put_sample v r =
    r\<lparr>Buffer := (Buffer r)[currentIndex r := (Buffer r ! currentIndex r)[pos r := xor (ucast v) 0x8000]],
      pos := pos r + 1\<rparr>"

definition record_input2 :: "u32 \<Rightarrow> rec \<Rightarrow> (call list \<times> rec) res" where
  "record_input2 v r =
    (if currentIndex r \<ge> length (Buffer r) \<or> pos r \<ge> length (Buffer r ! currentIndex r) then Fault
     else
       (let r1 = put_sample v r in
        if pos r1 = FRAME_SIZE then
          (if currentIndex r1 \<noteq> 0
           then Ok ([MbSend ''recMB'' 4], r1\<lparr>pos := 0, currentIndex := 0\<rparr>)
           else Ok ([MbSend ''recMB'' 2], r1\<lparr>pos := 0, currentIndex := 1\<rparr>))
        else Ok ([], r1)))"

fun record_run :: "u32 list \<Rightarrow> rec \<Rightarrow> (call list \<times> rec) res" where
  "record_run [] r = Ok ([], r)"
| "record_run (v # vs) r =
    rbind (record_input2 v r) (\<lambda>(cs, r1). rbind (record_run vs r1) (\<lambda>(ds, r2). Ok (cs @ ds, r2)))"

text \<open>
  One pass of the recording thread for a received mail: the frame named by the mail is encoded,
  any other mail leaves \<open>out_bytes\<close> as it is. The result is what \<open>GNSS_T_Voice\<close> is given once
  the terminal is authenticated.
\<close>

definition record_pass :: "('e \<Rightarrow> u16 list \<Rightarrow> u8 list \<times> 'e) \<Rightarrow> u32 \<Rightarrow> rec \<Rightarrow> u8 list \<times> 'e \<Rightarrow> u8 list \<times> 'e" where
  "record_pass encode m r s =
    (if m = 2 then encode (snd s) (Buffer r ! 0)
     else if m = 4 then encode (snd s) (Buffer r ! 1)
     else s)"

fun record_passes :: "('e \<Rightarrow> u16 list \<Rightarrow> u8 list \<times> 'e) \<Rightarrow> u32 list \<Rightarrow> rec \<Rightarrow> u8 list \<times> 'e \<Rightarrow> u8 list list" where
  "record_passes encode [] r s = []"
| "record_passes encode (m # ms) r s =
    (let s1 = record_pass encode m r s in fst s1 # record_passes encode ms r s1)"

section \<open>The ring of received frames\<close>

text \<open>The nodes are numbered in the order of their allocation.\<close>

record enc_node =
  Ready :: u16
  Data :: "u8 list"
  nxt :: nat

record dec =
  nodes :: "enc_node list"
  pRead :: nat
  pWrite :: nat

text \<open>
  \<open>mem\<close> is what the heap returns: its \<open>k\<close>-th entry is the content of the \<open>k\<close>-th block before it
  is set up; a further \<open>rt_malloc\<close> fails, and the store through its null result is a fault.
\<close>

fun ring_loop :: "nat \<Rightarrow> enc_node list \<Rightarrow> dec \<Rightarrow> dec res" where
  "ring_loop 0 mem s = Ok s"
| "ring_loop (Suc k) mem s =
    (case mem of
       [] \<Rightarrow> Fault
     | b # mem1 \<Rightarrow>
         (let new = length (nodes s) in
          ring_loop k mem1
            (s\<lparr>nodes := (nodes s)[pRead s := (nodes s ! pRead s)\<lparr>nxt := new\<rparr>] @ [b\<lparr>Ready := 0\<rparr>],
               pRead := new\<rparr>)))"

definition ReceiveBufInit :: "u16 \<Rightarrow> enc_node list \<Rightarrow> dec res" where
  "ReceiveBufInit num mem =
    (if \<not> unat num < 65535 then Halt
     else (case mem of
        [] \<Rightarrow> Fault
      | b # mem1 \<Rightarrow>
          rbind (ring_loop (unat num - 1) mem1 \<lparr>nodes = [b\<lparr>Ready := 0\<rparr>], pRead = 0, pWrite = 0\<rparr>) (\<lambda>s.
            Ok (s\<lparr>nodes := (nodes s)[pRead s := (nodes s ! pRead s)\<lparr>nxt := pWrite s\<rparr>],
                  pRead := pWrite s\<rparr>))))"

text \<open>
  The two operations on the ring run under its mutex. \<open>CopyToDecoderBuf\<close> returns 0 (\<open>RT_EOK\<close>)
  or 1 (\<open>RT_ERROR\<close>).
\<close>

definition put_frame :: "u8 list \<Rightarrow> dec \<Rightarrow> dec" where
  "put_frame d s =
    (if Ready (nodes s ! pWrite s) \<noteq> 0 then s
     else s\<lparr>nodes := (nodes s)[pWrite s := (nodes s ! pWrite s)\<lparr>Data := take 20 d, Ready := 1\<rparr>],
            pWrite := nxt (nodes s ! pWrite s)\<rparr>)"

definition CopyToDecoderBuf :: "u8 list \<Rightarrow> dec \<Rightarrow> (nat \<times> call list \<times> dec) res" where
  "CopyToDecoderBuf d s =
    (if pWrite s \<ge> length (nodes s) then Fault
     else if Ready (nodes s ! pWrite s) \<noteq> 0 then Ok (1, [], s)
     else if length d < 20 then Fault
     else Ok (0, [SemRelease ''DecoderSem''], put_frame d s))"

text \<open>What the decoder thread does with the sound device.\<close>

datatype sound = Write "u16 list" | Open | Control u8

definition release :: "dec \<Rightarrow> dec" where
  "release s =
    (if Ready (nodes s ! pRead s) = 0 then s
     else s\<lparr>nodes := (nodes s)[pRead s := (nodes s ! pRead s)\<lparr>Ready := 0\<rparr>],
            pRead := nxt (nodes s ! pRead s)\<rparr>)"

text \<open>
  One pass, after the semaphore was taken. \<open>n\<close> is the number of bytes the device takes; when it
  takes less than the frame, playing is started and the pass waits for half the sound buffer.
\<close>

definition decoder_pass ::
  "('d \<Rightarrow> u8 list \<Rightarrow> u16 list \<times> 'd) \<Rightarrow> nat \<Rightarrow> dec \<times> 'd \<Rightarrow> (sound list \<times> dec \<times> 'd) res" where
  "decoder_pass decode n sd =
    (case sd of (s, d) \<Rightarrow>
      if pRead s \<ge> length (nodes s) then Fault
      else if Ready (nodes s ! pRead s) = 0 then Ok ([], s, d)
      else (case decode d (Data (nodes s ! pRead s)) of (pcm, d1) \<Rightarrow>
        Ok (Write pcm # (if n < FRAME_SIZE * 2 then [Open, Control 4] else []), release s, d1)))"

text \<open>Frames arrive and the decoder runs in any order.\<close>

datatype vop = Arrive "u8 list" | Pass nat

datatype vout = Returned nat "call list" | Played "sound list"

fun voice_step :: "('d \<Rightarrow> u8 list \<Rightarrow> u16 list \<times> 'd) \<Rightarrow> vop \<Rightarrow> dec \<times> 'd \<Rightarrow> (vout \<times> dec \<times> 'd) res" where
  "voice_step decode (Arrive x) (s, d) =
    rbind (CopyToDecoderBuf x s) (\<lambda>(r, cs, s1). Ok (Returned r cs, s1, d))"
| "voice_step decode (Pass n) (s, d) =
    rbind (decoder_pass decode n (s, d)) (\<lambda>(o1, sd1). Ok (Played o1, sd1))"

fun voice_run :: "('d \<Rightarrow> u8 list \<Rightarrow> u16 list \<times> 'd) \<Rightarrow> vop list \<Rightarrow> dec \<times> 'd \<Rightarrow> (vout list \<times> dec \<times> 'd) res" where
  "voice_run decode [] sd = Ok ([], sd)"
| "voice_run decode (x # xs) sd =
    rbind (voice_step decode x sd) (\<lambda>(o1, sd1). rbind (voice_run decode xs sd1) (\<lambda>(os, sd2). Ok (o1 # os, sd2)))"

section \<open>The double buffer\<close>

definition sample :: "u32 \<Rightarrow> u16" where "sample v = xor (ucast v) 0x8000"

definition mail :: "nat \<Rightarrow> call" where
  "mail k = MbSend ''recMB'' (if even k then 2 else 4)"

definition rec_ok :: "rec \<Rightarrow> bool" where
  "rec_ok r \<longleftrightarrow> map length (Buffer r) = [160, 160] \<and> currentIndex r < 2 \<and> pos r < 160"

lemma rec_okD:
  assumes "rec_ok r"
  shows "length (Buffer r) = 2" "currentIndex r < 2" "length (Buffer r ! currentIndex r) = 160" "pos r < 160"
proof -
  from assms obtain a b where "Buffer r = [a, b]" "length a = 160" "length b = 160"
    by (auto simp: rec_ok_def map_eq_Cons_conv)
  with assms show "length (Buffer r) = 2" "currentIndex r < 2" "length (Buffer r ! currentIndex r) = 160" "pos r < 160"
    by (auto simp: rec_ok_def less_2_cases_iff)
qed

lemma rec_ok_put:
  "rec_ok r \<Longrightarrow> c < 2 \<Longrightarrow> p < 160 \<Longrightarrow>
    rec_ok (put_sample v r\<lparr>currentIndex := c, pos := p\<rparr>)"
  using rec_okD [of r] unfolding rec_ok_def
  by (auto simp: put_sample_def map_update list_update_id map_eq_Cons_conv less_2_cases_iff)

definition with_block :: "nat \<Rightarrow> u32 list \<Rightarrow> rec \<Rightarrow> rec" where
  "with_block p vs r =
    (let old = Buffer r ! currentIndex r in
     r\<lparr>Buffer := (Buffer r)[currentIndex r := take p old @ map sample vs @ drop (p + length vs) old],
       pos := p + length vs\<rparr>)"

lemma with_block_snoc:
  "rec_ok r \<Longrightarrow> p + length vs < 160 \<Longrightarrow> put_sample v (with_block p vs r) = with_block p (vs @ [v]) r"
  using rec_okD [of r]
  by (auto simp: with_block_def put_sample_def sample_def Let_def list_update_append Cons_nth_drop_Suc [symmetric])

lemma with_block_nil: "rec_ok r \<Longrightarrow> with_block (pos r) [] r = r"
  by (simp add: with_block_def)

lemma rec_ok_block: "rec_ok r \<Longrightarrow> p + length vs < 160 \<Longrightarrow> rec_ok (with_block p vs r)"
  using rec_okD [of r] by (auto simp: rec_ok_def with_block_def Let_def map_update map_eq_Cons_conv less_2_cases_iff)

lemma record_run_append:
  "record_run (xs @ ys) r =
    rbind (record_run xs r) (\<lambda>(cs, r1). rbind (record_run ys r1) (\<lambda>(ds, r2). Ok (cs @ ds, r2)))"
  by (induction xs arbitrary: r) (auto simp: rbind_def split: res.splits prod.splits)

lemma record_partial:
  "rec_ok r \<Longrightarrow> pos r + length vs < 160 \<Longrightarrow> record_run vs r = Ok ([], with_block (pos r) vs r)"
proof (induction vs rule: rev_induct)
  case Nil
  then show ?case by (simp add: with_block_nil)
next
  case (snoc v vs)
  let ?w = "with_block (pos r) vs r"
  have w: "rec_ok ?w" and p: "pos ?w = pos r + length vs" and c: "currentIndex ?w = currentIndex r"
    using snoc.prems by (simp_all add: rec_ok_block) (simp_all add: with_block_def Let_def)
  have "record_input2 v ?w = Ok ([], with_block (pos r) (vs @ [v]) r)"
    using rec_okD [OF w] snoc.prems p
    by (simp add: record_input2_def FRAME_SIZE_def with_block_snoc)
      (simp add: put_sample_def with_block_def Let_def)
  with snoc show ?case by (simp add: record_run_append)
qed

lemma record_block:
  assumes r: "rec_ok r" "pos r = 0" and l: "length b = 160"
  shows "record_run b r =
    Ok ([MbSend ''recMB'' (if currentIndex r = 0 then 2 else 4)],
      r\<lparr>Buffer := (Buffer r)[currentIndex r := map sample b], currentIndex := 1 - currentIndex r\<rparr>)"
proof -
  from l obtain vs v where b: "b = vs @ [v]" "length vs = 159" by (cases b rule: rev_cases) auto
  let ?w = "with_block 0 vs r"
  have w: "rec_ok ?w" and p: "pos ?w = 159" and c: "currentIndex ?w = currentIndex r"
    using r b by (simp_all add: rec_ok_block) (simp_all add: with_block_def Let_def)
  have "put_sample v ?w = r\<lparr>Buffer := (Buffer r)[currentIndex r := map sample b], pos := 160\<rparr>"
    using rec_okD [OF r(1)] b
    by (simp add: put_sample_def with_block_def Let_def list_update_append sample_def
        Cons_nth_drop_Suc [symmetric])
  moreover have "record_run vs r = Ok ([], ?w)" using r b record_partial [of r vs] by simp
  ultimately show ?thesis
    using rec_okD [OF w] rec_okD [OF r(1)] b p r
    by (auto simp: record_run_append record_input2_def FRAME_SIZE_def less_2_cases_iff)
qed

lemma rec_ok_swap:
  assumes "rec_ok r" "length b = 160"
  shows "rec_ok (r\<lparr>Buffer := (Buffer r)[currentIndex r := map sample b], currentIndex := 1 - currentIndex r\<rparr>)"
  using rec_okD [OF assms(1)] assms by (auto simp: rec_ok_def map_update map_eq_Cons_conv less_2_cases_iff)

text \<open>The buffers after whole blocks, from the one filled first.\<close>

fun frames_in :: "u32 list list \<Rightarrow> nat \<times> u16 list list \<Rightarrow> nat \<times> u16 list list" where
  "frames_in [] s = s"
| "frames_in (b # bs) (c, B) = frames_in bs (1 - c, B[c := map sample b])"

lemma record_blocks:
  "rec_ok r \<Longrightarrow> pos r = 0 \<Longrightarrow> currentIndex r = k mod 2 \<Longrightarrow> list_all (\<lambda>b. length b = 160) bs \<Longrightarrow>
    \<exists>r'. record_run (concat bs) r = Ok (map mail [k..<k + length bs], r') \<and> rec_ok r' \<and> pos r' = 0 \<and>
      currentIndex r' = (k + length bs) mod 2 \<and>
      (currentIndex r', Buffer r') = frames_in bs (currentIndex r, Buffer r)"
proof (induction bs arbitrary: r k)
  case Nil
  then show ?case by simp
next
  case (Cons b bs)
  let ?r = "r\<lparr>Buffer := (Buffer r)[currentIndex r := map sample b], currentIndex := 1 - currentIndex r\<rparr>"
  have ok: "rec_ok ?r" using Cons.prems rec_ok_swap [of r b] by simp
  have c: "currentIndex ?r = Suc k mod 2" using Cons.prems by (simp add: mod_Suc)
  have up: "[k..<k + length (b # bs)] = k # [Suc k..<Suc k + length bs]"
    by (subst upt_conv_Cons) simp_all
  from Cons.IH [of ?r "Suc k"] Cons.prems ok c
  obtain r' where r': "record_run (concat bs) ?r = Ok (map mail [Suc k..<Suc k + length bs], r')"
    "rec_ok r'" "pos r' = 0" "currentIndex r' = (Suc k + length bs) mod 2"
    "(currentIndex r', Buffer r') = frames_in bs (currentIndex ?r, Buffer ?r)"
    by auto
  have "record_run b r = Ok ([mail k], ?r)"
    using Cons.prems record_block [of r b] by (simp add: mail_def even_iff_mod_2_eq_zero)
  with r' show ?case unfolding up
    by (intro exI [of _ r']) (simp add: record_run_append)
qed

lemma with_block_other:
  "c < 2 \<Longrightarrow> c \<noteq> currentIndex r \<Longrightarrow> Buffer (with_block p vs r) ! c = Buffer r ! c"
  by (simp add: with_block_def Let_def)

lemma frames_in_snoc:
  "frames_in (bs @ [b]) s = (case frames_in bs s of (c, B) \<Rightarrow> (1 - c, B[c := map sample b]))"
  by (induction bs s rule: frames_in.induct) auto

text \<open>
  C30. The recording interrupt turns the samples into frames: every 160 samples it announces a
  frame, first the frame in buffer 0, then in turn, and for the next 160 samples (20 ms) the
  announced buffer holds exactly the announced frame, so the thread that encodes it within
  this time encodes the right samples.
\<close>

theorem record_announces_frames:
  "rec_ok r \<Longrightarrow> pos r = 0 \<Longrightarrow> currentIndex r = 0 \<Longrightarrow> list_all (\<lambda>b. length b = 160) (bs @ [b]) \<Longrightarrow>
    length vs < 160 \<Longrightarrow>
    \<exists>r'. record_run (concat (bs @ [b]) @ vs) r = Ok (map mail [0..<length bs + 1], r') \<and>
      Buffer r' ! (length bs mod 2) = map sample b"
proof -
  assume r: "rec_ok r" "pos r = 0" "currentIndex r = 0" and
    l: "list_all (\<lambda>b. length b = 160) (bs @ [b])" and vs: "length vs < 160"
  from record_blocks [of r 0 bs] r l
  obtain r1 where r1: "record_run (concat bs) r = Ok (map mail [0..<length bs], r1)"
    "rec_ok r1" "pos r1 = 0" "currentIndex r1 = length bs mod 2" by auto
  let ?r2 = "r1\<lparr>Buffer := (Buffer r1)[currentIndex r1 := map sample b], currentIndex := 1 - currentIndex r1\<rparr>"
  have r2: "record_run b r1 = Ok ([mail (length bs)], ?r2)"
    using record_block [of r1 b] r1 l by (simp add: mail_def even_iff_mod_2_eq_zero)
  have ok2: "rec_ok ?r2" using rec_ok_swap [of r1 b] r1 l by simp
  then have "record_run vs ?r2 = Ok ([], with_block 0 vs ?r2)"
    using record_partial [of ?r2 vs] vs r1 by simp
  then have "record_run (concat (bs @ [b]) @ vs) r = Ok (map mail [0..<length bs + 1], with_block 0 vs ?r2)"
    using r1(1) r2 by (simp add: record_run_append)
  moreover have "currentIndex r1 \<noteq> 1 - currentIndex r1" by arith
  then have "Buffer (with_block 0 vs ?r2) ! currentIndex r1 = map sample b"
    using rec_okD [OF r1(2)] by (subst with_block_other) auto
  ultimately show ?thesis using r1 by auto
qed

definition rec0 :: rec where
  "rec0 = \<lparr>Buffer = [replicate 160 0, replicate 160 0], currentIndex = 0, pos = 0\<rparr>"

lemma rec0_ok: "rec_ok rec0" "pos rec0 = 0" "currentIndex rec0 = 0"
  by (simp_all add: rec_ok_def rec0_def)

theorem record_announces_frames_witness:
  "\<exists>r'. record_run (concat [replicate 160 7, replicate 160 (8::u32)] @ [1, 2, 3]) rec0 =
      Ok (map mail [0..<length [replicate 160 (7::u32)] + 1], r') \<and>
    Buffer r' ! (length [replicate 160 (7::u32)] mod 2) = map sample (replicate 160 8)"
  using record_announces_frames [OF rec0_ok, of "[replicate 160 7]" "replicate 160 8" "[1, 2, 3]"]
  by simp

text \<open>Encoding a list of frames with the state carried over.\<close>

fun encode_all :: "('e \<Rightarrow> u16 list \<Rightarrow> u8 list \<times> 'e) \<Rightarrow> u16 list list \<Rightarrow> 'e \<Rightarrow> u8 list list" where
  "encode_all encode [] e = []"
| "encode_all encode (f # fs) e = (case encode e f of (out, e1) \<Rightarrow> out # encode_all encode fs e1)"

text \<open>
  The thread waits for the terminal to be authenticated while the interrupt keeps
  announcing frames, and the mailbox holds five of them: when five frames were recorded before
  the thread goes on, the first three are gone and it encodes the last two again and again.
\<close>

lemma record_backlog_repeats:
  "rec_ok r \<Longrightarrow> pos r = 0 \<Longrightarrow> currentIndex r = 0 \<Longrightarrow>
    list_all (\<lambda>b. length b = 160) [b0, b1, b2, b3, b4] \<Longrightarrow>
    \<exists>r'. record_run (concat [b0, b1, b2, b3, b4]) r =
        Ok (map (MbSend ''recMB'') [2, 4, 2, 4, 2], r') \<and>
      record_passes encode [2, 4, 2, 4, 2] r' (out, e) =
        encode_all encode (map (map sample) [b4, b3, b4, b3, b4]) e"
proof -
  assume r: "rec_ok r" "pos r = 0" "currentIndex r = 0" and
    l: "list_all (\<lambda>b. length b = 160) [b0, b1, b2, b3, b4]"
  from record_blocks [of r 0 "[b0, b1, b2, b3, b4]"] r l
  obtain r1 where r1: "record_run (concat [b0, b1, b2, b3, b4]) r = Ok ([mail 0, mail 1, mail 2, mail 3, mail 4], r1)"
    "(currentIndex r1, Buffer r1) = frames_in [b0, b1, b2, b3, b4] (0, Buffer r)"
    by (auto simp: eval_nat_numeral simp del: frames_in.simps)
  have "length (Buffer r) = 2" using rec_okD r by simp
  with r1(2) have B: "Buffer r1 ! 0 = map sample b4" "Buffer r1 ! 1 = map sample b3" by simp_all
  have "[mail 0, mail 1, mail 2, mail 3, mail 4] = map (MbSend ''recMB'') [2, 4, 2, 4, 2]" by code_simp
  moreover have "record_passes encode [2, 4, 2, 4, 2] r1 (out, e) =
      encode_all encode (map (map sample) [b4, b3, b4, b3, b4]) e"
    using B by (simp add: record_pass_def Let_def split: prod.splits)
  ultimately show ?thesis using r1(1) by auto
qed

lemma record_backlog_repeats_witness:
  "\<exists>r'. record_run (concat (map (replicate 160) [1, 2, 3, 4, 5 :: u32])) rec0 =
      Ok (map (MbSend ''recMB'') [2, 4, 2, 4, 2], r') \<and>
    record_passes (\<lambda>e f. (map ucast (take 20 f), e)) [2, 4, 2, 4, 2] r' ([], ()) =
      encode_all (\<lambda>e f. (map ucast (take 20 f), e))
        (map (map sample) (map (replicate 160) [5, 4, 5, 4, 5])) ()"
  using record_backlog_repeats [OF rec0_ok, of "replicate 160 1" "replicate 160 2" "replicate 160 3"
      "replicate 160 4" "replicate 160 5" "\<lambda>e f. (map ucast (take 20 f), e)" "[]" "()"]
  by simp

section \<open>The ring as a queue\<close>

text \<open>
  \<open>slot n s k\<close> is the \<open>k\<close>-th node from the read pointer in a ring of \<open>n\<close> nodes; \<open>ring n c s\<close>
  says that the ring is closed and that exactly its first \<open>c\<close> nodes are ready.
\<close>

definition slot :: "nat \<Rightarrow> dec \<Rightarrow> nat \<Rightarrow> enc_node" where
  "slot n s k = nodes s ! ((pRead s + k) mod n)"

definition ring :: "nat \<Rightarrow> nat \<Rightarrow> dec \<Rightarrow> bool" where
  "ring n c s \<longleftrightarrow> length (nodes s) = n \<and> pRead s < n \<and> c \<le> n \<and>
    (\<forall>j<n. nxt (nodes s ! j) = (j + 1) mod n) \<and> pWrite s = (pRead s + c) mod n \<and>
    (\<forall>k<n. (Ready (slot n s k) \<noteq> 0) = (k < c))"

lemma ringD:
  assumes "ring n c s"
  shows "length (nodes s) = n" "pRead s < n" "c \<le> n" "pWrite s = (pRead s + c) mod n"
    "\<forall>j<n. nxt (nodes s ! j) = (j + 1) mod n"
  using assms by (simp_all add: ring_def)

lemma ring_ready: "ring n c s \<Longrightarrow> k < n \<Longrightarrow> Ready (slot n s k) = 0 \<longleftrightarrow> \<not> k < c"
  by (auto simp: ring_def)

lemma ring_first: "ring n (Suc c) s \<Longrightarrow> Ready (nodes s ! pRead s) \<noteq> 0"
  using ring_ready [of n "Suc c" s 0] ringD [of n "Suc c" s] by (simp add: slot_def)

definition ring_q :: "nat \<Rightarrow> dec \<Rightarrow> u8 list list" where
  "ring_q n s = map Data (takeWhile (\<lambda>x. Ready x \<noteq> 0) (map (slot n s) [0..<n]))"

lemma ring_q_eq:
  assumes "ring n c s"
  shows "ring_q n s = map (\<lambda>k. Data (slot n s k)) [0..<c]"
proof -
  have "takeWhile (\<lambda>x. Ready x \<noteq> 0) (map (slot n s) [0..<n]) = take c (map (slot n s) [0..<n])"
  proof (rule takeWhile_eq_take_P_nth)
    fix i
    assume "i < c" "i < length (map (slot n s) [0..<n])"
    with assms show "Ready (map (slot n s) [0..<n] ! i) \<noteq> 0" by (simp add: ring_def)
  next
    assume "c < length (map (slot n s) [0..<n])"
    with assms show "\<not> Ready (map (slot n s) [0..<n] ! c) \<noteq> 0" by (auto simp: ring_def)
  qed
  with assms show ?thesis by (simp add: ring_q_def take_map ring_def comp_def)
qed

lemma ring_write_slot: "ring n c s \<Longrightarrow> nodes s ! pWrite s = slot n s c"
  by (simp add: ring_def slot_def)

lemma ring_write_free: "ring n c s \<Longrightarrow> Ready (nodes s ! pWrite s) = 0 \<longleftrightarrow> c < n"
proof (cases "c < n")
  case True
  assume "ring n c s"
  with True show ?thesis using ring_ready [of n c s c] by (simp add: ring_write_slot)
next
  case False
  assume r: "ring n c s"
  with False have c: "c = n" using ringD(3) by fastforce
  with r have "nodes s ! pWrite s = slot n s 0" using ringD [OF r] by (simp add: slot_def)
  moreover have "Ready (slot n s 0) \<noteq> 0" using ring_ready [OF r] ringD(2) [OF r] c by auto
  ultimately show ?thesis using c by simp
qed

lemma slot_put:
  assumes "ring n c s" and "c < n" and "k < n"
  shows "slot n (put_frame d s) k =
    (if k = c then (slot n s c)\<lparr>Data := take 20 d, Ready := 1\<rparr> else slot n s k)"
proof -
  note w = ringD [OF assms(1)]
  have f: "Ready (nodes s ! pWrite s) = 0" using assms ring_write_free by blast
  have "k \<noteq> c \<Longrightarrow> (pRead s + c) mod n \<noteq> (pRead s + k) mod n"
    using slot_neq [of "pRead s" n c k] slot_neq [of "pRead s" n k c] assms w by (metis linorder_neqE_nat)
  with w f assms show ?thesis by (auto simp: slot_def put_frame_def)
qed

lemma ring_put:
  assumes "ring n c s" and "c < n"
  shows "ring n (Suc c) (put_frame d s)"
proof -
  note w = ringD [OF assms(1)] and x = ringD(5) [OF assms(1)]
  have f: "Ready (nodes s ! pWrite s) = 0" using assms ring_write_free by blast
  have "nxt (nodes s ! pWrite s) = (pRead s + Suc c) mod n"
    using x w by (simp add: mod_Suc_eq)
  moreover have "\<forall>j<n. nxt (nodes (put_frame d s) ! j) = (j + 1) mod n"
    using x w by (auto simp: put_frame_def nth_list_update)
  moreover have "\<forall>k<n. (Ready (slot n (put_frame d s) k) \<noteq> 0) = (k < Suc c)"
    using assms by (auto simp: slot_put ring_ready less_Suc_eq)
  ultimately show ?thesis
    using w(1-4) f assms(2) by (simp add: ring_def) (simp add: put_frame_def)
qed

lemma ring_q_put:
  assumes "ring n c s" and "c < n" and "length d = 20"
  shows "ring_q n (put_frame d s) = ring_q n s @ [d]"
  using assms
  by (simp add: ring_q_eq [OF assms(1)] ring_q_eq [OF ring_put [OF assms(1,2)]] slot_put)

lemma slot_release:
  assumes "ring n (Suc c) s" and "k < n"
  shows "slot n (release s) k =
    (if Suc k = n then (slot n s 0)\<lparr>Ready := 0\<rparr> else slot n s (Suc k))"
proof -
  note w = ringD [OF assms(1)] ring_first [OF assms(1)]
  have "Suc k < n \<Longrightarrow> pRead s \<noteq> (pRead s + Suc k) mod n"
    using slot_neq [of "pRead s" n 0 "Suc k"] w by simp
  moreover have "Suc k = n \<Longrightarrow> (pRead s + Suc k) mod n = pRead s" using w by simp
  moreover have "slot n (release s) k =
      (nodes s)[pRead s := (nodes s ! pRead s)\<lparr>Ready := 0\<rparr>] ! ((pRead s + Suc k) mod n)"
    using w slot_step [of "pRead s" n k] by (simp add: slot_def release_def)
  ultimately show ?thesis using w(1-4) assms(2)
    by (cases "Suc k = n") (simp_all add: slot_def)
qed

lemma ring_release:
  assumes "ring n (Suc c) s"
  shows "ring n c (release s)"
proof -
  note w = ringD(1-4) [OF assms] ring_first [OF assms] and x = ringD(5) [OF assms]
  have "\<forall>j<n. nxt (nodes (release s) ! j) = (j + 1) mod n"
    using x w by (auto simp: release_def nth_list_update)
  moreover have "\<forall>k<n. (Ready (slot n (release s) k) \<noteq> 0) = (k < c)"
    using assms w by (auto simp: slot_release ring_ready)
  ultimately show ?thesis
    using w x by (simp add: ring_def) (simp add: release_def mod_add_left_eq)
qed

lemma ring_q_release:
  assumes "ring n (Suc c) s"
  shows "ring_q n (release s) = tl (ring_q n s)"
  using ringD(3) [OF assms]
  by (auto simp: ring_q_eq [OF assms] ring_q_eq [OF ring_release [OF assms]] slot_release [OF assms] upt_conv_Cons
      map_Suc_upt [symmetric] simp del: upt_Suc)

lemma release_empty: "ring n 0 s \<Longrightarrow> 0 < n \<Longrightarrow> release s = s"
  using ring_ready [of n 0 s 0] ringD(2) [of n 0 s] by (simp add: release_def slot_def)

interpretation vq: fifo_drop_new "\<lambda>s. 0 < n \<and> (\<exists>c. ring n c s)" "\<lambda>d. length d = 20" "ring_q n" n put_frame release
  for n
proof (unfold_locales, goal_cases)
  case (1 s)
  then obtain c where "ring n c s" by blast
  then show ?case using ringD(3) by (simp add: ring_q_eq)
next
  case (2 s x)
  then show ?case by (auto simp: ring_q_eq intro!: exI [of _ "Suc _"] ring_put)
next
  case (3 s)
  then obtain c where "ring n c s" "0 < n" by auto
  then show ?case by (cases c) (auto simp: release_empty intro: ring_release)
next
  case (4 s x)
  then show ?case by (auto simp: ring_q_put ring_q_eq)
next
  case (5 s)
  then obtain c where "ring n c s" "0 < n" by auto
  then show ?case by (cases c) (auto simp: release_empty ring_q_eq ring_q_release)
next
  case (6 s x)
  then obtain c where c: "ring n c s" "c = n" by (auto simp: ring_q_eq)
  with 6 show ?case using ring_write_free [OF c(1)] by (auto simp: put_frame_def)
next
  case (7 s x)
  then obtain c where c: "ring n c s" "c = n" by (auto simp: ring_q_eq)
  with 7 show ?case using ring_write_free [OF c(1)] by (auto simp: put_frame_def)
qed

section \<open>Frames are played in order\<close>

definition chain :: "nat \<Rightarrow> dec \<Rightarrow> bool" where
  "chain m s \<longleftrightarrow> length (nodes s) = Suc m \<and> pRead s = m \<and> pWrite s = 0 \<and>
    (\<forall>j<m. nxt (nodes s ! j) = Suc j) \<and> (\<forall>j\<le>m. Ready (nodes s ! j) = 0)"

lemma ring_loop_chain:
  "chain m s \<Longrightarrow> k \<le> length mem \<Longrightarrow> \<exists>s'. ring_loop k mem s = Ok s' \<and> chain (m + k) s'"
proof (induction k mem s arbitrary: m rule: ring_loop.induct)
  case (1 mem s)
  then show ?case by simp
next
  case (2 k mem s)
  then obtain b mem1 where m: "mem = b # mem1" "k \<le> length mem1" by (cases mem) auto
  let ?s = "s\<lparr>nodes := (nodes s)[pRead s := (nodes s ! pRead s)\<lparr>nxt := length (nodes s)\<rparr>] @ [b\<lparr>Ready := 0\<rparr>],
               pRead := length (nodes s)\<rparr>"
  have "chain (Suc m) ?s"
    using 2(2) by (auto simp: chain_def nth_append nth_list_update less_Suc_eq le_Suc_eq)
  with 2(1) [OF m(1) refl, of "Suc m"] m show ?case by (simp add: Let_def)
qed

lemma init_ring:
  assumes "unat num < 65535" and "max 1 (unat num) \<le> length mem"
  shows "\<exists>s. ReceiveBufInit num mem = Ok s \<and> ring (max 1 (unat num)) 0 s"
proof -
  from assms obtain b mem1 where m: "mem = b # mem1" "unat num - 1 \<le> length mem1" by (cases mem) auto
  have "chain 0 \<lparr>nodes = [b\<lparr>Ready := 0\<rparr>], pRead = 0, pWrite = 0\<rparr>" by (simp add: chain_def)
  from ring_loop_chain [OF this m(2)] obtain s where
    s: "ring_loop (unat num - 1) mem1 \<lparr>nodes = [b\<lparr>Ready := 0\<rparr>], pRead = 0, pWrite = 0\<rparr> = Ok s"
    "chain (unat num - 1) s" by auto
  let ?s = "s\<lparr>nodes := (nodes s)[pRead s := (nodes s ! pRead s)\<lparr>nxt := pWrite s\<rparr>], pRead := pWrite s\<rparr>"
  have n: "max 1 (unat num) = Suc (unat num - 1)" by simp
  have "ring (max 1 (unat num)) 0 ?s"
    using s(2) unfolding n ring_def slot_def chain_def
    by (auto simp: nth_list_update less_Suc_eq_le mod_less mod_Suc)
  moreover have "ReceiveBufInit num mem = Ok ?s" using assms m s by (simp add: ReceiveBufInit_def)
  ultimately show ?thesis by blast
qed

text \<open>The reference: a bounded queue of frames, the oldest of which is decoded and played.\<close>

fun voice_spec :: "nat \<Rightarrow> ('d \<Rightarrow> u8 list \<Rightarrow> u16 list \<times> 'd) \<Rightarrow> vop list \<Rightarrow> u8 list list \<Rightarrow> 'd \<Rightarrow> vout list" where
  "voice_spec n decode [] fs d = []"
| "voice_spec n decode (Arrive x # ops) fs d =
    (if length fs < n then Returned 0 [SemRelease ''DecoderSem''] # voice_spec n decode ops (fs @ [x]) d
     else Returned 1 [] # voice_spec n decode ops fs d)"
| "voice_spec n decode (Pass k # ops) fs d =
    (case fs of
       [] \<Rightarrow> Played [] # voice_spec n decode ops [] d
     | f # fs1 \<Rightarrow> (case decode d f of (pcm, d1) \<Rightarrow>
         Played (Write pcm # (if k < 320 then [Open, Control 4] else [])) # voice_spec n decode ops fs1 d1))"

definition fit :: "vop \<Rightarrow> bool" where
  "fit x = (case x of Arrive f \<Rightarrow> length f = 20 | Pass k \<Rightarrow> True)"

lemma ring_head:
  assumes "ring n (Suc c) s"
  shows "\<exists>fs. ring_q n s = Data (nodes s ! pRead s) # fs"
  using ringD [OF assms] by (simp add: ring_q_eq [OF assms] slot_def upt_conv_Cons del: upt_Suc)

lemma voice_refines:
  "ring n c s \<Longrightarrow> 0 < n \<Longrightarrow> list_all fit ops \<Longrightarrow>
    \<exists>sd. voice_run decode ops (s, d) = Ok (voice_spec n decode ops (ring_q n s) d, sd)"
proof (induction ops arbitrary: c s d)
  case Nil
  then show ?case by simp
next
  case (Cons x ops)
  note r = Cons.prems(1)
  have lq: "length (ring_q n s) = c" using ring_q_eq [OF r] by simp
  show ?case
  proof (cases x)
    case (Arrive f)
    then have f: "length f = 20" using Cons.prems by (simp add: fit_def)
    have w: "pWrite s < length (nodes s)" using ringD [OF r] by simp
    show ?thesis
    proof (cases "c < n")
      case True
      then have "ring_q n (put_frame f s) = ring_q n s @ [f]"
        using vq.q_put [of n s f] r f lq by auto
      with True Cons.IH [OF ring_put [OF r True, of f], where d = d] Cons.prems f w lq ring_write_free [OF r] Arrive
      show ?thesis by (auto simp: CopyToDecoderBuf_def)
    next
      case False
      with Cons.IH [OF r, where d = d] Cons.prems f w lq ring_write_free [OF r] Arrive
      show ?thesis by (auto simp: CopyToDecoderBuf_def)
    qed
  next
    case (Pass k)
    have p: "pRead s < length (nodes s)" using ringD [OF r] by simp
    show ?thesis
    proof (cases c)
      case 0
      with r have "Ready (nodes s ! pRead s) = 0"
        using ring_ready [of n 0 s 0] ringD(2) [OF r] Cons.prems by (simp add: slot_def)
      with Cons.IH [OF r, where d = d] Cons.prems Pass p lq 0 show ?thesis
        by (auto simp: decoder_pass_def)
    next
      case (Suc c')
      with r have r': "ring n (Suc c') s" by simp
      obtain pcm d1 where pcm: "decode d (Data (nodes s ! pRead s)) = (pcm, d1)" by fastforce
      from Cons.IH [OF ring_release [OF r'], where d = d1] Cons.prems Pass p pcm ring_head [OF r'] ring_first [OF r']
      show ?thesis by (auto simp: decoder_pass_def ring_q_release [OF r'] FRAME_SIZE_def)
    qed
  qed
qed

text \<open>
  A burst of frames while the decoder does not run: the first \<open>num\<close> are kept and the rest is
  refused, whatever their number.
\<close>

lemma voice_burst_keeps_first:
  assumes "ring n 0 s" and "list_all (\<lambda>f. length f = 20) fs"
  shows "ring_q n (fold put_frame fs s) = take n fs"
  using vq.q_puts_take [of n s fs] assms ringD(2) [OF assms(1)] ring_q_eq [OF assms(1)] by auto

end
