(* ===== verification/Panel.thy ===== *)
theory Panel
  imports Base
begin

text \<open>
  The operating panel: the talk button (\<open>MySouce/Keyboard/Keyboard.c\<close>), the lamps and their
  thread (\<open>LED/LED_my.c\<close>), the alarm button (\<open>LED/ManualAlarm.c\<close>), the buzzer
  (\<open>LED/beep.c\<close>), the supply supervision pin (\<open>LED/LowVoltageDetecte.c\<close>) and the processor
  load meter (\<open>cpuUsage/cpuusage.c\<close>). Pins that are read are inputs; pins that are written are
  part of the state. The set-up of the pins' registers is not modelled.
\<close>

section \<open>Lamps\<close>

text \<open>
  \<open>low\<close> holds the lamps whose pin is low: a lamp is lit by a low pin. \<open>ManualAlarmStatus\<close> is the
  flag of the alarm interrupt and \<open>pending\<close> the interrupt line's pending bit.
\<close>

record panel =
  low :: "nat list"
  led_inited :: bool
  ManualAlarmStatus :: u8
  pending :: bool
  beep_low :: bool

definition lit :: "nat \<Rightarrow> panel \<Rightarrow> bool" where
  "lit n p \<longleftrightarrow> n \<in> set (low p)"

definition rt_hw_led_on :: "nat \<Rightarrow> panel \<Rightarrow> panel" where
  "rt_hw_led_on n p = (if n \<in> {1, 2, 3, 4} then p\<lparr>low := List.insert n (low p)\<rparr> else p)"

definition rt_hw_led_off :: "nat \<Rightarrow> panel \<Rightarrow> panel" where
  "rt_hw_led_off n p = (if n \<in> {1, 2, 3, 4} then p\<lparr>low := removeAll n (low p)\<rparr> else p)"

definition rt_hw_led_init :: "panel \<Rightarrow> panel" where
  "rt_hw_led_init p = rt_hw_led_off 4 (rt_hw_led_off 3 (rt_hw_led_off 2 (rt_hw_led_off 1 p)))"

definition led :: "nat \<Rightarrow> nat \<Rightarrow> panel \<Rightarrow> panel" where
  "led l v p0 =
    (let p = (if led_inited p0 then p0 else (rt_hw_led_init p0)\<lparr>led_inited := True\<rparr>) in
     if l \<in> {1, 2, 3, 4} then
       (if v = 0 then rt_hw_led_off l p else if v = 1 then rt_hw_led_on l p else p)
     else p)"

lemma lit_on: "n \<in> {1, 2, 3, 4} \<Longrightarrow> lit m (rt_hw_led_on n p) = (m = n \<or> lit m p)"
  by (simp add: lit_def rt_hw_led_on_def)

lemma lit_off: "n \<in> {1, 2, 3, 4} \<Longrightarrow> lit m (rt_hw_led_off n p) = (m \<noteq> n \<and> lit m p)"
  by (auto simp: lit_def rt_hw_led_off_def)

lemma led_fields:
  "ManualAlarmStatus (rt_hw_led_on n p) = ManualAlarmStatus p"
  "ManualAlarmStatus (rt_hw_led_off n p) = ManualAlarmStatus p"
  by (simp_all add: rt_hw_led_on_def rt_hw_led_off_def)

lemma led_sets:
  "led_inited p \<Longrightarrow> l \<in> {1, 2, 3, 4} \<Longrightarrow> v \<le> 1 \<Longrightarrow>
    lit m (led l v p) = (if m = l then v = 1 else lit m p)"
  by (auto simp: led_def lit_on lit_off)

section \<open>Buzzer, alarm button and the lamp thread\<close>

definition beep_On_time :: "16 word \<Rightarrow> call list res" where
  "beep_On_time n =
    (if \<not> n <s 20 then Halt else Ok (replicate (nat (sint n)) (SemRelease ''beep'')))"

text \<open>One pass of the buzzer's thread: the levels it drives, with the delays between.\<close>

definition beep_pass :: "panel \<Rightarrow> (call list \<times> bool list) \<times> panel" where
  "beep_pass p = (([Delay (RT_TICK_PER_SECOND div 10), Delay (RT_TICK_PER_SECOND div 10)], [True, False]),
    p\<lparr>beep_low := False\<rparr>)"

definition EXTI4_IRQHandler :: "panel \<Rightarrow> panel" where
  "EXTI4_IRQHandler p = (if pending p then p\<lparr>ManualAlarmStatus := 1, pending := False\<rparr> else p)"

definition ManualAlarm_IsInterrupt :: "panel \<Rightarrow> bool \<times> panel" where
  "ManualAlarm_IsInterrupt p =
    (if ManualAlarmStatus p \<noteq> 0 then (True, p\<lparr>ManualAlarmStatus := 0\<rparr>) else (False, p))"

text \<open>The first half of a pass of the lamp thread (up to the first delay) and the second.\<close>

definition led_pass :: "bool \<Rightarrow> panel \<Rightarrow> (call list \<times> panel) res" where
  "led_pass lvd p0 =
    (case ManualAlarm_IsInterrupt p0 of (hit, p) \<Rightarrow>
      rbind (if hit then beep_On_time 2 else Ok []) (\<lambda>c1.
      rbind (if \<not> lvd then beep_On_time 3 else Ok []) (\<lambda>c2.
        Ok (c1 @ c2 @ [Delay RT_TICK_PER_SECOND],
          rt_hw_led_on 3 (if hit then rt_hw_led_on 2 p else rt_hw_led_off 2 p)))))"

definition led_pass_end :: "panel \<Rightarrow> call list \<times> panel" where
  "led_pass_end p = ([Delay RT_TICK_PER_SECOND], rt_hw_led_off 3 p)"

definition press :: "panel \<Rightarrow> panel" where
  "press p = EXTI4_IRQHandler (p\<lparr>pending := True\<rparr>)"

lemma beeps: "beep_On_time 2 = Ok (replicate 2 (SemRelease ''beep''))"
  "beep_On_time 3 = Ok (replicate 3 (SemRelease ''beep''))"
  by (simp_all add: beep_On_time_def word_sless_alt)

lemma presses: "ManualAlarmStatus ((press ^^ n) p) = (if n = 0 then ManualAlarmStatus p else 1)"
  by (cases n) (simp_all add: press_def EXTI4_IRQHandler_def)

text \<open>
  Any number of presses of the alarm button between two passes is reported once: the lamp is
  lit and the buzzer sounds twice, and the pass after it puts the lamp out.
\<close>

lemma alarm_reported:
  assumes "0 < n"
  shows "\<exists>p1 p2. led_pass True ((press ^^ n) p) =
      Ok (replicate 2 (SemRelease ''beep'') @ [Delay 100], p1) \<and> lit 2 p1 \<and> lit 3 p1 \<and>
    led_pass True (snd (led_pass_end p1)) = Ok ([Delay 100], p2) \<and> \<not> lit 2 p2 \<and> lit 3 p2"
  using assms
  by (simp add: led_pass_def ManualAlarm_IsInterrupt_def presses beeps lit_on lit_off led_fields led_pass_end_def)

section \<open>The talk button\<close>

definition rt_hw_Keyboard_open :: "u16 \<Rightarrow> u16 \<Rightarrow> u16 res" where
  "rt_hw_Keyboard_open flags oflag = (if oflag \<noteq> 0 then Halt else Ok (or flags (or 8 oflag)))"

definition rt_hw_Keyboard_write :: "nat res" where
  "rt_hw_Keyboard_write = Halt"

text \<open>
  \<open>LastPPTstate\<close> and the panel; \<open>rt_hw_Keyboard_read\<close> stores the level of the button's pin (low
  when it is pressed), which is the input of the pass.
\<close>

record keys =
  LastPPTstate :: bool
  pan :: panel

definition key_pass :: "bool \<Rightarrow> keys \<Rightarrow> call list \<times> keys" where
  "key_pass level k =
    (if level then
       (if \<not> LastPPTstate k
        then ([DevClose ''record'', Delay (RT_TICK_PER_SECOND div 2)],
              k\<lparr>LastPPTstate := True, pan := rt_hw_led_off 1 (pan k)\<rparr>)
        else ([Delay (RT_TICK_PER_SECOND div 2)], k))
     else
       (if LastPPTstate k
        then ([SemRelease ''beep'', DevOpen ''record'' 1, Delay (RT_TICK_PER_SECOND div 2)],
              k\<lparr>LastPPTstate := False, pan := rt_hw_led_on 1 (pan k)\<rparr>)
        else ([Delay (RT_TICK_PER_SECOND div 2)], k)))"

text \<open>What the calls do to the recording device and to the buzzer.\<close>

fun recording :: "call list \<Rightarrow> bool \<Rightarrow> bool" where
  "recording [] r = r"
| "recording (DevOpen d f # cs) r = recording cs (d = ''record'' \<or> r)"
| "recording (DevClose d # cs) r = recording cs (d \<noteq> ''record'' \<and> r)"
| "recording (c # cs) r = recording cs r"

definition beep_count :: "call list \<Rightarrow> nat" where
  "beep_count cs = length (filter ((=) (SemRelease ''beep'')) cs)"

text \<open>The number of times a level sequence falls, from a given level.\<close>

fun falls :: "bool \<Rightarrow> bool list \<Rightarrow> nat" where
  "falls l [] = 0"
| "falls l (x # xs) = (if l \<and> \<not> x then 1 else 0) + falls x xs"

lemma recording_append: "recording (cs @ ds) r = recording ds (recording cs r)"
  by (induction cs r rule: recording.induct) auto

lemma beep_count_append: "beep_count (cs @ ds) = beep_count cs + beep_count ds"
  by (simp add: beep_count_def)

definition key_inv :: "keys \<Rightarrow> bool \<Rightarrow> bool" where
  "key_inv k r \<longleftrightarrow> r = (\<not> LastPPTstate k) \<and> lit 1 (pan k) = (\<not> LastPPTstate k)"

lemma key_run:
  "key_inv k r \<Longrightarrow> run key_pass xs k = (cs, k') \<Longrightarrow>
    key_inv k' (recording cs r) \<and> LastPPTstate k' = last (LastPPTstate k # xs) \<and>
    beep_count cs = falls (LastPPTstate k) xs"
proof (induction xs arbitrary: k r cs)
  case Nil
  then show ?case by (simp add: beep_count_def)
next
  case (Cons x xs)
  obtain c1 k1 where 1: "key_pass x k = (c1, k1)" by fastforce
  obtain c2 where 2: "run key_pass xs k1 = (c2, k')" "cs = c1 @ c2"
    using Cons.prems(2) 1 by (auto split: prod.splits)
  have "key_inv k1 (recording c1 r) \<and> LastPPTstate k1 = x \<and>
      beep_count c1 = (if LastPPTstate k \<and> \<not> x then 1 else 0)"
    using 1 Cons.prems(1) by (auto simp: key_pass_def key_inv_def beep_count_def lit_on lit_off split: if_splits)
  with Cons.IH [of k1 "recording c1 r" c2] 2 show ?case
    by (simp add: recording_append beep_count_append)
qed

text \<open>
  Once the talk button has been seen released, the thread follows it: after any sequence of
  samples the recording device is open and lamp 1 lit exactly when the button was down in the
  last sample, and the buzzer has sounded once for every time it went down. (The thread starts
  with the button taken as down, so a button held since start-up records nothing until it has
  been released once.)
\<close>

lemma talk_button_followed:
  "\<not> LastPPTstate k \<Longrightarrow> run key_pass (replicate n False @ True # xs) k = (cs, k') \<Longrightarrow>
    recording cs False = (\<not> last (True # xs)) \<and> lit 1 (pan k') = (\<not> last (True # xs)) \<and>
    beep_count cs = falls True xs"
proof -
  assume k: "\<not> LastPPTstate k" and r: "run key_pass (replicate n False @ True # xs) k = (cs, k')"
  have held: "run key_pass (replicate n False) k = (replicate n (Delay 50), k)"
    using k by (induction n) (simp_all add: key_pass_def)
  let ?k = "k\<lparr>LastPPTstate := True, pan := rt_hw_led_off 1 (pan k)\<rparr>"
  have rel: "key_pass True k = ([DevClose ''record'', Delay 50], ?k)" using k by (simp add: key_pass_def)
  obtain c2 where c2: "run key_pass xs ?k = (c2, k')" "cs = replicate n (Delay 50) @ [DevClose ''record'', Delay 50] @ c2"
    using r by (auto simp: run_append held rel split: prod.splits)
  have no: "\<not> recording (replicate n (Delay 50)) False" by (induction n) simp_all
  have nb: "beep_count (replicate n (Delay 50)) = 0" by (simp add: beep_count_def)
  have "key_inv ?k False" by (simp add: key_inv_def lit_off)
  from key_run [OF this c2(1)] c2(2) no nb show ?thesis
    by (simp add: recording_append beep_count_append key_inv_def) (simp add: beep_count_def)
qed

definition keys0 :: keys where
  "keys0 = \<lparr>LastPPTstate = False,
    pan = \<lparr>low = [], led_inited = False, ManualAlarmStatus = 0, pending = False, beep_low = True\<rparr>\<rparr>"

lemma talk_button_followed_witness:
  "\<exists>cs k'. run key_pass [False, False, True, False, True, False] keys0 = (cs, k') \<and>
    recording cs False \<and> lit 1 (pan k') \<and> beep_count cs = 2"
proof -
  obtain cs k' where r: "run key_pass (replicate 2 False @ True # [False, True, False]) keys0 = (cs, k')"
    by fastforce
  from talk_button_followed [OF _ r] have "recording cs False \<and> lit 1 (pan k') \<and> beep_count cs = 2"
    by (simp add: keys0_def)
  with r show ?thesis by (auto simp: numeral_2_eq_2)
qed

section \<open>The load meter\<close>

text \<open>
  The idle hook counts loops for ten ticks. \<open>measured\<close> is what the first loop counts (only when
  no total is known) and \<open>count\<close> what the second counts; the counters are 32 bits wide and the
  two results 8 bits.
\<close>

record cpu =
  total_count :: u32
  cpu_usage_major :: u8
  cpu_usage_minor :: u8

definition cpu_usage_idle_hook :: "u32 \<Rightarrow> u32 \<Rightarrow> cpu \<Rightarrow> cpu" where
  "cpu_usage_idle_hook measured count c0 =
    (let c = (if total_count c0 = 0 then c0\<lparr>total_count := measured\<rparr> else c0); t = total_count c in
     if count < t then
       (let d = t - count in
        c\<lparr>cpu_usage_major := ucast (d * 100 div t), cpu_usage_minor := ucast (d * 100 mod t * 100 div t)\<rparr>)
     else c\<lparr>total_count := count, cpu_usage_major := 0, cpu_usage_minor := 0\<rparr>)"

definition cpu_usage_get :: "cpu \<Rightarrow> u8 \<times> u8" where
  "cpu_usage_get c = (cpu_usage_major c, cpu_usage_minor c)"

text \<open>What the reporting thread prints.\<close>

definition cpu_usage_report :: "cpu \<Rightarrow> u8 \<times> u8" where
  "cpu_usage_report c = (case cpu_usage_get c of (major, minor) \<Rightarrow> if major \<ge> 100 then (100, 0) else (major, minor))"

lemma times_100: "unat e < 42949673 \<Longrightarrow> unat (e * 100) = unat e * 100" for e :: u32
  by (simp add: unat_word_ariths)

lemma div_hundredths: "(d * 100 div t) * 100 + d * 100 mod t * 100 div t = d * 10000 div t" if "0 < t" for d t :: nat
proof -
  have q: "d * 100 = d * 100 div t * t + d * 100 mod t" by simp
  have "d * 10000 = d * 100 * 100" by simp
  also have "\<dots> = (d * 100 div t * t + d * 100 mod t) * 100" using q by (rule arg_cong)
  also have "\<dots> = d * 100 mod t * 100 + (d * 100 div t * 100) * t"
    by (rule trans [OF add_mult_distrib]) (simp only: ac_simps)
  finally have "d * 10000 div t = (d * 100 mod t * 100 + (d * 100 div t * 100) * t) div t" by simp
  with that show ?thesis by simp
qed

lemma unat_to_u8: "unat w < 256 \<Longrightarrow> unat (ucast w :: u8) = unat w" for w :: u32
  by (simp add: unsigned_ucast_eq take_bit_nat_eq_self)

text \<open>
  C33. As long as a hundred times the idle count fits into 32 bits (a count below 42949673 in
  100 ms), the meter shows the share of the time that was not idle, in percent with two
  decimals, rounded down, and never more than 100.00.
\<close>

theorem cpu_usage_exact:
  "total_count c \<noteq> 0 \<Longrightarrow> unat (total_count c) < 42949673 \<Longrightarrow> count < total_count c \<Longrightarrow>
    cpu_usage_get (cpu_usage_idle_hook m count c) = (major, minor) \<Longrightarrow>
    unat major * 100 + unat minor =
      (unat (total_count c) - unat count) * 10000 div unat (total_count c) \<and>
    unat major \<le> 100 \<and> unat minor < 100"
proof -
  assume t: "total_count c \<noteq> 0" "unat (total_count c) < 42949673" "count < total_count c" and
    g: "cpu_usage_get (cpu_usage_idle_hook m count c) = (major, minor)"
  let ?T = "unat (total_count c)" and ?d = "total_count c - count"
  let ?D = "?T - unat count"
  have d: "unat ?d = ?D" using t(3) by (intro unat_sub) (rule order_less_imp_le)
  have T: "0 < ?T" "?D \<le> ?T" using t by (simp_all add: unat_gt_0)
  have m1: "unat (?d * 100) = ?D * 100" using times_100 [of ?d] d T t(2) by simp
  have q: "?D * 100 div ?T \<le> 100" using T by (metis div_le_mono mult.commute mult_le_mono2 nonzero_mult_div_cancel_right not_gr_zero)
  have r: "?D * 100 mod ?T < ?T" using T by simp
  have m2: "unat (?d * 100 mod total_count c * 100) = ?D * 100 mod ?T * 100"
    using times_100 [of "?d * 100 mod total_count c"] m1 r t(2) by (simp add: unat_mod)
  have q2: "?D * 100 mod ?T * 100 div ?T < 100" using r T by (simp add: div_less_iff_less_mult)
  have mm: "major = ucast (?d * 100 div total_count c)" "minor = ucast (?d * 100 mod total_count c * 100 div total_count c)"
    using g t by (simp_all add: cpu_usage_get_def cpu_usage_idle_hook_def Let_def)
  have "unat (?d * 100 div total_count c) = ?D * 100 div ?T" by (simp only: unat_div m1)
  then have "unat major = ?D * 100 div ?T" using q unfolding mm by (subst unat_to_u8) simp_all
  moreover have "unat (?d * 100 mod total_count c * 100 div total_count c) = ?D * 100 mod ?T * 100 div ?T"
    by (simp only: unat_div m2)
  then have "unat minor = ?D * 100 mod ?T * 100 div ?T" using q2 unfolding mm by (subst unat_to_u8) simp_all
  ultimately show ?thesis using q q2 div_hundredths [OF T(1), of ?D] by simp
qed

theorem cpu_usage_exact_witness:
  "cpu_usage_get (cpu_usage_idle_hook 0 1000 \<lparr>total_count = 3000, cpu_usage_major = 0, cpu_usage_minor = 0\<rparr>) = (66, 66) \<and>
    unat (66::u8) * 100 + unat (66::u8) = (unat (3000::u32) - unat (1000::u32)) * 10000 div unat (3000::u32)"
proof
  show g: "cpu_usage_get (cpu_usage_idle_hook 0 1000 \<lparr>total_count = 3000, cpu_usage_major = 0, cpu_usage_minor = 0\<rparr>) = (66, 66)"
    by (simp add: cpu_usage_get_def cpu_usage_idle_hook_def Let_def)
  show "unat (66::u8) * 100 + unat (66::u8) = (unat (3000::u32) - unat (1000::u32)) * 10000 div unat (3000::u32)"
    using cpu_usage_exact [OF _ _ _ g] by simp
qed

end
