(* ===== verification/Rfid.thy ===== *)
theory Rfid
  imports Base
begin

text \<open>
  The driver-card reader, \<open>MySouce/RFID/RFID_APP.c\<close>: one pass of the thread's loop, from the
  search for a card to the wait until it is taken away. The reader chip's driver is outside the
  sources; the results of its operations are inputs of the pass.
\<close>

datatype rcall =
    FindCard
  | Anticoll
  | SelCard
  | LoadPassword "u8 list"
  | Authenticate_A u8
  | ReadBlock u8
  | WriteBlock u8 "u8 list"
  | SendLCD u32
  | Beep bool
  | Pause nat

definition PassWord :: "u8 list" where
  "PassWord = [0xFF, 0xFF, 0xFF, 0xFF, 0xFF, 0xFF]"

text \<open>
  What the reader answers: success of the steps, the serial number, the bytes of the two reads
  (none when a read fails) and the number of bytes written.
\<close>

record answer =
  found :: bool
  serial :: "(u8 \<times> u8 \<times> u8 \<times> u8) option"
  selected :: bool
  loaded :: bool
  authentic :: bool
  read1 :: "u8 list"
  written :: nat
  read2 :: "u8 list"

text \<open>A read stores its bytes at the start of the 16-byte buffer \<open>DataBuf\<close>.\<close>

definition fill :: "u8 list \<Rightarrow> u8 list \<Rightarrow> u8 list" where
  "fill bs buf = bs @ drop (length bs) buf"

definition greeting :: "u8 \<times> u8 \<times> u8 \<times> u8 \<Rightarrow> u32 option" where
  "greeting snr =
    (if snr = (0xBC, 0x03, 0xDD, 0x0F) then Some 4
     else if snr = (0xDE, 0xFF, 0x4E, 0xE2) then Some 8
     else None)"

text \<open>The part of a pass after the authentication; the flag says that the card was handled.\<close>

definition card_data :: "bool \<Rightarrow> u8 \<times> u8 \<times> u8 \<times> u8 \<Rightarrow> answer \<Rightarrow> u8 list \<Rightarrow> rcall list \<times> u8 list \<times> bool" where
  "card_data lcd snr a buf =
    (if read1 a = [] then ([ReadBlock 1], buf, False)
     else
       (let b1 = map (\<lambda>x. x + 1) (fill (read1 a) buf) in
        if written a = 0 then ([ReadBlock 1, WriteBlock 1 b1], b1, False)
        else if read2 a = [] then ([ReadBlock 1, WriteBlock 1 b1, ReadBlock 1], b1, False)
        else
          ([ReadBlock 1, WriteBlock 1 b1, ReadBlock 1] @
             (case greeting snr of Some e \<Rightarrow> if lcd then [SendLCD e] else [] | None \<Rightarrow> []) @
             [Beep True, Pause (RT_TICK_PER_SECOND div 2), Beep False],
           fill (read2 a) b1, True)))"

text \<open>\<open>lcd\<close> says that the display's event exists.\<close>

definition card_pass :: "bool \<Rightarrow> answer \<Rightarrow> u8 list \<Rightarrow> rcall list \<times> u8 list \<times> bool" where
  "card_pass lcd a buf =
    (if \<not> found a then ([FindCard, Pause (RT_TICK_PER_SECOND div 5)], buf, False)
     else (case serial a of
        None \<Rightarrow> ([FindCard, Anticoll], buf, False)
      | Some snr \<Rightarrow>
          if \<not> selected a then ([FindCard, Anticoll, SelCard], buf, False)
          else if \<not> loaded a then ([FindCard, Anticoll, SelCard, LoadPassword PassWord], buf, False)
          else if \<not> authentic a then
            ([FindCard, Anticoll, SelCard, LoadPassword PassWord, Authenticate_A 1], buf, False)
          else (case card_data lcd snr a buf of (cs, r) \<Rightarrow>
            ([FindCard, Anticoll, SelCard, LoadPassword PassWord, Authenticate_A 1] @ cs, r))))"

text \<open>
  The wait for the card to leave: two searches a second; only the second one counts. \<open>near\<close> is
  the answer of the second search of each turn. The wait need not end.
\<close>

partial_function (option) wait_leave :: "(nat \<Rightarrow> bool) \<Rightarrow> nat \<Rightarrow> rcall list option" where
  "wait_leave near k =
    (if near k then Option.bind (wait_leave near (k + 1)) (\<lambda>cs.
       Some ([FindCard, FindCard, Pause RT_TICK_PER_SECOND] @ cs))
     else Some [FindCard, FindCard, Pause RT_TICK_PER_SECOND])"

lemma wait_leave_ends:
  "(\<forall>i<n. near (k + i)) \<Longrightarrow> \<not> near (k + n) \<Longrightarrow>
    wait_leave near k = Some (concat (replicate (Suc n) [FindCard, FindCard, Pause RT_TICK_PER_SECOND]))"
proof (induction n arbitrary: k)
  case 0
  then show ?case by (subst wait_leave.simps) simp
next
  case (Suc n)
  from Suc.prems(1) have "near k" and "\<forall>i<n. near (k + 1 + i)"
    by (auto dest: spec [of _ "Suc _"])
  with Suc.IH [of "k + 1"] Suc.prems(2) show ?case by (subst wait_leave.simps) simp
qed

lemma wait_leave_stays: "wait_leave near k = Some cs \<Longrightarrow> \<exists>n. \<not> near (k + n)"
proof (rule wait_leave.raw_induct [where P = "\<lambda>near k cs. \<exists>n. \<not> near (k + n)"])
  fix wl and near :: "nat \<Rightarrow> bool" and k cs
  assume rec: "\<And>near k cs. wl near k = Some cs \<Longrightarrow> \<exists>n. \<not> near (k + n)"
    and step: "(if near k then Option.bind (wl near (k + 1)) (\<lambda>cs. Some ([FindCard, FindCard, Pause RT_TICK_PER_SECOND] @ cs))
      else Some [FindCard, FindCard, Pause RT_TICK_PER_SECOND]) = Some cs"
  show "\<exists>n. \<not> near (k + n)"
  proof (cases "near k")
    case True
    with step obtain ds where "wl near (k + 1) = Some ds" by (auto simp: Option.bind_eq_Some_conv)
    from rec [OF this] obtain n where "\<not> near (k + 1 + n)" by blast
    then show ?thesis by (intro exI [of _ "Suc n"]) simp
  next
    case False
    then show ?thesis by (intro exI [of _ 0]) simp
  qed
qed

section \<open>What a pass does\<close>

definition conversed :: "answer \<Rightarrow> bool" where
  "conversed a \<longleftrightarrow> found a \<and> serial a \<noteq> None \<and> selected a \<and> loaded a \<and> authentic a \<and> read1 a \<noteq> []"

definition lcd_events :: "rcall list \<Rightarrow> u32 list" where
  "lcd_events cs = concat (map (\<lambda>c. case c of SendLCD e \<Rightarrow> [e] | _ \<Rightarrow> []) cs)"

definition writes :: "rcall list \<Rightarrow> (u8 \<times> u8 list) list" where
  "writes cs = concat (map (\<lambda>c. case c of WriteBlock b d \<Rightarrow> [(b, d)] | _ \<Rightarrow> []) cs)"

lemma card_pass_writes:
  "length buf = 16 \<Longrightarrow> length (read1 a) = 16 \<Longrightarrow>
    writes (fst (card_pass lcd a buf)) = (if conversed a then [(1, map (\<lambda>x. x + 1) (read1 a))] else [])"
  by (auto simp: card_pass_def card_data_def conversed_def writes_def fill_def Let_def split: option.splits)

lemma card_pass_events:
  "lcd_events (fst (card_pass lcd a buf)) =
    (if lcd \<and> conversed a \<and> written a \<noteq> 0 \<and> read2 a \<noteq> [] then
       (case greeting (the (serial a)) of Some e \<Rightarrow> [e] | None \<Rightarrow> []) else [])"
  by (auto simp: card_pass_def card_data_def conversed_def lcd_events_def Let_def split: option.splits)

text \<open>
  A pass changes exactly the first data block of a card, adding one to each of its bytes,
  and only after the card was selected and authenticated and the block was read; the display is
  told at most once, with the event of the card's number, and only when the block was also
  written and read back. A card whose number is not one of the two known ones has its block
  changed all the same.
\<close>

lemma card_pass_effects:
  "length buf = 16 \<Longrightarrow> length (read1 a) \<in> {0, 16} \<Longrightarrow>
    writes (fst (card_pass lcd a buf)) = (if conversed a then [(1, map (\<lambda>x. x + 1) (read1 a))] else []) \<and>
    lcd_events (fst (card_pass lcd a buf)) =
      (if lcd \<and> conversed a \<and> written a \<noteq> 0 \<and> read2 a \<noteq> [] then
         (case greeting (the (serial a)) of Some e \<Rightarrow> [e] | None \<Rightarrow> []) else []) \<and>
    (snd (snd (card_pass lcd a buf)) \<longleftrightarrow> conversed a \<and> written a \<noteq> 0 \<and> read2 a \<noteq> [])"
  using card_pass_events [of lcd a buf]
  by (auto simp: card_pass_def card_data_def conversed_def writes_def fill_def Let_def split: option.splits)

definition card1 :: answer where
  "card1 = \<lparr>found = True, serial = Some (0xBC, 0x03, 0xDD, 0x0F), selected = True, loaded = True,
    authentic = True, read1 = replicate 16 0xFF, written = 16, read2 = replicate 16 0\<rparr>"

lemma card_pass_effects_witness:
  "writes (fst (card_pass True card1 (replicate 16 0))) = [(1, replicate 16 0)] \<and>
    lcd_events (fst (card_pass True card1 (replicate 16 0))) = [4]"
  using card_pass_effects [of "replicate 16 0" card1 True]
  by (simp add: card1_def conversed_def greeting_def)

end
