(* ===== verification/Gnss.thy ===== *)
theory Gnss
  imports Voice
begin

text \<open>
  The platform protocol's application side: the splitter that hands a received message to the
  routine of its kind (\<open>MySouce/GNSS/GNSS_Splitter.c\<close>), and the threads of \<open>GNSS_APP.c\<close> that
  announce the authentication and upload a picture in packets. Parsing and building of messages
  (\<open>GNSS_Terminal\<close>, \<open>GNSS_Platform\<close>) is outside the sources: those routines are values of type
  \<open>act\<close>, and their results are inputs.
\<close>

section \<open>Messages\<close>

text \<open>The message numbers of \<open>GNSS.h\<close> the splitter looks at.\<close>

definition eServerCommonACK :: nat where "eServerCommonACK = 0x8001"
definition eTerminalRegisterACK :: nat where "eTerminalRegisterACK = 0x8100"
definition eSetTerminalParameters :: nat where "eSetTerminalParameters = 0x8103"
definition eGetTerminalParameters :: nat where "eGetTerminalParameters = 0x8104"
definition eTerminalControl :: nat where "eTerminalControl = 0x8105"
definition eGetLocationInformation :: nat where "eGetLocationInformation = 0x8201"
definition eTemporaryPositionTrackingControl :: nat where "eTemporaryPositionTrackingControl = 0x8202"
definition eTextMessage :: nat where "eTextMessage = 0x8300"
definition eQuestionDownlink :: nat where "eQuestionDownlink = 0x8302"
definition eSetInformationMenu :: nat where "eSetInformationMenu = 0x8303"
definition eInformationServices :: nat where "eInformationServices = 0x8304"
definition eCallBack :: nat where "eCallBack = 0x8400"
definition eUploadMultimediaDataACK :: nat where "eUploadMultimediaDataACK = 0x8800"
definition eStorageUploadMultimediaDataCMD :: nat where "eStorageUploadMultimediaDataCMD = 0x8803"
definition eSendVoiceData :: nat where "eSendVoiceData = 0x0AA0"

lemmas message_ids = eServerCommonACK_def eTerminalRegisterACK_def eSetTerminalParameters_def
  eGetTerminalParameters_def eTerminalControl_def eGetLocationInformation_def
  eTemporaryPositionTrackingControl_def eTextMessage_def eQuestionDownlink_def
  eSetInformationMenu_def eInformationServices_def eCallBack_def eUploadMultimediaDataACK_def
  eStorageUploadMultimediaDataCMD_def eSendVoiceData_def

record head =
  MessageID :: nat
  MessageLen :: nat
  MessageSerialNumber :: u16

text \<open>The routines the splitter calls; \<open>Upload\<close> is the thread started with a copy of the message.\<close>

datatype act =
    SearchAndExecute u16 u16 u8
  | GetACK_Register "u8 list"
  | RegisterEvent
  | Get_SetParam head "u8 list"
  | Get_QueryParam u16
  | Get_Control head "u8 list"
  | Get_QueryLocateInfo
  | Get_TempLocateTrack head "u8 list"
  | Get_TextInfo head "u8 list"
  | Get_Question head "u8 list"
  | Get_SetMenu head "u8 list"
  | Get_InfoService head "u8 list"
  | Get_PhoneCallBack head "u8 list"
  | GetAck_MultimediaUpload head "u8 list"
  | Upload head "u8 list"
  | VoiceData nat "call list"

definition be16 :: "u8 \<Rightarrow> u8 \<Rightarrow> u16" where
  "be16 h l = or (push_bit 8 (ucast h)) (ucast l)"

text \<open>
  \<open>body\<close> is the whole body buffer. \<open>reg\<close> is the result of the registration answer's routine,
  \<open>mem\<close> and \<open>thr\<close> the success of the allocation and of the creation of the upload thread.
\<close>

definition upload_start :: "bool \<Rightarrow> bool \<Rightarrow> head \<Rightarrow> u8 list \<Rightarrow> act list res" where
  "upload_start mem thr h body =
    (if \<not> mem then Halt else Ok (if thr then [Upload h (take (MessageLen h) body)] else []))"

definition dispatch :: "int \<Rightarrow> bool \<Rightarrow> bool \<Rightarrow> head \<Rightarrow> u8 list \<Rightarrow> act list res" where
  "dispatch reg mem thr h body =
    (let i = MessageID h in
     if i = eServerCommonACK then
       Ok [SearchAndExecute (be16 (body ! 0) (body ! 1)) (be16 (body ! 2) (body ! 3)) (body ! 4)]
     else if i = eTerminalRegisterACK then
       Ok (if reg = 0 then [GetACK_Register body, RegisterEvent] else [GetACK_Register body])
     else if i = eSetTerminalParameters then Ok [Get_SetParam h body]
     else if i = eGetTerminalParameters then Ok [Get_QueryParam (MessageSerialNumber h)]
     else if i = eTerminalControl then Ok [Get_Control h body]
     else if i = eGetLocationInformation then Ok [Get_QueryLocateInfo]
     else if i = eTemporaryPositionTrackingControl then Ok [Get_TempLocateTrack h body]
     else if i = eTextMessage then Ok [Get_TextInfo h body]
     else if i = eQuestionDownlink then Ok [Get_Question h body]
     else if i = eSetInformationMenu then Ok [Get_SetMenu h body]
     else if i = eInformationServices then Ok [Get_InfoService h body]
     else if i = eCallBack then Ok [Get_PhoneCallBack h body]
     else if i = eUploadMultimediaDataACK then Ok [GetAck_MultimediaUpload h body]
     else if i = eStorageUploadMultimediaDataCMD then upload_start mem thr h body
     else Ok [])"

text \<open>
  \<open>GNSS_Splitter\<close>: no message, a voice frame for the decoder's ring, or any other message.
\<close>

definition GNSS_Splitter :: "int \<Rightarrow> bool \<Rightarrow> bool \<Rightarrow> (head \<times> u8 list) option \<Rightarrow> dec \<Rightarrow> (act list \<times> dec) res" where
  "GNSS_Splitter reg mem thr m s =
    (case m of
       None \<Rightarrow> Ok ([], s)
     | Some (h, body) \<Rightarrow>
         if MessageID h = eSendVoiceData
         then rbind (CopyToDecoderBuf body s) (\<lambda>(r, cs, s1). Ok ([VoiceData r cs], s1))
         else rbind (dispatch reg mem thr h body) (\<lambda>as. Ok (as, s)))"

section \<open>The voice stream through the splitter\<close>

datatype gop = Message "(head \<times> u8 list) option" int | Decode nat

fun gop_step :: "('d \<Rightarrow> u8 list \<Rightarrow> u16 list \<times> 'd) \<Rightarrow> gop \<Rightarrow> dec \<times> 'd \<Rightarrow> (vout list \<times> dec \<times> 'd) res" where
  "gop_step decode (Message m reg) (s, d) =
    rbind (GNSS_Splitter reg True True m s) (\<lambda>(as, s1).
      Ok (concat (map (\<lambda>a. case a of VoiceData r cs \<Rightarrow> [Returned r cs] | _ \<Rightarrow> []) as), s1, d))"
| "gop_step decode (Decode n) (s, d) =
    rbind (decoder_pass decode n (s, d)) (\<lambda>(o1, sd1). Ok ([Played o1], sd1))"

fun gop_run :: "('d \<Rightarrow> u8 list \<Rightarrow> u16 list \<times> 'd) \<Rightarrow> gop list \<Rightarrow> dec \<times> 'd \<Rightarrow> (vout list \<times> dec \<times> 'd) res" where
  "gop_run decode [] sd = Ok ([], sd)"
| "gop_run decode (x # xs) sd =
    rbind (gop_step decode x sd) (\<lambda>(o1, sd1). rbind (gop_run decode xs sd1) (\<lambda>(os, sd2). Ok (o1 @ os, sd2)))"

text \<open>What concerns the voice: the first 20 bytes of the body of every voice message.\<close>

fun voice_ops :: "gop list \<Rightarrow> vop list" where
  "voice_ops [] = []"
| "voice_ops (Message m reg # xs) =
    (case m of None \<Rightarrow> voice_ops xs
     | Some (h, body) \<Rightarrow> if MessageID h = eSendVoiceData then Arrive (take 20 body) # voice_ops xs else voice_ops xs)"
| "voice_ops (Decode n # xs) = Pass n # voice_ops xs"

definition whole :: "gop \<Rightarrow> bool" where
  "whole x = (case x of Message (Some (h, body)) _ \<Rightarrow> length body = 1024 | _ \<Rightarrow> True)"

lemma copy_take: "20 \<le> length b \<Longrightarrow> CopyToDecoderBuf b s = CopyToDecoderBuf (take 20 b) s"
  by (simp add: CopyToDecoderBuf_def put_frame_def)

lemma dispatch_quiet:
  "\<exists>as. dispatch reg True True h body = Ok as \<and> concat (map (\<lambda>a. case a of VoiceData r cs \<Rightarrow> [Returned r cs] | _ \<Rightarrow> []) as) = []"
  by (simp add: dispatch_def Let_def upload_start_def)

lemma gop_step_voice:
  assumes "whole x"
  shows "gop_step decode x sd =
    (case voice_ops [x] of [] \<Rightarrow> Ok ([], sd) | v # _ \<Rightarrow> rbind (voice_step decode v sd) (\<lambda>(o1, sd1). Ok ([o1], sd1)))"
proof (cases x)
  case (Message m reg)
  obtain s d where sd: "sd = (s, d)" by (cases sd)
  show ?thesis
  proof (cases m)
    case None
    with Message sd show ?thesis by (simp add: GNSS_Splitter_def)
  next
    case (Some hb)
    then obtain h body where hb: "m = Some (h, body)" by (cases hb) auto
    show ?thesis
    proof (cases "MessageID h = eSendVoiceData")
      case True
      have "CopyToDecoderBuf body s = CopyToDecoderBuf (take 20 body) s"
        using assms Message hb by (intro copy_take) (simp add: whole_def)
      then have "gop_step decode x sd = rbind (CopyToDecoderBuf (take 20 body) s) (\<lambda>(r, cs, s1). Ok ([Returned r cs], s1, d))"
        using Message hb sd True
        by (cases "CopyToDecoderBuf (take 20 body) s") (auto simp: GNSS_Splitter_def)
      then show ?thesis using Message hb sd True
        by (cases "CopyToDecoderBuf (take 20 body) s") auto
    next
      case False
      with dispatch_quiet [of reg h body] Message hb sd show ?thesis by (auto simp: GNSS_Splitter_def)
    qed
  qed
next
  case (Decode n)
  then show ?thesis by (cases sd) (auto simp: rbind_def split: res.splits prod.splits)
qed

lemma voice_ops_Cons: "voice_ops (x # xs) = voice_ops [x] @ voice_ops xs"
  by (cases x) (auto split: option.splits)

lemma voice_ops_one: "length (voice_ops [x]) \<le> 1"
  by (cases x) (auto split: option.splits)

lemma gop_run_voice: "list_all whole xs \<Longrightarrow> gop_run decode xs sd = voice_run decode (voice_ops xs) sd"
proof (induction xs arbitrary: sd)
  case Nil
  then show ?case by simp
next
  case (Cons x xs)
  show ?case
  proof (cases "voice_ops [x]")
    case Nil
    with Cons gop_step_voice [of x decode sd] voice_ops_Cons [of x xs] show ?thesis
      by (auto simp: rbind_def split: res.splits prod.splits)
  next
    case (Cons v vs)
    with voice_ops_one [of x] have "voice_ops [x] = [v]" by simp
    with Cons.IH Cons.prems gop_step_voice [of x decode sd] voice_ops_Cons [of x xs] show ?thesis
      by (auto simp: rbind_def split: res.splits prod.splits)
  qed
qed

lemma voice_ops_fit: "list_all whole xs \<Longrightarrow> list_all fit (voice_ops xs)"
  by (induction xs rule: voice_ops.induct) (auto simp: fit_def whole_def split: option.splits)

text \<open>
  C24. Voice messages reach the loudspeaker through the splitter: for every sequence of received
  messages of any kind and of decoder passes in between, the voice messages' first 20 bytes are
  queued, decoded and played in the order of arrival, a frame being refused only when
  \<open>num\<close> frames wait, and no other message disturbs them.
\<close>

theorem splitter_voice_in_order:
  "unat num < 65535 \<Longrightarrow> max 1 (unat num) \<le> length mem \<Longrightarrow> list_all whole xs \<Longrightarrow>
    \<exists>s sd. ReceiveBufInit num mem = Ok s \<and>
      gop_run decode xs (s, d) = Ok (voice_spec (max 1 (unat num)) decode (voice_ops xs) [] d, sd)"
proof -
  assume n: "unat num < 65535" "max 1 (unat num) \<le> length mem" and o: "list_all whole xs"
  from init_ring [OF n] obtain s where s: "ReceiveBufInit num mem = Ok s" "ring (max 1 (unat num)) 0 s" by blast
  have "ring_q (max 1 (unat num)) s = []" using ring_q_eq [OF s(2)] by simp
  with voice_refines [OF s(2) _ voice_ops_fit [OF o], of decode d] gop_run_voice [OF o, of decode "(s, d)"] s
  show ?thesis by auto
qed

theorem splitter_voice_in_order_witness:
  "\<exists>s sd. ReceiveBufInit 2 (replicate 2 \<lparr>Ready = 9, Data = [], nxt = 7\<rparr>) = Ok s \<and>
    gop_run (\<lambda>d f. (map ucast f, d + 1))
      [Message (Some (\<lparr>MessageID = 0x0AA0, MessageLen = 20, MessageSerialNumber = 1\<rparr>, replicate 1024 5)) 0,
       Message (Some (\<lparr>MessageID = 0x8300, MessageLen = 3, MessageSerialNumber = 2\<rparr>, replicate 1024 65)) 0,
       Decode 320] (s, 0::nat) =
    Ok ([Returned 0 [SemRelease ''DecoderSem''], Played [Write (map ucast (replicate 20 (5::u8)))]], sd)"
  using splitter_voice_in_order [of 2 "replicate 2 \<lparr>Ready = 9, Data = [], nxt = 7\<rparr>"
      "[Message (Some (\<lparr>MessageID = 0x0AA0, MessageLen = 20, MessageSerialNumber = 1\<rparr>, replicate 1024 5)) 0,
       Message (Some (\<lparr>MessageID = 0x8300, MessageLen = 3, MessageSerialNumber = 2\<rparr>, replicate 1024 65)) 0,
       Decode 320]" "\<lambda>d f. (map ucast f, d + 1)" "0::nat"]
  by (simp add: whole_def message_ids)

section \<open>Authentication and picture upload\<close>

text \<open>
  Heap blocks and file descriptors in use. \<open>Register_thread_entry\<close> announces the authentication
  when the network is connected and returns; what follows its \<open>return\<close> is never executed. \<open>net\<close> says
  whether the event of the network it waits for ever comes; without it the thread stays, which is \<open>None\<close>.
\<close>

record upl =
  blocks :: nat
  descriptors :: nat

definition Register_thread_entry :: "bool \<Rightarrow> bool \<Rightarrow> upl \<Rightarrow> (call list \<times> upl) res option" where
  "Register_thread_entry mem net u =
    (if \<not> mem then Some Halt
     else if \<not> net then None
     else Some (Ok ([EventSend ''GlobalEvent'' 2], u\<lparr>blocks := blocks u + 1\<rparr>)))"

definition Authenticate_callback :: "u8 \<Rightarrow> u8 \<Rightarrow> call list \<times> u8" where
  "Authenticate_callback gResult Result = ([EventSend ''GNSSEvent'' 1], Result)"

definition Unregister_callback :: "u8 \<Rightarrow> u8 \<Rightarrow> call list \<times> u8" where
  "Unregister_callback gResult Result = ([EventSend ''GNSSEvent'' 1], Result)"

text \<open>A packet as \<open>GNSS_T_Ask_MultimediaUpload\<close> sees it, with the bytes \<open>pData\<close> points to.\<close>

record packet =
  MultimediaID :: u32
  mtype :: u8
  format :: u8
  event :: u8
  channelID :: u8
  TotalPackets :: u32
  PacketID :: u32
  plen :: u32
  pData :: "u8 list"

text \<open>
  What the thread does with a packet: it waits until the platform has accepted the terminal
  (\<open>AUTHENTCATED_EVENT\<close>, which it leaves set), asks for the packet to be sent, and pauses.
\<close>

datatype upload_act = Await u32 | Ask_MultimediaUpload packet | Pause nat

definition AUTHENTCATED_EVENT :: u32 where
  "AUTHENTCATED_EVENT = 2"

definition packet_acts :: "packet \<Rightarrow> upload_act list" where
  "packet_acts m = [Await AUTHENTCATED_EVENT, Ask_MultimediaUpload m, Pause (RT_TICK_PER_SECOND div 10)]"

text \<open>
  \<open>rd k\<close> is the result of the \<open>k\<close>-th \<open>read\<close> of 512 bytes: the returned number and the content
  of the buffer; \<open>auth k\<close> says whether the event the thread waits for behind it is ever there. The loop ends
  only when \<open>read\<close> returns 0; \<open>None\<close> is a loop that does not end, be it in a wait or reading on.
\<close>

partial_function (option) upload_loop :: "(nat \<Rightarrow> bool) \<Rightarrow> (nat \<Rightarrow> int \<times> u8 list) \<Rightarrow> nat \<Rightarrow> packet \<Rightarrow> upload_act list option" where
  "upload_loop auth rd k m =
    (if fst (rd k) = 0 then Some []
     else
       (let m1 = m\<lparr>PacketID := PacketID m + 1, pData := snd (rd k), plen := of_int (fst (rd k))\<rparr> in
        if \<not> auth k then None
        else Option.bind (upload_loop auth rd (k + 1) m1) (\<lambda>as. Some (packet_acts m1 @ as))))"

definition total_packets :: "u32 \<Rightarrow> u32" where
  "total_packets n = (if n mod 512 \<noteq> 0 then n div 512 + 1 else n div 512)"

text \<open>
  \<open>cmd\<close> is the answer of \<open>GNSS_T_Get_MultimediaUploadCMD\<close> (the picture's number on success),
  \<open>path\<close> and \<open>mem\<close> the success of the two allocations (the first is not checked: the path is
  printed through a null pointer when it failed), and \<open>pic\<close> the file named after the number, if there is
  one: its size and its reads. The result is \<open>None\<close> when the thread does not end. The block of
  the message is freed in all cases; the block of the path name is allocated and freed.
\<close>

definition MultimediaUpload_thread_entry ::
  "nat \<Rightarrow> u32 option \<Rightarrow> bool \<Rightarrow> bool \<Rightarrow> (u32 \<times> (nat \<Rightarrow> int \<times> u8 list)) option \<Rightarrow> (nat \<Rightarrow> bool) \<Rightarrow> upl \<Rightarrow>
    (upload_act list \<times> upl) res option" where
  "MultimediaUpload_thread_entry mid cmd path mem pic auth u =
    (let fin = u\<lparr>blocks := blocks u - 1\<rparr> in
     if mid \<noteq> eStorageUploadMultimediaDataCMD then Some (Ok ([], fin))
     else (case cmd of
        None \<Rightarrow> Some (Ok ([], fin))
      | Some i \<Rightarrow>
          if \<not> mem then Some (Ok ([], fin))
          else if \<not> path then Some Fault
          else (case pic of
             None \<Rightarrow> Some (Ok ([], fin))
           | Some (n, rd) \<Rightarrow>
               Option.bind
                 (upload_loop auth rd 0 \<lparr>MultimediaID = i, mtype = 0, format = 0, event = 0, channelID = 0,
                    TotalPackets = total_packets n, PacketID = 0, plen = 0, pData = []\<rparr>)
                 (\<lambda>as. Some (Ok (as, fin\<lparr>descriptors := descriptors u + 1\<rparr>))))))"

text \<open>The reads of a file: consecutive pieces of 512 bytes, then end of file.\<close>

definition file_reads :: "u8 list \<Rightarrow> nat \<Rightarrow> int \<times> u8 list" where
  "file_reads c k = (let b = take 512 (drop (512 * k) c) in (int (length b), b))"

lemma packets_step: "0 < n \<Longrightarrow> (n + 511) div 512 = Suc ((n - 512 + 511) div 512)" for n :: nat
proof (cases "n \<le> 512")
  case True
  assume "0 < n"
  with True have "(n + 511) div 512 = 1" by (intro div_nat_eqI) simp_all
  with True show ?thesis by simp
next
  case False
  then have "n + 511 = (n - 512 + 511) + 512" by simp
  then have "(n + 511) div 512 = ((n - 512 + 511) + 512) div 512" by (rule arg_cong)
  then show ?thesis by simp
qed

lemma upload_file:
  assumes "length c < 2 ^ 32" and "PacketID m = of_nat k"
  shows "\<exists>ms. (upload_loop auth (file_reads c) k m =
      (if \<forall>j \<in> {k..<k + length ms}. auth j then Some (concat (map packet_acts ms)) else None)) \<and>
    concat (map pData ms) = drop (512 * k) c \<and>
    map PacketID ms = map of_nat [k + 1..<k + 1 + (length c - 512 * k + 511) div 512] \<and>
    list_all (\<lambda>p. plen p = of_nat (length (pData p)) \<and> length (pData p) \<le> 512 \<and>
      MultimediaID p = MultimediaID m \<and> TotalPackets p = TotalPackets m) ms"
  using assms
proof (induction "length c - 512 * k" arbitrary: k m rule: less_induct)
  case less
  show ?case
  proof (cases "length c \<le> 512 * k")
    case True
    then show ?thesis by (subst upload_loop.simps) (simp add: file_reads_def)
  next
    case False
    let ?b = "take 512 (drop (512 * k) c)"
    let ?m = "m\<lparr>PacketID := PacketID m + 1, pData := ?b, plen := of_nat (length ?b)\<rparr>"
    have "length c - 512 * (k + 1) < length c - 512 * k" using False by simp
    moreover have "PacketID ?m = of_nat (k + 1)" using less.prems by simp
    ultimately obtain ms where ms: "upload_loop auth (file_reads c) (k + 1) ?m =
        (if \<forall>j \<in> {k + 1..<k + 1 + length ms}. auth j then Some (concat (map packet_acts ms)) else None)"
      "concat (map pData ms) = drop (512 * (k + 1)) c"
      "map PacketID ms = map of_nat [k + 1 + 1..<k + 1 + 1 + (length c - 512 * (k + 1) + 511) div 512]"
      "list_all (\<lambda>p. plen p = of_nat (length (pData p)) \<and> length (pData p) \<le> 512 \<and>
        MultimediaID p = MultimediaID ?m \<and> TotalPackets p = TotalPackets ?m) ms"
      using less.hyps [of "k + 1" ?m] less.prems by blast
    have n: "(length c - 512 * k + 511) div 512 = Suc ((length c - 512 * (k + 1) + 511) div 512)"
      using packets_step [of "length c - 512 * k"] False by (simp add: diff_diff_left add.commute)
    have split: "(\<forall>j \<in> {k..<k + Suc x}. auth j) \<longleftrightarrow> auth k \<and> (\<forall>j \<in> {k + 1..<k + 1 + x}. auth j)" for x
    proof -
      have "{k..<k + Suc x} = insert k {k + 1..<k + 1 + x}" by auto
      then show ?thesis by simp
    qed
    have e: "upload_loop auth (file_reads c) k m =
        (if \<forall>j \<in> {k..<k + length (?m # ms)}. auth j then Some (concat (map packet_acts (?m # ms))) else None)"
    proof -
      have r: "fst (file_reads c k) \<noteq> 0" "snd (file_reads c k) = ?b" "fst (file_reads c k) = int (length ?b)"
        using False by (simp_all add: file_reads_def Let_def)
      have t: "of_int (fst (file_reads c k)) = (of_nat (length ?b) :: u32)" by (simp add: r(3))
      show ?thesis
        by (subst upload_loop.simps) (simp only: r(1,2) t Let_def ms(1) length_Cons split if_False if_True, auto)
    qed
    have d: "?b @ drop (512 * (k + 1)) c = drop (512 * k) c"
      using append_take_drop_id [of 512 "drop (512 * k) c"] by (simp add: add.commute)
    show ?thesis
    proof (intro exI conjI)
      show "concat (map pData (?m # ms)) = drop (512 * k) c" using ms(2) d by simp
      show "map PacketID (?m # ms) = map of_nat [k + 1..<k + 1 + (length c - 512 * k + 511) div 512]"
      proof -
        have "[k + 1..<k + 1 + Suc x] = (k + 1) # [k + 1 + 1..<k + 1 + 1 + x]" for x
          by (subst upt_conv_Cons) simp_all
        moreover have "map PacketID (?m # ms) = of_nat (k + 1) # map PacketID ms" using less.prems by simp
        ultimately show ?thesis by (simp only: n ms(3) list.map)
      qed
    qed (use ms(4) e in simp_all)
  qed
qed

lemma upload_loop_zero: "upload_loop auth rd k m = Some as \<Longrightarrow> \<exists>j. fst (rd j) = 0"
proof (rule upload_loop.raw_induct [where P = "\<lambda>auth rd k m as. \<exists>j. fst (rd j) = 0"])
  fix ul and auth and rd :: "nat \<Rightarrow> int \<times> u8 list" and k m as
  assume rec: "\<And>auth rd k m as. ul auth rd k m = Some as \<Longrightarrow> \<exists>j. fst (rd j) = 0"
    and step: "(if fst (rd k) = 0 then Some []
     else
       (let m1 = m\<lparr>PacketID := PacketID m + 1, pData := snd (rd k), plen := of_int (fst (rd k))\<rparr> in
        if \<not> auth k then None
        else Option.bind (ul auth rd (k + 1) m1) (\<lambda>as. Some (packet_acts m1 @ as)))) = Some as"
  show "\<exists>j. fst (rd j) = 0"
  proof (cases "fst (rd k) = 0")
    case True
    then show ?thesis by blast
  next
    case False
    with step rec [of auth rd "k + 1"] show ?thesis by (auto simp: Let_def Option.bind_eq_Some_conv split: if_splits)
  qed
qed

lemma total_packets_eq:
  assumes "n < 2 ^ 32"
  shows "total_packets (of_nat n) = of_nat ((n + 511) div 512)"
proof -
  have u: "unat (of_nat n :: u32) = n" using assms by (simp add: unat_of_nat take_bit_nat_eq_self)
  have m: "(of_nat n :: u32) mod 512 = of_nat (n mod 512)" "(of_nat n :: u32) div 512 = of_nat (n div 512)"
    using u by (simp_all add: word_arith_nat_mod word_arith_nat_div)
  have z: "(of_nat (n mod 512) :: u32) = 0 \<longleftrightarrow> n mod 512 = 0"
  proof -
    have "n mod 512 < 512" by simp
    then have "n mod 512 < 2 ^ LENGTH(32)" by (rule less_trans) simp
    then have "unat (of_nat (n mod 512) :: u32) = n mod 512" by (rule unat_of_nat_lt)
    then show ?thesis by (simp only: unat_eq_zero [symmetric])
  qed
  have "(n + 511) div 512 = (if n mod 512 \<noteq> 0 then n div 512 + 1 else n div 512)"
  proof (cases "n mod 512 = 0")
    case True
    then obtain q where "n = 512 * q" by (auto simp: mod_eq_0_iff_dvd)
    then show ?thesis by simp
  next
    case False
    then obtain r where r: "n mod 512 = Suc r" using not0_implies_Suc by blast
    then have "n + 511 = r + (n div 512 + 1) * 512" using div_mult_mod_eq [of n 512] by simp
    moreover have "r < 512" using r mod_less_divisor [of 512 n] by simp
    ultimately show ?thesis using False by simp
  qed
  with m z show ?thesis by (simp add: total_packets_def)
qed

lemma upt_word: "n < 2 ^ 32 \<Longrightarrow> map (\<lambda>x. unat (of_nat x :: u32)) [1..<n + 1] = [1..<n + 1]"
proof (rule map_idI)
  fix x
  assume "n < 2 ^ 32" and "x \<in> set [1..<n + 1]"
  then have "x < 2 ^ LENGTH(32)" by auto
  then show "unat (of_nat x :: u32) = x" by (rule unat_of_nat_lt)
qed

lemma upload_thread:
  assumes "length c < 2 ^ 32"
  shows "\<exists>ms. (MultimediaUpload_thread_entry 0x8803 (Some i) True True (Some (of_nat (length c), file_reads c)) auth u =
        (if \<forall>j < length ms. auth j then Some (Ok (concat (map packet_acts ms), u\<lparr>blocks := blocks u - 1, descriptors := descriptors u + 1\<rparr>))
         else None)) \<and>
      concat (map pData ms) = c \<and> length ms = (length c + 511) div 512 \<and>
      map (\<lambda>p. unat (PacketID p)) ms = [1..<length ms + 1] \<and>
      list_all (\<lambda>p. plen p = of_nat (length (pData p)) \<and> length (pData p) \<le> 512 \<and>
        MultimediaID p = i \<and> TotalPackets p = of_nat (length ms)) ms"
proof -
  let ?m = "\<lparr>MultimediaID = i, mtype = 0, format = 0, event = 0, channelID = 0,
    TotalPackets = total_packets (of_nat (length c)), PacketID = 0, plen = 0, pData = []\<rparr>"
  let ?n = "(length c + 511) div 512"
  from upload_file [OF assms, of ?m 0 auth] obtain ms where ms: "upload_loop auth (file_reads c) 0 ?m =
      (if \<forall>j < length ms. auth j then Some (concat (map packet_acts ms)) else None)"
    "concat (map pData ms) = c" "map PacketID ms = map of_nat [1..<1 + ?n]"
    "list_all (\<lambda>p. plen p = of_nat (length (pData p)) \<and> length (pData p) \<le> 512 \<and>
      MultimediaID p = MultimediaID ?m \<and> TotalPackets p = TotalPackets ?m) ms"
    by (auto simp: Ball_def simp del: upt_Suc)
  have l: "length ms = ?n" using arg_cong [OF ms(3), of length] by (simp del: upt_Suc)
  have "?n < 2 ^ 32" using assms by simp
  then have ids: "map (\<lambda>p. unat (PacketID p)) ms = [1..<?n + 1]"
    using arg_cong [OF ms(3), of "map unat"] upt_word [of ?n] by (simp add: comp_def del: upt_Suc)
  have "MultimediaUpload_thread_entry 0x8803 (Some i) True True (Some (of_nat (length c), file_reads c)) auth u =
      (if \<forall>j < length ms. auth j then Some (Ok (concat (map packet_acts ms), u\<lparr>blocks := blocks u - 1, descriptors := descriptors u + 1\<rparr>))
       else None)"
    using ms(1) by (simp add: MultimediaUpload_thread_entry_def eStorageUploadMultimediaDataCMD_def Let_def)
  moreover have "TotalPackets ?m = of_nat (length ms)" using total_packets_eq [OF assms] l by simp
  ultimately show ?thesis using ms(2,4) ids l by (intro exI [of _ ms]) (simp del: upt_Suc)
qed

text \<open>
  C29. The upload of a file content \<open>c\<close> below 4 GB: the content is divided into \<open>(length c + 511) div 512\<close> packets of
  at most 512 bytes, numbered from 1, each with the right length, picture number and total, whose bytes
  in order are the file. Before each of them the thread waits for the terminal to be accepted. If every
  wait is answered it ends behind the last packet, having sent them in order, with the file still open: a
  descriptor stays in use after every upload. If one is not, the thread never ends.
\<close>

theorem upload_sends_picture:
  "length c < 2 ^ 32 \<Longrightarrow>
    \<exists>ms. (MultimediaUpload_thread_entry 0x8803 (Some i) True True (Some (of_nat (length c), file_reads c)) auth u =
        (if \<forall>j < length ms. auth j then Some (Ok (concat (map packet_acts ms), u\<lparr>blocks := blocks u - 1, descriptors := descriptors u + 1\<rparr>))
         else None)) \<and>
      concat (map pData ms) = c \<and> length ms = (length c + 511) div 512 \<and>
      map (\<lambda>p. unat (PacketID p)) ms = [1..<length ms + 1] \<and>
      list_all (\<lambda>p. plen p = of_nat (length (pData p)) \<and> length (pData p) \<le> 512 \<and>
        MultimediaID p = i \<and> TotalPackets p = of_nat (length ms)) ms"
  by (rule upload_thread)

theorem upload_sends_picture_witness:
  "\<exists>ms. (MultimediaUpload_thread_entry 0x8803 (Some 7) True True
      (Some (of_nat (length (replicate 600 (1::u8))), file_reads (replicate 600 1))) (\<lambda>j. True) \<lparr>blocks = 1, descriptors = 0\<rparr> =
        Some (Ok (concat (map packet_acts ms), \<lparr>blocks = 0, descriptors = 1\<rparr>))) \<and>
    map (\<lambda>p. unat (PacketID p)) ms = [1, 2]"
proof -
  have n: "length (replicate 600 (1 :: u8)) < 2 ^ 32" "(length (replicate 600 (1 :: u8)) + 511) div 512 = 2" "[1..<2 + 1] = [1, 2 :: nat]"
    by (simp_all add: upt_rec)
  from upload_sends_picture [OF n(1), of 7 "\<lambda>j. True" "\<lparr>blocks = 1, descriptors = 0\<rparr>", unfolded n(2)]
  show ?thesis by (elim exE conjE, intro exI conjI) (simp, simp only: n(3))
qed

text \<open>
  C37. The upload treats only 0 as the end of the file: when the reads fail (a negative result)
  from some point on, the thread never ends, and while it is accepted keeps sending packets.
\<close>

theorem upload_read_error_never_ends:
  "(\<forall>k<j. 0 < fst (rd k)) \<Longrightarrow> (\<forall>k\<ge>j. fst (rd k) < 0) \<Longrightarrow>
    MultimediaUpload_thread_entry 0x8803 (Some i) True True (Some (n, rd)) auth u = None"
proof -
  assume "\<forall>k<j. 0 < fst (rd k)" and "\<forall>k\<ge>j. fst (rd k) < 0"
  then have "fst (rd k) \<noteq> 0" for k by (cases "k < j") (auto simp: not_less)
  then have "upload_loop auth rd 0 m = None" for m
    using upload_loop_zero [of auth rd 0 m] by (cases "upload_loop auth rd 0 m") auto
  then show ?thesis
    by (simp add: MultimediaUpload_thread_entry_def eStorageUploadMultimediaDataCMD_def Let_def)
qed

theorem upload_read_error_never_ends_witness:
  "MultimediaUpload_thread_entry 0x8803 (Some 7) True True
    (Some (1024, \<lambda>k. if k = 0 then (512, replicate 512 1) else (-1, replicate 512 1))) (\<lambda>k. True) \<lparr>blocks = 1, descriptors = 0\<rparr> = None"
  by (rule upload_read_error_never_ends [of 1]) simp_all

end
