(* ===== verification/Spec2Isabelle.thy ===== *)
theory Spec2Isabelle
  imports Clib_Time Clib_Sort Rwlock Rg_Query Finsh_Keys Elm Dfs_Shell Base Uart_Nodes Serial Sdcard At_Modem Screens Camera Gps Voice Panel Rfid Gnss
begin

text \<open>
  Verification library of the SmartTerminal firmware: a vehicle terminal on an STM32F103 with the
  RT-Thread kernel. The application (\<open>src/MySouce\<close>) drives a modem, a satellite receiver, a camera,
  an advertising screen, a driver display, a card reader, a voice codec and an SD card, and talks to
  a platform; the command shell of \<open>src/RTT/components/finsh\<close> runs on a serial line, and files are
  reached through the device file system of \<open>src/RTT/components/dfs\<close>.

  \<^bold>\<open>How the parts interact.\<close> Interrupt routines collect bytes and hand frames to threads by
  semaphores, mailboxes and events; threads call drivers through the device interface. The modem
  thread (\<open>At_Modem\<close>) dials over \<open>UART1\<close> (\<open>Uart_Nodes\<close>); the message splitter (\<open>Gnss\<close>) hands platform
  messages to the voice player (\<open>Voice\<close>) and the picture upload; the camera (\<open>Camera\<close>) writes the
  pictures the upload reads; the card reader (\<open>Rfid\<close>) announces drivers to the display (\<open>Screens\<close>);
  the shell edits a line, parses and compiles it, and runs the code on a stack machine.

  \<^bold>\<open>Theories.\<close> Each follows the order of its source file, operations first, properties behind.
  \<^item> \<open>Base\<close>: byte strings, the outcome type, kernel calls as values, bounded queues as locales.
  \<^item> \<open>Uart_Nodes\<close>: \<open>UART1_new .c\<close>, transmit nodes as a pointer store; frames leave in order, the
    pool is a bounded queue (interpretation of \<open>fifo_drop_new\<close>), the race with the interrupt.
  \<^item> \<open>Serial\<close>: \<open>serial.c\<close>, receive ring (interpretation of \<open>fifo_drop_old\<close>), DMA request list.
  \<^item> \<open>Sdcard\<close>: \<open>msd.c\<close> and the partition reader of \<open>dfs_fs.c\<close> against a card given as a function of
    the bus log; reads refine a disk, writes are transactions, register decoding, start-up.
  \<^item> \<open>At_Modem\<close>, \<open>Screens\<close>, \<open>Camera\<close>, \<open>Gps\<close>, \<open>Voice\<close>, \<open>Panel\<close>, \<open>Rfid\<close>, \<open>Gnss\<close>: the application threads of
    \<open>ATcmd\<close>, \<open>PCP\<close>, \<open>Vocoder\<close>, \<open>Keyboard\<close>, \<open>LED\<close>, \<open>cpuUsage\<close>, \<open>RFID\<close> and \<open>GNSS\<close>, one pass of a thread or
    one interrupt as a function from the state to the state and the calls it makes.
  \<^item> \<open>Finsh_Vm\<close>, \<open>Finsh_Node\<close>, \<open>Finsh_Comp\<close>, \<open>Finsh_Heap\<close>, \<open>Finsh_Lex\<close>, \<open>Finsh_Parse\<close>, \<open>Finsh_Shell\<close>, \<open>Finsh_Edit\<close>:
    the shell's machine, symbols and nodes, compiler, string heap, scanner, parser, line runner and
    line editor, each after the file of its name in \<open>finsh\<close>.
  \<^item> \<open>Finsh_Expr\<close>: a reference evaluation of expressions; compiler and machine compute it.
  \<^item> \<open>Finsh_Round\<close>, \<open>Finsh_Text\<close>, \<open>Finsh_Line\<close>: parser and scanner read back what is written down.
  \<^item> \<open>Finsh_Keys\<close>: a reference line editor, the history, and the path from the keys to the value.
  \<^item> \<open>Dfs_Path\<close>, \<open>Dfs_Fs\<close>, \<open>Dfs_File\<close>, \<open>Dfs_Posix\<close>: the device file system, after \<open>dfs.c\<close>, \<open>dfs_fs.c\<close>,
    \<open>dfs_file.c\<close> and \<open>dfs_posix.c\<close>; paths resolve their names, the lookup finds the deepest mount point.
  \<^item> \<open>Dfs_Table\<close>: the contract of a file system type as the locale \<open>fs_type\<close>, and the table of descriptors
    refined, for every type that keeps to it, to the descriptors a program holds and those that are
    taken, which differ by the ones that mkdir and a refused lseek lose; descriptors that are not open.
  \<^item> \<open>Elm\<close>: \<open>dfs_elm.c\<close>, the FAT file system as a type (interpretation of \<open>fs_type\<close> for every FatFs library,
    which is a parameter), its memory, and the sectors below it.
  \<^item> \<open>Dfs_Shell\<close>: the shell's commands on files.
  \<^item> \<open>Romfs\<close>, \<open>Dfs_Rom\<close>: the read-only memory file system (interpretation of \<open>fs_type\<close>), files read and
    directories listed through all layers.
  \<^item> \<open>Clib_Time\<close>, \<open>Clib_Sort\<close>: the parts of the minimal C library with logic of their own. \<open>time.c\<close> against a
    calendar walked day by day, and \<open>timegm\<close> as the inverse of \<open>gmtime_r\<close> on all times of 32 bits; \<open>qsort.c\<close> on the bytes
    of an array, proved to end sorted by an invariant of its three-way partition; \<open>rand.c\<close> against its recurrence.
  \<^item> \<open>Rwlock\<close>: the readers-writer lock of \<open>pthreads\<close> as steps of threads over its counters and the
    permits of its semaphores; a writer is alone, waiting threads without time limits are served.
  \<^item> \<open>Rg_Bands\<close>, \<open>Rg_Op\<close>, \<open>Rg_Loop\<close>, \<open>Region\<close>, \<open>Rg_Query\<close>: the region algebra of \<open>rtgui\<close> (\<open>region.c\<close>). The generic
    operator is proved once for every routine that keeps to the locale \<open>band_routine\<close>, which the union,
    intersection and difference of bands interpret; the operations compute on the pixels what they say.
  \<^item> this theory: properties that span components (a card shown on the display, a picture from the
    camera to the platform) and the FAT library's sectors on the card.

  \<^bold>\<open>Bounds and fuel.\<close> Loops that the hardware may keep busy for ever are \<open>partial_function (option)\<close>
  or end in \<open>Halt\<close>; the recursion of the shell's parser is counted by a fuel, and the theorems about it
  say that every large enough fuel gives the result. The machine's loop ends because the program
  counter grows. Walks along the shell's block lists stop after \<open>HEADERS\<close> steps, more than the
  blocks that fit the heap. A region's requests for memory take their outcomes from a list; at its end
  they succeed.

  \<^bold>\<open>Not modelled.\<close> The kernel (its sources are not in the repository), register set-up of the
  peripherals, the vendored libraries (ST, speex, FatFs and the other file systems, lwIP, the widgets of rtgui,
  the rest of libc and the external libraries), the other thread calls of \<open>pthreads\<close> (wrappers of the kernel), the
  display and network drivers, and the shell's commands that only print kernel objects: they hold no
  logic of this program or call code that is not here.
\<close>

section \<open>A driver card is shown on the display\<close>

lemma shown_bytes: "length t \<le> length (userData p) \<Longrightarrow> pcp_bytes (set_data t (length t) p) = CMD p # t"
  by (simp add: pcp_bytes_def set_data_def)

lemma greeting_cases:
  "greeting snr = Some e \<Longrightarrow>
    (snr = (0xBC, 0x03, 0xDD, 0x0F) \<and> e = 4) \<or> (snr = (0xDE, 0xFF, 0x4E, 0xE2) \<and> e = 8)"
  by (auto simp: greeting_def split: if_splits)

text \<open>
  C9. From the card to the display: when the reader thread handled a known driver's card
  completely and no other flag of the display's event is set, the display thread's next pass
  shows exactly that driver's greeting.
\<close>

theorem driver_card_shown:
  "conversed a \<Longrightarrow> written a \<noteq> 0 \<Longrightarrow> read2 a \<noteq> [] \<Longrightarrow> serial a = Some snr \<Longrightarrow> greeting snr = Some e \<Longrightarrow>
    ev s = 0 \<Longrightarrow> length (userData (lPCP s)) = dPCPuserDataSize \<Longrightarrow>
    \<exists>s'. lcd_pass (fold lcd_event (lcd_events (fst (card_pass True a block))) s) =
      Ok ([DevControl ''LCD'' 1 (CMD (lPCP s) #
        (if snr = (0xBC, 0x03, 0xDD, 0x0F) then Driver1 else Driver2))], s') \<and> ev s' = 0"
proof -
  assume a: "conversed a" "written a \<noteq> 0" "read2 a \<noteq> []" "serial a = Some snr" "greeting snr = Some e" and
    s: "ev s = 0" "length (userData (lPCP s)) = dPCPuserDataSize"
  have e: "lcd_events (fst (card_pass True a block)) = [e]"
    using a by (simp add: card_pass_events)
  have l: "length Driver1 \<le> length (userData (lPCP s))" "length Driver2 \<le> length (userData (lPCP s))"
    using s by (simp_all add: Driver1_def Driver2_def dPCPuserDataSize_def)
  from greeting_cases [OF a(5)] show ?thesis
    using e s l
    by (elim disjE) (auto simp: lcd_event_def lcd_pass_def lcd_show_def Let_def shown_bytes)
qed

theorem driver_card_shown_witness:
  "\<exists>s'. lcd_pass (fold lcd_event (lcd_events (fst (card_pass True card1 (replicate 16 0)))) lcd0) =
    Ok ([DevControl ''LCD'' 1 (CMD (lPCP lcd0) # Driver1)], s') \<and> ev s' = 0"
  using driver_card_shown [of card1 "(0xBC, 0x03, 0xDD, 0x0F)" 4 lcd0 "replicate 16 0"]
  by (simp add: card1_def conversed_def greeting_def lcd0_def dPCPuserDataSize_def)

section \<open>A photo reaches the platform\<close>

text \<open>
  File names: the camera thread prints the time with \<open>%04X\<close>, the upload thread the picture's
  number with \<open>%08X\<close>. \<open>hex_digits\<close> is the number in capital hexadecimal digits.
\<close>

definition hex_digit :: "nat \<Rightarrow> char" where
  "hex_digit d = ''0123456789ABCDEF'' ! d"

fun hex_digits :: "nat \<Rightarrow> string" where
  "hex_digits n = (if n < 16 then [hex_digit n] else hex_digits (n div 16) @ [hex_digit (n mod 16)])"

declare hex_digits.simps [simp del]

definition zero_pad :: "nat \<Rightarrow> string \<Rightarrow> string" where
  "zero_pad w s = replicate (w - length s) (CHR ''0'') @ s"

definition camera_path :: "u32 \<Rightarrow> string" where
  "camera_path t = ''/Picture/'' @ zero_pad 4 (hex_digits (unat t)) @ ''.jpg''"

definition upload_path :: "u32 \<Rightarrow> string" where
  "upload_path i = ''/Picture/'' @ zero_pad 8 (hex_digits (unat i)) @ ''.jpg''"

text \<open>The picture the upload thread opens, among those the camera thread has renamed.\<close>

definition open_picture :: "(u32 \<times> u8 list) list \<Rightarrow> u32 \<Rightarrow> (u32 \<times> (nat \<Rightarrow> int \<times> u8 list)) option" where
  "open_picture ps i =
    (case List.find (\<lambda>(t, c). camera_path t = upload_path i) ps of
       None \<Rightarrow> None
     | Some (t, c) \<Rightarrow> Some (of_nat (length c), file_reads c))"

definition hex_value :: "string \<Rightarrow> nat" where
  "hex_value s = foldl (\<lambda>v c. v * 16 + (LEAST d. d < 16 \<and> hex_digit d = c)) 0 s"

lemma hex_digit_inj: "d < 16 \<Longrightarrow> e < 16 \<Longrightarrow> hex_digit d = hex_digit e \<Longrightarrow> d = e"
proof -
  have "distinct ''0123456789ABCDEF''" by simp
  then show "d < 16 \<Longrightarrow> e < 16 \<Longrightarrow> hex_digit d = hex_digit e \<Longrightarrow> d = e"
    by (simp add: hex_digit_def nth_eq_iff_index_eq)
qed

lemma least_digit: "d < 16 \<Longrightarrow> (LEAST e. e < 16 \<and> hex_digit e = hex_digit d) = d"
  by (rule Least_equality) (auto dest: hex_digit_inj)

lemma hex_value_snoc: "d < 16 \<Longrightarrow> hex_value (s @ [hex_digit d]) = hex_value s * 16 + d"
  by (simp add: hex_value_def least_digit)

lemma hex_value_digits: "hex_value (hex_digits n) = n"
proof (induction n rule: hex_digits.induct)
  case (1 n)
  show ?case
  proof (cases "n < 16")
    case True
    then show ?thesis using hex_value_snoc [of n "[]"]
      by (simp add: hex_digits.simps [of n]) (simp add: hex_value_def)
  next
    case False
    with 1 show ?thesis by (simp add: hex_digits.simps [of n] hex_value_snoc)
  qed
qed

lemma hex_value_pad: "hex_value (zero_pad w s) = hex_value s"
proof -
  have z: "(LEAST d. d < 16 \<and> hex_digit d = CHR ''0'') = 0"
    by (rule Least_equality) (simp_all add: hex_digit_def)
  have "foldl (\<lambda>v c. v * 16 + (LEAST d. d < 16 \<and> hex_digit d = c)) 0 (replicate k (CHR ''0'')) = 0" for k
    by (induction k) (simp_all add: z)
  then show ?thesis by (simp add: hex_value_def zero_pad_def)
qed

lemma length_hex_digits: "length (hex_digits n) \<ge> k + 1 \<longleftrightarrow> 16 ^ k \<le> n \<or> k = 0"
proof (induction n arbitrary: k rule: hex_digits.induct)
  case (1 n)
  show ?case
  proof (cases "n < 16")
    case True
    have "(16::nat) ^ k \<le> n \<Longrightarrow> k = 0"
    proof (rule ccontr)
      assume "(16::nat) ^ k \<le> n" and "k \<noteq> 0"
      then have "(16::nat) ^ 1 \<le> 16 ^ k" by (intro power_increasing) simp_all
      with \<open>16 ^ k \<le> n\<close> True show False by simp
    qed
    with True show ?thesis by (auto simp: hex_digits.simps [of n])
  next
    case False
    then have l: "length (hex_digits n) = Suc (length (hex_digits (n div 16)))" by (simp add: hex_digits.simps [of n])
    show ?thesis
    proof (cases k)
      case 0
      with l show ?thesis by simp
    next
      case (Suc j)
      have "(16::nat) ^ Suc j \<le> n \<longleftrightarrow> 16 ^ j \<le> n div 16" by (simp add: less_eq_div_iff_mult_less_eq mult.commute)
      with 1 [OF False, of j] l Suc False show ?thesis by auto
    qed
  qed
qed

lemma paths_eq: "camera_path t = upload_path i \<longleftrightarrow> t = i \<and> 0x10000000 \<le> t"
proof -
  let ?s = "hex_digits (unat t)"
  have "camera_path t = upload_path i \<Longrightarrow> t = i"
  proof -
    assume "camera_path t = upload_path i"
    then have "zero_pad 4 ?s = zero_pad 8 (hex_digits (unat i))" by (simp add: camera_path_def upload_path_def)
    then have "hex_value (zero_pad 4 ?s) = hex_value (zero_pad 8 (hex_digits (unat i)))" by simp
    then show "t = i" by (simp add: hex_value_pad hex_value_digits word_unat_eq_iff)
  qed
  moreover have "camera_path t = upload_path t \<longleftrightarrow> length ?s \<ge> 8"
  proof
    assume "camera_path t = upload_path t"
    then have "length (zero_pad 4 ?s) = length (zero_pad 8 ?s)" by (simp add: camera_path_def upload_path_def)
    then show "length ?s \<ge> 8" by (simp add: zero_pad_def)
  qed (simp add: camera_path_def upload_path_def zero_pad_def)
  moreover have "length ?s \<ge> 8 \<longleftrightarrow> 0x10000000 \<le> t"
    using length_hex_digits [of 7 "unat t"] by (simp add: word_le_nat_alt)
  ultimately show ?thesis by auto
qed

lemma open_new_picture:
  assumes "0x10000000 \<le> t" and "t \<notin> fst ` set ps"
  shows "open_picture (ps @ [(t, c)]) t = Some (of_nat (length c), file_reads c)"
proof -
  have "List.find (\<lambda>(t', c). camera_path t' = upload_path t) (ps @ [(t, c)]) = Some (t, c)"
    using assms by (induction ps) (auto simp: paths_eq)
  then show ?thesis by (simp add: open_picture_def)
qed

text \<open>
  C8. From the camera to the platform: a picture whose packets arrive one by one and that is
  closed at time \<open>t\<close>, its file stored and renamed, is, when the platform asks for picture number \<open>t\<close>,
  uploaded completely and unchanged: the packets sent carry in order the old file contents and the payloads
  of the camera's packets, and before each the thread waits for the terminal to be accepted. It ends exactly if
  every one of these waits is answered. The number must have eight hexadecimal digits (a time after 4 July
  1978) and no earlier picture may have the same time; the file must stay below 4 GB.
\<close>

theorem photo_reaches_platform:
  "list_all data_packet ps \<Longrightarrow> packet q \<Longrightarrow> verdict q = dNoneDatapart \<Longrightarrow> fresh (cdev a) \<Longrightarrow> running a \<Longrightarrow>
    room_for w ps \<Longrightarrow> renamed w \<Longrightarrow> now w = Some t \<Longrightarrow>
    0x10000000 \<le> t \<Longrightarrow> t \<notin> fst ` set (pics a) \<Longrightarrow>
    length (pic a @ concat (map payload ps)) < 2 ^ 32 \<Longrightarrow>
    \<exists>a' ms u'. packets_run w (ps @ [q]) a = Ok (concat (map packet_calls (ps @ [q])), a') \<and>
      MultimediaUpload_thread_entry 0x8803 (Some t) True True (open_picture (pics a') t) auth u =
        (if \<forall>j < length ms. auth j then Some (Ok (concat (map packet_acts ms), u')) else None) \<and>
      concat (map Gnss.pData ms) = pic a @ concat (map payload ps)"
proof -
  assume ps: "list_all data_packet ps" "packet q" "verdict q = dNoneDatapart" "fresh (cdev a)" "running a" "room_for w ps"
    and n: "renamed w" "now w = Some t" and t: "0x10000000 \<le> t" "t \<notin> fst ` set (pics a)"
    and l: "length (pic a @ concat (map payload ps)) < 2 ^ 32"
  let ?c = "pic a @ concat (map payload ps)"
  obtain c where c: "packets_run w (ps @ [q]) a = Ok (concat (map packet_calls (ps @ [q])),
      a\<lparr>cdev := c, pic := [], pics := pics a @ [(t, ?c)]\<rparr>)"
    using packets_run_picture [OF ps n(2)] n(1) by auto
  obtain ms where ms: "MultimediaUpload_thread_entry 0x8803 (Some t) True True (Some (of_nat (length ?c), file_reads ?c)) auth u =
      (if \<forall>j < length ms. auth j then Some (Ok (concat (map packet_acts ms), u\<lparr>blocks := blocks u - 1, descriptors := descriptors u + 1\<rparr>))
       else None)" "concat (map Gnss.pData ms) = ?c"
    using upload_thread [OF l, of t auth u] by blast
  show ?thesis
    using c ms open_new_picture [OF t, of ?c] by (intro exI conjI) (rule c, simp, simp)
qed

theorem photo_reaches_platform_witness:
  "\<exists>a' ms u'. packets_run (answers0 0x50000000) [end_packet, [0, 13, 10]]
      \<lparr>cdev = cam0, pic = [1], pics = [], running = True\<rparr> = Ok (concat (map packet_calls [end_packet, [0, 13, 10]]), a') \<and>
    MultimediaUpload_thread_entry 0x8803 (Some 0x50000000) True True (open_picture (pics a') 0x50000000) (\<lambda>j. True)
      \<lparr>blocks = 1, descriptors = 0\<rparr> = Some (Ok (concat (map packet_acts ms), u')) \<and>
    concat (map Gnss.pData ms) = [1, 65, 66, 0xD9]"
proof -
  have "packet [0, 13, 10]" "verdict [0, 13, 10] = dNoneDatapart" by code_simp+
  moreover have "list_all data_packet [end_packet]" "room_for (answers0 0x50000000) [end_packet]" "renamed (answers0 0x50000000)"
    "now (answers0 0x50000000) = Some 0x50000000" using end_packet_ok end_packet_room by (simp_all add: answers0_def)
  ultimately show ?thesis
    using photo_reaches_platform [of "[end_packet]" "[0, 13, 10]" "\<lparr>cdev = cam0, pic = [1], pics = [], running = True\<rparr>"
      "answers0 0x50000000" "0x50000000" "\<lambda>j. True" "\<lparr>blocks = 1, descriptors = 0\<rparr>"] fresh_cam0 end_packet_ok(3)
    by simp
qed

section \<open>The FAT file system's sectors are those of the card\<close>

text \<open>
  The disk below the FAT library, on the SD card's driver: reading a run of sectors of a drive
  whose device is the card answers with success and the card's contents of these sectors, one after
  the other, when the card serves their addresses.
\<close>

lemma fat_sectors_from_card:
  assumes "unat drv < length (disk e)" and "rd (disk e ! unat drv) = rt_msd_read dev off"
    and "serves_reads dev sectors A" and "deselected l" and "\<forall>i < unat cnt. (off + sector + of_nat i) * 512 \<in> A"
  shows "\<exists>l'. disk_read rd e drv sector cnt l =
    Ok (RES_OK, concat (map (\<lambda>i. sectors ((off + sector + of_nat i) * 512)) [0..<unat cnt]), l') \<and> deselected l'"
  using read_sectors_served [OF assms(3,4), of "[0..<unat cnt]" off sector] assms(1,2,5)
  by (auto simp: disk_read_def drive_def rbind_def rt_msd_read_def sector_addr_def)

end
